(* ===== verification/Prelude.thy ===== *)
theory Prelude
  imports Main "HOL-Library.Sublist" "HOL-Library.Char_ord" "HOL-Library.List_Lexorder"
    "HOL-Library.Word" "HOL-Library.Multiset"
begin

section \<open>Go strings, decimal numbers and generic lemmas\<close>

text \<open>
  What the components share: the part of Go's \<open>strings\<close> and \<open>strconv\<close> packages
  that the sources call, and lemmas on lists.  A Go string is a sequence of bytes, and so is
  \<^typ>\<open>string\<close> (a \<^typ>\<open>char\<close> is one byte).  White space and letter case are the
  ASCII ones: a byte above 127 is neither trimmed nor folded, as is right for the keys, versions,
  identifiers and paths handled here.  Comparison of strings is byte-wise lexicographic, as in
  Go, and is the library's \<^theory_text>\<open>linorder\<close> instance on lists of characters.

  The collection \<open>go_simps\<close> holds the facts about these functions that component proofs
  hand to the simplifier.
\<close>

named_theorems go_simps

type_synonym nanos = int \<comment> \<open>an instant or a duration in nanoseconds\<close>
type_synonym unixtime = int \<comment> \<open>seconds since 1970\<close>

abbreviation second :: nanos where "second \<equiv> 1000000000"
abbreviation minute :: nanos where "minute \<equiv> 60 * second"
abbreviation hour :: nanos where "hour \<equiv> 60 * minute"

subsection \<open>Bytes and letter case\<close>

definition is_space :: "char \<Rightarrow> bool" where
  "is_space c \<longleftrightarrow> (let n = (of_char c :: nat) in n = 32 \<or> (9 \<le> n \<and> n \<le> 13))"

definition trim_left :: "string \<Rightarrow> string" where
  "trim_left s = dropWhile is_space s"

definition trim_space :: "string \<Rightarrow> string" where
  "trim_space s = rev (dropWhile is_space (rev (dropWhile is_space s)))"

definition lower_char :: "char \<Rightarrow> char" where
  "lower_char c = (let n = (of_char c :: nat) in if 65 \<le> n \<and> n \<le> 90 then char_of (n + 32) else c)"

definition to_lower :: "string \<Rightarrow> string" where
  "to_lower s = map lower_char s"

definition equal_fold :: "string \<Rightarrow> string \<Rightarrow> bool" where
  "equal_fold a b \<longleftrightarrow> to_lower a = to_lower b"

definition trim_prefix :: "string \<Rightarrow> string \<Rightarrow> string" where
  "trim_prefix p s = (if prefix p s then drop (length p) s else s)"

definition trim_suffix :: "string \<Rightarrow> string \<Rightarrow> string" where
  "trim_suffix p s = (if suffix p s then take (length s - length p) s else s)"

definition contains_str :: "string \<Rightarrow> string \<Rightarrow> bool" where
  "contains_str s sub \<longleftrightarrow> sublist sub s"

lemma lower_char_idem [simp]: "lower_char (lower_char c) = lower_char c"
proof (cases "65 \<le> (of_char c :: nat) \<and> (of_char c :: nat) \<le> 90")
  case True
  then have "(of_char (char_of (of_char c + 32 :: nat)) :: nat) = of_char c + 32"
    by simp
  with True show ?thesis by (simp add: lower_char_def Let_def)
next
  case False
  then show ?thesis by (auto simp: lower_char_def Let_def)
qed

lemma to_lower_idem [simp]: "to_lower (to_lower s) = to_lower s"
  by (simp add: to_lower_def)

lemma to_lower_Nil [simp]: "to_lower [] = []"
  by (simp add: to_lower_def)

lemma length_to_lower [simp]: "length (to_lower s) = length s"
  by (simp add: to_lower_def)

lemma to_lower_append [simp]: "to_lower (a @ b) = to_lower a @ to_lower b"
  by (simp add: to_lower_def)

lemma trim_space_Nil [simp]: "trim_space [] = []"
  by (simp add: trim_space_def)

lemma equal_fold_refl [simp]: "equal_fold a a"
  by (simp add: equal_fold_def)

lemma equal_fold_sym: "equal_fold a b \<Longrightarrow> equal_fold b a"
  by (simp add: equal_fold_def)

lemma equal_fold_trans: "equal_fold a b \<Longrightarrow> equal_fold b c \<Longrightarrow> equal_fold a c"
  by (simp add: equal_fold_def)

lemma trim_prefix_append [simp]: "trim_prefix p (p @ s) = s"
  by (simp add: trim_prefix_def)

lemma suffix_append_same [simp]: "suffix p (s @ p)"
  by (rule suffixI) simp

lemma trim_suffix_append [simp]: "trim_suffix p (s @ p) = s"
  by (simp add: trim_suffix_def)

lemma trim_space_id: "s \<noteq> [] \<Longrightarrow> \<not> is_space (hd s) \<Longrightarrow> \<not> is_space (last s) \<Longrightarrow> trim_space s = s"
proof -
  assume a: "s \<noteq> []" "\<not> is_space (hd s)" "\<not> is_space (last s)"
  then have "dropWhile is_space s = s" by (cases s) auto
  moreover have "dropWhile is_space (rev s) = rev s"
    using a(1,3) by (cases s rule: rev_cases) auto
  ultimately show "trim_space s = s" by (simp add: trim_space_def)
qed

lemma trim_space_idem [simp]: "trim_space (trim_space s) = trim_space s"
proof (cases "trim_space s = []")
  case False
  let ?d = "dropWhile is_space s"
  have l: "\<not> is_space (last (trim_space s))"
    using False hd_dropWhile [of is_space "rev ?d"] by (simp add: trim_space_def last_rev)
  have "prefix (trim_space s) ?d"
    using suffix_dropWhile [of is_space "rev ?d"] by (simp add: trim_space_def suffix_to_prefix)
  then obtain r where r: "?d = trim_space s @ r" by (auto simp: prefix_def)
  with False have "?d \<noteq> []" by (metis append_is_Nil_conv)
  moreover have "hd ?d = hd (trim_space s)" using False by (subst r) simp
  ultimately have "\<not> is_space (hd (trim_space s))" using hd_dropWhile [of is_space s] by simp
  with l False show ?thesis by (intro trim_space_id) auto
qed simp

subsection \<open>Splitting and joining\<close>

text \<open>\<open>cut_at\<close> is \<open>strings.IndexByte\<close> with the two sides of the byte found.\<close>

fun cut_at :: "char \<Rightarrow> string \<Rightarrow> (string \<times> string) option" where
  "cut_at c [] = None"
| "cut_at c (x # xs) =
     (if x = c then Some ([], xs) else map_option (\<lambda>(a, b). (x # a, b)) (cut_at c xs))"

text \<open>\<open>strings.Split\<close> with a one-byte separator, and \<open>strings.SplitN\<close> for \<open>n > 0\<close>.\<close>

fun split_on :: "char \<Rightarrow> string \<Rightarrow> string list" where
  "split_on c [] = [[]]"
| "split_on c (x # xs) =
     (if x = c then [] # split_on c xs
      else (case split_on c xs of [] \<Rightarrow> [[x]] | y # ys \<Rightarrow> (x # y) # ys))"

fun split_n :: "nat \<Rightarrow> char \<Rightarrow> string \<Rightarrow> string list" where
  "split_n 0 c s = []"
| "split_n (Suc 0) c s = [s]"
| "split_n (Suc (Suc n)) c s =
     (case cut_at c s of None \<Rightarrow> [s] | Some (a, b) \<Rightarrow> a # split_n (Suc n) c b)"

fun join_with :: "string \<Rightarrow> string list \<Rightarrow> string" where
  "join_with sep [] = []"
| "join_with sep [x] = x"
| "join_with sep (x # y # ys) = x @ sep @ join_with sep (y # ys)"

lemma cut_at_append [go_simps]: "c \<notin> set a \<Longrightarrow> cut_at c (a @ c # b) = Some (a, b)"
  by (induction a) auto

lemma cut_at_None [go_simps]: "c \<notin> set s \<Longrightarrow> cut_at c s = None"
  by (induction s) auto

lemma cut_at_Some: "cut_at c s = Some (a, b) \<Longrightarrow> s = a @ c # b \<and> c \<notin> set a"
  by (induction s arbitrary: a) (auto split: if_splits)

lemma split_on_nonempty [simp]: "split_on c s \<noteq> []"
  by (induction s) (auto split: list.splits)

lemma split_on_simple [go_simps]: "c \<notin> set s \<Longrightarrow> split_on c s = [s]"
  by (induction s) auto

lemma split_on_append [go_simps]:
  "c \<notin> set a \<Longrightarrow> split_on c (a @ c # b) = a # split_on c b"
  by (induction a) auto

subsection \<open>Decimal numbers\<close>

definition digit :: "nat \<Rightarrow> char" where
  "digit n = char_of (48 + n)"

definition is_digit :: "char \<Rightarrow> bool" where
  "is_digit c \<longleftrightarrow> (let n = (of_char c :: nat) in 48 \<le> n \<and> n \<le> 57)"

definition digit_val :: "char \<Rightarrow> nat" where
  "digit_val c = of_char c - 48"

text \<open>\<open>%d\<close> on a natural number, and \<open>%0wd\<close>.\<close>

fun dec :: "nat \<Rightarrow> string" where
  "dec n = (if n < 10 then [digit n] else dec (n div 10) @ [digit (n mod 10)])"

declare dec.simps [simp del]

definition pad_dec :: "nat \<Rightarrow> nat \<Rightarrow> string" where
  "pad_dec w n = replicate (w - length (dec n)) CHR ''0'' @ dec n"

definition dec_int :: "int \<Rightarrow> string" where
  "dec_int i = (if i < 0 then CHR ''-'' # dec (nat (- i)) else dec (nat i))"

definition dec_value :: "string \<Rightarrow> nat" where
  "dec_value s = foldl (\<lambda>a c. 10 * a + digit_val c) 0 s"

text \<open>
  \<open>strconv.ParseInt(s, 10, 64)\<close> and \<open>strconv.Atoi\<close>: an optional sign, at least one
  digit, digits only, and a value of 64 bits.
\<close>

definition int64_range :: "int \<Rightarrow> bool" where
  "int64_range i \<longleftrightarrow> - (2 ^ 63) \<le> i \<and> i < 2 ^ 63"

definition parse_int :: "string \<Rightarrow> int option" where
  "parse_int s =
     (let neg = (case s of c # _ \<Rightarrow> c = CHR ''-'' | [] \<Rightarrow> False);
          body = (case s of c # cs \<Rightarrow> if c = CHR ''-'' \<or> c = CHR ''+'' then cs else s | [] \<Rightarrow> []);
          v = (if neg then - int (dec_value body) else int (dec_value body))
      in if body \<noteq> [] \<and> list_all is_digit body \<and> int64_range v then Some v else None)"

lemma of_char_digit [simp]: "n < 10 \<Longrightarrow> (of_char (digit n) :: nat) = 48 + n"
  by (simp add: digit_def)

lemma is_digit_digit [simp]: "n < 10 \<Longrightarrow> is_digit (digit n)"
  by (simp add: is_digit_def Let_def)

lemma digit_val_digit [simp]: "n < 10 \<Longrightarrow> digit_val (digit n) = n"
  by (simp add: digit_val_def)

lemma is_digit_zero [simp]: "is_digit CHR ''0''"
  by (simp add: is_digit_def)

lemma digit_val_zero [simp]: "digit_val CHR ''0'' = 0"
  by (simp add: digit_val_def)

lemma digit_val_inj: "is_digit c \<Longrightarrow> is_digit d \<Longrightarrow> digit_val c = digit_val d \<longleftrightarrow> c = d"
  by (metis digit_val_def is_digit_def le_add_diff_inverse of_char_eq_iff)

lemma digit_val_less: "is_digit c \<Longrightarrow> digit_val c < 10"
  by (auto simp: is_digit_def digit_val_def Let_def)

lemma foldl_dec_value:
  "foldl (\<lambda>a c. 10 * a + digit_val c) v s = v * 10 ^ length s + dec_value s"
proof (induction s arbitrary: v)
  case Nil
  then show ?case by (simp add: dec_value_def)
next
  case (Cons c s)
  have "dec_value (c # s) = foldl (\<lambda>a c. 10 * a + digit_val c) (digit_val c) s"
    by (simp add: dec_value_def)
  with Cons [of "digit_val c"] Cons [of "10 * v + digit_val c"] show ?case
    by (simp add: distrib_right)
qed

lemma dec_value_Nil [simp]: "dec_value [] = 0"
  by (simp add: dec_value_def)

lemma dec_value_Cons: "dec_value (c # s) = digit_val c * 10 ^ length s + dec_value s"
  using foldl_dec_value [of "digit_val c" s] by (simp add: dec_value_def)

lemma dec_value_append: "dec_value (s @ t) = dec_value s * 10 ^ length t + dec_value t"
  using foldl_dec_value [of "dec_value s" t] by (simp add: dec_value_def)

lemma dec_value_bound: "list_all is_digit s \<Longrightarrow> dec_value s < 10 ^ length s"
proof (induction s)
  case Nil
  then show ?case by simp
next
  case (Cons c s)
  then have "digit_val c \<le> 9" and "dec_value s < 10 ^ length s"
    using digit_val_less [of c] by simp_all
  then have "digit_val c * 10 ^ length s + dec_value s < 9 * 10 ^ length s + 10 ^ length s"
    by (intro add_le_less_mono mult_right_mono) auto
  then show ?case by (simp add: dec_value_Cons)
qed

lemma dec_digits [simp]: "list_all is_digit (dec n)"
  by (induction n rule: dec.induct) (subst dec.simps, simp)

lemma dec_nonempty [simp]: "dec n \<noteq> []"
  by (subst dec.simps) simp

lemma dec_value_dec [simp]: "dec_value (dec n) = n"
proof (induction n rule: dec.induct)
  case (1 n)
  show ?case
  proof (cases "n < 10")
    case True
    then show ?thesis by (subst dec.simps) (simp add: dec_value_Cons)
  next
    case False
    with 1 have "dec_value (dec (n div 10)) = n div 10" by simp
    with False show ?thesis
      by (subst dec.simps) (simp add: dec_value_append dec_value_Cons)
  qed
qed

lemma length_dec_le: "n < 10 ^ w \<Longrightarrow> 0 < w \<Longrightarrow> length (dec n) \<le> w"
proof (induction n arbitrary: w rule: dec.induct)
  case (1 n)
  show ?case
  proof (cases "n < 10")
    case True
    with 1 show ?thesis by (subst dec.simps) simp
  next
    case False
    from "1.prems" obtain w' where w: "w = Suc w'" by (cases w) auto
    with "1.prems" False have "0 < w'" by (cases w') auto
    with "1.prems" "1.IH" False w have "length (dec (n div 10)) \<le> w'" by auto
    with False w show ?thesis by (subst dec.simps) simp
  qed
qed

lemma dec_inj: "dec m = dec n \<Longrightarrow> m = n"
  using dec_value_dec by metis

lemma pad_dec_digits [simp]: "list_all is_digit (pad_dec w n)"
  by (simp add: pad_dec_def list.pred_set) (use dec_digits [of n] in \<open>auto simp: list.pred_set\<close>)

lemma dec_value_replicate_zero [simp]: "dec_value (replicate k CHR ''0'') = 0"
  by (induction k) (simp_all add: dec_value_Cons)

lemma dec_value_pad_dec [simp]: "dec_value (pad_dec w n) = n"
  by (simp add: pad_dec_def dec_value_append)

lemma length_pad_dec [simp]: "n < 10 ^ w \<Longrightarrow> 0 < w \<Longrightarrow> length (pad_dec w n) = w"
  using length_dec_le [of n w] by (simp add: pad_dec_def)

lemma pad_dec_nonempty [simp]: "pad_dec w n \<noteq> []"
  by (simp add: pad_dec_def)

lemma digits_not_minus: "list_all is_digit s \<Longrightarrow> CHR ''-'' \<notin> set s"
  by (auto simp: list_all_iff is_digit_def Let_def)

lemma digits_no_byte: "list_all is_digit s \<Longrightarrow> \<not> is_digit c \<Longrightarrow> c \<notin> set s"
  by (auto simp: list_all_iff)

lemma parse_int_digits:
  assumes "list_all is_digit s" and "s \<noteq> []" and "dec_value s < 2 ^ 63"
  shows "parse_int s = Some (int (dec_value s))"
proof -
  obtain c cs where s: "s = c # cs" using assms(2) by (cases s) auto
  with assms(1) have "c \<noteq> CHR ''-''" and "c \<noteq> CHR ''+''"
    by (auto simp: is_digit_def Let_def)
  moreover have "int (dec_value s) < 2 ^ 63"
    using assms(3) by (metis of_nat_less_iff of_nat_numeral of_nat_power)
  ultimately show ?thesis
    using assms s by (simp add: parse_int_def Let_def int64_range_def)
qed

lemma parse_int_range: "parse_int s = Some i \<Longrightarrow> int64_range i"
  by (auto simp: parse_int_def Let_def split: if_splits)

text \<open>On digit strings of one length the byte order is the numeric order.\<close>

lemma digits_less_iff:
  assumes "list_all is_digit s" and "list_all is_digit t" and "length s = length t"
  shows "s < t \<longleftrightarrow> dec_value s < dec_value t"
  using assms(3,1,2)
proof (induction s t rule: list_induct2)
  case Nil
  then show ?case by simp
next
  case (Cons x xs y ys)
  have val: "digit_val x < digit_val y \<longleftrightarrow> x < y"
    using Cons.prems by (auto simp: is_digit_def digit_val_def Let_def less_char_def)
  have bx: "dec_value xs < 10 ^ length ys" and bys: "dec_value ys < 10 ^ length ys"
    using Cons dec_value_bound [of xs] dec_value_bound [of ys] by simp_all
  consider "x < y" | "y < x" | "x = y" by fastforce
  then show ?case
  proof cases
    case 1
    with val have "Suc (digit_val x) \<le> digit_val y" by simp
    then have "Suc (digit_val x) * 10 ^ length ys \<le> digit_val y * 10 ^ length ys"
      by (rule mult_le_mono1)
    with 1 bx show ?thesis using Cons.hyps by (simp add: dec_value_Cons)
  next
    case 2
    have "digit_val y < digit_val x" using 2 Cons.prems
      by (auto simp: is_digit_def digit_val_def Let_def less_char_def)
    then have "Suc (digit_val y) * 10 ^ length ys \<le> digit_val x * 10 ^ length ys"
      by (intro mult_le_mono1) simp
    moreover have "\<not> x < y" and "x \<noteq> y" using 2 by auto
    ultimately show ?thesis using bys Cons.hyps by (simp add: dec_value_Cons)
  next
    case 3
    then show ?thesis using Cons by (simp add: dec_value_Cons)
  qed
qed

subsection \<open>Lists\<close>

lemma lex_append_less:
  fixes s t :: "'a::order list"
  assumes "length s = length t"
  shows "s @ u < t @ v \<longleftrightarrow> s < t \<or> (s = t \<and> u < v)"
  using assms by (induction s t rule: list_induct2) auto

lemma filter_notin_same: "x \<notin> set xs \<Longrightarrow> filter (\<lambda>y. y \<noteq> x) xs = xs"
  by (induction xs) auto

lemma length_filter_notin:
  assumes "distinct xs" and "distinct vs" and "set vs \<subseteq> set xs"
  shows "length (filter (\<lambda>x. x \<notin> set vs) xs) = length xs - length vs"
proof -
  have "length (filter (\<lambda>x. x \<notin> set vs) xs) = card (set xs - set vs)"
    using assms(1) by (simp add: distinct_card [symmetric] set_diff_eq)
  also have "\<dots> = card (set xs) - card (set vs)"
    using assms(3) by (simp add: card_Diff_subset)
  finally show ?thesis using assms by (simp add: distinct_card)
qed

lemma map_of_filter_key:
  "map_of (filter (\<lambda>(k, v). P k) m) k = (if P k then map_of m k else None)"
  by (induction m) auto

subsection \<open>Characters of a text\<close>

text \<open>A text is the list of its UTF-8 bytes; its characters are counted by the bytes that continue none.\<close>

definition starts_rune :: "char \<Rightarrow> bool" where
  "starts_rune c \<longleftrightarrow> (let n = of_char c :: nat in \<not> (128 \<le> n \<and> n < 192))"

definition rune_count :: "string \<Rightarrow> nat" where
  "rune_count s = length (filter starts_rune s)"

text \<open>The first \<open>n\<close> characters, with the bytes that continue them, and the rest.\<close>

fun split_runes :: "nat \<Rightarrow> string \<Rightarrow> string \<times> string" where
  "split_runes n [] = ([], [])"
| "split_runes n (c # s) = (if \<not> starts_rune c then apfst (Cons c) (split_runes n s)
     else case n of 0 \<Rightarrow> ([], c # s) | Suc m \<Rightarrow> apfst (Cons c) (split_runes m s))"

lemma split_runes_append: "r = [] \<or> starts_rune (hd r) \<Longrightarrow> split_runes (rune_count s) (s @ r) = (s, r)"
proof (induction s)
  case Nil
  then show ?case by (cases r) (simp_all add: rune_count_def)
qed (simp add: rune_count_def)

lemma digit_starts_rune: "is_digit c \<Longrightarrow> starts_rune c"
  by (simp add: is_digit_def starts_rune_def Let_def)

subsection \<open>Files\<close>

text \<open>\<open>os.WriteFile\<close> is not atomic: it may fail before or after truncating the file.\<close>

datatype dwrite = DOk | DOpenFailed | DTorn nat

definition write_file :: "dwrite \<Rightarrow> string \<Rightarrow> string option \<Rightarrow> string option" where
  "write_file w x f = (case w of DOk \<Rightarrow> Some x | DOpenFailed \<Rightarrow> f | DTorn n \<Rightarrow> Some (take n x))"

end
