(* ===== verification/Contracts.thy ===== *)
theory Contracts
  imports Prelude
begin

section \<open>Interfaces between the components\<close>

text \<open>
  Each locale is an interface that one component of the agent or the server offers to others:
  the operations a client calls are fixed, the laws the client relies on are assumed, and what
  the client concludes is proved here once.  The theories of the providers interpret them on
  their own definitions.
\<close>

subsection \<open>A durable store with an answer\<close>

text \<open>
  \<open>put s p\<close> stores the report \<open>p\<close> and answers \<open>None\<close> (accepted) or an error;
  \<open>stored\<close> is what the provider means by durable.  \<open>forward\<close> is how every producer of
  reports uses such a store: try it first, send the report directly when it refuses.
\<close>

datatype delivery = Queued | SentDirect | Lost

locale durable_put =
  fixes put :: "'s \<Rightarrow> 'p \<Rightarrow> 's \<times> 'e option"
    and stored :: "'s \<Rightarrow> 'p \<Rightarrow> bool"
  assumes accepted: "snd (put s p) = None \<Longrightarrow> stored (fst (put s p)) p"
begin

definition forward :: "('p \<Rightarrow> bool) \<Rightarrow> 's \<Rightarrow> 'p \<Rightarrow> 's \<times> delivery" where
  "forward send s p = (case put s p of
     (s', None) \<Rightarrow> (s', Queued)
   | (s', Some _) \<Rightarrow> (s', if send p then SentDirect else Lost))"

lemma forward_queued: "snd (forward send s p) = Queued \<Longrightarrow> stored (fst (forward send s p)) p"
  using accepted [of s p] by (auto simp: forward_def split: prod.splits option.splits if_splits)

lemma forward_lost: "snd (forward send s p) = Lost \<longleftrightarrow> snd (put s p) \<noteq> None \<and> \<not> send p"
  by (auto simp: forward_def split: prod.splits option.splits)

lemma forward_direct: "snd (forward send s p) = SentDirect \<longleftrightarrow> snd (put s p) \<noteq> None \<and> send p"
  by (auto simp: forward_def split: prod.splits option.splits)

end

subsection \<open>A lock that reports its state\<close>

text \<open>
  \<open>lk\<close> engages the lock or refuses without a change, \<open>ul\<close> takes it down even when the
  write of the new state fails.  \<open>apply_desired\<close> is what the clients do with a desired state:
  order it and report what became of it.
\<close>

datatype lock_report = Locked | Unlocked | LockFailed

locale lock_applier =
  fixes lk :: "'s \<Rightarrow> 'r \<Rightarrow> 's \<times> 'e option"
    and ul :: "'s \<Rightarrow> 'u \<Rightarrow> 's \<times> 'f option"
    and engaged :: "'s \<Rightarrow> bool"
  assumes lk_ok: "lk s r = (s', None) \<Longrightarrow> engaged s'"
    and lk_err: "lk s r = (s', Some e) \<Longrightarrow> s' = s"
    and ul_off: "\<not> engaged (fst (ul s u))"
begin

definition apply_desired :: "'s \<Rightarrow> 'r + 'u \<Rightarrow> 's \<times> lock_report option" where
  "apply_desired s d = (case d of
     Inl r \<Rightarrow> (case lk s r of (s', None) \<Rightarrow> (s', Some Locked) | (s', Some _) \<Rightarrow> (s', Some LockFailed))
   | Inr u \<Rightarrow> (case ul s u of (s', None) \<Rightarrow> (s', Some Unlocked) | (s', Some _) \<Rightarrow> (s', None)))"

lemma apply_desired_truthful:
  "apply_desired s d = (s', Some Locked) \<Longrightarrow> engaged s'"
  "apply_desired s d = (s', Some Unlocked) \<Longrightarrow> \<not> engaged s'"
  "apply_desired s d = (s', Some LockFailed) \<Longrightarrow> s' = s"
  using lk_ok lk_err ul_off
  by (auto simp: apply_desired_def split: sum.splits prod.splits option.splits) (metis fst_conv)

lemma unlock_converges: "\<not> engaged (fst (apply_desired s (Inr u)))"
  using ul_off [of s u] by (auto simp: apply_desired_def split: prod.splits option.splits)

end

subsection \<open>A set of keys already handled\<close>

text \<open>
  \<open>mark\<close> records a key and says whether it was new.  The clients act on a key exactly when
  it is new: \<open>offer\<close> is the list of the keys acted upon.
\<close>

locale seen_keys =
  fixes mark :: "'s \<Rightarrow> 'k \<Rightarrow> 's \<times> bool"
    and has :: "'s \<Rightarrow> 'k \<Rightarrow> bool"
  assumes mark_new: "snd (mark s k) \<longleftrightarrow> \<not> has s k"
    and has_mark: "has (fst (mark s k)) j \<longleftrightarrow> j = k \<or> has s j"
begin

fun offer :: "'s \<Rightarrow> 'k list \<Rightarrow> 's \<times> 'k list" where
  "offer s [] = (s, [])"
| "offer s (k # ks) =
     (let (s1, new) = mark s k; (s2, acted) = offer s1 ks in (s2, if new then k # acted else acted))"

lemma offer_has: "has (fst (offer s ks)) j \<longleftrightarrow> j \<in> set ks \<or> has s j"
  by (induction ks arbitrary: s) (auto simp: Let_def split_beta has_mark)

lemma offer_acted: "set (snd (offer s ks)) = {k \<in> set ks. \<not> has s k}"
  by (induction ks arbitrary: s) (auto simp: Let_def split_beta has_mark mark_new)

lemma offer_once: "distinct (snd (offer s ks))"
proof (induction ks arbitrary: s)
  case (Cons k ks)
  then show ?case using offer_acted [of "fst (mark s k)" ks]
    by (auto simp: Let_def split_beta has_mark)
qed simp

lemma offer_again: "snd (offer (fst (offer s ks)) ks) = []"
proof -
  have "set (snd (offer (fst (offer s ks)) ks)) = {}"
    by (simp add: offer_acted offer_has)
  then show ?thesis by (simp only: set_empty)
qed

end

subsection \<open>Versions\<close>

text \<open>
  \<open>newer a b\<close>: the version \<open>b\<close> is newer than \<open>a\<close>.  A client that keeps the top of several
  versions as its baseline accepts only what is newer than each of them.
\<close>

locale version_order =
  fixes newer :: "'v \<Rightarrow> 'v \<Rightarrow> bool"
    and ok :: "'v \<Rightarrow> bool"
  assumes newer_irrefl: "\<not> newer a a"
    and newer_trans: "newer a b \<Longrightarrow> newer b c \<Longrightarrow> newer a c"
    and newer_ok: "newer a b \<Longrightarrow> ok a \<and> ok b"
    and newer_split: "newer a c \<Longrightarrow> ok b \<Longrightarrow> newer a b \<or> newer b c"
begin

definition top :: "'v \<Rightarrow> 'v \<Rightarrow> 'v" where
  "top a b = (if newer a b then b else a)"

lemma newer_asym: "newer a b \<Longrightarrow> \<not> newer b a"
  using newer_trans newer_irrefl by blast

lemma top_bound: "newer (top a b) w \<Longrightarrow> newer a w \<and> (ok b \<longrightarrow> newer b w)"
  using newer_trans [of a b w] newer_split [of a w b] by (auto simp: top_def split: if_splits)

lemma top_accepts: "newer a w \<Longrightarrow> newer b w \<Longrightarrow> newer (top a b) w"
  by (simp add: top_def)

lemma top_ok: "ok a \<Longrightarrow> ok (top a b)"
  using newer_ok by (auto simp: top_def)

end

subsection \<open>Framing by length\<close>

text \<open>
  A field is written so that its end can be found whatever it contains: \<open>unframe\<close> splits the
  field and the rest again, when the rest is one that may follow a field.  Then a list of fields can be read back from their concatenation, so
  that two different records are never hashed as one text.
\<close>

locale framing =
  fixes frame :: "string \<Rightarrow> string"
    and unframe :: "string \<Rightarrow> (string \<times> string) option"
    and fits :: "string \<Rightarrow> bool"
    and follows :: "string \<Rightarrow> bool"
  assumes unframe_frame: "fits s \<Longrightarrow> follows r \<Longrightarrow> unframe (frame s @ r) = Some (s, r)"
    and follows_end: "follows []"
    and follows_frame: "follows (frame s @ r)"
    and frame_nonempty: "frame s \<noteq> []"
begin

lemma frame_append_inj:
  assumes "fits a" and "fits b" and "follows r" and "follows r'" and e: "frame a @ r = frame b @ r'"
  shows "a = b \<and> r = r'"
proof -
  have "Some (a, r) = unframe (frame a @ r)" by (rule unframe_frame [OF assms(1,3), symmetric])
  also have "\<dots> = Some (b, r')" unfolding e by (rule unframe_frame [OF assms(2,4)])
  finally show ?thesis by simp
qed

lemma follows_frames: "follows (concat (map frame xs))"
  by (cases xs) (simp_all add: follows_end follows_frame)

lemma frames_inj:
  "list_all fits xs \<Longrightarrow> list_all fits ys \<Longrightarrow> concat (map frame xs) = concat (map frame ys) \<Longrightarrow> xs = ys"
proof (induction xs arbitrary: ys)
  case Nil
  then show ?case using frame_nonempty by (cases ys) auto
next
  case (Cons x xs)
  obtain y ys' where ys: "ys = y # ys'" using Cons.prems(3) frame_nonempty [of x] by (cases ys) simp_all
  with Cons.prems have "x = y \<and> concat (map frame xs) = concat (map frame ys')"
    using frame_append_inj [of x y, OF _ _ follows_frames follows_frames] by simp
  then show ?case using Cons.IH [of ys'] Cons.prems ys by simp
qed

end

end
