(* ===== verification/Outbox.thy ===== *)
theory Outbox
  imports Contracts
begin

section \<open>The durable report queue\<close>

text \<open>
  Model of \<open>internal/agent/outbox/outbox.go\<close>: the on-disk FIFO of reports that survives
  restarts.  The directory is a finite map from file names to their contents; a name carries
  the enqueue time, a sequence number and the report kind, and the whole queue discipline
  (FIFO, retention by age, classes of eviction) reads nothing but names.

  What the disk does is an argument: \<open>io\<close> says, for one call of an operation, which system
  calls succeed.  The clock is an argument too.  Logging is not modelled.  The mutex makes each
  operation atomic, so an operation is one function on the state.
\<close>

subsection \<open>Kinds of reports\<close>

definition KindSecurity :: string where "KindSecurity = ''security''"
definition KindAdmin :: string where "KindAdmin = ''admin''"
definition KindScript :: string where "KindScript = ''script''"
definition KindLock :: string where "KindLock = ''lock''"
definition KindTask :: string where "KindTask = ''task''"
definition KindAdminChanges :: string where "KindAdminChanges = ''admin_changes''"
definition KindScreenSession :: string where "KindScreenSession = ''screen_session''"
definition KindScreenTelemetry :: string where "KindScreenTelemetry = ''screen_telemetry''"

lemmas kind_defs = KindSecurity_def KindAdmin_def KindScript_def KindLock_def KindTask_def
  KindAdminChanges_def KindScreenSession_def KindScreenTelemetry_def

definition all_kinds :: "string list" where
  "all_kinds = [KindSecurity, KindAdmin, KindScript, KindLock, KindTask,
     KindAdminChanges, KindScreenSession, KindScreenTelemetry]"

definition is_evictable_first :: "string \<Rightarrow> bool" where
  "is_evictable_first kind \<longleftrightarrow> kind = KindScript \<or> kind = KindTask \<or> kind = KindAdminChanges \<or>
     kind = KindScreenTelemetry"

subsection \<open>The directory and the queue\<close>

record entry =
  e_kind :: string
  e_data :: string
  e_enqueued_at :: nanos

text \<open>A file holds the JSON text of an entry, or bytes that do not decode to one.\<close>

datatype fcontent = FEntry entry | FGarbage
datatype dirent = DFile fcontent | DDir

type_synonym dir = "(string \<times> dirent) list"

definition put_file :: "string \<Rightarrow> dirent \<Rightarrow> dir \<Rightarrow> dir" where
  "put_file n f d = (n, f) # filter (\<lambda>(m, _). m \<noteq> n) d"

definition del_file :: "string \<Rightarrow> dir \<Rightarrow> dir" where
  "del_file n d = filter (\<lambda>(m, _). m \<noteq> n) d"

text \<open>\<open>os.Remove\<close> of several files, each of which may fail.\<close>

definition remove_files :: "(string \<Rightarrow> bool) \<Rightarrow> string list \<Rightarrow> dir \<Rightarrow> dir" where
  "remove_files rm vs d = filter (\<lambda>(m, _). \<not> (m \<in> set vs \<and> rm m)) d"

datatype write_res = WOk | WFailed | WPartial

record io =
  io_write :: write_res
  io_rename :: bool
  io_list :: bool
  io_remove :: "string \<Rightarrow> bool"
  io_read :: "string \<Rightarrow> bool"
  io_msg :: string

datatype io_op = OpWrite | OpCommit | OpList

record queue =
  q_dir :: dir
  q_max :: int
  q_max_age :: nanos
  q_interval :: nanos
  q_seq :: "64 word"
  q_trigger :: bool
  q_ioerr :: "(io_op \<times> string) option"

datatype ob_err = ErrMkdir | ErrWrite | ErrRename | ErrFull string

definition new_queue :: "bool \<Rightarrow> dir \<Rightarrow> int \<Rightarrow> nanos \<Rightarrow> ob_err + queue" where
  "new_queue mkdir_ok d mx interval =
     (if \<not> mkdir_ok then Inl ErrMkdir
      else Inr \<lparr>q_dir = d, q_max = mx, q_max_age = 0,
        q_interval = (if interval \<le> 0 then 30 * second else interval),
        q_seq = 0, q_trigger = False, q_ioerr = None\<rparr>)"

definition set_max_age :: "nanos \<Rightarrow> queue \<Rightarrow> queue" where
  "set_max_age a q = q\<lparr>q_max_age := a\<rparr>"

definition note_io_failure :: "io_op \<Rightarrow> string \<Rightarrow> queue \<Rightarrow> queue" where
  "note_io_failure opn msg q = q\<lparr>q_ioerr := Some (opn, msg)\<rparr>"

definition note_io_success :: "queue \<Rightarrow> queue" where
  "note_io_success q = q\<lparr>q_ioerr := None\<rparr>"

definition unavailable :: "queue \<Rightarrow> (io_op \<times> string) option" where
  "unavailable q = q_ioerr q"

definition wake :: "queue \<Rightarrow> queue" where
  "wake q = q\<lparr>q_trigger := True\<rparr>"

subsection \<open>File names\<close>

definition sanitize_char :: "char \<Rightarrow> char" where
  "sanitize_char c =
     (if c = CHR ''/'' \<or> c = CHR 0x5C \<or> c = CHR ''.'' \<or> c = CHR ''-'' then CHR ''_'' else c)"

definition sanitize :: "string \<Rightarrow> string" where
  "sanitize s = map sanitize_char s"

definition pad_int :: "nat \<Rightarrow> int \<Rightarrow> string" where
  "pad_int w i = (if i < 0 then CHR ''-'' # pad_dec (w - 1) (nat (- i)) else pad_dec w (nat i))"

definition new_name :: "nanos \<Rightarrow> 64 word \<Rightarrow> string \<Rightarrow> string" where
  "new_name now n kind =
     pad_int 19 now @ CHR ''-'' # pad_dec 12 (unat n) @ CHR ''-'' # sanitize kind @ ''.json''"

definition list_names :: "dir \<Rightarrow> string list" where
  "list_names d = sort (map fst (filter
     (\<lambda>(n, f). f \<noteq> DDir \<and> \<not> suffix ''.tmp'' n \<and> suffix ''.json'' n) d))"

definition file_kind :: "string \<Rightarrow> string" where
  "file_kind name =
     (let parts = split_n 3 CHR ''-'' (trim_suffix ''.json'' name)
      in if length parts < 3 then [] else parts ! 2)"

definition file_time :: "string \<Rightarrow> nanos option" where
  "file_time name =
     (case cut_at CHR ''-'' name of
        None \<Rightarrow> None
      | Some (a, _) \<Rightarrow> if a = [] then None else parse_int a)"

definition queue_len :: "io \<Rightarrow> queue \<Rightarrow> nat" where
  "queue_len env q = (if io_list env then length (list_names (q_dir q)) else 0)"

subsection \<open>Eviction on overflow\<close>

text \<open>The victims, in order: old evictable files, then the new file if it is evictable, then
  old protected ones; \<open>drop\<close> of them.\<close>

definition old_evictable :: "string \<Rightarrow> string list \<Rightarrow> string list" where
  "old_evictable nm files = filter (\<lambda>f. f \<noteq> nm \<and> is_evictable_first (file_kind f)) files"

definition old_protected :: "string \<Rightarrow> string list \<Rightarrow> string list" where
  "old_protected nm files = filter (\<lambda>f. f \<noteq> nm \<and> \<not> is_evictable_first (file_kind f)) files"

definition new_sacrificed :: "nat \<Rightarrow> string \<Rightarrow> string list \<Rightarrow> bool" where
  "new_sacrificed drp nm files \<longleftrightarrow>
     length (old_evictable nm files) < drp \<and> is_evictable_first (file_kind nm)"

definition victims :: "nat \<Rightarrow> string \<Rightarrow> string list \<Rightarrow> string list" where
  "victims drp nm files =
     (let v1 = old_evictable nm files @ (if new_sacrificed drp nm files then [nm] else []);
          v2 = (if length v1 < drp then v1 @ old_protected nm files else v1)
      in take drp v2)"

definition enforce_limit :: "io \<Rightarrow> string \<Rightarrow> queue \<Rightarrow> queue \<times> ob_err option" where
  "enforce_limit env nm q =
     (if q_max q \<le> 0 then (q, None)
      else let files = list_names (q_dir q) in
        if \<not> io_list env \<or> int (length files) \<le> q_max q then (q, None)
        else let drp = nat (int (length files) - q_max q);
                 q' = q\<lparr>q_dir := remove_files (io_remove env) (victims drp nm files) (q_dir q)\<rparr>
             in (q', if new_sacrificed drp nm files then Some (ErrFull (file_kind nm)) else None))"

definition enforce_age :: "io \<Rightarrow> nanos \<Rightarrow> queue \<Rightarrow> queue" where
  "enforce_age env now q =
     (if q_max_age q \<le> 0 \<or> \<not> io_list env then q
      else let old = filter (\<lambda>f. case file_time f of None \<Rightarrow> False | Some t \<Rightarrow> t < now - q_max_age q)
                       (list_names (q_dir q))
           in q\<lparr>q_dir := remove_files (io_remove env) old (q_dir q)\<rparr>)"

subsection \<open>Enqueue\<close>

text \<open>
  Write \<open>name.tmp\<close>, rename it to \<open>name\<close>, then make room.  A failed write may leave the
  temporary file behind; a failed rename removes it.
\<close>

definition enqueue :: "io \<Rightarrow> nanos \<Rightarrow> string \<Rightarrow> string \<Rightarrow> queue \<Rightarrow> queue \<times> ob_err option" where
  "enqueue env now kind data q =
     (let n = q_seq q + 1;
          q1 = q\<lparr>q_seq := n\<rparr>;
          name = new_name now n kind;
          tmp = name @ ''.tmp'';
          e = \<lparr>e_kind = kind, e_data = data, e_enqueued_at = now\<rparr>
      in case io_write env of
           WFailed \<Rightarrow> (note_io_failure OpWrite (io_msg env) q1, Some ErrWrite)
         | WPartial \<Rightarrow> (note_io_failure OpWrite (io_msg env)
               (q1\<lparr>q_dir := put_file tmp (DFile FGarbage) (q_dir q1)\<rparr>), Some ErrWrite)
         | WOk \<Rightarrow>
             (if \<not> io_rename env then
                (note_io_failure OpCommit (io_msg env)
                   (q1\<lparr>q_dir := remove_files (io_remove env) [tmp]
                      (put_file tmp (DFile (FEntry e)) (q_dir q1))\<rparr>), Some ErrRename)
              else
                (let q2 = note_io_success
                       (q1\<lparr>q_dir := put_file name (DFile (FEntry e)) (del_file tmp (q_dir q1))\<rparr>)
                 in case enforce_limit env name q2 of
                      (q3, Some err) \<Rightarrow> (q3, Some err)
                    | (q3, None) \<Rightarrow> (wake q3, None))))"

subsection \<open>Flush\<close>

definition read_entry :: "(string \<Rightarrow> bool) \<Rightarrow> string \<Rightarrow> dir \<Rightarrow> entry option" where
  "read_entry rd f d =
     (if \<not> rd f then None
      else case map_of d f of
             Some (DFile (FEntry e)) \<Rightarrow> if e_kind e = [] then None else Some e
           | _ \<Rightarrow> None)"

text \<open>
  The loop over the listed files.  \<open>ctx i\<close> is \<open>ctx.Err() != nil\<close> at the \<open>i\<close>-th
  iteration, \<open>disp i kind data\<close> the outcome of the dispatcher there.  The second result is
  the trace of delivery attempts: the file and whether it was delivered.
\<close>

fun drain :: "(nat \<Rightarrow> bool) \<Rightarrow> (nat \<Rightarrow> string \<Rightarrow> string \<Rightarrow> bool) \<Rightarrow> io \<Rightarrow> nat \<Rightarrow> string list \<Rightarrow> dir
    \<Rightarrow> dir \<times> (string \<times> bool) list" where
  "drain ctx disp env i [] d = (d, [])"
| "drain ctx disp env i (f # fs) d =
     (if ctx i then (d, [])
      else case read_entry (io_read env) f d of
             None \<Rightarrow> drain ctx disp env (Suc i) fs (remove_files (io_remove env) [f] d)
           | Some e \<Rightarrow>
               if \<not> disp i (e_kind e) (e_data e) then (d, [(f, False)])
               else (let (d', tr) = drain ctx disp env (Suc i) fs
                            (remove_files (io_remove env) [f] d)
                     in (d', (f, True) # tr)))"

definition flush :: "(nat \<Rightarrow> bool) \<Rightarrow> (nat \<Rightarrow> string \<Rightarrow> string \<Rightarrow> bool) \<Rightarrow> io \<Rightarrow> nanos \<Rightarrow> queue
    \<Rightarrow> queue \<times> (string \<times> bool) list" where
  "flush ctx disp env now q =
     (let q1 = enforce_age env now q in
      if \<not> io_list env then (note_io_failure OpList (io_msg env) q1, [])
      else (let (d, tr) = drain ctx disp env 0 (list_names (q_dir q1)) (q_dir q1)
            in ((note_io_success q1)\<lparr>q_dir := d\<rparr>, tr)))"

subsection \<open>Names: round trips and order\<close>

lemma digit_not_minus [simp]: "\<not> is_digit CHR ''-''"
  by (simp add: is_digit_def)

lemma pad_dec_no_minus [go_simps]: "CHR ''-'' \<notin> set (pad_dec w n)"
  using pad_dec_digits digits_not_minus by blast

lemma sanitize_no_minus [go_simps]: "CHR ''-'' \<notin> set (sanitize s)"
  by (auto simp: sanitize_def sanitize_char_def)

lemma sanitize_kinds [simp]: "k \<in> set all_kinds \<Longrightarrow> sanitize k = k"
  by (auto simp: all_kinds_def kind_defs sanitize_def sanitize_char_def)

lemma new_name_shape:
  "0 \<le> now \<Longrightarrow> new_name now n k =
     (pad_dec 19 (nat now) @ CHR ''-'' # pad_dec 12 (unat n) @ CHR ''-'' # sanitize k) @ ''.json''"
  by (simp add: new_name_def pad_int_def)

lemma file_kind_new_name: "0 \<le> now \<Longrightarrow> file_kind (new_name now n k) = sanitize k"
  by (simp add: new_name_shape file_kind_def trim_suffix_append numeral_3_eq_3 Let_def go_simps
      del: append_assoc append_Cons)

lemma json_listed: "suffix ''.json'' (new_name now n k)" "\<not> suffix ''.tmp'' (new_name now n k)"
  by (auto simp: new_name_def suffix_def)

lemma file_time_new_name:
  assumes "0 \<le> now" and "now < 2 ^ 63"
  shows "file_time (new_name now n k) = Some now"
proof -
  have "cut_at CHR ''-'' (new_name now n k) =
      Some (pad_dec 19 (nat now), pad_dec 12 (unat n) @ CHR ''-'' # sanitize k @ ''.json'')"
    using assms by (simp add: new_name_def pad_int_def go_simps)
  moreover have "parse_int (pad_dec 19 (nat now)) = Some now"
    using assms by (subst parse_int_digits) auto
  ultimately show ?thesis by (simp add: file_time_def)
qed

lemma new_name_less:
  assumes "0 \<le> t1" and "t1 < 2 ^ 63" and "0 \<le> t2" and "t2 < 2 ^ 63"
    and "unat n1 < 10 ^ 12" and "unat n2 < 10 ^ 12"
    and "t1 < t2 \<or> (t1 = t2 \<and> n1 < n2)"
  shows "new_name t1 n1 k1 < new_name t2 n2 k2"
proof -
  have len: "length (pad_dec 19 (nat t1)) = 19" "length (pad_dec 19 (nat t2)) = 19"
    "length (pad_dec 12 (unat n1)) = 12" "length (pad_dec 12 (unat n2)) = 12"
    using assms by simp_all
  have t: "pad_dec 19 (nat t1) < pad_dec 19 (nat t2) \<longleftrightarrow> t1 < t2"
    using assms len by (subst digits_less_iff) auto
  have n: "pad_dec 12 (unat n1) < pad_dec 12 (unat n2) \<longleftrightarrow> n1 < n2"
    using len by (subst digits_less_iff) (auto simp: word_less_nat_alt)
  show ?thesis
    using assms t n len by (auto simp: new_name_def pad_int_def lex_append_less)
qed

subsection \<open>The listing\<close>

definition dir_ok :: "dir \<Rightarrow> bool" where
  "dir_ok d \<longleftrightarrow> distinct (map fst d)"

lemma dir_ok_put [intro]: "dir_ok d \<Longrightarrow> dir_ok (put_file n f d)"
  by (auto simp: dir_ok_def put_file_def distinct_map inj_on_def)

lemma dir_ok_filter: "dir_ok d \<Longrightarrow> dir_ok (filter P d)"
  by (auto simp: dir_ok_def distinct_map_filter)

lemma dir_ok_del [intro]: "dir_ok d \<Longrightarrow> dir_ok (del_file n d)"
  by (simp add: del_file_def dir_ok_filter)

lemma dir_ok_remove [intro]: "dir_ok d \<Longrightarrow> dir_ok (remove_files rm vs d)"
  by (simp add: remove_files_def dir_ok_filter)

lemma sorted_list_names [simp]: "sorted (list_names d)"
  by (simp add: list_names_def)

lemma distinct_list_names: "dir_ok d \<Longrightarrow> distinct (list_names d)"
  by (auto simp: list_names_def dir_ok_def distinct_map_filter)

lemma set_list_names:
  "n \<in> set (list_names d) \<longleftrightarrow>
     (\<exists>c. (n, DFile c) \<in> set d) \<and> \<not> suffix ''.tmp'' n \<and> suffix ''.json'' n"
  by (auto simp: list_names_def image_iff) (metis dirent.exhaust)

lemma set_list_names_remove:
  "n \<in> set (list_names (remove_files rm vs d)) \<longleftrightarrow> n \<in> set (list_names d) \<and> \<not> (n \<in> set vs \<and> rm n)"
  by (auto simp: set_list_names remove_files_def)

lemma set_list_names_put:
  "n \<in> set (list_names (put_file m (DFile c) d)) \<longleftrightarrow>
     (n = m \<and> \<not> suffix ''.tmp'' n \<and> suffix ''.json'' n) \<or> (n \<noteq> m \<and> n \<in> set (list_names d))"
  by (auto simp: set_list_names put_file_def)

lemma set_list_names_del:
  "n \<in> set (list_names (del_file m d)) \<longleftrightarrow> n \<noteq> m \<and> n \<in> set (list_names d)"
  by (auto simp: set_list_names del_file_def)

lemmas listing_simps = set_list_names_remove set_list_names_put set_list_names_del

lemma map_of_remove_files:
  "map_of (remove_files rm vs d) n = (if n \<in> set vs \<and> rm n then None else map_of d n)"
  unfolding remove_files_def by (subst map_of_filter_key) auto

lemma map_of_put_file: "map_of (put_file m f d) n = (if n = m then Some f else map_of d n)"
  unfolding put_file_def by (simp add: map_of_filter_key)

lemma map_of_del_file: "map_of (del_file m d) n = (if n = m then None else map_of d n)"
  unfolding del_file_def by (subst map_of_filter_key) auto

lemmas dir_map_simps = map_of_remove_files map_of_put_file map_of_del_file

subsection \<open>Victims\<close>

lemma set_old:
  "set (old_evictable nm files) = {f \<in> set files. f \<noteq> nm \<and> is_evictable_first (file_kind f)}"
  "set (old_protected nm files) = {f \<in> set files. f \<noteq> nm \<and> \<not> is_evictable_first (file_kind f)}"
  by (auto simp: old_evictable_def old_protected_def)

lemma length_old:
  assumes "distinct files" and "nm \<in> set files"
  shows "length (old_evictable nm files) + length (old_protected nm files) + 1 = length files"
proof -
  have "length (old_evictable nm files) + length (old_protected nm files) =
      length (filter (\<lambda>f. f \<noteq> nm) files)"
    using sum_length_filter_compl [of "\<lambda>f. is_evictable_first (file_kind f)" "filter (\<lambda>f. f \<noteq> nm) files"]
    by (simp add: old_evictable_def old_protected_def conj_commute)
  also have "\<dots> = length files - 1"
    using assms length_filter_notin [of files "[nm]"] by simp
  finally show ?thesis using assms by (cases files) auto
qed

lemma victims_subset: "nm \<in> set files \<Longrightarrow> set (victims drp nm files) \<subseteq> set files"
  by (auto simp: victims_def Let_def set_old dest!: in_set_takeD split: if_splits)

lemma length_victims:
  assumes "distinct files" and "nm \<in> set files" and "drp < length files"
  shows "length (victims drp nm files) = drp"
  using assms length_old [OF assms(1,2)]
  by (auto simp: victims_def Let_def new_sacrificed_def)

lemma distinct_old:
  "distinct files \<Longrightarrow> distinct (old_evictable nm files) \<and> distinct (old_protected nm files)"
  by (simp add: old_evictable_def old_protected_def)

lemma distinct_victims: "distinct files \<Longrightarrow> distinct (victims drp nm files)"
  unfolding victims_def Let_def
  by (rule distinct_take) (use distinct_old [of files nm] in \<open>auto simp: set_old\<close>)

lemma new_in_victims: "nm \<in> set (victims drp nm files) \<longleftrightarrow> new_sacrificed drp nm files"
proof
  show "nm \<in> set (victims drp nm files) \<Longrightarrow> new_sacrificed drp nm files"
    by (auto simp: victims_def Let_def set_old dest!: in_set_takeD split: if_splits)
  assume s: "new_sacrificed drp nm files"
  then have "length (old_evictable nm files) < drp" by (simp add: new_sacrificed_def)
  then obtain k where "drp = length (old_evictable nm files) + Suc k"
    using less_imp_Suc_add by fastforce
  with s show "nm \<in> set (victims drp nm files)"
    by (auto simp: victims_def Let_def)
qed

lemma victims_protected:
  assumes "f \<in> set (victims drp nm files)" and "\<not> is_evictable_first (file_kind f)"
  shows "length (old_evictable nm files) < drp \<and> set (old_evictable nm files) \<subseteq> set (victims drp nm files)
    \<and> (is_evictable_first (file_kind nm) \<longrightarrow> nm \<in> set (victims drp nm files))"
proof -
  have lt: "length (old_evictable nm files) < drp"
    using assms by (auto simp: victims_def Let_def set_old new_sacrificed_def dest!: in_set_takeD
        split: if_splits)
  moreover from lt have "set (old_evictable nm files) \<subseteq> set (victims drp nm files)"
    by (auto simp: victims_def Let_def)
  moreover from lt have "is_evictable_first (file_kind nm) \<Longrightarrow> nm \<in> set (victims drp nm files)"
    by (simp add: new_in_victims new_sacrificed_def)
  ultimately show ?thesis by blast
qed

lemma sorted_take_less:
  fixes xs :: "'a::linorder list"
  assumes "sorted xs" and "distinct xs" and "f \<in> set (take n xs)" and "g \<in> set xs"
    and "g \<notin> set (take n xs)"
  shows "f < g"
proof -
  have "xs = take n xs @ drop n xs" by simp
  then have "g \<in> set (drop n xs)" using assms(4,5) by (metis Un_iff set_append)
  moreover have "\<forall>x \<in> set (take n xs). \<forall>y \<in> set (drop n xs). x \<le> y"
    using assms(1) sorted_append [of "take n xs" "drop n xs"] by simp
  ultimately show ?thesis using assms(3,5) by (metis antisym_conv2)
qed

lemma sorted_old:
  "sorted files \<Longrightarrow> sorted (old_evictable nm files) \<and> sorted (old_protected nm files)"
  by (simp add: old_evictable_def old_protected_def sorted_wrt_filter)

lemma victims_oldest:
  assumes "sorted files" and "distinct files"
    and f: "f \<in> set (victims drp nm files)" "f \<noteq> nm"
    and g: "g \<in> set files" "g \<notin> set (victims drp nm files)" "g \<noteq> nm"
    and same: "is_evictable_first (file_kind f) = is_evictable_first (file_kind g)"
  shows "f < g"
proof (cases "is_evictable_first (file_kind g)")
  case True
  have "f \<in> set (take drp (old_evictable nm files))"
    using f same True by (auto simp: victims_def Let_def set_old dest!: in_set_takeD split: if_splits)
  moreover have "g \<in> set (old_evictable nm files)" and "g \<notin> set (take drp (old_evictable nm files))"
    using g True by (auto simp: victims_def Let_def set_old split: if_splits)
  ultimately show ?thesis
    using sorted_take_less [of "old_evictable nm files"] sorted_old [OF assms(1)]
      distinct_old [OF assms(2)] by blast
next
  case False
  let ?k = "drp - length (old_evictable nm files @ (if new_sacrificed drp nm files then [nm] else []))"
  have "f \<in> set (take ?k (old_protected nm files))"
    using f same False
    by (auto simp: victims_def Let_def set_old dest: in_set_takeD split: if_splits)
  moreover have "g \<in> set (old_protected nm files)" and "g \<notin> set (take ?k (old_protected nm files))"
    using g False f same by (auto simp: victims_def Let_def set_old dest: in_set_takeD split: if_splits)
  ultimately show ?thesis
    using sorted_take_less [of "old_protected nm files"] sorted_old [OF assms(1)]
      distinct_old [OF assms(2)] by blast
qed

subsection \<open>Enqueue\<close>

definition put_new :: "nanos \<Rightarrow> string \<Rightarrow> string \<Rightarrow> queue \<Rightarrow> dir" where
  "put_new now k data q =
     (let name = new_name now (q_seq q + 1) k in
      put_file name (DFile (FEntry \<lparr>e_kind = k, e_data = data, e_enqueued_at = now\<rparr>))
        (del_file (name @ ''.tmp'') (q_dir q)))"

lemma new_name_not_tmp [simp]: "new_name now n k @ ''.tmp'' \<noteq> new_name now n k"
  by simp

lemma new_name_in_put_new: "new_name now (q_seq q + 1) k \<in> set (list_names (put_new now k data q))"
  by (simp add: put_new_def Let_def set_list_names_put json_listed)

lemma tmp_not_listed [simp]: "m @ ''.tmp'' \<notin> set (list_names d)"
  by (simp add: set_list_names)

lemma put_new_listed:
  "n \<in> set (list_names (put_new now k data q)) \<longleftrightarrow>
     n = new_name now (q_seq q + 1) k \<or> n \<in> set (list_names (q_dir q))"
  by (auto simp: put_new_def Let_def set_list_names_put set_list_names_del json_listed)

lemma dir_ok_put_new: "dir_ok (q_dir q) \<Longrightarrow> dir_ok (put_new now k data q)"
  by (auto simp: put_new_def Let_def)

text \<open>The four outcomes of \<^const>\<open>enqueue\<close>, one equation each.\<close>

lemma enqueue_write_failed:
  "io_write env \<noteq> WOk \<Longrightarrow> snd (enqueue env now k data q) = Some ErrWrite \<and>
     (\<forall>n. n \<in> set (list_names (q_dir (fst (enqueue env now k data q)))) \<longleftrightarrow> n \<in> set (list_names (q_dir q)))"
  by (cases "io_write env")
     (auto simp: enqueue_def Let_def note_io_failure_def set_list_names_put)

lemma enqueue_rename_failed:
  "io_write env = WOk \<Longrightarrow> \<not> io_rename env \<Longrightarrow> snd (enqueue env now k data q) = Some ErrRename \<and>
     (\<forall>n. n \<in> set (list_names (q_dir (fst (enqueue env now k data q)))) \<longleftrightarrow> n \<in> set (list_names (q_dir q)))"
  by (auto simp: enqueue_def Let_def note_io_failure_def set_list_names_put set_list_names_remove)

lemma enqueue_fits:
  assumes "io_write env = WOk" and "io_rename env"
    and "q_max q \<le> 0 \<or> \<not> io_list env \<or> int (length (list_names (put_new now k data q))) \<le> q_max q"
  shows "snd (enqueue env now k data q) = None \<and> q_dir (fst (enqueue env now k data q)) = put_new now k data q"
  using assms
  by (auto simp: enqueue_def Let_def note_io_success_def enforce_limit_def put_new_def wake_def)

lemma enqueue_overflow:
  assumes "io_write env = WOk" and "io_rename env" and "0 < q_max q" and "io_list env"
    and "q_max q < int (length (list_names (put_new now k data q)))"
  shows "let nm = new_name now (q_seq q + 1) k; files = list_names (put_new now k data q);
             drp = nat (int (length files) - q_max q) in
      q_dir (fst (enqueue env now k data q)) =
        remove_files (io_remove env) (victims drp nm files) (put_new now k data q) \<and>
      snd (enqueue env now k data q) =
        (if new_sacrificed drp nm files then Some (ErrFull (file_kind nm)) else None)"
  using assms
  by (auto simp: enqueue_def Let_def note_io_success_def enforce_limit_def put_new_def wake_def)

lemma enqueue_cases:
  obtains (no_write) "io_write env \<noteq> WOk"
  | (no_rename) "io_write env = WOk" "\<not> io_rename env"
  | (fits) "io_write env = WOk" "io_rename env"
      "q_max q \<le> 0 \<or> \<not> io_list env \<or> int (length (list_names (put_new now k data q))) \<le> q_max q"
  | (overflow) "io_write env = WOk" "io_rename env" "0 < q_max q" "io_list env"
      "q_max q < int (length (list_names (put_new now k data q)))"
  by fastforce

text \<open>What the queue holds for a report: a listed file with its kind and data.\<close>

definition holds :: "queue \<Rightarrow> string \<Rightarrow> string \<Rightarrow> bool" where
  "holds q k data \<longleftrightarrow> list_ex (\<lambda>n. case map_of (q_dir q) n of
      Some (DFile (FEntry e)) \<Rightarrow> e_kind e = k \<and> e_data e = data | _ \<Rightarrow> False) (list_names (q_dir q))"

lemma map_of_put_new:
  "map_of (put_new now k data q) (new_name now (q_seq q + 1) k) =
     Some (DFile (FEntry \<lparr>e_kind = k, e_data = data, e_enqueued_at = now\<rparr>))"
  by (simp add: put_new_def Let_def map_of_put_file)

lemma enqueue_accepted_holds:
  assumes "snd (enqueue env now k data q) = None"
  shows "holds (fst (enqueue env now k data q)) k data"
proof (cases rule: enqueue_cases [where env = env and q = q and now = now and k = k and data = data])
  case no_write
  with assms enqueue_write_failed show ?thesis by fastforce
next
  case no_rename
  with assms enqueue_rename_failed show ?thesis by fastforce
next
  case fits
  then show ?thesis
    using enqueue_fits [of env q now k data] new_name_in_put_new [of now q k data]
    by (auto simp: holds_def list_ex_iff map_of_put_new intro!: bexI)
next
  case overflow
  let ?nm = "new_name now (q_seq q + 1) k" and ?files = "list_names (put_new now k data q)"
  let ?drp = "nat (int (length ?files) - q_max q)"
  from overflow have q': "q_dir (fst (enqueue env now k data q)) =
      remove_files (io_remove env) (victims ?drp ?nm ?files) (put_new now k data q)"
    and "\<not> new_sacrificed ?drp ?nm ?files"
    using enqueue_overflow [of env q now k data] assms by (auto simp: Let_def split: if_splits)
  then have "?nm \<notin> set (victims ?drp ?nm ?files)" by (simp add: new_in_victims)
  then show ?thesis
    using new_name_in_put_new [of now q k data]
    by (auto simp: holds_def q' list_ex_iff listing_simps dir_map_simps map_of_put_new
        intro!: bexI [of _ ?nm])
qed

text \<open>Claim C35.  Enqueue returns nil exactly when the report is on disk.\<close>

theorem enqueue_nil_iff_durable:
  assumes "new_name now (q_seq q + 1) k \<notin> set (list_names (q_dir q))"
    and "io_remove env (new_name now (q_seq q + 1) k)"
  shows "snd (enqueue env now k data q) = None \<longleftrightarrow>
    new_name now (q_seq q + 1) k \<in> set (list_names (q_dir (fst (enqueue env now k data q))))"
proof (cases rule: enqueue_cases [where env = env and q = q and now = now and k = k and data = data])
  case no_write
  with assms enqueue_write_failed [of env now k data q] show ?thesis by auto
next
  case no_rename
  with assms enqueue_rename_failed [of env now k data q] show ?thesis by auto
next
  case fits
  then show ?thesis using enqueue_fits [of env q now k data] new_name_in_put_new by simp
next
  case overflow
  then show ?thesis
    using enqueue_overflow [of env q now k data] new_name_in_put_new [of now q k data] assms
    by (auto simp: Let_def listing_simps new_in_victims)
qed

text \<open>Overflow bound.\<close>

theorem enqueue_within_max:
  assumes "dir_ok (q_dir q)" and "0 < q_max q" and "io_list env" and "\<forall>f. io_remove env f"
    and "io_write env = WOk" and "io_rename env"
  shows "int (length (list_names (q_dir (fst (enqueue env now k data q))))) \<le> q_max q"
proof (cases "int (length (list_names (put_new now k data q))) \<le> q_max q")
  case True
  with assms enqueue_fits [of env q now k data] show ?thesis by simp
next
  case False
  let ?nm = "new_name now (q_seq q + 1) k" and ?d = "put_new now k data q"
  let ?files = "list_names ?d"
  let ?drp = "nat (int (length ?files) - q_max q)" and ?q' = "fst (enqueue env now k data q)"
  have dist: "distinct ?files" using assms(1) by (simp add: dir_ok_put_new distinct_list_names)
  from False assms have q': "q_dir ?q' = remove_files (io_remove env) (victims ?drp ?nm ?files) ?d"
    using enqueue_overflow [of env q now k data] by (simp add: Let_def)
  have "set (list_names (q_dir ?q')) = set (filter (\<lambda>f. f \<notin> set (victims ?drp ?nm ?files)) ?files)"
    using assms(4) by (auto simp: q' listing_simps)
  moreover have "distinct (list_names (q_dir ?q'))"
    using assms(1) by (simp add: q' dir_ok_put_new dir_ok_remove distinct_list_names)
  ultimately have "length (list_names (q_dir ?q')) =
      length (filter (\<lambda>f. f \<notin> set (victims ?drp ?nm ?files)) ?files)"
    using dist by (metis distinct_card distinct_filter)
  also have "\<dots> = length ?files - length (victims ?drp ?nm ?files)"
    using dist new_name_in_put_new
    using victims_subset [OF new_name_in_put_new]
    by (intro length_filter_notin) (auto simp: distinct_victims)
  also have "length (victims ?drp ?nm ?files) = ?drp"
    using dist new_name_in_put_new assms(2) False by (intro length_victims) auto
  finally show ?thesis using False assms(2) by simp
qed

text \<open>Classes of eviction.\<close>

theorem eviction_spares_protected:
  assumes "dir_ok (q_dir q)" and "\<forall>f. io_remove env f"
    and lost: "f \<in> set (list_names (q_dir q))" "f \<noteq> new_name now (q_seq q + 1) k"
      "f \<notin> set (list_names (q_dir (fst (enqueue env now k data q))))"
    and kept: "g \<in> set (list_names (q_dir (fst (enqueue env now k data q))))"
      "g \<noteq> new_name now (q_seq q + 1) k"
  shows "(is_evictable_first (file_kind f) \<or> \<not> is_evictable_first (file_kind g)) \<and>
    (is_evictable_first (file_kind f) = is_evictable_first (file_kind g) \<longrightarrow> f < g)"
proof (cases rule: enqueue_cases [where env = env and q = q and now = now and k = k and data = data])
  case overflow
  let ?nm = "new_name now (q_seq q + 1) k" and ?d = "put_new now k data q"
  let ?files = "list_names ?d"
  let ?V = "victims (nat (int (length ?files) - q_max q)) ?nm ?files"
  have dist: "distinct ?files" using assms(1) by (simp add: dir_ok_put_new distinct_list_names)
  from overflow have q': "q_dir (fst (enqueue env now k data q)) = remove_files (io_remove env) ?V ?d"
    using enqueue_overflow [of env q now k data] by (simp add: Let_def)
  have f: "f \<in> set ?files" "f \<in> set ?V" and g: "g \<in> set ?files" "g \<notin> set ?V"
    using lost kept assms(2) by (auto simp: q' listing_simps put_new_listed)
  have "is_evictable_first (file_kind f) \<or> g \<notin> set (old_evictable ?nm ?files)"
    using victims_protected [OF f(2)] g by blast
  moreover have "is_evictable_first (file_kind f) = is_evictable_first (file_kind g) \<Longrightarrow> f < g"
    using victims_oldest [OF sorted_list_names dist f(2) lost(2) g kept(2)] .
  ultimately show ?thesis using g kept(2) by (auto simp: set_old)
next
  case fits
  then show ?thesis
    using lost enqueue_fits [of env q now k data] by (simp add: put_new_listed)
next
  case no_write
  then show ?thesis using lost enqueue_write_failed [of env now k data q] by blast
next
  case no_rename
  then show ?thesis using lost enqueue_rename_failed [of env now k data q] by blast
qed

subsection \<open>Flush\<close>

lemma drain_trace_subset: "(g, b) \<in> set (snd (drain ctx disp env i fs d)) \<Longrightarrow> g \<in> set fs"
  by (induction ctx disp env i fs d rule: drain.induct)
     (auto split: option.splits if_splits prod.splits)

lemma drain_trace_sorted:
  "sorted_wrt (<) fs \<Longrightarrow> sorted_wrt (<) (map fst (snd (drain ctx disp env i fs d)))"
proof (induction ctx disp env i fs d rule: drain.induct)
  case (2 ctx disp env i f fs d)
  have "\<And>g b. (g, b) \<in> set (snd (drain ctx disp env (Suc i) fs
      (remove_files (io_remove env) [f] d))) \<Longrightarrow> f < g"
    using 2 by (auto dest!: drain_trace_subset)
  with 2 show ?case by (auto split: option.splits prod.splits)
qed simp

lemma drain_failure_last:
  "(f, False) \<in> set (snd (drain ctx disp env i fs d)) \<Longrightarrow>
   distinct fs \<Longrightarrow> last (snd (drain ctx disp env i fs d)) = (f, False)"
  by (induction ctx disp env i fs d rule: drain.induct)
     (auto split: option.splits if_splits prod.splits)

lemma read_entry_remove: "n \<noteq> f \<Longrightarrow> read_entry rd n (remove_files rm [f] d) = read_entry rd n d"
  by (simp add: read_entry_def map_of_remove_files)

lemma drain_no_skip:
  assumes "sorted_wrt (<) fs" and "f \<in> set fs" and "(g, b) \<in> set (snd (drain ctx disp env i fs d))"
    and "f < g"
  shows "(f, True) \<in> set (snd (drain ctx disp env i fs d)) \<or> read_entry (io_read env) f d = None"
  using assms
proof (induction ctx disp env i fs d rule: drain.induct)
  case (2 ctx disp env i h fs d)
  let ?d = "remove_files (io_remove env) [h] d"
  have sub: "(a, c) \<in> set (snd (drain ctx disp env (Suc i) fs ?d)) \<Longrightarrow> a \<in> set fs" for a c
    by (rule drain_trace_subset)
  show ?case
  proof (cases "f = h")
    case True
    with 2 sub show ?thesis by (auto split: option.splits prod.splits if_splits)
  next
    case False
    with 2 have "f \<in> set fs" and "h < f" by auto
    with 2 show ?thesis
      using sub by (auto split: option.splits prod.splits if_splits simp: read_entry_remove)
  qed
qed simp

lemma drain_lookup:
  assumes "distinct fs" and "map_of d n = Some x"
  shows "map_of (fst (drain ctx disp env i fs d)) n = Some x \<or>
    (n, True) \<in> set (snd (drain ctx disp env i fs d)) \<or>
    (n \<in> set fs \<and> read_entry (io_read env) n d = None)"
  using assms
proof (induction ctx disp env i fs d rule: drain.induct)
  case (2 ctx disp env i f fs d)
  show ?case
  proof (cases "n = f")
    case True
    with 2 show ?thesis by (auto split: option.splits prod.splits)
  next
    case False
    then have "map_of (remove_files (io_remove env) [f] d) n = Some x"
      using 2 by (simp add: map_of_remove_files)
    with 2 False show ?thesis by (auto split: option.splits prod.splits simp: read_entry_remove)
  qed
qed simp

lemma drain_all:
  "distinct fs \<Longrightarrow> \<forall>f \<in> set fs. read_entry (io_read env) f d \<noteq> None \<Longrightarrow>
   \<forall>j. \<not> ctx j \<Longrightarrow> \<forall>j k v. disp j k v \<Longrightarrow>
   drain ctx disp env i fs d = (remove_files (io_remove env) fs d, map (\<lambda>f. (f, True)) fs)"
proof (induction ctx disp env i fs d rule: drain.induct)
  case (2 ctx disp env i f fs d)
  have "\<forall>g \<in> set fs. read_entry (io_read env) g (remove_files (io_remove env) [f] d) \<noteq> None"
    using 2 by (metis distinct.simps(2) list.set_intros(2) read_entry_remove)
  with 2 show ?case
    by (auto simp: remove_files_def intro!: filter_cong split: option.splits)
qed (auto simp: remove_files_def)

lemma listed_iff_lookup:
  "dir_ok d \<Longrightarrow> n \<in> set (list_names d) \<longleftrightarrow>
     (\<exists>c. map_of d n = Some (DFile c)) \<and> \<not> suffix ''.tmp'' n \<and> suffix ''.json'' n"
  by (auto simp: set_list_names dir_ok_def)

lemma strict_list_names: "dir_ok d \<Longrightarrow> sorted_wrt (<) (list_names d)"
  by (simp add: strict_sorted_iff distinct_list_names)

definition expired :: "nanos \<Rightarrow> queue \<Rightarrow> string \<Rightarrow> bool" where
  "expired now q f \<longleftrightarrow> 0 < q_max_age q \<and>
     (case file_time f of None \<Rightarrow> False | Some t \<Rightarrow> t < now - q_max_age q)"

lemma enforce_age_lookup:
  "\<not> expired now q n \<Longrightarrow> map_of (q_dir (enforce_age env now q)) n = map_of (q_dir q) n"
  by (auto simp: enforce_age_def expired_def Let_def map_of_remove_files)

lemma enforce_age_ok [simp]: "dir_ok (q_dir q) \<Longrightarrow> dir_ok (q_dir (enforce_age env now q))"
  by (auto simp: enforce_age_def Let_def)

lemma drain_dir_ok: "dir_ok d \<Longrightarrow> dir_ok (fst (drain ctx disp env i fs d))"
proof (induction ctx disp env i fs d rule: drain.induct)
  case (2 ctx disp env i f fs d)
  then show ?case by (auto split: option.splits prod.splits simp: dir_ok_remove)
qed simp

lemma flush_unfold:
  "io_list env \<Longrightarrow> flush ctx disp env now q =
     ((note_io_success (enforce_age env now q))\<lparr>q_dir :=
         fst (drain ctx disp env 0 (list_names (q_dir (enforce_age env now q))) (q_dir (enforce_age env now q)))\<rparr>,
      snd (drain ctx disp env 0 (list_names (q_dir (enforce_age env now q))) (q_dir (enforce_age env now q))))"
  by (simp add: flush_def Let_def split: prod.split)

lemma drain_listed_subset:
  "n \<in> set (list_names (fst (drain ctx disp env i fs d))) \<Longrightarrow> n \<in> set (list_names d)"
  by (induction ctx disp env i fs d rule: drain.induct)
     (auto split: option.splits if_splits prod.splits simp: listing_simps)

text \<open>A flush delivers in FIFO order and stops at the first failure.\<close>

theorem flush_fifo:
  assumes "dir_ok (q_dir q)" and "flush ctx disp env now q = (q', tr)"
  shows "sorted_wrt (<) (map fst tr) \<and>
    (\<forall>f. (f, False) \<in> set tr \<longrightarrow> last tr = (f, False)) \<and>
    (\<forall>f g b. f \<in> set (list_names (q_dir (enforce_age env now q))) \<and> (g, b) \<in> set tr \<and> f < g \<longrightarrow>
       (f, True) \<in> set tr \<or> read_entry (io_read env) f (q_dir (enforce_age env now q)) = None)"
proof (cases "io_list env")
  case True
  let ?d = "q_dir (enforce_age env now q)"
  have sw: "sorted_wrt (<) (list_names ?d)" using assms(1) by (simp add: strict_list_names)
  have tr: "tr = snd (drain ctx disp env 0 (list_names ?d) ?d)"
    using assms(2) True by (simp add: flush_unfold)
  have dist: "distinct (list_names ?d)" using assms(1) by (simp add: distinct_list_names)
  have "sorted_wrt (<) (map fst tr)" unfolding tr by (rule drain_trace_sorted [OF sw])
  moreover have "\<forall>f. (f, False) \<in> set tr \<longrightarrow> last tr = (f, False)"
    unfolding tr using drain_failure_last dist by blast
  moreover have skip: "(f, True) \<in> set tr \<or> read_entry (io_read env) f ?d = None"
    if "f \<in> set (list_names ?d)" "(g, b) \<in> set tr" "f < g" for f g b
    using that(2) unfolding tr by (rule drain_no_skip [OF sw that(1) _ that(3)])
  ultimately show ?thesis by (intro conjI allI impI; (elim conjE)?) (assumption | rule skip | simp)+
next
  case False
  with assms(2) show ?thesis by (auto simp: flush_def)
qed

lemma flush_conserves:
  assumes "dir_ok (q_dir q)" and "flush ctx disp env now q = (q', tr)"
    and "n \<in> set (list_names (q_dir q))" and "n \<notin> set (list_names (q_dir q'))"
  shows "(n, True) \<in> set tr \<or> expired now q n \<or> read_entry (io_read env) n (q_dir q) = None"
proof (rule ccontr)
  assume neg: "\<not> ?thesis"
  let ?d = "q_dir (enforce_age env now q)"
  have look: "map_of ?d n = map_of (q_dir q) n" using neg by (simp add: enforce_age_lookup)
  have re: "read_entry (io_read env) n ?d = read_entry (io_read env) n (q_dir q)"
    using look by (simp add: read_entry_def)
  obtain c where c: "map_of ?d n = Some (DFile c)" "\<not> suffix ''.tmp'' n" "suffix ''.json'' n"
    using assms(1,3) look by (auto simp: listed_iff_lookup)
  show False
  proof (cases "io_list env")
    case True
    then have q': "q_dir q' = fst (drain ctx disp env 0 (list_names ?d) ?d)"
      and tr: "tr = snd (drain ctx disp env 0 (list_names ?d) ?d)"
      using assms(2) by (auto simp: flush_unfold)
    have dist: "distinct (list_names ?d)" using assms(1) by (simp add: distinct_list_names)
    have "(n, True) \<notin> set tr" and "read_entry (io_read env) n ?d \<noteq> None"
      using neg re by auto
    then have "map_of (q_dir q') n = Some (DFile c)"
      using drain_lookup [OF dist c(1), of ctx disp env 0] unfolding q' tr by argo
    then show False using assms(1,4) c by (simp add: q' listed_iff_lookup drain_dir_ok)
  next
    case False
    then have "q_dir q' = q_dir q"
      using assms(2) by (auto simp: flush_def note_io_failure_def enforce_age_def)
    with assms(3,4) show False by simp
  qed
qed

text \<open>With a reachable server the queue empties in one flush, in order.\<close>

theorem flush_delivers_all:
  assumes "dir_ok (q_dir q)" and "io_list env" and "\<forall>f. io_remove env f"
    and "\<forall>f \<in> set (list_names (q_dir q)). read_entry (io_read env) f (q_dir q) \<noteq> None"
    and "\<forall>j. \<not> ctx j" and "\<forall>j k v. disp j k v"
  shows "list_names (q_dir (fst (flush ctx disp env now q))) = [] \<and>
    snd (flush ctx disp env now q) =
      map (\<lambda>f. (f, True)) (list_names (q_dir (enforce_age env now q)))"
proof -
  let ?d = "q_dir (enforce_age env now q)"
  have "\<forall>f \<in> set (list_names ?d). read_entry (io_read env) f ?d \<noteq> None"
  proof
    fix f assume "f \<in> set (list_names ?d)"
    then have "f \<in> set (list_names (q_dir q)) \<and> map_of ?d f = map_of (q_dir q) f"
      using assms(1-3) by (cases "q_max_age q \<le> 0")
        (auto simp: enforce_age_def Let_def listing_simps dir_map_simps)
    moreover from this have "read_entry (io_read env) f ?d = read_entry (io_read env) f (q_dir q)"
      by (simp add: read_entry_def)
    ultimately show "read_entry (io_read env) f ?d \<noteq> None" using assms(4) by simp
  qed
  then have "drain ctx disp env 0 (list_names ?d) ?d =
      (remove_files (io_remove env) (list_names ?d) ?d, map (\<lambda>f. (f, True)) (list_names ?d))"
    using assms by (intro drain_all) (auto simp: distinct_list_names)
  moreover have "x \<notin> set (list_names (remove_files (io_remove env) (list_names ?d) ?d))" for x
    using assms(3) by (simp add: listing_simps)
  then have "list_names (remove_files (io_remove env) (list_names ?d) ?d) = []"
    by (meson last_in_set)
  ultimately show ?thesis using assms(2) by (simp add: flush_unfold)
qed

subsection \<open>Flood of operational reports\<close>

lemma filter_ne_absent: "nm \<notin> set xs \<Longrightarrow> filter (\<lambda>f. f \<noteq> nm \<and> P f) xs = filter P xs"
  by (rule filter_cong) auto

lemma length_partition3:
  "distinct files \<Longrightarrow> nm \<in> set files \<Longrightarrow>
   length files = length (old_evictable nm files) + length (old_protected nm files) + 1"
proof (induction files)
  case (Cons f files)
  have "length files = length (filter P files) + length (filter (\<lambda>x. \<not> P x) files)" for P
    by (simp add: sum_length_filter_compl)
  with Cons show ?case
    by (auto simp: old_evictable_def old_protected_def filter_ne_absent)
qed simp

lemma victims_no_protected:
  assumes "distinct files" and "nm \<in> set files" and "length files = drp + mx"
    and "length (filter (\<lambda>f. \<not> is_evictable_first (file_kind f)) files) \<le> mx"
    and "\<not> is_evictable_first (file_kind f)"
  shows "f \<notin> set (victims drp nm files)"
proof -
  let ?e = "old_evictable nm files" and ?p = "old_protected nm files"
  have prot: "length (filter (\<lambda>f. \<not> is_evictable_first (file_kind f)) files) =
      length ?p + (if is_evictable_first (file_kind nm) then 0 else 1)"
    using assms(1,2) by (induction files) (auto simp: old_protected_def filter_ne_absent)
  have "drp \<le> length ?e + (if is_evictable_first (file_kind nm) then 1 else 0)"
    using length_partition3 [OF assms(1,2)] assms(3,4) prot by (auto split: if_splits)
  then have "victims drp nm files = take drp (?e @ (if new_sacrificed drp nm files then [nm] else []))"
    by (auto simp: victims_def Let_def new_sacrificed_def)
  then show ?thesis using assms(5)
    by (auto simp: set_old new_sacrificed_def dest!: in_set_takeD split: if_splits)
qed

lemma enqueue_loss_overflow:
  assumes "n \<in> set (list_names (q_dir q))"
    and "n \<notin> set (list_names (q_dir (fst (enqueue env now k data q))))"
  shows "let files = list_names (put_new now k data q) in 0 < q_max q \<and> q_max q < int (length files) \<and>
    n \<in> set (victims (nat (int (length files) - q_max q)) (new_name now (q_seq q + 1) k) files)"
proof (cases rule: enqueue_cases [where env = env and q = q and now = now and k = k and data = data])
  case overflow
  then show ?thesis
    using assms enqueue_overflow [of env q now k data] by (auto simp: Let_def listing_simps put_new_listed)
next
  case fits
  then show ?thesis using assms enqueue_fits [of env q now k data] by (simp add: put_new_listed)
next
  case no_write
  then show ?thesis using assms enqueue_write_failed [of env now k data q] by blast
next
  case no_rename
  then show ?thesis using assms enqueue_rename_failed [of env now k data q] by blast
qed

text \<open>A flood of operational reports cannot push out a protected one: as long as the
  protected reports alone fit into the queue, \<open>Enqueue\<close> evicts none of them, whatever
  the number of script, task or telemetry reports, and whatever the disk does.\<close>

theorem flood_keeps_protected:
  assumes "dir_ok (q_dir q)"
    and "int (length (filter (\<lambda>f. \<not> is_evictable_first (file_kind f))
           (list_names (put_new now k data q)))) \<le> q_max q"
    and "f \<in> set (list_names (q_dir q))" and "\<not> is_evictable_first (file_kind f)"
  shows "f \<in> set (list_names (q_dir (fst (enqueue env now k data q))))"
proof (rule ccontr)
  assume gone: "\<not> ?thesis"
  let ?files = "list_names (put_new now k data q)"
  have over: "0 < q_max q" "q_max q < int (length ?files)"
    and f: "f \<in> set (victims (nat (int (length ?files) - q_max q)) (new_name now (q_seq q + 1) k) ?files)"
    using enqueue_loss_overflow [OF assms(3) gone] by (simp_all add: Let_def)
  have "length ?files = nat (int (length ?files) - q_max q) + nat (q_max q)"
    using over by simp
  moreover have "distinct ?files" using assms(1) by (simp add: dir_ok_put_new distinct_list_names)
  ultimately show False
    using victims_no_protected [OF _ new_name_in_put_new _ _ assms(4)] assms(2) over f by fastforce
qed

subsection \<open>The life of a queue\<close>

text \<open>
  \<open>Run\<close>, \<open>FlushOnce\<close> and the producers interleave whole operations, because of the
  mutex: a run of the queue is a list of events.  The tick and the trigger both flush.
\<close>

datatype ob_event =
    EvEnqueue io nanos string string
  | EvFlush "nat \<Rightarrow> bool" "nat \<Rightarrow> string \<Rightarrow> string \<Rightarrow> bool" io nanos

fun ob_step :: "ob_event \<Rightarrow> queue \<Rightarrow> queue \<times> (string \<times> bool) list" where
  "ob_step (EvEnqueue env now k data) q = (fst (enqueue env now k data q), [])"
| "ob_step (EvFlush ctx disp env now) q = flush ctx disp env now (q\<lparr>q_trigger := False\<rparr>)"

fun ob_run :: "ob_event list \<Rightarrow> queue \<Rightarrow> queue \<times> (string \<times> bool) list" where
  "ob_run [] q = (q, [])"
| "ob_run (e # es) q =
     (let (q1, tr1) = ob_step e q; (q2, tr2) = ob_run es q1 in (q2, tr1 @ tr2))"

text \<open>The reasons for which an event may drop the file \<open>n\<close> without delivering it.\<close>

fun drop_cause :: "ob_event \<Rightarrow> queue \<Rightarrow> string \<Rightarrow> bool" where
  "drop_cause (EvEnqueue env now k data) q n \<longleftrightarrow>
     (let files = list_names (put_new now k data q) in 0 < q_max q \<and> q_max q < int (length files) \<and>
       n \<in> set (victims (nat (int (length files) - q_max q)) (new_name now (q_seq q + 1) k) files))"
| "drop_cause (EvFlush ctx disp env now) q n \<longleftrightarrow>
     expired now q n \<or> read_entry (io_read env) n (q_dir q) = None"

lemma dir_ok_limit: "dir_ok (q_dir q) \<Longrightarrow> dir_ok (q_dir (fst (enforce_limit env nm q)))"
  by (auto simp: enforce_limit_def Let_def)

lemma dir_ok_enqueue:
  assumes "dir_ok (q_dir q)"
  shows "dir_ok (q_dir (fst (enqueue env now k data q)))"
proof (cases rule: enqueue_cases [where env = env and q = q and now = now and k = k and data = data])
  case fits
  then show ?thesis using assms enqueue_fits [of env q now k data] by (simp add: dir_ok_put_new)
next
  case overflow
  then show ?thesis
    using assms enqueue_overflow [of env q now k data] by (auto simp: Let_def dir_ok_put_new)
next
  case no_write
  then show ?thesis using assms
    by (cases "io_write env") (auto simp: enqueue_def Let_def note_io_failure_def)
next
  case no_rename
  then show ?thesis using assms by (auto simp: enqueue_def Let_def note_io_failure_def)
qed

lemma dir_ok_flush: "dir_ok (q_dir q) \<Longrightarrow> dir_ok (q_dir (fst (flush ctx disp env now q)))"
  by (cases "io_list env") (simp_all add: flush_unfold drain_dir_ok, simp add: flush_def note_io_failure_def)

lemma dir_ok_ob_step: "dir_ok (q_dir q) \<Longrightarrow> dir_ok (q_dir (fst (ob_step e q)))"
  by (cases e) (simp_all add: dir_ok_enqueue dir_ok_flush)

lemma ob_step_accounts:
  assumes "dir_ok (q_dir q)" and "n \<in> set (list_names (q_dir q))"
    and "n \<notin> set (list_names (q_dir (fst (ob_step e q))))"
  shows "(n, True) \<in> set (snd (ob_step e q)) \<or> drop_cause e q n"
proof (cases e)
  case (EvEnqueue env now k data)
  with assms show ?thesis using enqueue_loss_overflow [of n q env now k data] by simp
next
  case (EvFlush ctx disp env now)
  let ?q = "q\<lparr>q_trigger := False\<rparr>"
  have "expired now ?q n = expired now q n" by (simp add: expired_def cong: option.case_cong)
  with EvFlush assms show ?thesis
    using flush_conserves [of ?q ctx disp env now "fst (flush ctx disp env now ?q)"
        "snd (flush ctx disp env now ?q)" n] by simp
qed

text \<open>Claim C33.  Over any sequence of enqueues and flushes, with any disk failures, a report
  that is in the queue and later no longer in it was delivered, or was dropped by one of the
  stated rules (overflow victim, retention, undecodable file) at a definite event of the run.\<close>

theorem run_accounts_for_reports:
  assumes "dir_ok (q_dir q)" and "n \<in> set (list_names (q_dir q))"
    and "n \<notin> set (list_names (q_dir (fst (ob_run es q))))"
  shows "(n, True) \<in> set (snd (ob_run es q)) \<or>
    (\<exists>es1 e es2. es = es1 @ e # es2 \<and> drop_cause e (fst (ob_run es1 q)) n)"
  using assms
proof (induction es arbitrary: q)
  case Nil
  then show ?case by simp
next
  case (Cons e es)
  show ?case
  proof (cases "n \<in> set (list_names (q_dir (fst (ob_step e q))))")
    case True
    have "(n, True) \<in> set (snd (ob_run es (fst (ob_step e q)))) \<or>
        (\<exists>es1 e' es2. es = es1 @ e' # es2 \<and> drop_cause e' (fst (ob_run es1 (fst (ob_step e q)))) n)"
      using Cons.IH [OF dir_ok_ob_step [OF Cons.prems(1)] True] Cons.prems(3)
      by (simp add: Let_def split_beta)
    then consider (sent) "(n, True) \<in> set (snd (ob_run es (fst (ob_step e q))))"
      | (dropped) es1 e' es2 where "es = es1 @ e' # es2"
          "drop_cause e' (fst (ob_run es1 (fst (ob_step e q)))) n"
      by blast
    then show ?thesis
    proof cases
      case sent
      then show ?thesis by (simp add: Let_def split_beta)
    next
      case dropped
      then have "e # es = (e # es1) @ e' # es2 \<and> drop_cause e' (fst (ob_run (e # es1) q)) n"
        by (simp add: Let_def split_beta)
      then show ?thesis by blast
    qed
  next
    case False
    with Cons.prems ob_step_accounts [of q n e]
    have "(n, True) \<in> set (snd (ob_step e q)) \<or> drop_cause e (fst (ob_run [] q)) n" by simp
    then show ?thesis by (auto simp: Let_def split_beta intro: exI [of _ "[]"])
  qed
qed

text \<open>The head of the queue that cannot be read at this moment (\<open>os.ReadFile\<close> fails) is
  removed by the flush without any delivery attempt, of whatever kind it is: the code treats a
  failed read like an undecodable file.\<close>

theorem unreadable_head_is_lost:
  assumes "io_list env" and "list_names (q_dir (enforce_age env now q)) = f # fs" and "distinct (f # fs)"
    and "\<not> ctx 0" and "\<not> io_read env f" and "io_remove env f"
  shows "f \<notin> set (list_names (q_dir (fst (flush ctx disp env now q)))) \<and>
    (\<forall>b. (f, b) \<notin> set (snd (flush ctx disp env now q)))"
proof -
  let ?d = "remove_files (io_remove env) [f] (q_dir (enforce_age env now q))"
  have dr: "drain ctx disp env 0 (f # fs) (q_dir (enforce_age env now q)) = drain ctx disp env 1 fs ?d"
    using assms by (simp add: read_entry_def)
  have "f \<notin> set (list_names (fst (drain ctx disp env 1 fs ?d)))"
    using drain_listed_subset [of f ctx disp env 1 fs ?d] assms(6) by (auto simp: listing_simps)
  moreover have "(f, b) \<notin> set (snd (drain ctx disp env 1 fs ?d))" for b
    using assms(3) by (auto dest: drain_trace_subset)
  ultimately show ?thesis using assms(1,2) dr by (simp add: flush_unfold)
qed

text \<open>The name of a file carries the time and the kind of its report, and the listing
  order of two names is the order of the enqueues.\<close>

theorem name_roundtrip_and_order:
  assumes "0 \<le> t1" "t1 < 2 ^ 63" "0 \<le> t2" "t2 < 2 ^ 63"
    and "unat n1 < 10 ^ 12" "unat n2 < 10 ^ 12" and "k1 \<in> set all_kinds"
  shows "file_time (new_name t1 n1 k1) = Some t1 \<and> file_kind (new_name t1 n1 k1) = k1 \<and>
    (t1 < t2 \<or> (t1 = t2 \<and> n1 < n2) \<longrightarrow> new_name t1 n1 k1 < new_name t2 n2 k2)"
  using assms by (simp add: file_time_new_name file_kind_new_name new_name_less)

subsection \<open>The queue as a durable store\<close>

text \<open>The contract of \<^theory_text>\<open>durable_put\<close> holds for \<^const>\<open>enqueue\<close>, the disk and the
  clock being part of the request.\<close>

definition ob_put :: "queue \<Rightarrow> io \<times> nanos \<times> string \<times> string \<Rightarrow> queue \<times> ob_err option" where
  "ob_put q r = (case r of (env, now, k, data) \<Rightarrow> enqueue env now k data q)"

definition ob_stored :: "queue \<Rightarrow> io \<times> nanos \<times> string \<times> string \<Rightarrow> bool" where
  "ob_stored q r = (case r of (env, now, k, data) \<Rightarrow> holds q k data)"

interpretation outbox: durable_put ob_put ob_stored
  by unfold_locales (auto simp: ob_put_def ob_stored_def enqueue_accepted_holds)

subsection \<open>Concrete runs\<close>

definition io_fine :: io where
  "io_fine = \<lparr>io_write = WOk, io_rename = True, io_list = True, io_remove = (\<lambda>_. True),
     io_read = (\<lambda>_. True), io_msg = []\<rparr>"

definition q_empty :: queue where
  "q_empty = \<lparr>q_dir = [], q_max = 2, q_max_age = 0, q_interval = 30 * second, q_seq = 0,
     q_trigger = False, q_ioerr = None\<rparr>"

definition q_file :: string where "q_file = ''1-1-lock.json''"

definition q_one :: queue where
  "q_one = q_empty\<lparr>q_dir := [(q_file, DFile (FEntry \<lparr>e_kind = KindLock, e_data = ''x'', e_enqueued_at = 1\<rparr>))]\<rparr>"

lemmas demo_defs = io_fine_def q_empty_def q_one_def q_file_def kind_defs

lemma demo_listing: "dir_ok (q_dir q_one)" "list_names (q_dir q_one) = [q_file]"
  by (simp_all add: demo_defs dir_ok_def list_names_def suffix_def)

lemma enqueue_nil_iff_durable_witness:
  "snd (enqueue io_fine 5 KindScript ''y'' q_one) = None \<longleftrightarrow>
     new_name 5 1 KindScript \<in> set (list_names (q_dir (fst (enqueue io_fine 5 KindScript ''y'' q_one))))"
proof -
  have "new_name 5 (q_seq q_one + 1) KindScript \<notin> set (list_names (q_dir q_one))" by code_simp
  moreover have "io_remove io_fine (new_name 5 (q_seq q_one + 1) KindScript)" by code_simp
  ultimately show ?thesis
    using enqueue_nil_iff_durable [of 5 q_one KindScript io_fine "''y''"] by (simp add: demo_defs)
qed

lemma enqueue_within_max_witness:
  "int (length (list_names (q_dir (fst (enqueue io_fine 5 KindScript ''y'' q_one))))) \<le> 2"
proof -
  have "q_max q_one = 2" "dir_ok (q_dir q_one)" by code_simp+
  then show ?thesis
    using enqueue_within_max [of q_one io_fine 5 KindScript "''y''"] by (simp add: io_fine_def)
qed

text \<open>A full queue: two files, a limit of two; the script goes, the lock report stays.\<close>

definition q_script :: string where "q_script = ''2-2-script.json''"

definition q_full :: queue where
  "q_full = q_empty\<lparr>q_dir :=
     [(q_file, DFile (FEntry \<lparr>e_kind = KindLock, e_data = ''x'', e_enqueued_at = 1\<rparr>)),
      (q_script, DFile (FEntry \<lparr>e_kind = KindScript, e_data = ''y'', e_enqueued_at = 2\<rparr>))]\<rparr>"

lemma eviction_spares_protected_witness:
  "\<not> is_evictable_first (file_kind q_file) \<and> is_evictable_first (file_kind q_script)"
proof -
  have "q_script \<in> set (list_names (q_dir q_full)) \<and> q_script \<noteq> new_name 5 1 KindScript \<and>
      q_script \<notin> set (list_names (q_dir (fst (enqueue io_fine 5 KindScript ''z'' q_full)))) \<and>
      q_file \<in> set (list_names (q_dir (fst (enqueue io_fine 5 KindScript ''z'' q_full)))) \<and>
      q_file \<noteq> new_name 5 1 KindScript \<and> dir_ok (q_dir q_full) \<and> q_seq q_full + 1 = 1"
    by code_simp
  moreover have "\<not> is_evictable_first (file_kind q_file)" by code_simp
  moreover have "\<not> q_script < q_file" by code_simp
  moreover have "\<forall>f. io_remove io_fine f" by (simp add: io_fine_def)
  ultimately show ?thesis
    using eviction_spares_protected [of q_full io_fine q_script 5 KindScript "''z''" q_file] 
    by (auto; code_simp)
qed

lemma flood_keeps_protected_witness:
  "q_file \<in> set (list_names (q_dir (fst (enqueue io_fine 5 KindScript ''z'' q_full))))"
  by (rule flood_keeps_protected; code_simp)

lemma run_accounts_for_reports_witness:
  "let es = [EvEnqueue io_fine 5 KindScript ''z''] in
   (q_script, True) \<in> set (snd (ob_run es q_full)) \<or>
    (\<exists>es1 e es2. es = es1 @ e # es2 \<and> drop_cause e (fst (ob_run es1 q_full)) q_script)"
  unfolding Let_def by (rule run_accounts_for_reports; code_simp)

lemma flush_fifo_witness:
  "sorted_wrt (<) (map fst (snd (flush (\<lambda>_. False) (\<lambda>i _ _. i = 0) io_fine 9 q_full)))"
  using flush_fifo [of q_full "\<lambda>_. False" "\<lambda>i _ _. i = 0" io_fine 9
      "fst (flush (\<lambda>_. False) (\<lambda>i _ _. i = 0) io_fine 9 q_full)"
      "snd (flush (\<lambda>_. False) (\<lambda>i _ _. i = 0) io_fine 9 q_full)"]
  by (simp add: dir_ok_def q_full_def q_file_def q_script_def)

lemma flush_delivers_all_witness:
  "list_names (q_dir (fst (flush (\<lambda>_. False) (\<lambda>_ _ _. True) io_fine 9 q_full))) = []"
proof -
  have "dir_ok (q_dir q_full)" by code_simp
  moreover have "\<forall>f \<in> set (list_names (q_dir q_full)). read_entry (io_read io_fine) f (q_dir q_full) \<noteq> None"
    by code_simp
  ultimately show ?thesis
    using flush_delivers_all [of q_full io_fine "\<lambda>_. False" "\<lambda>_ _ _. True" 9] by (simp add: io_fine_def)
qed

lemma unreadable_head_is_lost_witness:
  "q_file \<notin> set (list_names (q_dir (fst (flush (\<lambda>_. False) (\<lambda>_ _ _. True)
      (io_fine\<lparr>io_read := \<lambda>_. False\<rparr>) 9 q_full))))"
proof -
  have "list_names (q_dir (enforce_age (io_fine\<lparr>io_read := \<lambda>_. False\<rparr>) 9 q_full)) = q_file # [q_script]"
    by code_simp
  moreover have "distinct [q_file, q_script]" by code_simp
  ultimately show ?thesis
    using unreadable_head_is_lost [of "io_fine\<lparr>io_read := \<lambda>_. False\<rparr>" 9 q_full q_file "[q_script]"
        "\<lambda>_. False" "\<lambda>_ _ _. True"]
    by (simp add: io_fine_def)
qed

lemma name_roundtrip_and_order_witness:
  "file_time (new_name 7 1 KindLock) = Some 7 \<and> new_name 7 1 KindLock < new_name 8 1 KindTask"
  using name_roundtrip_and_order [of 7 8 1 1 KindLock KindTask] by (simp add: all_kinds_def)

end
