(* ===== verification/LockManager.thy ===== *)
theory LockManager
  imports Contracts
begin

section \<open>The device lock\<close>

text \<open>
  Model of \<open>internal/agent/lock/lock.go\<close>: the lock manager that keeps a device locked
  across restarts, takes it down on the right password or on the server's order, and restores
  the lock when somebody edits its state file.

  The record \<open>lm\<close> is the manager with the files it owns: the state in memory, the state
  file \<open>lock.json\<close> (which the employee's session can write), the durable memory of the last
  lock taken down locally, and the calls made to the overlay.  The third-party
  \<open>bcrypt\<close> package is a pair of parameters, \<open>bcost\<close> (\<open>bcrypt.Cost\<close> succeeds)
  and \<open>bcheck\<close> (\<open>CompareHashAndPassword\<close> succeeds).  Outcomes of system calls and the
  clock are arguments.  JSON is modelled at the level of parsed documents, with Go's decoding
  rules: keys match exactly or up to letter case, the last duplicate wins, \<open>null\<close> changes
  nothing, a value of the wrong type is an error that does not stop the decoding of the rest.
\<close>

subsection \<open>State and its JSON form\<close>

record lstate =
  locked :: bool
  hash :: string
  reason :: string
  request_id :: string
  locked_at :: unixtime
  last_unlocked_hash :: string

definition zero_state :: lstate where
  "zero_state = \<lparr>locked = False, hash = [], reason = [], request_id = [], locked_at = 0,
     last_unlocked_hash = []\<rparr>"

datatype jv = JNull | JBool bool | JStr string | JInt int | JFrac | JList | JMap
datatype jdoc = JMalformed | JScalar jv | JObject "(string \<times> jv) list"

definition f_locked :: string where "f_locked = ''locked''"
definition f_hash :: string where "f_hash = ''hash''"
definition f_reason :: string where "f_reason = ''reason''"
definition f_request_id :: string where "f_request_id = ''request_id''"
definition f_locked_at :: string where "f_locked_at = ''locked_at''"
definition f_last_unlocked :: string where "f_last_unlocked = ''last_unlocked_hash''"

lemmas field_defs = f_locked_def f_hash_def f_reason_def f_request_id_def f_locked_at_def
  f_last_unlocked_def

definition set_str :: "((string \<Rightarrow> string) \<Rightarrow> lstate \<Rightarrow> lstate) \<Rightarrow> jv \<Rightarrow> lstate \<Rightarrow> lstate \<times> bool" where
  "set_str upd v s = (case v of JNull \<Rightarrow> (s, True) | JStr x \<Rightarrow> (upd (\<lambda>_. x) s, True) | _ \<Rightarrow> (s, False))"

text \<open>One member of the object into its field; the flag is whether the types agree.\<close>

definition decode_member :: "string \<Rightarrow> jv \<Rightarrow> lstate \<Rightarrow> lstate \<times> bool" where
  "decode_member k v s =
     (if equal_fold k f_locked then
        (case v of JNull \<Rightarrow> (s, True) | JBool b \<Rightarrow> (s\<lparr>locked := b\<rparr>, True) | _ \<Rightarrow> (s, False))
      else if equal_fold k f_hash then set_str hash_update v s
      else if equal_fold k f_reason then set_str reason_update v s
      else if equal_fold k f_request_id then set_str request_id_update v s
      else if equal_fold k f_locked_at then
        (case v of JNull \<Rightarrow> (s, True)
         | JInt i \<Rightarrow> if int64_range i then (s\<lparr>locked_at := i\<rparr>, True) else (s, False)
         | _ \<Rightarrow> (s, False))
      else if equal_fold k f_last_unlocked then set_str last_unlocked_hash_update v s
      else (s, True))"

fun decode_members :: "(string \<times> jv) list \<Rightarrow> lstate \<Rightarrow> lstate \<times> bool" where
  "decode_members [] s = (s, True)"
| "decode_members ((k, v) # ms) s =
     (let (s1, ok1) = decode_member k v s; (s2, ok2) = decode_members ms s1 in (s2, ok1 \<and> ok2))"

text \<open>\<open>json.Unmarshal\<close> into a state: the state after it, and whether the error is nil.\<close>

definition unmarshal_state :: "jdoc \<Rightarrow> lstate \<Rightarrow> lstate \<times> bool" where
  "unmarshal_state d s = (case d of
     JMalformed \<Rightarrow> (s, False)
   | JScalar v \<Rightarrow> (s, v = JNull)
   | JObject ms \<Rightarrow> decode_members ms s)"

definition marshal_state :: "lstate \<Rightarrow> jdoc" where
  "marshal_state s = JObject ([(f_locked, JBool (locked s)), (f_hash, JStr (hash s)),
     (f_reason, JStr (reason s)), (f_request_id, JStr (request_id s)),
     (f_locked_at, JInt (locked_at s))] @
     (if last_unlocked_hash s = [] then [] else [(f_last_unlocked, JStr (last_unlocked_hash s))]))"

subsection \<open>Files\<close>

text \<open>Result of \<open>os.ReadFile\<close>: the file may be missing, or present and unreadable now.\<close>

definition read_state :: "bool \<Rightarrow> jdoc option \<Rightarrow> lstate \<times> bool" where
  "read_state rd_ok f = (case f of
     None \<Rightarrow> (zero_state, False)
   | Some d \<Rightarrow> if rd_ok then unmarshal_state d zero_state else (zero_state, False))"

text \<open>The step at which \<open>writeStateAtomic\<close> fails, if any: the target is replaced by the
  final rename only, so a failure at any step leaves it as it was.\<close>

datatype wstep = FailMkdir | FailTemp | FailWrite | FailClose | FailRename

definition write_state_atomic :: "wstep option \<Rightarrow> lstate \<Rightarrow> jdoc option \<Rightarrow> jdoc option \<times> wstep option" where
  "write_state_atomic w s f = (case w of None \<Rightarrow> (Some (marshal_state s), None) | Some e \<Rightarrow> (f, Some e))"

definition clear_state :: "wstep option \<Rightarrow> jdoc option \<Rightarrow> jdoc option \<times> wstep option" where
  "clear_state w f = write_state_atomic w zero_state f"

subsection \<open>The manager\<close>

datatype ui = Show string | Hide | Reassert

record lm =
  mem :: lstate
  lock_file :: "jdoc option"
  durable :: "string option"
  durable_on :: bool
  reporter :: bool
  reasserts :: bool
  cooldown :: nanos
  next_report :: nanos
  calls :: "ui list"

definition tamper_report_interval :: nanos where "tamper_report_interval = 15 * minute"
definition tamper_retry_interval :: nanos where "tamper_retry_interval = minute"
definition max_logged_marker :: nat where "max_logged_marker = 64"

text \<open>A manager created by \<open>New\<close> over files that exist already.\<close>

definition new_manager :: "jdoc option \<Rightarrow> string option \<Rightarrow> bool \<Rightarrow> bool \<Rightarrow> bool \<Rightarrow> lm" where
  "new_manager f d don rep rea = \<lparr>mem = zero_state, lock_file = f, durable = d, durable_on = don,
     reporter = rep, reasserts = rea, cooldown = tamper_report_interval, next_report = 0, calls = []\<rparr>"

definition emit :: "ui \<Rightarrow> lm \<Rightarrow> lm" where
  "emit u m = m\<lparr>calls := calls m @ [u]\<rparr>"

datatype lock_err = EmptyHash | NotBcrypt | PersistFailed wstep

definition validate_bcrypt_hash :: "(string \<Rightarrow> bool) \<Rightarrow> string \<Rightarrow> lock_err option" where
  "validate_bcrypt_hash bcost h =
     (if h = [] then Some EmptyHash else if \<not> bcost h then Some NotBcrypt else None)"

definition read_durable_unlocked :: "bool \<Rightarrow> lm \<Rightarrow> string" where
  "read_durable_unlocked rd_ok m =
     (if \<not> durable_on m \<or> \<not> rd_ok then []
      else case durable m of None \<Rightarrow> [] | Some b \<Rightarrow> trim_space b)"

definition write_durable_unlocked :: "dwrite \<Rightarrow> string \<Rightarrow> lm \<Rightarrow> lm" where
  "write_durable_unlocked w h m =
     (if \<not> durable_on m then m else m\<lparr>durable := write_file w h (durable m)\<rparr>)"

definition clear_last_unlocked :: "bool \<Rightarrow> lm \<Rightarrow> lm" where
  "clear_last_unlocked rm_ok m =
     (let m1 = m\<lparr>mem := (mem m)\<lparr>last_unlocked_hash := []\<rparr>\<rparr>
      in if durable_on m \<and> rm_ok then m1\<lparr>durable := None\<rparr> else m1)"

definition persist :: "wstep option \<Rightarrow> lm \<Rightarrow> lm \<times> wstep option" where
  "persist w m = (let (f, e) = write_state_atomic w (mem m) (lock_file m) in (m\<lparr>lock_file := f\<rparr>, e))"

text \<open>\<open>Load\<close>; the second result is whether it returned nil.\<close>

definition load :: "bool \<Rightarrow> bool \<Rightarrow> lm \<Rightarrow> lm \<times> bool" where
  "load dur_ok rd_ok m =
     (let d = read_durable_unlocked dur_ok m;
          m1 = m\<lparr>mem := (mem m)\<lparr>last_unlocked_hash := d\<rparr>\<rparr>
      in case lock_file m of
           None \<Rightarrow> (m1, True)
         | Some doc \<Rightarrow>
             if \<not> rd_ok then (m1, False)
             else (let (s, ok) = unmarshal_state doc (mem m1) in
               if \<not> ok then (m1\<lparr>mem := s\<rparr>, False)
               else (let m2 = m1\<lparr>mem := s\<lparr>last_unlocked_hash := d\<rparr>\<rparr>
                     in (if locked s then emit (Show (reason s)) m2 else m2, True))))"

definition lock :: "(string \<Rightarrow> bool) \<Rightarrow> unixtime \<Rightarrow> wstep option \<Rightarrow> string \<Rightarrow> string \<Rightarrow> string
    \<Rightarrow> lm \<Rightarrow> lm \<times> lock_err option" where
  "lock bcost now w rid h rsn m =
     (case validate_bcrypt_hash bcost h of
        Some e \<Rightarrow> (m, Some e)
      | None \<Rightarrow>
          if locked (mem m) \<and> request_id (mem m) = rid then (m, None)
          else
            (let prev = mem m;
                 m1 = m\<lparr>mem := \<lparr>locked = True, hash = h, reason = rsn, request_id = rid,
                        locked_at = now, last_unlocked_hash = []\<rparr>\<rparr>
             in case persist w m1 of
                  (m2, Some e) \<Rightarrow> (m2\<lparr>mem := prev\<rparr>, Some (PersistFailed e))
                | (m2, None) \<Rightarrow> (emit (Show rsn) m2, None)))"

definition unlock_locked :: "dwrite \<Rightarrow> wstep option \<Rightarrow> lm \<Rightarrow> lm \<times> wstep option" where
  "unlock_locked dw w m =
     (if \<not> locked (mem m) then (m, None)
      else
        (let h = hash (mem m);
             m1 = m\<lparr>mem := zero_state\<lparr>last_unlocked_hash := h\<rparr>\<rparr>;
             m2 = write_durable_unlocked dw h m1;
             (m3, e) = persist w m2
         in (emit Hide m3, e)))"

definition unlock :: "dwrite \<Rightarrow> wstep option \<Rightarrow> lm \<Rightarrow> lm \<times> wstep option" where
  "unlock dw w m = unlock_locked dw w m"

definition verify :: "(string \<Rightarrow> string \<Rightarrow> bool) \<Rightarrow> dwrite \<Rightarrow> wstep option \<Rightarrow> string \<Rightarrow> lm \<Rightarrow> lm \<times> bool" where
  "verify bcheck dw w pw m =
     (if \<not> locked (mem m) then (m, True)
      else if \<not> bcheck (hash (mem m)) pw then (m, False)
      else (fst (unlock_locked dw w m), True))"

subsection \<open>Requests to unlock, and the watch over the state file\<close>

text \<open>
  A directory entry next to the state file, with the outcome of reading it.  \<open>rq_gone\<close> is
  whether its removal succeeded.
\<close>

record rqentry =
  rq_name :: string
  rq_dir :: bool
  rq_doc :: "jdoc option"
  rq_gone :: bool

definition unlock_request_prefix :: string where "unlock_request_prefix = ''unlock-request-''"

fun decode_password :: "(string \<times> jv) list \<Rightarrow> string \<Rightarrow> string option" where
  "decode_password [] p = Some p"
| "decode_password ((k, v) # ms) p =
     (if equal_fold k ''password'' then
        (case v of JNull \<Rightarrow> decode_password ms p | JStr x \<Rightarrow> decode_password ms x | _ \<Rightarrow> None)
      else decode_password ms p)"

definition unmarshal_request :: "jdoc \<Rightarrow> string option" where
  "unmarshal_request d = (case d of
     JMalformed \<Rightarrow> None | JScalar v \<Rightarrow> if v = JNull then Some [] else None
   | JObject ms \<Rightarrow> decode_password ms [])"

text \<open>The file a client of the daemon writes; \<open>rnd\<close> is the random part of its name.\<close>

definition write_unlock_request :: "wstep option \<Rightarrow> string \<Rightarrow> string \<Rightarrow> rqentry option" where
  "write_unlock_request w rnd pw = (case w of
     Some _ \<Rightarrow> None
   | None \<Rightarrow> Some \<lparr>rq_name = unlock_request_prefix @ rnd @ ''.json'', rq_dir = False,
        rq_doc = Some (JObject [(''password'', JStr pw)]), rq_gone = True\<rparr>)"

definition process_entry :: "(string \<Rightarrow> string \<Rightarrow> bool) \<Rightarrow> dwrite \<Rightarrow> wstep option \<Rightarrow> rqentry \<Rightarrow> lm
    \<Rightarrow> lm \<times> (string \<times> string) list" where
  "process_entry bcheck dw w e m =
     (if rq_dir e \<or> \<not> prefix unlock_request_prefix (rq_name e) then (m, [])
      else case rq_doc e of
        None \<Rightarrow> (m, [])
      | Some d \<Rightarrow>
          (case unmarshal_request d of
             None \<Rightarrow> (m, [])
           | Some pw \<Rightarrow>
               if request_id (mem m) = [] then (m, [])
               else (let rid = request_id (mem m); h = hash (mem m);
                         (m', ok) = verify bcheck dw w pw m
                     in (m', if ok then [(rid, h)] else []))))"

text \<open>All entries of one listing; the result is the callbacks \<open>onUnlock(reqID, hash)\<close> made.\<close>

fun process_unlock_requests :: "(string \<Rightarrow> string \<Rightarrow> bool) \<Rightarrow> dwrite \<Rightarrow> wstep option \<Rightarrow> rqentry list \<Rightarrow> lm
    \<Rightarrow> lm \<times> (string \<times> string) list" where
  "process_unlock_requests bcheck dw w [] m = (m, [])"
| "process_unlock_requests bcheck dw w (e # es) m =
     (let (m1, c1) = process_entry bcheck dw w e m;
          (m2, c2) = process_unlock_requests bcheck dw w es m1
      in (m2, c1 @ c2))"

definition remaining_requests :: "rqentry list \<Rightarrow> rqentry list" where
  "remaining_requests es =
     filter (\<lambda>e. rq_dir e \<or> \<not> prefix unlock_request_prefix (rq_name e) \<or> \<not> rq_gone e) es"

datatype tamper_kind = MarkerEmpty | MarkerCopiedHash | MarkerOther

definition classify_tamper_marker :: "string \<Rightarrow> string \<Rightarrow> tamper_kind" where
  "classify_tamper_marker marker active =
     (if marker = [] then MarkerEmpty else if marker = active then MarkerCopiedHash else MarkerOther)"

text \<open>The note appended to a cut marker is UTF-8 text, the ellipsis being three bytes; only its
  length and the number in it matter, so the Cyrillic words are parameters of the text.\<close>

definition truncate_marker :: "string \<Rightarrow> string \<Rightarrow> string \<Rightarrow> string" where
  "truncate_marker pre post s =
     (if length s \<le> max_logged_marker then s
      else take max_logged_marker s @ pre @ dec (length s) @ post)"

record tamper_env =
  te_now :: nanos
  te_retry_now :: nanos
  te_read_ok :: bool
  te_persist :: "wstep option"
  te_report_ok :: bool

definition detect_offline_unlock :: "tamper_env \<Rightarrow> lm \<Rightarrow> lm \<times> (tamper_kind \<times> nat) option" where
  "detect_offline_unlock env m =
     (if \<not> locked (mem m) then (m, None)
      else let (st, ok) = read_state (te_read_ok env) (lock_file m) in
        if \<not> ok \<or> locked st then (m, None)
        else
          (let kind = classify_tamper_marker (last_unlocked_hash st) (hash (mem m));
               len = length (last_unlocked_hash st);
               rep = (reporter m \<and> next_report m \<le> te_now env);
               m1 = (if rep then m\<lparr>next_report := te_now env + cooldown m\<rparr> else m);
               (m2, _) = persist (te_persist env) m1;
               m3 = (if rep \<and> \<not> te_report_ok env
                     then m2\<lparr>next_report := te_retry_now env + tamper_retry_interval\<rparr> else m2);
               m4 = (if reasserts m3 then emit Reassert m3 else m3)
           in (m4, if rep then Some (kind, len) else None)))"

subsection \<open>JSON round trip\<close>

lemma field_names_distinct [simp]:
  "\<not> equal_fold f_hash f_locked" "\<not> equal_fold f_reason f_locked" "\<not> equal_fold f_reason f_hash"
  "\<not> equal_fold f_request_id f_locked" "\<not> equal_fold f_request_id f_hash"
  "\<not> equal_fold f_request_id f_reason" "\<not> equal_fold f_locked_at f_locked"
  "\<not> equal_fold f_locked_at f_hash" "\<not> equal_fold f_locked_at f_reason"
  "\<not> equal_fold f_locked_at f_request_id" "\<not> equal_fold f_last_unlocked f_locked"
  "\<not> equal_fold f_last_unlocked f_hash" "\<not> equal_fold f_last_unlocked f_reason"
  "\<not> equal_fold f_last_unlocked f_request_id" "\<not> equal_fold f_last_unlocked f_locked_at"
  by (simp_all add: equal_fold_def to_lower_def field_defs lower_char_def Let_def)

lemma decode_fields [simp]:
  "decode_member f_locked (JBool b) s = (s\<lparr>locked := b\<rparr>, True)"
  "decode_member f_hash (JStr x) s = (s\<lparr>hash := x\<rparr>, True)"
  "decode_member f_reason (JStr x) s = (s\<lparr>reason := x\<rparr>, True)"
  "decode_member f_request_id (JStr x) s = (s\<lparr>request_id := x\<rparr>, True)"
  "int64_range i \<Longrightarrow> decode_member f_locked_at (JInt i) s = (s\<lparr>locked_at := i\<rparr>, True)"
  "decode_member f_last_unlocked (JStr x) s = (s\<lparr>last_unlocked_hash := x\<rparr>, True)"
  by (simp_all add: decode_member_def set_str_def)

lemma unmarshal_marshal:
  "int64_range (locked_at s) \<Longrightarrow> unmarshal_state (marshal_state s) t =
     (if last_unlocked_hash s = [] then s\<lparr>last_unlocked_hash := last_unlocked_hash t\<rparr> else s, True)"
  by (simp add: unmarshal_state_def marshal_state_def)

lemma read_marshal: "int64_range (locked_at s) \<Longrightarrow> read_state True (Some (marshal_state s)) = (s, True)"
  by (simp add: read_state_def unmarshal_marshal zero_state_def)

subsection \<open>One operation\<close>

lemma persist_simps [simp]:
  "persist None m = (m\<lparr>lock_file := Some (marshal_state (mem m))\<rparr>, None)"
  "persist (Some e) m = (m, Some e)"
  by (simp_all add: persist_def write_state_atomic_def)

lemma mem_emit [simp]: "mem (emit u m) = mem m" "lock_file (emit u m) = lock_file m"
    "durable (emit u m) = durable m" "next_report (emit u m) = next_report m"
    "cooldown (emit u m) = cooldown m" "calls (emit u m) = calls m @ [u]"
    "durable_on (emit u m) = durable_on m"
  by (simp_all add: emit_def)

lemma mem_write_durable [simp]: "mem (write_durable_unlocked dw h m) = mem m"
    "lock_file (write_durable_unlocked dw h m) = lock_file m"
    "next_report (write_durable_unlocked dw h m) = next_report m"
    "cooldown (write_durable_unlocked dw h m) = cooldown m"
    "calls (write_durable_unlocked dw h m) = calls m"
  by (simp_all add: write_durable_unlocked_def)

lemma mem_persist [simp]: "mem (fst (persist w m)) = mem m" "next_report (fst (persist w m)) = next_report m"
    "cooldown (fst (persist w m)) = cooldown m" "durable (fst (persist w m)) = durable m"
  by (cases w; simp)+

lemma unlock_locked_mem:
  "mem (fst (unlock_locked dw w m)) =
     (if locked (mem m) then zero_state\<lparr>last_unlocked_hash := hash (mem m)\<rparr> else mem m)"
  by (cases w) (auto simp: unlock_locked_def Let_def)

lemma unlock_locked_next [simp]: "next_report (fst (unlock_locked dw w m)) = next_report m"
    "cooldown (fst (unlock_locked dw w m)) = cooldown m"
  by (cases w; auto simp: unlock_locked_def Let_def)+

lemma verify_mem: "mem (fst (verify bcheck dw w pw m)) =
    (if locked (mem m) \<and> bcheck (hash (mem m)) pw
     then zero_state\<lparr>last_unlocked_hash := hash (mem m)\<rparr> else mem m)"
  by (simp add: verify_def unlock_locked_mem)

lemma verify_wrong: "\<not> (locked (mem m) \<and> bcheck (hash (mem m)) pw) \<Longrightarrow> fst (verify bcheck dw w pw m) = m"
  by (simp add: verify_def)

lemma verify_next [simp]: "next_report (fst (verify bcheck dw w pw m)) = next_report m"
    "cooldown (fst (verify bcheck dw w pw m)) = cooldown m"
  by (auto simp: verify_def)

text \<open>The password a directory entry carries, if it is a request at all.\<close>

definition entry_password :: "rqentry \<Rightarrow> string option" where
  "entry_password e =
     (if rq_dir e \<or> \<not> prefix unlock_request_prefix (rq_name e) then None
      else Option.bind (rq_doc e) unmarshal_request)"

lemma process_entry_alt: "process_entry bcheck dw w e m = (case entry_password e of
    None \<Rightarrow> (m, [])
  | Some pw \<Rightarrow> if request_id (mem m) = [] then (m, [])
      else (fst (verify bcheck dw w pw m),
            if snd (verify bcheck dw w pw m) then [(request_id (mem m), hash (mem m))] else []))"
  by (auto simp: process_entry_def entry_password_def Let_def split: option.splits prod.splits)

lemma request_written_is_read:
  "write_unlock_request None rnd pw = Some e \<Longrightarrow> entry_password e = Some pw"
  by (auto simp: write_unlock_request_def entry_password_def unmarshal_request_def)

lemma process_requests_next [simp]:
  "next_report (fst (process_unlock_requests bcheck dw w es m)) = next_report m"
  "cooldown (fst (process_unlock_requests bcheck dw w es m)) = cooldown m"
  by (induction es arbitrary: m)
     (auto simp: process_entry_alt Let_def split_beta split: option.splits)

lemma process_unlocked_idle:
  "request_id (mem m) = [] \<Longrightarrow> process_unlock_requests bcheck dw w es m = (m, [])"
  by (induction es) (auto simp: process_entry_alt split: option.splits)

lemma process_requests_mem:
  "mem (fst (process_unlock_requests bcheck dw w es m)) \<noteq> mem m \<Longrightarrow>
   locked (mem m) \<and> (\<exists>e \<in> set es. \<exists>pw. entry_password e = Some pw \<and> bcheck (hash (mem m)) pw)"
proof (induction es arbitrary: m)
  case (Cons e es)
  let ?m1 = "fst (process_entry bcheck dw w e m)"
  show ?case
  proof (cases "\<exists>pw. entry_password e = Some pw \<and> bcheck (hash (mem m)) pw \<and> locked (mem m)")
    case True
    then show ?thesis by auto
  next
    case False
    then have "?m1 = m" by (auto simp: process_entry_alt verify_wrong split: option.splits)
    then have "fst (process_unlock_requests bcheck dw w (e # es) m) =
        fst (process_unlock_requests bcheck dw w es m)" by (simp add: Let_def split_beta)
    then show ?thesis using Cons.IH [of m] Cons.prems by auto
  qed
qed simp

text \<open>The file says unlocked while the memory says locked.\<close>

definition forged :: "tamper_env \<Rightarrow> lm \<Rightarrow> lstate \<Rightarrow> bool" where
  "forged env m st \<longleftrightarrow> locked (mem m) \<and> read_state (te_read_ok env) (lock_file m) = (st, True) \<and> \<not> locked st"

lemma detect_idle: "(\<And>st. \<not> forged env m st) \<Longrightarrow> detect_offline_unlock env m = (m, None)"
  by (auto simp: detect_offline_unlock_def forged_def Let_def split: prod.splits)

definition reports :: "tamper_env \<Rightarrow> lm \<Rightarrow> bool" where
  "reports env m \<longleftrightarrow> reporter m \<and> next_report m \<le> te_now env"

lemma detect_forged:
  assumes "forged env m st"
  shows "detect_offline_unlock env m =
    (m\<lparr>lock_file := (if te_persist env = None then Some (marshal_state (mem m)) else lock_file m),
       next_report := (if reports env m then
          (if te_report_ok env then te_now env + cooldown m else te_retry_now env + tamper_retry_interval)
          else next_report m),
       calls := calls m @ (if reasserts m then [Reassert] else [])\<rparr>,
     if reports env m then Some (classify_tamper_marker (last_unlocked_hash st) (hash (mem m)),
       length (last_unlocked_hash st)) else None)"
  using assms unfolding detect_offline_unlock_def forged_def reports_def [symmetric]
  by (cases "te_persist env"; cases "reports env m"; cases "te_report_ok env"; cases "reasserts m")
     (simp_all add: emit_def Let_def)

lemma detect_cases:
  obtains (idle) "detect_offline_unlock env m = (m, None)" "\<And>st. \<not> forged env m st"
  | (forged) st where "forged env m st"
  using detect_idle by blast

lemma detect_mem [simp]: "mem (fst (detect_offline_unlock env m)) = mem m"
    "durable (fst (detect_offline_unlock env m)) = durable m"
    "cooldown (fst (detect_offline_unlock env m)) = cooldown m"
  by (cases rule: detect_cases [where env = env and m = m]; simp add: detect_forged)+

subsection \<open>Runs of the manager\<close>

text \<open>
  The callers of the manager (the executor and the reconciler, the overlay, the tick of
  \<open>Run\<close>) run under its mutex, so a run is a sequence of events.  \<open>EvForge\<close> is the
  employee: any change of the state file at any time.
\<close>

datatype lm_event =
    EvLock string string string unixtime "wstep option"
  | EvServerUnlock dwrite "wstep option"
  | EvOverlay string dwrite "wstep option"
  | EvTick "rqentry list" dwrite "wstep option" tamper_env
  | EvClearMemory bool
  | EvForge "jdoc option"

datatype lm_out = LocalUnlock string string | Tampered nanos nanos bool tamper_kind nat

fun lm_step :: "(string \<Rightarrow> bool) \<Rightarrow> (string \<Rightarrow> string \<Rightarrow> bool) \<Rightarrow> lm_event \<Rightarrow> lm \<Rightarrow> lm \<times> lm_out list" where
  "lm_step bcost bcheck (EvLock rid h rsn now w) m = (fst (lock bcost now w rid h rsn m), [])"
| "lm_step bcost bcheck (EvServerUnlock dw w) m = (fst (unlock dw w m), [])"
| "lm_step bcost bcheck (EvOverlay pw dw w) m = (fst (verify bcheck dw w pw m), [])"
| "lm_step bcost bcheck (EvTick rqs dw w env) m =
     (let (m1, cs) = process_unlock_requests bcheck dw w rqs m;
          (m2, t) = detect_offline_unlock env m1
      in (m2, map (\<lambda>(r, h). LocalUnlock r h) cs @
            (case t of None \<Rightarrow> [] | Some (k, n) \<Rightarrow>
               [Tampered (te_now env) (te_retry_now env) (te_report_ok env) k n])))"
| "lm_step bcost bcheck (EvClearMemory ok) m = (clear_last_unlocked ok m, [])"
| "lm_step bcost bcheck (EvForge f) m = (m\<lparr>lock_file := f\<rparr>, [])"

fun lm_run :: "(string \<Rightarrow> bool) \<Rightarrow> (string \<Rightarrow> string \<Rightarrow> bool) \<Rightarrow> lm_event list \<Rightarrow> lm \<Rightarrow> lm \<times> lm_out list" where
  "lm_run bcost bcheck [] m = (m, [])"
| "lm_run bcost bcheck (e # es) m =
     (let (m1, o1) = lm_step bcost bcheck e m; (m2, o2) = lm_run bcost bcheck es m1 in (m2, o1 @ o2))"

lemma lm_run_Cons: "lm_run bcost bcheck (e # es) m =
    (fst (lm_run bcost bcheck es (fst (lm_step bcost bcheck e m))),
     snd (lm_step bcost bcheck e m) @ snd (lm_run bcost bcheck es (fst (lm_step bcost bcheck e m))))"
  by (simp add: Let_def split_beta)

text \<open>What may take a lock down: the server, or the password of the lock that is active.\<close>

fun authorises :: "(string \<Rightarrow> string \<Rightarrow> bool) \<Rightarrow> lm_event \<Rightarrow> lm \<Rightarrow> bool" where
  "authorises bcheck (EvServerUnlock dw w) m \<longleftrightarrow> True"
| "authorises bcheck (EvOverlay pw dw w) m \<longleftrightarrow> bcheck (hash (mem m)) pw"
| "authorises bcheck (EvTick rqs dw w env) m \<longleftrightarrow>
     (\<exists>e \<in> set rqs. \<exists>pw. entry_password e = Some pw \<and> bcheck (hash (mem m)) pw)"
| "authorises bcheck _ m \<longleftrightarrow> False"

lemma lock_mem: "mem (fst (lock bcost now w rid h rsn m)) =
    (if validate_bcrypt_hash bcost h = None \<and> \<not> (locked (mem m) \<and> request_id (mem m) = rid) \<and> w = None
     then \<lparr>locked = True, hash = h, reason = rsn, request_id = rid, locked_at = now,
           last_unlocked_hash = []\<rparr> else mem m)"
  by (cases w) (auto simp: lock_def Let_def split: option.splits)

lemma lock_next [simp]: "next_report (fst (lock bcost now w rid h rsn m)) = next_report m"
    "cooldown (fst (lock bcost now w rid h rsn m)) = cooldown m"
  by (cases w; auto simp: lock_def Let_def split: option.splits)+

lemma step_unlocks_authorised:
  assumes "locked (mem m)" and "\<not> locked (mem (fst (lm_step bcost bcheck e m)))"
  shows "authorises bcheck e m"
proof (cases e)
  case (EvTick rqs dw w env)
  then have "mem (fst (process_unlock_requests bcheck dw w rqs m)) \<noteq> mem m"
    using assms by (auto simp: Let_def split_beta)
  then show ?thesis using EvTick process_requests_mem [of bcheck dw w rqs m] by auto
next
  case (EvLock rid h rsn now w)
  with assms show ?thesis by (simp add: lock_mem split: if_splits)
next
  case (EvOverlay pw dw w)
  with assms show ?thesis by (simp add: verify_mem split: if_splits)
next
  case (EvClearMemory ok)
  with assms show ?thesis by (simp add: clear_last_unlocked_def Let_def split: if_splits)
qed (use assms in simp_all)

text \<open>Claim C2.  A locked device becomes unlocked only by the server's order or by a password that
  matches the hash of the lock then active, whatever is done to the state file, whatever
  requests are dropped into its directory and whichever disk operations fail.\<close>

theorem unlocked_only_by_password_or_server:
  assumes "locked (mem m)" and "\<not> locked (mem (fst (lm_run bcost bcheck es m)))"
  shows "\<exists>es1 e es2. es = es1 @ e # es2 \<and> locked (mem (fst (lm_run bcost bcheck es1 m))) \<and>
    authorises bcheck e (fst (lm_run bcost bcheck es1 m))"
  using assms
proof (induction es arbitrary: m)
  case Nil
  then show ?case by simp
next
  case (Cons e es)
  let ?m1 = "fst (lm_step bcost bcheck e m)"
  show ?case
  proof (cases "locked (mem ?m1)")
    case True
    then obtain es1 e' es2 where "es = es1 @ e' # es2"
      "locked (mem (fst (lm_run bcost bcheck es1 ?m1)))" "authorises bcheck e' (fst (lm_run bcost bcheck es1 ?m1))"
      using Cons.IH [of ?m1] Cons.prems by (auto simp: lm_run_Cons simp del: lm_run.simps)
    then have "e # es = (e # es1) @ e' # es2 \<and> locked (mem (fst (lm_run bcost bcheck (e # es1) m))) \<and>
        authorises bcheck e' (fst (lm_run bcost bcheck (e # es1) m))"
      by (simp add: lm_run_Cons del: lm_run.simps)
    then show ?thesis by blast
  next
    case False
    then have "authorises bcheck e m" using Cons.prems step_unlocks_authorised by blast
    then show ?thesis using Cons.prems(1) by (intro exI [of _ "[]"]) auto
  qed
qed

text \<open>Claim C6.  \<open>Lock\<close> either succeeds, with a lock that a password can take down, written to the
  file and shown, or leaves memory, file and overlay as they were; a repeated request changes nothing.\<close>

theorem lock_all_or_nothing:
  "case lock bcost now w rid h rsn m of
     (m', None) \<Rightarrow> h \<noteq> [] \<and> bcost h \<and> locked (mem m') \<and> request_id (mem m') = rid \<and>
       (if locked (mem m) \<and> request_id (mem m) = rid then m' = m
        else hash (mem m') = h \<and> lock_file m' = Some (marshal_state (mem m')) \<and>
             calls m' = calls m @ [Show rsn])
   | (m', Some e) \<Rightarrow> m' = m"
  by (cases w) (auto simp: lock_def Let_def validate_bcrypt_hash_def)

subsection \<open>Restart\<close>

text \<open>While locked, the file holds the lock of the memory (the last-unlocked field apart).\<close>

definition in_sync :: "lm \<Rightarrow> bool" where
  "in_sync m \<longleftrightarrow> (locked (mem m) \<longrightarrow> int64_range (locked_at (mem m)) \<and>
     (\<exists>u. lock_file m = Some (marshal_state ((mem m)\<lparr>last_unlocked_hash := u\<rparr>))))"

definition restart :: "lm \<Rightarrow> lm" where
  "restart m = new_manager (lock_file m) (durable m) (durable_on m) (reporter m) (reasserts m)"

fun event_ok :: "lm_event \<Rightarrow> bool" where
  "event_ok (EvForge _) = False"
| "event_ok (EvLock rid h rsn now w) = int64_range now"
| "event_ok _ = True"

lemma in_sync_marshal:
  "lock_file m = Some (marshal_state (mem m)) \<Longrightarrow> int64_range (locked_at (mem m)) \<Longrightarrow> in_sync m"
  by (auto simp: in_sync_def intro: exI [of _ "last_unlocked_hash (mem m)"])

lemma in_sync_unlocked: "\<not> locked (mem m) \<Longrightarrow> in_sync m"
  by (simp add: in_sync_def)

lemma in_sync_lock:
  assumes "in_sync m" and "int64_range now"
  shows "in_sync (fst (lock bcost now w rid h rsn m))"
proof (cases "fst (lock bcost now w rid h rsn m) = m")
  case False
  then have "w = None" "validate_bcrypt_hash bcost h = None" "\<not> (locked (mem m) \<and> request_id (mem m) = rid)"
    by (cases w; auto simp: lock_def Let_def split: option.splits)+
  with assms show ?thesis by (intro in_sync_marshal) (auto simp: lock_def)
qed (use assms in simp)

lemma in_sync_unlock: "in_sync m \<Longrightarrow> in_sync (fst (unlock_locked dw w m))"
  using unlock_locked_mem [of dw w m]
  by (cases "locked (mem m)") (auto simp: in_sync_def zero_state_def unlock_locked_def)

lemma in_sync_verify: "in_sync m \<Longrightarrow> in_sync (fst (verify bcheck dw w pw m))"
  by (simp add: verify_def in_sync_unlock)

lemma in_sync_requests: "in_sync m \<Longrightarrow> in_sync (fst (process_unlock_requests bcheck dw w es m))"
  by (induction es arbitrary: m)
     (auto simp: process_entry_alt Let_def split_beta in_sync_verify split: option.splits)

lemma in_sync_detect: "in_sync m \<Longrightarrow> in_sync (fst (detect_offline_unlock env m))"
proof (cases rule: detect_cases [where env = env and m = m])
  case (forged st)
  assume "in_sync m"
  with forged show ?thesis
    by (cases "te_persist env") (auto simp: detect_forged in_sync_def forged_def
        intro: exI [of _ "last_unlocked_hash (mem m)"])
qed simp

lemma in_sync_clear: "in_sync m \<Longrightarrow> in_sync (clear_last_unlocked ok m)"
  by (auto simp: in_sync_def clear_last_unlocked_def Let_def)

lemma in_sync_step: "in_sync m \<Longrightarrow> event_ok e \<Longrightarrow> in_sync (fst (lm_step bcost bcheck e m))"
  by (cases e) (simp_all add: in_sync_lock in_sync_unlock unlock_def in_sync_verify in_sync_clear
      in_sync_requests in_sync_detect Let_def split_beta)

lemma in_sync_run: "in_sync m \<Longrightarrow> list_all event_ok es \<Longrightarrow> in_sync (fst (lm_run bcost bcheck es m))"
  by (induction es arbitrary: m) (simp_all add: lm_run_Cons in_sync_step del: lm_run.simps(2))

lemma load_in_sync:
  assumes "in_sync m" and "locked (mem m)"
  shows "mem (fst (load dur_ok True (restart m))) =
      (mem m)\<lparr>last_unlocked_hash := read_durable_unlocked dur_ok (restart m)\<rparr> \<and>
    calls (fst (load dur_ok True (restart m))) = [Show (reason (mem m))] \<and> snd (load dur_ok True (restart m))"
proof -
  obtain u where f: "lock_file m = Some (marshal_state ((mem m)\<lparr>last_unlocked_hash := u\<rparr>))"
    and r: "int64_range (locked_at (mem m))"
    using assms by (auto simp: in_sync_def)
  show ?thesis using f r assms(2)
    by (cases "u = []") (simp_all add: load_def restart_def new_manager_def unmarshal_marshal Let_def)
qed

text \<open>Claim C11.  A lock survives any restart: after any run in which nobody edits the state file,
  a manager that is locked, restarted and loaded, is locked by the same request with the same hash
  and shows the same reason.\<close>

theorem lock_survives_restart:
  assumes "in_sync m" and "list_all event_ok es" and "m' = fst (lm_run bcost bcheck es m)"
    and "locked (mem m')" and "load dur_ok True (restart m') = (m2, ok)"
  shows "ok \<and> locked (mem m2) \<and> request_id (mem m2) = request_id (mem m') \<and>
    hash (mem m2) = hash (mem m') \<and> calls m2 = [Show (reason (mem m'))]"
  using load_in_sync [OF _ assms(4), of dur_ok] in_sync_run [OF assms(1,2)] assms by auto

text \<open>A state file edited to unlocked is put back by the next tick on a working disk; the
  memory, the durable memory of local unlocks and the lock itself are untouched.\<close>

theorem forged_file_is_restored:
  assumes "locked (mem m)" and "lock_file m = Some d" and "unmarshal_state d zero_state = (st, True)"
    and "\<not> locked st" and "te_read_ok env" and "te_persist env = None"
    and "\<forall>e \<in> set rqs. \<forall>pw. entry_password e = Some pw \<longrightarrow> \<not> bcheck (hash (mem m)) pw"
  shows "let m' = fst (lm_step bcost bcheck (EvTick rqs dw w env) m) in
    lock_file m' = Some (marshal_state (mem m)) \<and> mem m' = mem m \<and> durable m' = durable m \<and>
    calls m' = calls m @ (if reasserts m then [Reassert] else [])"
proof -
  have "forged env m st" using assms by (simp add: forged_def read_state_def)
  moreover have "process_unlock_requests bcheck dw w rqs m = (m, [])"
    using assms(7)
  proof (induction rqs)
    case (Cons e rqs)
    then show ?case using assms(1)
      by (auto simp: process_entry_alt verify_def split: option.splits)
  qed simp
  ultimately show ?thesis using assms(6) by (simp add: detect_forged)
qed

subsection \<open>Reports of tampering\<close>

definition reported_at :: "lm_out list \<Rightarrow> (nanos \<times> nanos \<times> bool) list" where
  "reported_at os = concat (map (\<lambda>x. case x of Tampered t r ok k n \<Rightarrow> [(t, r, ok)] | _ \<Rightarrow> []) os)"

lemma reported_at_append [simp]: "reported_at (xs @ ys) = reported_at xs @ reported_at ys"
  by (simp add: reported_at_def)

lemma reported_at_unlocked [simp]: "reported_at (map (\<lambda>(r, h). LocalUnlock r h) cs) = []"
  by (induction cs) (auto simp: reported_at_def)

definition clock_ok :: "lm_event \<Rightarrow> bool" where
  "clock_ok e = (case e of EvTick rqs dw w env \<Rightarrow> te_now env \<le> te_retry_now env | _ \<Rightarrow> True)"

definition quiet_until :: "nanos \<times> nanos \<times> bool \<Rightarrow> nanos \<Rightarrow> nanos" where
  "quiet_until r cd = (case r of (t, rt, ok) \<Rightarrow> if ok then t + cd else rt + tamper_retry_interval)"

lemma detect_next:
  assumes "te_now env \<le> te_retry_now env" and "0 \<le> cooldown m"
  shows "next_report m \<le> next_report (fst (detect_offline_unlock env m)) \<and>
    (snd (detect_offline_unlock env m) \<noteq> None \<longrightarrow> next_report m \<le> te_now env \<and>
       next_report (fst (detect_offline_unlock env m)) =
         quiet_until (te_now env, te_retry_now env, te_report_ok env) (cooldown m))"
  using assms
  by (cases rule: detect_cases [where env = env and m = m])
     (auto simp: detect_forged reports_def quiet_until_def tamper_retry_interval_def)

lemma step_next:
  assumes "clock_ok e" and "0 \<le> cooldown m"
  shows "cooldown (fst (lm_step bcost bcheck e m)) = cooldown m \<and>
    next_report m \<le> next_report (fst (lm_step bcost bcheck e m)) \<and>
    (case reported_at (snd (lm_step bcost bcheck e m)) of
       [] \<Rightarrow> True
     | [r] \<Rightarrow> next_report m \<le> fst r \<and> next_report (fst (lm_step bcost bcheck e m)) = quiet_until r (cooldown m)
     | _ \<Rightarrow> False)"
proof (cases e)
  case (EvTick rqs dw w env)
  let ?m1 = "fst (process_unlock_requests bcheck dw w rqs m)"
  have "te_now env \<le> te_retry_now env" using assms EvTick by (simp add: clock_ok_def)
  from detect_next [OF this, of ?m1] show ?thesis
    using assms EvTick
    by (cases "snd (detect_offline_unlock env ?m1)")
       (auto simp: Let_def split_beta reported_at_def [of "[]"] reported_at_def [of "[_]"])
qed (use assms in \<open>auto simp: reported_at_def clear_last_unlocked_def unlock_def Let_def\<close>)

lemma run_reports_spaced:
  assumes "list_all clock_ok es" and "0 \<le> cooldown m"
  shows "sorted_wrt (\<lambda>r r'. quiet_until r (cooldown m) \<le> fst r') (reported_at (snd (lm_run bcost bcheck es m))) \<and>
    (\<forall>r \<in> set (reported_at (snd (lm_run bcost bcheck es m))). next_report m \<le> fst r)"
  using assms
proof (induction es arbitrary: m)
  case Nil
  then show ?case by (simp add: reported_at_def)
next
  case (Cons e es)
  let ?m1 = "fst (lm_step bcost bcheck e m)"
  have st: "cooldown ?m1 = cooldown m" "next_report m \<le> next_report ?m1"
    and rep: "case reported_at (snd (lm_step bcost bcheck e m)) of [] \<Rightarrow> True
       | [r] \<Rightarrow> next_report m \<le> fst r \<and> next_report ?m1 = quiet_until r (cooldown m) | _ \<Rightarrow> False"
    using step_next [of e m bcost bcheck] Cons.prems by auto
  have ih: "sorted_wrt (\<lambda>r r'. quiet_until r (cooldown m) \<le> fst r') (reported_at (snd (lm_run bcost bcheck es ?m1)))"
    "\<forall>r \<in> set (reported_at (snd (lm_run bcost bcheck es ?m1))). next_report ?m1 \<le> fst r"
    using Cons.IH [of ?m1] Cons.prems st by auto
  show ?case using ih st rep
    by (auto simp: lm_run_Cons simp del: lm_run.simps split: list.splits)
qed

text \<open>However often the employee edits the file, the tamper reports are spaced: after a
  report taken by the outbox none follows for the cooldown (15 minutes in production), after one it
  refused none for a minute.\<close>

theorem tamper_reports_spaced:
  assumes "list_all clock_ok es" and "cooldown m = tamper_report_interval"
  shows "sorted_wrt (\<lambda>(t, rt, ok) (t', _, _).
      (if ok then t + 15 * minute else rt + minute) \<le> t') (reported_at (snd (lm_run bcost bcheck es m)))"
proof -
  have "sorted_wrt (\<lambda>r r'. quiet_until r (cooldown m) \<le> fst r') (reported_at (snd (lm_run bcost bcheck es m)))"
    using run_reports_spaced [OF assms(1), of m bcost bcheck] assms(2)
    by (simp add: tamper_report_interval_def)
  then show ?thesis
    by (rule sorted_wrt_mono_rel [rotated])
       (auto simp: assms(2) quiet_until_def tamper_report_interval_def tamper_retry_interval_def)
qed

subsection \<open>Callbacks, and the durable memory of local unlocks\<close>

lemma process_once:
  assumes "request_id (mem m) \<noteq> [] \<Longrightarrow> locked (mem m)"
  shows "snd (process_unlock_requests bcheck dw w es m) = [] \<or>
    (snd (process_unlock_requests bcheck dw w es m) = [(request_id (mem m), hash (mem m))] \<and>
     mem (fst (process_unlock_requests bcheck dw w es m)) = zero_state\<lparr>last_unlocked_hash := hash (mem m)\<rparr> \<and>
     locked (mem m) \<and> (\<exists>e \<in> set es. \<exists>pw. entry_password e = Some pw \<and> bcheck (hash (mem m)) pw))"
  using assms
proof (induction es)
  case (Cons e es)
  consider (yes) pw where "entry_password e = Some pw" "request_id (mem m) \<noteq> []" "locked (mem m)"
      "bcheck (hash (mem m)) pw"
    | (no) "process_entry bcheck dw w e m = (m, [])"
    using Cons.prems
    by (cases "entry_password e"; cases "request_id (mem m) = []";
        cases "bcheck (hash (mem m)) (the (entry_password e))")
       (auto simp: process_entry_alt verify_def)
  then show ?case
  proof cases
    case yes
    then have "process_entry bcheck dw w e m =
        (fst (verify bcheck dw w pw m), [(request_id (mem m), hash (mem m))])"
      by (simp add: process_entry_alt verify_def)
    moreover have "request_id (mem (fst (verify bcheck dw w pw m))) = []"
      using yes by (simp add: verify_mem zero_state_def)
    ultimately show ?thesis using yes by (auto simp: process_unlocked_idle verify_mem)
  next
    case no
    then show ?thesis using Cons by auto
  qed
qed simp

text \<open>A tick reports a local unlock at most once, for the lock that was active, and only when
  one of the dropped requests carries its password; the hash is then the remembered one.\<close>

theorem local_unlock_reported_once:
  assumes "request_id (mem m) \<noteq> [] \<Longrightarrow> locked (mem m)"
    and "process_unlock_requests bcheck dw w es m = (m', cs)" and "cs \<noteq> []"
  shows "cs = [(request_id (mem m), hash (mem m))] \<and> \<not> locked (mem m') \<and>
    last_unlocked_hash (mem m') = hash (mem m) \<and>
    (\<exists>e \<in> set es. \<exists>pw. entry_password e = Some pw \<and> bcheck (hash (mem m)) pw)"
  using process_once [of m bcheck dw w es] assms by (auto simp: zero_state_def)

text \<open>After a successful \<open>Load\<close> the memory of the last local unlock comes from the
  durable file alone, whatever the state file says.\<close>

theorem load_memory_is_durable:
  assumes "load dur_ok rd_ok m = (m', True)"
  shows "last_unlocked_hash (mem m') = read_durable_unlocked dur_ok m"
  using assms by (auto simp: load_def Let_def split: option.splits if_splits prod.splits)

text \<open>But a state file with one ill-typed field makes \<open>Load\<close> fail after decoding the other
  fields, and its \<open>last_unlocked_hash\<close> stays in memory: any hash can be planted.\<close>

lemma load_error_keeps_forged_memory:
  "let doc = JObject [(f_last_unlocked, JStr h), (f_locked, JStr x)];
       r = load dur_ok True (m\<lparr>lock_file := Some doc\<rparr>)
   in \<not> snd r \<and> last_unlocked_hash (mem (fst r)) = h"
proof -
  have "decode_member f_locked (JStr x) s = (s, False)" for s
    by (simp add: decode_member_def)
  then show ?thesis by (simp add: load_def unmarshal_state_def Let_def)
qed

subsection \<open>The manager as a lock\<close>

definition lm_lk :: "(string \<Rightarrow> bool) \<Rightarrow> lm \<Rightarrow> unixtime \<times> wstep option \<times> string \<times> string \<times> string
    \<Rightarrow> lm \<times> lock_err option" where
  "lm_lk bcost m r = (case r of (now, w, rid, h, rsn) \<Rightarrow> lock bcost now w rid h rsn m)"

definition lm_ul :: "lm \<Rightarrow> dwrite \<times> wstep option \<Rightarrow> lm \<times> wstep option" where
  "lm_ul m u = (case u of (dw, w) \<Rightarrow> unlock dw w m)"

definition lm_engaged :: "lm \<Rightarrow> bool" where
  "lm_engaged m = locked (mem m)"

lemma lock_success_locked: "lock bcost now w rid h rsn m = (m', None) \<Longrightarrow> locked (mem m')"
  by (cases w) (auto simp: lock_def Let_def split: option.splits if_splits)

lemma lock_failure_same: "lock bcost now w rid h rsn m = (m', Some e) \<Longrightarrow> m' = m"
  by (cases w) (auto simp: lock_def Let_def split: option.splits if_splits)

lemma unlock_off: "\<not> locked (mem (fst (unlock dw w m)))"
  by (simp add: unlock_def unlock_locked_mem zero_state_def)

interpretation lm: lock_applier "lm_lk bcost" lm_ul lm_engaged
  by unfold_locales
     (auto simp: lm_lk_def lm_ul_def lm_engaged_def unlock_off
       intro: lock_success_locked lock_failure_same split: prod.splits)

subsection \<open>Concrete runs\<close>

definition lm_fresh :: lm where "lm_fresh = new_manager None None True True True"

definition demo_cost :: "string \<Rightarrow> bool" where "demo_cost h \<longleftrightarrow> h = ''H''"
definition demo_check :: "string \<Rightarrow> string \<Rightarrow> bool" where "demo_check h p \<longleftrightarrow> h = ''H'' \<and> p = ''pw''"

definition demo_env :: tamper_env where
  "demo_env = \<lparr>te_now = 5, te_retry_now = 6, te_read_ok = True, te_persist = None, te_report_ok = True\<rparr>"

definition lm_locked :: lm where
  "lm_locked = fst (lock demo_cost 100 None ''r1'' ''H'' ''why'' lm_fresh)"

definition demo_request :: rqentry where
  "demo_request = \<lparr>rq_name = ''unlock-request-1.json'', rq_dir = False,
     rq_doc = Some (JObject [(''password'', JStr ''pw'')]), rq_gone = True\<rparr>"

lemma lm_locked_mem: "mem lm_locked = \<lparr>locked = True, hash = ''H'', reason = ''why'', request_id = ''r1'',
    locked_at = 100, last_unlocked_hash = []\<rparr>" and lm_locked_file:
    "lock_file lm_locked = Some (marshal_state (mem lm_locked))"
  by (simp_all add: lm_locked_def lock_def validate_bcrypt_hash_def demo_cost_def lm_fresh_def
      new_manager_def zero_state_def)

lemma demo_password: "entry_password demo_request = Some ''pw''"
  by (simp add: entry_password_def demo_request_def unmarshal_request_def unlock_request_prefix_def)

lemma unlocked_only_by_password_or_server_witness:
  "\<exists>es1 e es2. [EvForge None, EvOverlay ''pw'' DOk None] = es1 @ e # es2 \<and>
    locked (mem (fst (lm_run demo_cost demo_check es1 lm_locked))) \<and>
    authorises demo_check e (fst (lm_run demo_cost demo_check es1 lm_locked))"
  by (rule unlocked_only_by_password_or_server)
     (simp_all add: lm_locked_mem verify_mem demo_check_def zero_state_def)

lemma lock_survives_restart_witness:
  "locked (mem (fst (load True True (restart (fst (lm_run demo_cost demo_check [EvOverlay ''no'' DOk None] lm_locked))))))"
proof -
  let ?m = "fst (lm_run demo_cost demo_check [EvOverlay ''no'' DOk None] lm_locked)"
  have "in_sync lm_locked"
    by (rule in_sync_marshal) (simp_all add: lm_locked_file lm_locked_mem int64_range_def)
  moreover have "locked (mem ?m)" by (simp add: verify_def demo_check_def lm_locked_mem)
  ultimately show ?thesis
    using lock_survives_restart [of lm_locked "[EvOverlay ''no'' DOk None]" ?m demo_cost demo_check True
        "fst (load True True (restart ?m))" "snd (load True True (restart ?m))"] by simp
qed

lemma forged_file_is_restored_witness:
  "lock_file (fst (lm_step demo_cost demo_check (EvTick [] DOk None demo_env)
      (lm_locked\<lparr>lock_file := Some (marshal_state zero_state)\<rparr>))) = Some (marshal_state (mem lm_locked))"
  using forged_file_is_restored [of "lm_locked\<lparr>lock_file := Some (marshal_state zero_state)\<rparr>"
      "marshal_state zero_state" zero_state demo_env "[]" demo_check demo_cost DOk None]
  by (simp add: lm_locked_mem unmarshal_marshal zero_state_def int64_range_def demo_env_def Let_def)

lemma tamper_reports_spaced_witness:
  "sorted_wrt (\<lambda>(t, rt, ok) (t', _, _). (if ok then t + 15 * minute else rt + minute) \<le> t')
     (reported_at (snd (lm_run demo_cost demo_check [EvForge (Some (marshal_state zero_state)),
        EvTick [] DOk None demo_env, EvForge (Some (marshal_state zero_state)),
        EvTick [] DOk None (demo_env\<lparr>te_now := 7, te_retry_now := 8\<rparr>)] lm_locked)))"
  by (rule tamper_reports_spaced)
     (simp_all add: clock_ok_def demo_env_def lm_locked_def lm_fresh_def new_manager_def)

lemma local_unlock_reported_once_witness:
  "snd (process_unlock_requests demo_check DOk None [demo_request, demo_request] lm_locked) = [(''r1'', ''H'')]"
proof -
  have v: "verify demo_check DOk None ''pw'' lm_locked =
      (fst (unlock_locked DOk None lm_locked), True)"
    by (simp add: verify_def lm_locked_mem demo_check_def)
  have "snd (process_unlock_requests demo_check DOk None [demo_request, demo_request] lm_locked) \<noteq> []"
    by (simp add: process_entry_alt demo_password v lm_locked_mem Let_def split_beta)
  then show ?thesis
    using local_unlock_reported_once [of lm_locked demo_check DOk None "[demo_request, demo_request]"
        "fst (process_unlock_requests demo_check DOk None [demo_request, demo_request] lm_locked)"
        "snd (process_unlock_requests demo_check DOk None [demo_request, demo_request] lm_locked)"]
    by (simp add: lm_locked_mem)
qed

lemma load_memory_is_durable_witness:
  "last_unlocked_hash (mem (fst (load True True (lm_fresh\<lparr>durable := Some ''H ''\<rparr>)))) =
     read_durable_unlocked True (lm_fresh\<lparr>durable := Some ''H ''\<rparr>)"
  by (rule load_memory_is_durable [where rd_ok = True])
     (simp add: load_def lm_fresh_def new_manager_def Let_def)

end
