(* ===== verification/Reconcile.thy ===== *)
theory Reconcile
  imports LockManager
begin

section \<open>The lock reconciler\<close>

text \<open>
  Model of \<open>internal/agent/lock/reconcile.go\<close>: the loop that compares the desired lock state
  of the server with the lock manager and applies the difference, without re-locking what the
  employee unlocked with the right password.  \<open>rec\<close> is the \<open>Reconciler\<close>; a tick is a
  function of it and of the manager, with the answer of the server, the clock and the outcomes of
  the disk and of the report queue as arguments.  Its output lists the reports, each with whether
  the queue took it, and the FileVault revocations started; these run in a goroutine of their own,
  whose end is the event \<open>EvRevokeDone\<close>.
\<close>

datatype lock_mode = ModeUnspecified | ModeOverlay | ModeFileVault

record lock_response =
  resp_locked :: bool
  resp_hash :: string
  resp_reason :: string
  resp_mode :: lock_mode

record report =
  rp_request :: string
  rp_state :: lock_report
  rp_at :: unixtime

datatype rec_out = Sent report bool | StartRevoke string

text \<open>\<open>r_fail_at\<close> is the zero time when \<open>None\<close>: then any instant is long after it.\<close>

record rec =
  r_last :: string
  r_durable :: string
  r_fail :: string
  r_fail_set :: bool
  r_fail_at :: "nanos option"
  r_fv :: bool
  r_revoker :: bool
  r_interval :: nanos

record tick_env =
  tk_fetch :: "lock_response option"
  tk_now :: nanos
  tk_write :: "wstep option"
  tk_dwrite :: dwrite
  tk_rm :: bool
  tk_report :: bool

definition lock_failed_report_interval :: nanos where "lock_failed_report_interval = hour"

definition unix_of :: "nanos \<Rightarrow> unixtime" where "unix_of t = t div second"

definition new_reconciler :: "nanos \<Rightarrow> bool \<Rightarrow> rec" where
  "new_reconciler interval revoker = \<lparr>r_last = [], r_durable = [], r_fail = [], r_fail_set = False,
     r_fail_at = None, r_fv = False, r_revoker = revoker,
     r_interval = (if interval \<le> 0 then 30 * second else interval)\<rparr>"

definition mk_report :: "string \<Rightarrow> lock_report \<Rightarrow> tick_env \<Rightarrow> rec_out" where
  "mk_report rid st env =
     Sent \<lparr>rp_request = rid, rp_state = st, rp_at = unix_of (tk_now env)\<rparr> (tk_report env)"

definition on_local_unlock :: "nanos \<Rightarrow> bool \<Rightarrow> string \<Rightarrow> string \<Rightarrow> rec \<Rightarrow> rec \<times> rec_out list" where
  "on_local_unlock now ok rid h r =
     (r\<lparr>r_last := h\<rparr>, [Sent \<lparr>rp_request = rid, rp_state = Unlocked, rp_at = unix_of now\<rparr> ok])"

definition hour_passed :: "nanos \<Rightarrow> nanos option \<Rightarrow> bool" where
  "hour_passed now at = (case at of None \<Rightarrow> True | Some t \<Rightarrow> lock_failed_report_interval \<le> now - t)"

definition reconcile_locked :: "(string \<Rightarrow> bool) \<Rightarrow> tick_env \<Rightarrow> lock_response \<Rightarrow> rec \<times> lm
    \<Rightarrow> (rec \<times> lm) \<times> rec_out list" where
  "reconcile_locked bcost env resp s =
     (let r = fst s; m = snd s; h = resp_hash resp in
      if resp_mode resp = ModeFileVault then
        (if \<not> r_revoker r \<or> r_fv r then (s, [])
         else ((r\<lparr>r_fv := True\<rparr>, m), [StartRevoke h]))
      else if h \<noteq> [] \<and> h = r_last r then (s, [])
      else if h \<noteq> [] \<and> h = last_unlocked_hash (mem m) then
        (if r_durable r = h then (s, [])
         else ((r\<lparr>r_durable := (if tk_report env then h else [])\<rparr>, m), [mk_report h Unlocked env]))
      else if locked (mem m) \<and> hash (mem m) = h then (s, [])
      else (case lock bcost (unix_of (tk_now env)) (tk_write env) h h (resp_reason resp) m of
          (m', Some e) \<Rightarrow>
            (let first = (\<not> r_fail_set r \<or> r_fail r \<noteq> h);
                 do_report = (first \<or> hour_passed (tk_now env) (r_fail_at r));
                 r1 = r\<lparr>r_fail := h, r_fail_set := True,
                        r_fail_at := (if do_report then
                             (if tk_report env then Some (tk_now env) else None) else r_fail_at r)\<rparr>
             in ((r1, m'), if do_report then [mk_report h LockFailed env] else []))
        | (m', None) \<Rightarrow>
            ((r\<lparr>r_fail_set := False, r_fail_at := None\<rparr>, m'), [mk_report h Locked env])))"

definition reconcile_unlocked :: "tick_env \<Rightarrow> rec \<times> lm \<Rightarrow> (rec \<times> lm) \<times> rec_out list" where
  "reconcile_unlocked env s =
     (let r = (fst s)\<lparr>r_last := [], r_durable := [], r_fail_set := False, r_fail_at := None\<rparr>;
          m = clear_last_unlocked (tk_rm env) (snd s)
      in if \<not> locked (mem m) then ((r, m), [])
         else (let rid = request_id (mem m) in
           case unlock (tk_dwrite env) (tk_write env) m of
             (m', Some e) \<Rightarrow> ((r, m'), [])
           | (m', None) \<Rightarrow> ((r, m'), [mk_report rid Unlocked env])))"

definition tick :: "(string \<Rightarrow> bool) \<Rightarrow> tick_env \<Rightarrow> rec \<times> lm \<Rightarrow> (rec \<times> lm) \<times> rec_out list" where
  "tick bcost env s = (case tk_fetch env of
     None \<Rightarrow> (s, [])
   | Some resp \<Rightarrow> if resp_locked resp then reconcile_locked bcost env resp s
                  else reconcile_unlocked env s)"

text \<open>\<open>Run\<close> interleaved with the callback of the manager and the end of a revocation.\<close>

datatype rec_event = EvReconcile tick_env | EvLocalUnlock nanos bool string string | EvRevokeDone

fun rec_step :: "(string \<Rightarrow> bool) \<Rightarrow> rec_event \<Rightarrow> rec \<times> lm \<Rightarrow> (rec \<times> lm) \<times> rec_out list" where
  "rec_step bcost (EvReconcile env) s = tick bcost env s"
| "rec_step bcost (EvLocalUnlock now ok rid h) s =
     (let (r, os) = on_local_unlock now ok rid h (fst s) in ((r, snd s), os))"
| "rec_step bcost EvRevokeDone s = (((fst s)\<lparr>r_fv := False\<rparr>, snd s), [])"

fun rec_run :: "(string \<Rightarrow> bool) \<Rightarrow> rec_event list \<Rightarrow> rec \<times> lm \<Rightarrow> (rec \<times> lm) \<times> rec_out list" where
  "rec_run bcost [] s = (s, [])"
| "rec_run bcost (e # es) s =
     (let (s1, o1) = rec_step bcost e s; (s2, o2) = rec_run bcost es s1 in (s2, o1 @ o2))"

lemma rec_run_Cons: "rec_run bcost (e # es) s =
    (fst (rec_run bcost es (fst (rec_step bcost e s))),
     snd (rec_step bcost e s) @ snd (rec_run bcost es (fst (rec_step bcost e s))))"
  by (simp add: Let_def split_beta)

subsection \<open>Convergence\<close>

lemma lock_ok_or_same:
  obtains (ok) m' where "lock bcost now w rid h rsn m = (m', None)" "locked (mem m')"
  | (err) e where "lock bcost now w rid h rsn m = (m, Some e)"
  by (metis lock_failure_same lock_success_locked option.exhaust surj_pair)

lemma lock_accepts: "h \<noteq> [] \<Longrightarrow> bcost h \<Longrightarrow> snd (lock bcost now None rid h rsn m) = None"
  by (auto simp: lock_def validate_bcrypt_hash_def Let_def)

lemma clear_locked [simp]: "locked (mem (clear_last_unlocked ok m)) = locked (mem m)"
    "request_id (mem (clear_last_unlocked ok m)) = request_id (mem m)"
  by (simp_all add: clear_last_unlocked_def Let_def)

lemma tick_reaches:
  assumes "tk_fetch env = Some resp" and "resp_mode resp \<noteq> ModeFileVault"
    and "resp_locked resp \<Longrightarrow> resp_hash resp \<noteq> [] \<and> bcost (resp_hash resp) \<and> tk_write env = None \<and>
      resp_hash resp \<noteq> r_last r \<and> resp_hash resp \<noteq> last_unlocked_hash (mem m)"
    and "tick bcost env (r, m) = ((r', m'), os)"
  shows "locked (mem m') = resp_locked resp \<and> (\<not> resp_locked resp \<longrightarrow> r_last r' = [])"
proof (cases "resp_locked resp")
  case True
  let ?h = "resp_hash resp"
  have acc: "snd (lock bcost (unix_of (tk_now env)) None ?h ?h (resp_reason resp) m) = None"
    using assms(3) True by (simp add: lock_accepts)
  have "locked (mem m')"
  proof (cases rule: lock_ok_or_same [where bcost = bcost and now = "unix_of (tk_now env)"
        and w = None and rid = ?h and h = ?h and rsn = "resp_reason resp" and m = m])
    case (ok m'')
    with assms True show ?thesis
      by (auto simp: tick_def reconcile_locked_def Let_def split: if_splits)
  next
    case (err e)
    with acc show ?thesis by simp
  qed
  with True show ?thesis by simp
next
  case False
  let ?m = "clear_last_unlocked (tk_rm env) m"
  have "\<not> locked (mem (fst (unlock (tk_dwrite env) (tk_write env) ?m)))" by (rule unlock_off)
  with assms False show ?thesis
    by (auto simp: tick_def reconcile_unlocked_def Let_def split: if_splits option.splits prod.splits)
qed

lemma tick_lock_hash:
  assumes "tk_fetch env = Some resp" and "resp_locked resp" and "resp_mode resp = ModeOverlay"
    and "resp_hash resp \<noteq> []" and "bcost (resp_hash resp)" and "tk_write env = None"
    and "resp_hash resp \<noteq> r_last r" and "resp_hash resp \<noteq> last_unlocked_hash (mem m)" and "resp_hash resp \<noteq> request_id (mem m)"
    and "tick bcost env (r, m) = ((r', m'), os)"
  shows "locked (mem m') \<and> hash (mem m') = resp_hash resp"
proof (cases "lock bcost (unix_of (tk_now env)) None (resp_hash resp) (resp_hash resp) (resp_reason resp) m")
  case (Pair m1 e)
  have e: "e = None" using lock_accepts [where h = "resp_hash resp" and bcost = bcost and now = "unix_of (tk_now env)" and rid = "resp_hash resp"
      and rsn = "resp_reason resp" and m = m] assms(4,5) Pair by simp
  have "locked (mem m1)" using lock_success_locked Pair e by blast
  moreover have "hash (mem m1) = resp_hash resp" using Pair e assms(9)
    by (auto simp: lock_def Let_def emit_def split: option.splits if_splits prod.splits)
  ultimately show ?thesis using assms Pair e
    by (auto simp: tick_def reconcile_locked_def Let_def split: if_splits)
qed

text \<open>One tick reaches the desired state: with the server asking for an overlay lock whose
  hash is valid and was not unlocked locally, and a working disk, the device is locked after it; with
  the server asking for unlocked, it is unlocked after it even if the disk fails, and the local-unlock
  memory of the reconciler is gone.\<close>

theorem tick_converges:
  assumes "tk_fetch env = Some resp" and "resp_mode resp \<noteq> ModeFileVault"
    and "resp_locked resp \<Longrightarrow> resp_hash resp \<noteq> [] \<and> bcost (resp_hash resp) \<and> tk_write env = None \<and>
      resp_hash resp \<noteq> r_last r \<and> resp_hash resp \<noteq> last_unlocked_hash (mem m)"
    and "tick bcost env (r, m) = ((r', m'), os)"
  shows "locked (mem m') = resp_locked resp \<and> (\<not> resp_locked resp \<longrightarrow> r_last r' = [])"
  by (rule tick_reaches [OF assms])

subsection \<open>A lock taken down by its password stays down\<close>

definition asks_overlay :: "string \<Rightarrow> rec_event \<Rightarrow> bool" where
  "asks_overlay h e = (case e of
     EvReconcile env \<Rightarrow> (case tk_fetch env of None \<Rightarrow> True
       | Some resp \<Rightarrow> resp_locked resp \<and> resp_mode resp \<noteq> ModeFileVault \<and> resp_hash resp = h)
   | EvLocalUnlock _ _ _ _ \<Rightarrow> False | EvRevokeDone \<Rightarrow> True)"

lemma step_keeps_unlocked:
  assumes "asks_overlay h e" and "h \<noteq> []" and "r_last r = h"
  shows "\<exists>r'. rec_step bcost e (r, m) = ((r', m), []) \<and> r_last r' = h"
proof (cases e)
  case (EvReconcile env)
  with assms show ?thesis
    by (cases "tk_fetch env") (simp_all add: asks_overlay_def tick_def reconcile_locked_def Let_def)
next
  case EvLocalUnlock
  with assms show ?thesis by (simp add: asks_overlay_def)
next
  case EvRevokeDone
  with assms show ?thesis by simp
qed

text \<open>Claim C22.  After a local unlock of the lock \<open>h\<close>, while the server still asks for \<open>h\<close>, no tick locks
  again and the manager is untouched; nor is any report sent, so the report of the unlock, when the
  queue refused it, is not repeated.\<close>

theorem no_relock_after_local_unlock:
  assumes "h \<noteq> []" and "list_all (asks_overlay h) es"
  shows "rec_run bcost (EvLocalUnlock now ok rid h # es) (r, m) =
    ((fst (fst (rec_run bcost (EvLocalUnlock now ok rid h # es) (r, m))), m),
     [Sent \<lparr>rp_request = rid, rp_state = Unlocked, rp_at = unix_of now\<rparr> ok])"
proof -
  have "r_last r = h \<Longrightarrow> list_all (asks_overlay h) es \<Longrightarrow>
      \<exists>r'. rec_run bcost es (r, m) = ((r', m), [])" for r
  proof (induction es arbitrary: r)
    case (Cons e es)
    then obtain r1 where "rec_step bcost e (r, m) = ((r1, m), [])" "r_last r1 = h"
      using step_keeps_unlocked [of h e r bcost m] assms(1) by auto
    with Cons.IH [of r1] Cons.prems(2) show ?case by auto
  qed simp
  from this [of "r\<lparr>r_last := h\<rparr>"] assms(2) show ?thesis
    by (auto simp: on_local_unlock_def)
qed

text \<open>After a restart the reconciler knows only the durable memory of the manager.\<close>

lemma durable_tick:
  assumes "asks_overlay h (EvReconcile env)" and "h \<noteq> []" and "last_unlocked_hash (mem m) = h"
  shows "tick bcost env (r, m) =
    (if tk_fetch env = None \<or> r_last r = h \<or> r_durable r = h then ((r, m), [])
     else ((r\<lparr>r_durable := if tk_report env then h else []\<rparr>, m), [mk_report h Unlocked env]))"
proof (cases "tk_fetch env")
  case (Some resp)
  with assms have "resp_locked resp" "resp_mode resp \<noteq> ModeFileVault" "resp_hash resp = h"
    by (auto simp: asks_overlay_def)
  with Some assms(2,3) show ?thesis
    by (cases "r_last r = h"; cases "r_durable r = h") (simp_all add: tick_def reconcile_locked_def Let_def)
qed (simp add: tick_def)

lemma durable_step:
  assumes "asks_overlay h e" and "h \<noteq> []" and "last_unlocked_hash (mem m) = h"
  obtains (quiet) r' where "rec_step bcost e (r, m) = ((r', m), [])" "r_durable r' = r_durable r"
  | (report) r' env where "rec_step bcost e (r, m) = ((r', m), [mk_report h Unlocked env])"
      "r_durable r \<noteq> h" "r_durable r' = (if tk_report env then h else [])"
proof (cases e)
  case (EvReconcile env)
  have t: "rec_step bcost e (r, m) = tick bcost env (r, m)" by (simp add: EvReconcile)
  show ?thesis
  proof (cases "tk_fetch env = None \<or> r_last r = h \<or> r_durable r = h")
    case True
    then show ?thesis using durable_tick [of h env m bcost r] assms t EvReconcile quiet by simp
  next
    case False
    then show ?thesis using durable_tick [of h env m bcost r] assms t EvReconcile report by simp
  qed
next
  case EvLocalUnlock
  with assms show ?thesis by (simp add: asks_overlay_def)
next
  case EvRevokeDone
  then show ?thesis using quiet by simp
qed

definition accepted_reports :: "rec_out list \<Rightarrow> report list" where
  "accepted_reports os = concat (map (\<lambda>x. case x of Sent p ok \<Rightarrow> if ok then [p] else [] | _ \<Rightarrow> []) os)"

lemma accepted_append [simp]: "accepted_reports (xs @ ys) = accepted_reports xs @ accepted_reports ys"
  by (simp add: accepted_reports_def)

text \<open>After a restart, while the server still asks for the lock \<open>h\<close> that the durable memory
  knows as unlocked locally, no tick touches the manager and the unlock is reported until the queue
  takes the report, and then never again.\<close>

theorem durable_memory_suppresses_lock:
  assumes "h \<noteq> []" and "last_unlocked_hash (mem m) = h" and "list_all (asks_overlay h) es"
    and "rec_run bcost es (r, m) = ((r', m'), os)"
  shows "m' = m \<and> length (accepted_reports os) \<le> 1 \<and>
    (\<forall>p \<in> set (accepted_reports os). rp_request p = h \<and> rp_state p = Unlocked)"
proof -
  have "m' = m \<and> (\<forall>p \<in> set (accepted_reports os). rp_request p = h \<and> rp_state p = Unlocked) \<and>
      length (accepted_reports os) \<le> (if r_durable r = h then 0 else 1)"
    using assms(3,4)
  proof (induction es arbitrary: r os)
    case Nil
    then show ?case by (simp add: accepted_reports_def)
  next
    case (Cons e es)
    have ov: "asks_overlay h e" using Cons.prems(1) by simp
    obtain r1 o1 where st: "rec_step bcost e (r, m) = ((r1, m), o1)"
      and o1: "o1 = [] \<and> r_durable r1 = r_durable r \<or>
        (\<exists>env. o1 = [mk_report h Unlocked env] \<and> r_durable r \<noteq> h \<and>
          r_durable r1 = (if tk_report env then h else []))"
      by (rule durable_step [OF ov assms(1,2), where bcost = bcost and r = r]) auto
    obtain o2 where rest: "rec_run bcost es (r1, m) = ((r', m'), o2)" and os: "os = o1 @ o2"
      using Cons.prems(2) st by (auto simp: Let_def split: prod.splits)
    have ih: "m' = m \<and> (\<forall>p \<in> set (accepted_reports o2). rp_request p = h \<and> rp_state p = Unlocked) \<and>
        length (accepted_reports o2) \<le> (if r_durable r1 = h then 0 else 1)"
      using Cons.IH [OF _ rest] Cons.prems(1) by simp
    show ?case using ih o1 assms(1)
      by (auto simp: os accepted_reports_def mk_report_def split: if_splits)
  qed
  then show ?thesis by (auto split: if_splits)
qed

subsection \<open>What the reports say\<close>

text \<open>The reports of a tick are true of the manager after it: \<open>LOCKED\<close> only when locked,
  \<open>LOCK_FAILED\<close> only when the lock was refused and nothing changed, \<open>UNLOCKED\<close> only when
  unlocked, or for the very lock that the local-unlock memory names, and then nothing changed.\<close>

theorem tick_reports_truthful:
  assumes "tick bcost env (r, m) = ((r', m'), os)" and "Sent p ok \<in> set os"
  shows "case rp_state p of
      Locked \<Rightarrow> locked (mem m')
    | LockFailed \<Rightarrow> m' = m
    | Unlocked \<Rightarrow> \<not> locked (mem m') \<or> (m' = m \<and> rp_request p = last_unlocked_hash (mem m))"
proof (cases "tk_fetch env")
  case None
  with assms show ?thesis by (simp add: tick_def)
next
  case (Some resp)
  show ?thesis
  proof (cases "resp_locked resp")
    case True
    then have t: "reconcile_locked bcost env resp (r, m) = ((r', m'), os)"
      using Some assms(1) by (simp add: tick_def)
    show ?thesis
    proof (cases rule: lock_ok_or_same [where bcost = bcost and now = "unix_of (tk_now env)"
        and w = "tk_write env" and rid = "resp_hash resp" and h = "resp_hash resp"
        and rsn = "resp_reason resp" and m = m])
      case (ok m'')
      with t assms(2) show ?thesis
        by (auto simp: reconcile_locked_def Let_def mk_report_def split: if_splits)
    next
      case (err e)
      with t assms(2) show ?thesis
        by (auto simp: reconcile_locked_def Let_def mk_report_def split: if_splits)
    qed
  next
    case False
    let ?m = "clear_last_unlocked (tk_rm env) m"
    have "\<not> locked (mem (fst (unlock (tk_dwrite env) (tk_write env) ?m)))" by (rule unlock_off)
    with Some False assms show ?thesis
      by (auto simp: tick_def reconcile_unlocked_def Let_def mk_report_def
          split: if_splits option.splits prod.splits)
  qed
qed

subsection \<open>Refused locks are reported once an hour\<close>

definition refuses :: "(string \<Rightarrow> bool) \<Rightarrow> string \<Rightarrow> tick_env \<Rightarrow> bool" where
  "refuses bcost h env \<longleftrightarrow> (case tk_fetch env of None \<Rightarrow> True
     | Some resp \<Rightarrow> resp_locked resp \<and> resp_mode resp \<noteq> ModeFileVault \<and> resp_hash resp = h)"

lemma refused_tick:
  assumes "refuses bcost h env" and "\<not> bcost h" and "h \<noteq> r_last r" and "h \<noteq> last_unlocked_hash (mem m)"
    and "h \<noteq> hash (mem m)"
  shows "tick bcost env (r, m) =
    (if tk_fetch env = None then ((r, m), [])
     else if \<not> r_fail_set r \<or> r_fail r \<noteq> h \<or> hour_passed (tk_now env) (r_fail_at r)
     then ((r\<lparr>r_fail := h, r_fail_set := True,
              r_fail_at := if tk_report env then Some (tk_now env) else None\<rparr>, m), [mk_report h LockFailed env])
     else ((r\<lparr>r_fail := h, r_fail_set := True\<rparr>, m), []))"
proof (cases "tk_fetch env")
  case (Some resp)
  with assms have "resp_locked resp" "resp_mode resp \<noteq> ModeFileVault" "resp_hash resp = h"
    by (auto simp: refuses_def)
  moreover obtain e where "lock bcost (unix_of (tk_now env)) (tk_write env) h h (resp_reason resp) m = (m, Some e)"
    using assms(2) by (cases "h = []") (auto simp: lock_def validate_bcrypt_hash_def)
  ultimately show ?thesis using Some assms(3-5)
    by (simp add: tick_def reconcile_locked_def Let_def)
qed (simp add: tick_def)

definition sent :: "rec_out list \<Rightarrow> (report \<times> bool) list" where
  "sent os = concat (map (\<lambda>x. case x of Sent p ok \<Rightarrow> [(p, ok)] | _ \<Rightarrow> []) os)"

lemma sent_simps [simp]: "sent [] = []" "sent (xs @ ys) = sent xs @ sent ys"
    "sent (mk_report h st env # os) = (\<lparr>rp_request = h, rp_state = st, rp_at = unix_of (tk_now env)\<rparr>, tk_report env) # sent os"
  by (simp_all add: sent_def mk_report_def)

lemma unix_hour: "t + hour \<le> t' \<Longrightarrow> unix_of t + 3600 \<le> unix_of t'"
proof -
  assume "t + hour \<le> t'"
  then have "(t + 3600 * second) div second \<le> t' div second" by (intro zdiv_mono1) auto
  then show ?thesis unfolding unix_of_def by simp
qed

lemma unix_mono: "t \<le> t' \<Longrightarrow> unix_of t \<le> unix_of t'"
  by (simp add: unix_of_def zdiv_mono1)

text \<open>A lock that the agent refuses is reported \<open>LOCK_FAILED\<close>, never anything else, and
  after a report the queue took, none follows for an hour, however often the server repeats it.\<close>

theorem lock_failed_reports_spaced:
  assumes "list_all (refuses bcost h) envs" and "sorted (map tk_now envs)" and "\<not> bcost h"
    and "h \<noteq> last_unlocked_hash (mem m)" and "h \<noteq> hash (mem m)" and "h \<noteq> r_last r"
    and "rec_run bcost (map EvReconcile envs) (r, m) = (s', os)"
  shows "snd s' = m \<and> sorted_wrt (\<lambda>(p, ok) (p', _). ok \<longrightarrow> rp_at p + 3600 \<le> rp_at p') (sent os) \<and>
    (\<forall>(p, ok) \<in> set (sent os). rp_state p = LockFailed \<and> rp_request p = h)"
proof -
  have "snd s' = m \<and> sorted_wrt (\<lambda>(p, ok) (p', _). ok \<longrightarrow> rp_at p + 3600 \<le> rp_at p') (sent os) \<and>
    (\<forall>(p, ok) \<in> set (sent os). rp_state p = LockFailed \<and> rp_request p = h) \<and>
    (\<forall>x \<in> set (sent os). \<exists>env \<in> set envs. rp_at (fst x) = unix_of (tk_now env)) \<and>
    (\<forall>t. r_fail_set r \<and> r_fail r = h \<and> r_fail_at r = Some t \<longrightarrow>
       (\<forall>x \<in> set (sent os). unix_of t + 3600 \<le> rp_at (fst x)))"
    using assms(1,2,6,7)
  proof (induction envs arbitrary: r os)
    case (Cons env envs)
    obtain r1 o1 where st: "tick bcost env (r, m) = ((r1, m), o1)" and last: "r_last r1 = r_last r"
      and o1: "(o1 = [] \<and> (r_fail_set r \<and> r_fail r = h \<longrightarrow> r_fail_set r1 \<and> r_fail r1 = h \<and> r_fail_at r1 = r_fail_at r)) \<or>
        (o1 = [mk_report h LockFailed env] \<and> r_fail_set r1 \<and> r_fail r1 = h \<and>
          r_fail_at r1 = (if tk_report env then Some (tk_now env) else None) \<and>
          (r_fail_set r \<and> r_fail r = h \<longrightarrow> hour_passed (tk_now env) (r_fail_at r)))"
      using refused_tick [of bcost h env r m] Cons.prems(1,3) assms(3-5) by (auto split: if_splits)
    obtain o2 where rest: "rec_run bcost (map EvReconcile envs) (r1, m) = (s', o2)" and os: "os = o1 @ o2"
      using Cons.prems(4) st by (auto simp: Let_def split: prod.splits)
    note ih = Cons.IH [OF _ _ _ rest]
    have later: "\<forall>x \<in> set (sent o2). unix_of (tk_now env) \<le> rp_at (fst x)"
      using ih Cons.prems(1-3) last by (fastforce intro: unix_mono)
    have hp: "hour_passed (tk_now env) (Some t) \<Longrightarrow> unix_of t + 3600 \<le> unix_of (tk_now env)" for t
      by (intro unix_hour) (simp add: hour_passed_def lock_failed_report_interval_def)
    from o1 show ?case
    proof
      assume "o1 = [] \<and> (r_fail_set r \<and> r_fail r = h \<longrightarrow> r_fail_set r1 \<and> r_fail r1 = h \<and> r_fail_at r1 = r_fail_at r)"
      then show ?thesis using ih Cons.prems(1-3) last os by auto
    next
      assume a: "o1 = [mk_report h LockFailed env] \<and> r_fail_set r1 \<and> r_fail r1 = h \<and>
          r_fail_at r1 = (if tk_report env then Some (tk_now env) else None) \<and>
          (r_fail_set r \<and> r_fail r = h \<longrightarrow> hour_passed (tk_now env) (r_fail_at r))"
      have new: "\<forall>x \<in> set (sent o2). tk_report env \<longrightarrow> unix_of (tk_now env) + 3600 \<le> rp_at (fst x)"
        using ih Cons.prems(1-3) last a by auto
      have old: "\<forall>t. r_fail_set r \<and> r_fail r = h \<and> r_fail_at r = Some t \<longrightarrow>
          unix_of t + 3600 \<le> unix_of (tk_now env)"
        using hp a by auto
      let ?p = "\<lparr>rp_request = h, rp_state = LockFailed, rp_at = unix_of (tk_now env)\<rparr>"
      have so: "sent os = (?p, tk_report env) # sent o2" using a os by simp
      have i: "snd s' = m" "sorted_wrt (\<lambda>(p, ok) (p', _). ok \<longrightarrow> rp_at p + 3600 \<le> rp_at p') (sent o2)"
        "\<forall>(p, ok) \<in> set (sent o2). rp_state p = LockFailed \<and> rp_request p = h"
        "\<forall>x \<in> set (sent o2). \<exists>env \<in> set envs. rp_at (fst x) = unix_of (tk_now env)"
        using ih Cons.prems(1-3) last by simp_all
      have "sorted_wrt (\<lambda>(p, ok) (p', _). ok \<longrightarrow> rp_at p + 3600 \<le> rp_at p') (sent os)"
        using i(2) new by (auto simp: so)
      moreover have "\<forall>x \<in> set (sent os). \<exists>e \<in> set (env # envs). rp_at (fst x) = unix_of (tk_now e)"
        using i(4) by (simp add: so)
      moreover have "\<forall>t. r_fail_set r \<and> r_fail r = h \<and> r_fail_at r = Some t \<longrightarrow>
          (\<forall>x \<in> set (sent os). unix_of t + 3600 \<le> rp_at (fst x))"
      proof (intro allI impI ballI)
        fix t x assume "r_fail_set r \<and> r_fail r = h \<and> r_fail_at r = Some t" and "x \<in> set (sent os)"
        then have "unix_of t + 3600 \<le> unix_of (tk_now env)" and "unix_of (tk_now env) \<le> rp_at (fst x)"
          using old later by (auto simp: so)
        then show "unix_of t + 3600 \<le> rp_at (fst x)" by linarith
      qed
      moreover have "\<forall>(p, ok) \<in> set (sent os). rp_state p = LockFailed \<and> rp_request p = h"
        using i(3) by (simp add: so)
      ultimately show ?thesis using i(1) by blast
    qed
  qed auto
  then show ?thesis by auto
qed

subsection \<open>What an edited state file can do across a restart\<close>

text \<open>A state file with one ill-typed field plants any hash into the local-unlock memory
  (\<open>Load\<close> returns the error after decoding the rest, and its caller goes on).  The next tick then
  does not apply the lock the server asks for and reports it as unlocked by its password.\<close>

theorem planted_memory_suppresses_lock:
  assumes "h \<noteq> []" and "r_last r \<noteq> h" and "r_durable r \<noteq> h"
    and "asks_overlay h (EvReconcile env)" and "tk_fetch env \<noteq> None"
    and "m1 = fst (load True True (m\<lparr>lock_file := Some (JObject [(f_last_unlocked, JStr h), (f_locked, JStr x)])\<rparr>))"
  shows "snd (fst (tick bcost env (r, m1))) = m1 \<and> snd (tick bcost env (r, m1)) = [mk_report h Unlocked env]"
proof -
  have "last_unlocked_hash (mem m1) = h"
    using load_error_keeps_forged_memory [where dur_ok = True and m = m and h = h and x = x] assms(6) by (simp add: Let_def)
  then show ?thesis using durable_tick [OF assms(4,1), of m1 bcost r] assms(2,3,5) by simp
qed

text \<open>A well-formed state file that is unlocked but names a request and a hash is loaded
  without an error, and then any unlock request, whatever its password, makes the tick call back with
  that request and hash, upon which the reconciler reports the lock unlocked and stops applying it:
  \<open>verify\<close> answers true on an unlocked manager, and the test for an empty request id does not
  protect against a planted one.\<close>

theorem planted_request_id_fakes_local_unlock:
  assumes "rid \<noteq> []" and "entry_password e = Some pw"
    and "m1 = fst (load True True (m\<lparr>lock_file := Some (marshal_state
        (zero_state\<lparr>request_id := rid, hash := h\<rparr>))\<rparr>))"
  shows "snd (process_unlock_requests bcheck dw w [e] m1) = [(rid, h)] \<and>
    \<not> locked (mem m1) \<and>
    r_last (fst (on_local_unlock now ok rid h r)) = h"
proof -
  let ?s = "zero_state\<lparr>request_id := rid, hash := h\<rparr>"
  have "unmarshal_state (marshal_state ?s) t = (?s\<lparr>last_unlocked_hash := last_unlocked_hash t\<rparr>, True)" for t
    by (simp add: unmarshal_marshal zero_state_def int64_range_def)
  then have "request_id (mem m1) = rid" "hash (mem m1) = h" "\<not> locked (mem m1)"
    unfolding assms(3) by (simp_all add: load_def Let_def zero_state_def)
  then show ?thesis using assms(1,2) by (simp add: process_entry_alt verify_def on_local_unlock_def)
qed

subsection \<open>Concrete runs\<close>

definition resp_H :: lock_response where
  "resp_H = \<lparr>resp_locked = True, resp_hash = ''H'', resp_reason = ''why'', resp_mode = ModeOverlay\<rparr>"

definition env_H :: tick_env where
  "env_H = \<lparr>tk_fetch = Some resp_H, tk_now = 7, tk_write = None, tk_dwrite = DOk, tk_rm = True, tk_report = True\<rparr>"

definition rec_fresh :: rec where "rec_fresh = new_reconciler 0 False"

lemmas rec_demo = resp_H_def env_H_def rec_fresh_def new_reconciler_def demo_cost_def lm_fresh_def
  new_manager_def zero_state_def

lemma tick_converges_witness: "locked (mem (snd (fst (tick demo_cost env_H (rec_fresh, lm_fresh)))))"
  using tick_converges [of env_H resp_H demo_cost rec_fresh lm_fresh
      "fst (fst (tick demo_cost env_H (rec_fresh, lm_fresh)))"
      "snd (fst (tick demo_cost env_H (rec_fresh, lm_fresh)))"
      "snd (tick demo_cost env_H (rec_fresh, lm_fresh))"]
  by (simp add: rec_demo)

lemma no_relock_after_local_unlock_witness:
  "snd (rec_run demo_cost [EvLocalUnlock 5 False ''H'' ''H'', EvReconcile env_H, EvReconcile env_H] (rec_fresh, lm_fresh)) =
    [Sent \<lparr>rp_request = ''H'', rp_state = Unlocked, rp_at = unix_of 5\<rparr> False]"
  using no_relock_after_local_unlock [of "''H''" "[EvReconcile env_H, EvReconcile env_H]" demo_cost 5 False
      "''H''" rec_fresh lm_fresh]
  by (simp add: asks_overlay_def env_H_def resp_H_def prod_eq_iff del: rec_run.simps)

lemma durable_memory_suppresses_lock_witness:
  "length (accepted_reports (snd (rec_run demo_cost [EvReconcile env_H, EvReconcile env_H]
     (rec_fresh, lm_fresh\<lparr>mem := zero_state\<lparr>last_unlocked_hash := ''H''\<rparr>\<rparr>)))) \<le> 1"
  using durable_memory_suppresses_lock [of "''H''" "lm_fresh\<lparr>mem := zero_state\<lparr>last_unlocked_hash := ''H''\<rparr>\<rparr>"
      "[EvReconcile env_H, EvReconcile env_H]" demo_cost rec_fresh, OF _ _ _ surjective_pairing [THEN trans,
        OF arg_cong2 [where f = Pair, OF surjective_pairing refl]]]
  by (simp add: asks_overlay_def env_H_def resp_H_def del: rec_run.simps)

lemma tick_reports_truthful_witness:
  "let p = \<lparr>rp_request = ''H'', rp_state = Locked, rp_at = unix_of 7\<rparr> in
   case rp_state p of
      Locked \<Rightarrow> locked (mem (snd (fst (tick demo_cost env_H (rec_fresh, lm_fresh)))))
    | LockFailed \<Rightarrow> False | Unlocked \<Rightarrow> False"
proof -
  have "Sent \<lparr>rp_request = ''H'', rp_state = Locked, rp_at = unix_of 7\<rparr> True
      \<in> set (snd (tick demo_cost env_H (rec_fresh, lm_fresh)))"
    by (simp add: tick_def reconcile_locked_def Let_def rec_demo lock_def validate_bcrypt_hash_def
        mk_report_def)
  then show ?thesis
    using tick_reports_truthful [of demo_cost env_H rec_fresh lm_fresh
        "fst (fst (tick demo_cost env_H (rec_fresh, lm_fresh)))"
        "snd (fst (tick demo_cost env_H (rec_fresh, lm_fresh)))"
        "snd (tick demo_cost env_H (rec_fresh, lm_fresh))"
        "\<lparr>rp_request = ''H'', rp_state = Locked, rp_at = unix_of 7\<rparr>" True]
    by simp
qed

definition env_bad :: "nanos \<Rightarrow> tick_env" where
  "env_bad t = env_H\<lparr>tk_fetch := Some (resp_H\<lparr>resp_hash := ''bad''\<rparr>), tk_now := t\<rparr>"

lemma lock_failed_reports_spaced_witness:
  "snd (fst (rec_run demo_cost (map EvReconcile [env_bad 5, env_bad 6]) (rec_fresh, lm_fresh))) = lm_fresh"
  using lock_failed_reports_spaced [of demo_cost "''bad''" "[env_bad 5, env_bad 6]" lm_fresh rec_fresh
      "fst (rec_run demo_cost (map EvReconcile [env_bad 5, env_bad 6]) (rec_fresh, lm_fresh))"
      "snd (rec_run demo_cost (map EvReconcile [env_bad 5, env_bad 6]) (rec_fresh, lm_fresh))"]
  by (simp add: refuses_def env_bad_def rec_demo del: rec_run.simps)

lemma planted_memory_suppresses_lock_witness:
  "snd (tick demo_cost env_H (rec_fresh, fst (load True True (lm_fresh\<lparr>lock_file :=
     Some (JObject [(f_last_unlocked, JStr ''H''), (f_locked, JStr [])])\<rparr>)))) = [mk_report ''H'' Unlocked env_H]"
  using planted_memory_suppresses_lock [where h = "''H''" and r = rec_fresh and env = env_H and m = lm_fresh
      and x = "[]" and bcost = demo_cost, OF _ _ _ _ _ refl]
  by (simp add: asks_overlay_def rec_demo)

lemma planted_request_id_fakes_local_unlock_witness:
  "snd (process_unlock_requests demo_check DOk None [demo_request]
     (fst (load True True (lm_fresh\<lparr>lock_file := Some (marshal_state
        (zero_state\<lparr>request_id := ''H'', hash := ''H''\<rparr>))\<rparr>)))) = [(''H'', ''H'')]"
  using planted_request_id_fakes_local_unlock [where rid = "''H''" and e = demo_request and pw = "''pw''" and m = lm_fresh
      and h = "''H''" and bcheck = demo_check and dw = DOk and w = None, OF _ _ refl]
  by (simp add: demo_password)

end
