(* ===== verification/SeenSet.thy ===== *)
theory SeenSet
  imports Contracts
begin

section \<open>The sets of handled keys on disk\<close>

text \<open>
  Model of \<open>internal/agent/command/seen.go\<close> (task identifiers) and of its twin
  \<open>internal/agent/scripts/dedup.go\<close> (keys of script runs): a set in memory over an
  append-only file of lines.  The file is a list of lines; reading it follows
  \<open>bufio.Scanner\<close>, which stops at the first line that does not fit its buffer of 64 kB.
\<close>

record seen =
  s_mem :: "string list"
  s_file :: "string list option"
  s_path :: bool

definition scan_limit :: int where "scan_limit = 65536"

definition newline :: char where "newline = CHR 0x0A"

definition scan_lines :: "string list \<Rightarrow> string list" where
  "scan_lines ls = takeWhile (\<lambda>l. int (length l) < scan_limit) ls"

text \<open>\<open>open_ok\<close> is whether \<open>os.Open\<close> succeeds on an existing file.\<close>

definition load_seen_set :: "bool \<Rightarrow> bool \<Rightarrow> string list option \<Rightarrow> seen" where
  "load_seen_set path open_ok f =
     \<lparr>s_mem = (if \<not> path \<or> \<not> open_ok then []
        else case f of None \<Rightarrow> [] | Some ls \<Rightarrow> filter (\<lambda>k. k \<noteq> []) (map trim_space (scan_lines ls))),
      s_file = f, s_path = path\<rparr>"

definition has_key :: "seen \<Rightarrow> string \<Rightarrow> bool" where
  "has_key s k \<longleftrightarrow> k \<in> set (s_mem s)"

text \<open>\<open>fmt.Fprintln\<close> of the key: a key with a line feed in it becomes several lines.\<close>

definition persist_key :: "bool \<Rightarrow> string \<Rightarrow> seen \<Rightarrow> seen" where
  "persist_key ok k s =
     (if \<not> s_path s \<or> \<not> ok then s
      else s\<lparr>s_file := Some ((case s_file s of None \<Rightarrow> [] | Some ls \<Rightarrow> ls) @ split_on newline k)\<rparr>)"

definition mark_if_new :: "bool \<Rightarrow> seen \<Rightarrow> string \<Rightarrow> seen \<times> bool" where
  "mark_if_new ok s k =
     (if k \<in> set (s_mem s) then (s, False)
      else (persist_key ok k (s\<lparr>s_mem := k # s_mem s\<rparr>), True))"

text \<open>The twin in the scheduler of scripts, with the file operations in line.\<close>

definition load_dedup_set :: "bool \<Rightarrow> bool \<Rightarrow> string list option \<Rightarrow> seen" where
  "load_dedup_set path open_ok f = load_seen_set path open_ok f"

definition dedup_mark_if_new :: "bool \<Rightarrow> seen \<Rightarrow> string \<Rightarrow> seen \<times> bool" where
  "dedup_mark_if_new ok s k =
     (if k \<in> set (s_mem s) then (s, False)
      else let s1 = s\<lparr>s_mem := k # s_mem s\<rparr> in
        (if s_path s1 \<and> ok
         then s1\<lparr>s_file := Some ((case s_file s1 of None \<Rightarrow> [] | Some ls \<Rightarrow> ls) @ split_on newline k)\<rparr>
         else s1, True))"

lemma s_mem_persist [simp]: "s_mem (persist_key ok k s) = s_mem s" "s_path (persist_key ok k s) = s_path s"
  by (simp_all add: persist_key_def)

interpretation seen: seen_keys "mark_if_new ok" has_key
  by unfold_locales (auto simp: mark_if_new_def has_key_def)

lemma dedup_is_seen: "dedup_mark_if_new = mark_if_new"
  by (intro ext) (auto simp: dedup_mark_if_new_def mark_if_new_def persist_key_def Let_def)

interpretation dedup: seen_keys "dedup_mark_if_new ok" has_key
  by unfold_locales (auto simp: dedup_is_seen mark_if_new_def has_key_def)

text \<open>Keys that a line of the file represents faithfully: no white space around them, no line
  feed in them, and short.  Identifiers of tasks and keys of runs are of this kind.\<close>

definition plain_key :: "string \<Rightarrow> bool" where
  "plain_key k \<longleftrightarrow> k \<noteq> [] \<and> trim_space k = k \<and> newline \<notin> set k \<and> int (length k) < scan_limit"

definition reload :: "seen \<Rightarrow> seen" where
  "reload s = load_seen_set (s_path s) True (s_file s)"

text \<open>The memory of the set survives a restart.\<close>

definition durable_seen :: "seen \<Rightarrow> bool" where
  "durable_seen s \<longleftrightarrow> s_path s \<and> (\<forall>l \<in> set (case s_file s of None \<Rightarrow> [] | Some ls \<Rightarrow> ls). int (length l) < scan_limit) \<and>
     (\<forall>k. has_key s k \<longrightarrow> has_key (reload s) k)"

lemma has_reload_append:
  assumes "s_path s" and "\<forall>l \<in> set (case s_file s of None \<Rightarrow> [] | Some ls \<Rightarrow> ls). int (length l) < scan_limit"
    and "plain_key k"
  shows "has_key (reload (s\<lparr>s_file := Some ((case s_file s of None \<Rightarrow> [] | Some ls \<Rightarrow> ls) @ split_on newline k)\<rparr>)) j
    \<longleftrightarrow> j = k \<or> has_key (reload s) j"
proof -
  let ?ls = "case s_file s of None \<Rightarrow> [] | Some ls \<Rightarrow> ls"
  have "scan_lines (?ls @ [k]) = ?ls @ [k]" and "scan_lines ?ls = ?ls"
    using assms(2,3) by (auto simp: scan_lines_def takeWhile_eq_all_conv plain_key_def)
  then show ?thesis using assms(1,3)
    by (cases "s_file s") (auto simp: has_key_def reload_def load_seen_set_def plain_key_def split_on_simple)
qed

lemma durable_mark:
  assumes "durable_seen s" and "plain_key k"
  shows "durable_seen (fst (mark_if_new True s k))"
proof (cases "k \<in> set (s_mem s)")
  case True
  then show ?thesis using assms by (simp add: mark_if_new_def)
next
  case False
  let ?ls = "case s_file s of None \<Rightarrow> [] | Some ls \<Rightarrow> ls"
  let ?s = "s\<lparr>s_mem := k # s_mem s\<rparr>"
  have p: "s_path s" "\<forall>l \<in> set ?ls. int (length l) < scan_limit" using assms(1) by (auto simp: durable_seen_def)
  have m: "fst (mark_if_new True s k) = ?s\<lparr>s_file := Some (?ls @ split_on newline k)\<rparr>"
    using False p by (simp add: mark_if_new_def persist_key_def)
  have r: "reload ?s = reload s" by (simp add: reload_def)
  have "has_key (reload (?s\<lparr>s_file := Some (?ls @ split_on newline k)\<rparr>)) j \<longleftrightarrow> j = k \<or> has_key (reload s) j" for j
    using has_reload_append [of ?s k j] p assms(2) r by simp
  moreover have "\<forall>l \<in> set (?ls @ split_on newline k). int (length l) < scan_limit"
    using p assms(2) by (auto simp: plain_key_def split_on_simple)
  ultimately show ?thesis unfolding m durable_seen_def
    using assms(1) by (auto simp: durable_seen_def has_key_def)
qed

lemma durable_reload: "durable_seen s \<Longrightarrow> durable_seen (reload s)"
  by (auto simp: durable_seen_def reload_def load_seen_set_def has_key_def)

lemma durable_fresh: "durable_seen (load_seen_set True True None)"
  by (simp add: durable_seen_def reload_def load_seen_set_def has_key_def)

end
