(* ===== verification/Executor.thy ===== *)
theory Executor
  imports SeenSet Outbox LockManager
begin

section \<open>The executor of tasks\<close>

text \<open>
  Model of \<open>internal/agent/command/executor.go\<close> and \<open>run.go\<close>.  Every task is handled by
  a goroutine of its own; the model is a transition system whose steps are the atomic sections of
  these goroutines, so that every interleaving of deliveries, tasks, shutdown and crashes is a
  sequence of labels.  The log records the acknowledgements sent and the tasks run.  The second half
  of the theory models what a task does once it runs, handler by handler; the RPC client, the
  operating system and the other components enter through arguments that carry their answers.
\<close>

subsection \<open>Tasks\<close>

record lock_cmd =
  lc_request :: string
  lc_unlock :: bool
  lc_filevault :: bool
  lc_hash :: string
  lc_reason :: string

record reboot_cmd =
  rc_request :: string
  rc_delay_s :: int
  rc_reason :: string

datatype pb_method = PbUnspecified | PbMsi | PbWindowsQuiet | PbMacAppBundle | PbDpkg | PbRpm | PbPacman | PbApk
datatype uninstall_method = UninstallNone | UninstallMsi | UninstallWindowsQuiet | UninstallMacAppBundle
  | UninstallDpkg | UninstallRpm | UninstallPacman | UninstallApk

record uninstall_cmd =
  uc_request :: string
  uc_name :: string
  uc_version :: string
  uc_id :: string
  uc_location :: string
  uc_method :: pb_method
  uc_scope :: string
  uc_reason :: string

record task =
  t_id :: string
  t_script :: string
  t_platform :: string
  t_lock :: "lock_cmd option"
  t_decommission :: "(string \<times> string) option"
  t_reboot :: "reboot_cmd option"
  t_uninstall :: "uninstall_cmd option"
  t_provision :: "(string \<times> string) option"
  t_screen :: "string option"

text \<open>The tasks that wait for one of the slots: scripts and removals of software.\<close>

definition needs_slot :: "task \<Rightarrow> bool" where
  "needs_slot t \<longleftrightarrow> t_lock t = None \<and> t_decommission t = None \<and> t_reboot t = None \<and>
     t_provision t = None \<and> t_screen t = None"

subsection \<open>The goroutines\<close>

definition max_concurrent_tasks :: nat where "max_concurrent_tasks = 8"

datatype stage = Waiting | Acquired | Ready | Marked bool | Exec | Running

datatype effect = EAck string | ERun string | EDone string

record ex =
  ex_accepting :: bool
  ex_cancelled :: bool
  ex_seen :: seen
  ex_live :: "(string \<times> task \<times> stage) list"
  ex_reacks :: "string list"
  ex_sem :: nat
  ex_log :: "effect list"

definition new_executor :: "seen \<Rightarrow> ex" where
  "new_executor s = \<lparr>ex_accepting = True, ex_cancelled = False, ex_seen = s, ex_live = [],
     ex_reacks = [], ex_sem = 0, ex_log = []\<rparr>"

text \<open>\<open>Submit\<close> up to the start of the goroutines.\<close>

definition submit :: "task \<Rightarrow> ex \<Rightarrow> ex" where
  "submit t e =
     (if t_id t = [] \<or> \<not> ex_accepting e then e
      else case map_of (ex_live e) (t_id t) of
             Some _ \<Rightarrow> if has_key (ex_seen e) (t_id t)
                       then e\<lparr>ex_reacks := t_id t # ex_reacks e\<rparr> else e
           | None \<Rightarrow> e\<lparr>ex_live := (t_id t, t, Waiting) # ex_live e\<rparr>)"

definition set_stage :: "string \<Rightarrow> stage \<Rightarrow> ex \<Rightarrow> ex" where
  "set_stage i st e = e\<lparr>ex_live := map (\<lambda>(j, t, s). if j = i then (j, t, st) else (j, t, s)) (ex_live e)\<rparr>"

definition drop_job :: "string \<Rightarrow> ex \<Rightarrow> ex" where
  "drop_job i e = e\<lparr>ex_live := filter (\<lambda>(j, _). j \<noteq> i) (ex_live e)\<rparr>"

text \<open>The end of \<open>handle\<close>: the deferred release of the slot and the removal from the set of
  tasks in flight.\<close>

definition release :: "string \<Rightarrow> task \<Rightarrow> ex \<Rightarrow> ex" where
  "release i t e = (if needs_slot t then (drop_job i e)\<lparr>ex_sem := ex_sem e - 1\<rparr> else drop_job i e)"

definition log_effect :: "effect \<Rightarrow> ex \<Rightarrow> ex" where
  "log_effect x e = e\<lparr>ex_log := ex_log e @ [x]\<rparr>"

datatype label =
    LSubmit task | LReack string bool
  | LAcquire string | LGiveUp string | LSkip string | LCheck string
  | LConnectFail string | LMark string bool | LAck string | LRun string | LFinish string
  | LShutdown | LCancel | LCrash

text \<open>
  One step, \<open>None\<close> when it is not enabled.  \<open>handle\<close> waits for a slot in a select with
  \<open>stopping\<close> and the context, checks \<open>stopping\<close> once more when it got the slot, connects,
  marks the identifier in the persistent set, acknowledges, and only then runs what is new.
\<close>

fun fire :: "label \<Rightarrow> ex \<Rightarrow> ex option" where
  "fire (LSubmit t) e = Some (submit t e)"
| "fire (LReack i ok) e =
     (if i \<in> set (ex_reacks e)
      then Some ((if ok then log_effect (EAck i) e else e)\<lparr>ex_reacks := remove1 i (ex_reacks e)\<rparr>)
      else None)"
| "fire (LAcquire i) e =
     (case map_of (ex_live e) i of
        Some (t, Waiting) \<Rightarrow> if needs_slot t \<and> ex_sem e < max_concurrent_tasks
          then Some ((set_stage i Acquired e)\<lparr>ex_sem := ex_sem e + 1\<rparr>) else None
      | _ \<Rightarrow> None)"
| "fire (LGiveUp i) e =
     (case map_of (ex_live e) i of
        Some (t, Waiting) \<Rightarrow> if needs_slot t \<and> (\<not> ex_accepting e \<or> ex_cancelled e)
          then Some (drop_job i e) else None
      | _ \<Rightarrow> None)"
| "fire (LSkip i) e =
     (case map_of (ex_live e) i of
        Some (t, Waiting) \<Rightarrow> if \<not> needs_slot t then Some (set_stage i Ready e) else None
      | _ \<Rightarrow> None)"
| "fire (LCheck i) e =
     (case map_of (ex_live e) i of
        Some (t, Acquired) \<Rightarrow>
          Some (if \<not> ex_accepting e then release i t e else set_stage i Ready e)
      | _ \<Rightarrow> None)"
| "fire (LConnectFail i) e =
     (case map_of (ex_live e) i of Some (t, Ready) \<Rightarrow> Some (release i t e) | _ \<Rightarrow> None)"
| "fire (LMark i ok) e =
     (case map_of (ex_live e) i of
        Some (t, Ready) \<Rightarrow>
          (let (s', new) = mark_if_new ok (ex_seen e) i
           in Some ((set_stage i (Marked new) e)\<lparr>ex_seen := s'\<rparr>))
      | _ \<Rightarrow> None)"
| "fire (LAck i) e =
     (case map_of (ex_live e) i of
        Some (t, Marked new) \<Rightarrow>
          Some (log_effect (EAck i) (if new then set_stage i Exec e else release i t e))
      | _ \<Rightarrow> None)"
| "fire (LRun i) e =
     (case map_of (ex_live e) i of
        Some (t, Exec) \<Rightarrow> Some (log_effect (ERun i) (set_stage i Running e)) | _ \<Rightarrow> None)"
| "fire (LFinish i) e =
     (case map_of (ex_live e) i of
        Some (t, Running) \<Rightarrow> Some (log_effect (EDone i) (release i t e)) | _ \<Rightarrow> None)"
| "fire LShutdown e = Some (e\<lparr>ex_accepting := False\<rparr>)"
| "fire LCancel e = (if ex_accepting e then None else Some (e\<lparr>ex_cancelled := True\<rparr>))"
| "fire LCrash e = Some (e\<lparr>ex_accepting := True, ex_cancelled := False, ex_seen := reload (ex_seen e),
     ex_live := [], ex_reacks := [], ex_sem := 0\<rparr>)"

text \<open>The executions whose labels satisfy \<open>P\<close>.\<close>

inductive reaches :: "(label \<Rightarrow> bool) \<Rightarrow> ex \<Rightarrow> ex \<Rightarrow> bool" for P :: "label \<Rightarrow> bool" where
  reaches_refl: "reaches P e e"
| reaches_step: "reaches P e1 e2 \<Longrightarrow> P l \<Longrightarrow> fire l e2 = Some e3 \<Longrightarrow> reaches P e1 e3"

subsection \<open>Slots\<close>

lemma live_split:
  assumes "map_of (ex_live e) i = Some (t, s)" and "distinct (map fst (ex_live e))"
  obtains xs ys where "ex_live e = xs @ (i, t, s) # ys"
    and "\<And>st. ex_live (set_stage i st e) = xs @ (i, t, st) # ys"
    and "ex_live (drop_job i e) = xs @ ys" and "i \<notin> fst ` set xs" and "i \<notin> fst ` set ys"
proof -
  obtain xs ys where l: "ex_live e = xs @ (i, t, s) # ys"
    using assms(1) by (metis map_of_SomeD split_list)
  with assms(2) have n: "i \<notin> fst ` set xs" "i \<notin> fst ` set ys" by auto
  then have "map (\<lambda>(j, t, s). if j = i then (j, t, st) else (j, t, s)) xs = xs"
    "map (\<lambda>(j, t, s). if j = i then (j, t, st) else (j, t, s)) ys = ys"
    "filter (\<lambda>(j, _). j \<noteq> i) xs = xs" "filter (\<lambda>(j, _). j \<noteq> i) ys = ys" for st
    by (auto intro!: map_idI filter_True) force+
  then show thesis using that [of xs ys] l n by (simp add: set_stage_def drop_job_def)
qed

definition holds_slot :: "string \<times> task \<times> stage \<Rightarrow> bool" where
  "holds_slot j = (case j of (i, t, s) \<Rightarrow> needs_slot t \<and> s \<noteq> Waiting)"

definition slots_inv :: "ex \<Rightarrow> bool" where
  "slots_inv e \<longleftrightarrow> distinct (map fst (ex_live e)) \<and> ex_sem e = length (filter holds_slot (ex_live e)) \<and>
     ex_sem e \<le> max_concurrent_tasks \<and> (\<forall>(i, t, s) \<in> set (ex_live e). i = t_id t \<and> (s = Acquired \<longrightarrow> needs_slot t))"

lemma set_stage_simps [simp]: "ex_sem (set_stage i st e) = ex_sem e" "ex_seen (set_stage i st e) = ex_seen e"
    "ex_log (set_stage i st e) = ex_log e" "ex_accepting (set_stage i st e) = ex_accepting e"
    "ex_reacks (set_stage i st e) = ex_reacks e" "ex_cancelled (set_stage i st e) = ex_cancelled e"
  by (simp_all add: set_stage_def)

lemma drop_job_simps [simp]: "ex_sem (drop_job i e) = ex_sem e" "ex_seen (drop_job i e) = ex_seen e"
    "ex_log (drop_job i e) = ex_log e" "ex_accepting (drop_job i e) = ex_accepting e"
    "ex_reacks (drop_job i e) = ex_reacks e" "ex_cancelled (drop_job i e) = ex_cancelled e"
  by (simp_all add: drop_job_def)

lemma release_simps [simp]: "ex_seen (release i t e) = ex_seen e" "ex_log (release i t e) = ex_log e"
    "ex_accepting (release i t e) = ex_accepting e" "ex_reacks (release i t e) = ex_reacks e"
    "ex_live (release i t e) = ex_live (drop_job i e)" "ex_cancelled (release i t e) = ex_cancelled e"
    "ex_sem (release i t e) = (if needs_slot t then ex_sem e - 1 else ex_sem e)"
  by (simp_all add: release_def)

lemma log_effect_simps [simp]: "ex_seen (log_effect x e) = ex_seen e" "ex_live (log_effect x e) = ex_live e"
    "ex_accepting (log_effect x e) = ex_accepting e" "ex_reacks (log_effect x e) = ex_reacks e"
    "ex_sem (log_effect x e) = ex_sem e" "ex_log (log_effect x e) = ex_log e @ [x]"
    "ex_cancelled (log_effect x e) = ex_cancelled e"
  by (simp_all add: log_effect_def)

lemma slots_inv_cong:
  "slots_inv e \<Longrightarrow> ex_live e' = ex_live e \<Longrightarrow> ex_sem e' = ex_sem e \<Longrightarrow> slots_inv e'"
  by (simp add: slots_inv_def)

lemma slots_stage:
  assumes "slots_inv e" and "map_of (ex_live e) i = Some (t, s)" and "ex_live e' = ex_live (set_stage i st e)"
    and "st = Acquired \<Longrightarrow> needs_slot t"
    and "(if needs_slot t \<and> s = Waiting then st \<noteq> Waiting \<and> ex_sem e' = ex_sem e + 1 \<and> ex_sem e < max_concurrent_tasks
          else st \<noteq> Waiting \<and> ex_sem e' = ex_sem e)"
  shows "slots_inv e'"
proof -
  have d: "distinct (map fst (ex_live e))" using assms(1) by (simp add: slots_inv_def)
  obtain xs ys where l: "ex_live e = xs @ (i, t, s) # ys" "ex_live e' = xs @ (i, t, st) # ys"
    by (rule live_split [OF assms(2) d]) (use assms(3) in auto)
  show ?thesis using assms(1,4,5) l
    by (auto simp: slots_inv_def holds_slot_def max_concurrent_tasks_def split: if_splits)
qed

lemma slots_drop:
  assumes "slots_inv e" and "map_of (ex_live e) i = Some (t, s)" and "ex_live e' = ex_live (drop_job i e)"
    and "ex_sem e' = (if needs_slot t \<and> s \<noteq> Waiting then ex_sem e - 1 else ex_sem e)"
  shows "slots_inv e'"
proof -
  have d: "distinct (map fst (ex_live e))" using assms(1) by (simp add: slots_inv_def)
  obtain xs ys where l: "ex_live e = xs @ (i, t, s) # ys" "ex_live e' = xs @ ys"
    by (rule live_split [OF assms(2) d]) (use assms(3) in auto)
  show ?thesis using assms(1,4) l
    by (auto simp: slots_inv_def holds_slot_def split: if_splits)
qed

lemma slots_submit: "slots_inv e \<Longrightarrow> slots_inv (submit t e)"
  by (auto simp: submit_def slots_inv_def holds_slot_def map_of_eq_None_iff split: option.splits)

text \<open>What it means for a label to fire, in one equivalence per label.\<close>

lemma fire_acquire: "fire (LAcquire i) e = Some e' \<longleftrightarrow> (\<exists>t. map_of (ex_live e) i = Some (t, Waiting) \<and>
    needs_slot t \<and> ex_sem e < max_concurrent_tasks \<and> e' = (set_stage i Acquired e)\<lparr>ex_sem := ex_sem e + 1\<rparr>)"
  by (auto split: option.splits stage.splits prod.splits)

lemma fire_give_up: "fire (LGiveUp i) e = Some e' \<longleftrightarrow> (\<exists>t. map_of (ex_live e) i = Some (t, Waiting) \<and>
    needs_slot t \<and> (\<not> ex_accepting e \<or> ex_cancelled e) \<and> e' = drop_job i e)"
  by (auto split: option.splits stage.splits prod.splits)

lemma fire_skip: "fire (LSkip i) e = Some e' \<longleftrightarrow> (\<exists>t. map_of (ex_live e) i = Some (t, Waiting) \<and>
    \<not> needs_slot t \<and> e' = set_stage i Ready e)"
  by (auto split: option.splits stage.splits prod.splits)

lemma fire_check: "fire (LCheck i) e = Some e' \<longleftrightarrow> (\<exists>t. map_of (ex_live e) i = Some (t, Acquired) \<and>
    e' = (if \<not> ex_accepting e then release i t e else set_stage i Ready e))"
  by (auto split: option.splits stage.splits prod.splits)

lemma fire_connect_fail: "fire (LConnectFail i) e = Some e' \<longleftrightarrow>
    (\<exists>t. map_of (ex_live e) i = Some (t, Ready) \<and> e' = release i t e)"
  by (auto split: option.splits stage.splits prod.splits)

lemma fire_mark: "fire (LMark i ok) e = Some e' \<longleftrightarrow> (\<exists>t. map_of (ex_live e) i = Some (t, Ready) \<and>
    e' = (set_stage i (Marked (snd (mark_if_new ok (ex_seen e) i))) e)\<lparr>ex_seen := fst (mark_if_new ok (ex_seen e) i)\<rparr>)"
  by (auto simp: Let_def split_beta split: option.splits stage.splits prod.splits)

lemma fire_ack: "fire (LAck i) e = Some e' \<longleftrightarrow> (\<exists>t new. map_of (ex_live e) i = Some (t, Marked new) \<and>
    e' = log_effect (EAck i) (if new then set_stage i Exec e else release i t e))"
  by (auto split: option.splits stage.splits prod.splits)

lemma fire_run: "fire (LRun i) e = Some e' \<longleftrightarrow> (\<exists>t. map_of (ex_live e) i = Some (t, Exec) \<and>
    e' = log_effect (ERun i) (set_stage i Running e))"
  by (auto split: option.splits stage.splits prod.splits)

lemma fire_finish: "fire (LFinish i) e = Some e' \<longleftrightarrow> (\<exists>t. map_of (ex_live e) i = Some (t, Running) \<and>
    e' = log_effect (EDone i) (release i t e))"
  by (auto split: option.splits stage.splits prod.splits)

lemma fire_reack: "fire (LReack i ok) e = Some e' \<longleftrightarrow> i \<in> set (ex_reacks e) \<and>
    e' = (if ok then log_effect (EAck i) e else e)\<lparr>ex_reacks := remove1 i (ex_reacks e)\<rparr>"
  by auto

lemma fire_cancel: "fire LCancel e = Some e' \<longleftrightarrow> \<not> ex_accepting e \<and> e' = e\<lparr>ex_cancelled := True\<rparr>"
  by auto

lemmas fire_iffs = fire_acquire fire_give_up fire_skip fire_check fire_connect_fail fire_mark fire_ack
  fire_run fire_finish fire_reack fire_cancel

lemma slots_fire:
  assumes "slots_inv e" and "fire l e = Some e'"
  shows "slots_inv e'"
proof (cases l)
  case (LSubmit t)
  with assms show ?thesis by (auto intro: slots_submit)
next
  case (LAcquire i)
  obtain t where j: "map_of (ex_live e) i = Some (t, Waiting)" "needs_slot t"
      "ex_sem e < max_concurrent_tasks" "e' = (set_stage i Acquired e)\<lparr>ex_sem := ex_sem e + 1\<rparr>"
    using assms(2) [unfolded LAcquire fire_acquire] by blast
  then show ?thesis by (intro slots_stage [OF assms(1) j(1), where st = Acquired]) auto
next
  case (LSkip i)
  obtain t where j: "map_of (ex_live e) i = Some (t, Waiting)" "\<not> needs_slot t" "e' = set_stage i Ready e"
    using assms(2) [unfolded LSkip fire_skip] by blast
  then show ?thesis by (intro slots_stage [OF assms(1) j(1), where st = Ready]) auto
next
  case (LGiveUp i)
  obtain t where j: "map_of (ex_live e) i = Some (t, Waiting)" "e' = drop_job i e"
    using assms(2) [unfolded LGiveUp fire_give_up] by blast
  then show ?thesis by (intro slots_drop [OF assms(1) j(1)]) auto
next
  case (LCheck i)
  obtain t where j: "map_of (ex_live e) i = Some (t, Acquired)"
      "e' = (if \<not> ex_accepting e then release i t e else set_stage i Ready e)"
    using assms(2) [unfolded LCheck fire_check] by blast
  then show ?thesis using assms(1)
    by (cases "ex_accepting e")
       (auto intro: slots_stage [OF assms(1) j(1), where st = Ready] slots_drop [OF assms(1) j(1)])
next
  case (LConnectFail i)
  obtain t where j: "map_of (ex_live e) i = Some (t, Ready)" "e' = release i t e"
    using assms(2) [unfolded LConnectFail fire_connect_fail] by blast
  then show ?thesis by (auto intro: slots_drop [OF assms(1) j(1)])
next
  case (LMark i ok)
  let ?st = "Marked (snd (mark_if_new ok (ex_seen e) i))"
  obtain t where j: "map_of (ex_live e) i = Some (t, Ready)"
      "e' = (set_stage i ?st e)\<lparr>ex_seen := fst (mark_if_new ok (ex_seen e) i)\<rparr>"
    using assms(2) [unfolded LMark fire_mark] by blast
  then show ?thesis by (auto intro: slots_stage [OF assms(1) j(1), where st = ?st])
next
  case (LAck i)
  obtain t new where j: "map_of (ex_live e) i = Some (t, Marked new)"
      "e' = log_effect (EAck i) (if new then set_stage i Exec e else release i t e)"
    using assms(2) [unfolded LAck fire_ack] by blast
  then show ?thesis
    by (cases new) (auto intro: slots_stage [OF assms(1) j(1), where st = Exec] slots_drop [OF assms(1) j(1)])
next
  case (LRun i)
  obtain t where j: "map_of (ex_live e) i = Some (t, Exec)"
      "e' = log_effect (ERun i) (set_stage i Running e)"
    using assms(2) [unfolded LRun fire_run] by blast
  then show ?thesis by (auto intro: slots_stage [OF assms(1) j(1), where st = Running])
next
  case (LFinish i)
  obtain t where j: "map_of (ex_live e) i = Some (t, Running)"
      "e' = log_effect (EDone i) (release i t e)"
    using assms(2) [unfolded LFinish fire_finish] by blast
  then show ?thesis by (auto intro: slots_drop [OF assms(1) j(1)])
next
  case (LReack i ok)
  with assms show ?thesis by (auto simp: fire_iffs simp del: fire.simps intro: slots_inv_cong)
next
  case LShutdown
  with assms show ?thesis by (auto intro: slots_inv_cong)
next
  case LCancel
  with assms show ?thesis by (auto split: if_splits intro: slots_inv_cong)
next
  case LCrash
  with assms show ?thesis by (auto simp: slots_inv_def)
qed

lemma slots_reaches: "reaches P e e' \<Longrightarrow> slots_inv e \<Longrightarrow> slots_inv e'"
  by (induction rule: reaches.induct) (auto dest: slots_fire)

lemma slots_new [simp]: "slots_inv (new_executor s)"
  by (simp add: slots_inv_def new_executor_def)

text \<open>Whatever arrives and whatever fails, at most eight scripts and removals hold a slot at
  a time, and the semaphore counts exactly the jobs that hold one.\<close>

theorem at_most_eight_slots:
  assumes "reaches (\<lambda>_. True) (new_executor s) e"
  shows "length (filter holds_slot (ex_live e)) = ex_sem e \<and> ex_sem e \<le> 8 \<and> distinct (map fst (ex_live e))"
  using slots_reaches [OF assms slots_new] by (simp add: slots_inv_def max_concurrent_tasks_def)

subsection \<open>A task runs at most once\<close>

lemma stage_member:
  assumes "slots_inv e" and "map_of (ex_live e) i = Some (t, s)" and "(j, u, r) \<in> set (ex_live (set_stage i st e))"
  shows "(j \<noteq> i \<and> (j, u, r) \<in> set (ex_live e)) \<or> (j = i \<and> u = t \<and> r = st)"
proof -
  have "distinct (map fst (ex_live e))" using assms(1) by (simp add: slots_inv_def)
  from live_split [OF assms(2) this] obtain xs ys where "ex_live e = xs @ (i, t, s) # ys"
    "ex_live (set_stage i st e) = xs @ (i, t, st) # ys" "i \<notin> fst ` set xs" "i \<notin> fst ` set ys"
    by metis
  then show ?thesis using assms(3) by force
qed

lemma drop_member: "(j, u, r) \<in> set (ex_live (drop_job i e)) \<longleftrightarrow> j \<noteq> i \<and> (j, u, r) \<in> set (ex_live e)"
  by (auto simp: drop_job_def)

text \<open>What a job of each stage knows about the set of handled tasks and the log.\<close>

definition job_ok :: "seen \<Rightarrow> effect list \<Rightarrow> string \<times> task \<times> stage \<Rightarrow> bool" where
  "job_ok sn lg j = (case j of (i, t, s) \<Rightarrow> plain_key i \<and>
     (s = Marked True \<or> s = Exec \<longrightarrow> has_key sn i \<and> ERun i \<notin> set lg) \<and>
     (s = Running \<or> s = Marked False \<longrightarrow> has_key sn i))"

definition log_ok :: "seen \<Rightarrow> string list \<Rightarrow> effect list \<Rightarrow> bool" where
  "log_ok sn ra lg \<longleftrightarrow> (\<forall>i. ERun i \<in> set lg \<or> EAck i \<in> set lg \<or> i \<in> set ra \<longrightarrow> has_key sn i) \<and>
     (\<forall>i. count_list lg (ERun i) \<le> 1)"

definition once_inv :: "ex \<Rightarrow> bool" where
  "once_inv e \<longleftrightarrow> slots_inv e \<and> durable_seen (ex_seen e) \<and> (\<forall>j \<in> set (ex_live e). job_ok (ex_seen e) (ex_log e) j) \<and>
     log_ok (ex_seen e) (ex_reacks e) (ex_log e)"

fun durable_label :: "label \<Rightarrow> bool" where
  "durable_label (LMark i ok) = ok"
| "durable_label (LSubmit t) = plain_key (t_id t)"
| "durable_label _ = True"

lemma once_stage:
  assumes "once_inv e" and "map_of (ex_live e) i = Some (t, s)" and "slots_inv e'"
    and "ex_live e' = ex_live (set_stage i st e)" and "ex_seen e' = ex_seen e" and "ex_log e' = ex_log e"
    and "ex_reacks e' = ex_reacks e" and "job_ok (ex_seen e) (ex_log e) (i, t, st)"
  shows "once_inv e'"
proof -
  have "job_ok (ex_seen e) (ex_log e) x" if "x \<in> set (ex_live e')" for x
  proof -
    obtain k u r where x: "x = (k, u, r)" by (cases x) auto
    have "slots_inv e" using assms(1) by (simp add: once_inv_def)
    from stage_member [OF this assms(2), of k u r st] that
    have "(k, u, r) \<in> set (ex_live e) \<or> (k = i \<and> u = t \<and> r = st)" by (auto simp: x assms(4))
    then show ?thesis using assms(1,8) by (auto simp: x once_inv_def)
  qed
  then show ?thesis using assms(1,3,5-7) by (simp add: once_inv_def)
qed

lemma once_drop:
  assumes "once_inv e" and "slots_inv e'" and "ex_live e' = ex_live (drop_job i e)"
    and "ex_seen e' = ex_seen e" and "ex_log e' = ex_log e" and "ex_reacks e' = ex_reacks e"
  shows "once_inv e'"
  using assms by (auto simp: once_inv_def drop_member)

lemma once_log:
  assumes "once_inv e" and "x = EDone i \<or> (x = EAck i \<and> has_key (ex_seen e) i)"
  shows "once_inv (log_effect x e)"
  using assms by (auto simp: once_inv_def log_ok_def job_ok_def intro: slots_inv_cong)

lemma job_of: "once_inv e \<Longrightarrow> map_of (ex_live e) i = Some (t, s) \<Longrightarrow> job_ok (ex_seen e) (ex_log e) (i, t, s)"
  by (auto simp: once_inv_def dest: map_of_SomeD)

lemma has_key_mark: "has_key (fst (mark_if_new ok s k)) j \<longleftrightarrow> j = k \<or> has_key s j"
  by (rule seen.has_mark)

lemma mark_is_new: "snd (mark_if_new ok s k) \<longleftrightarrow> \<not> has_key s k"
  by (rule seen.mark_new)

lemma once_fire:
  assumes "once_inv e" and "fire l e = Some e'" and "durable_label l"
  shows "once_inv e'"
proof -
  have sl: "slots_inv e'" using assms(1,2) slots_fire by (auto simp: once_inv_def)
  show ?thesis
  proof (cases l)
    case (LSubmit t)
    then have "e' = submit t e" using assms(2) by simp
    then show ?thesis using assms(1,3) sl LSubmit
      by (auto simp: submit_def once_inv_def job_ok_def log_ok_def split: option.splits)
  next
    case (LAcquire i)
    obtain t where j: "map_of (ex_live e) i = Some (t, Waiting)"
        "e' = (set_stage i Acquired e)\<lparr>ex_sem := ex_sem e + 1\<rparr>"
      using assms(2) [unfolded LAcquire fire_acquire] by blast
    show ?thesis using once_stage [OF assms(1) j(1) sl, of Acquired] j(2) job_of [OF assms(1) j(1)]
      by (simp add: job_ok_def)
  next
    case (LSkip i)
    obtain t where j: "map_of (ex_live e) i = Some (t, Waiting)" "e' = set_stage i Ready e"
      using assms(2) [unfolded LSkip fire_skip] by blast
    show ?thesis using once_stage [OF assms(1) j(1) sl, of Ready] j(2) job_of [OF assms(1) j(1)]
      by (simp add: job_ok_def)
  next
    case (LGiveUp i)
    obtain t where j: "e' = drop_job i e"
      using assms(2) [unfolded LGiveUp fire_give_up] by blast
    show ?thesis using once_drop [OF assms(1) sl, of i] j by simp
  next
    case (LCheck i)
    obtain t where j: "map_of (ex_live e) i = Some (t, Acquired)"
        "e' = (if \<not> ex_accepting e then release i t e else set_stage i Ready e)"
      using assms(2) [unfolded LCheck fire_check] by blast
    show ?thesis
      using once_drop [OF assms(1) sl, of i] once_stage [OF assms(1) j(1) sl, of Ready] j(2) job_of [OF assms(1) j(1)]
      by (cases "ex_accepting e") (simp_all add: job_ok_def)
  next
    case (LConnectFail i)
    obtain t where j: "e' = release i t e"
      using assms(2) [unfolded LConnectFail fire_connect_fail] by blast
    show ?thesis using once_drop [OF assms(1) sl, of i] j by simp
  next
    case (LMark i ok)
    let ?sn = "fst (mark_if_new ok (ex_seen e) i)" and ?st = "Marked (snd (mark_if_new ok (ex_seen e) i))"
    obtain t where j: "map_of (ex_live e) i = Some (t, Ready)" "e' = (set_stage i ?st e)\<lparr>ex_seen := ?sn\<rparr>"
      using assms(2) [unfolded LMark fire_mark] by blast
    have pk: "plain_key i" using job_of [OF assms(1) j(1)] by (simp add: job_ok_def)
    have dur: "durable_seen ?sn" using assms(1,3) LMark pk durable_mark by (simp add: once_inv_def)
    have new: "\<not> has_key (ex_seen e) i \<Longrightarrow> ERun i \<notin> set (ex_log e)"
      using assms(1) by (auto simp: once_inv_def log_ok_def)
    have "job_ok ?sn (ex_log e) x" if "x \<in> set (ex_live e')" for x
    proof -
      obtain k u r where x: "x = (k, u, r)" by (cases x) auto
      from that stage_member [of e i t Ready k u r ?st] j assms(1)
      have "(k \<noteq> i \<and> (k, u, r) \<in> set (ex_live e)) \<or> (k = i \<and> u = t \<and> r = ?st)"
        by (auto simp: x once_inv_def)
      then show ?thesis using assms(1) pk new
        by (auto simp: x job_ok_def once_inv_def has_key_mark mark_is_new)
    qed
    then show ?thesis using assms(1) sl dur j(2) by (auto simp: once_inv_def log_ok_def has_key_mark)
  next
    case (LAck i)
    obtain t new where j: "map_of (ex_live e) i = Some (t, Marked new)"
        "e' = log_effect (EAck i) (if new then set_stage i Exec e else release i t e)"
      using assms(2) [unfolded LAck fire_ack] by blast
    let ?e = "if new then set_stage i Exec e else release i t e"
    have jo: "job_ok (ex_seen e) (ex_log e) (i, t, Marked new)" by (rule job_of [OF assms(1) j(1)])
    have sl': "slots_inv ?e" using sl j(2) by (auto intro: slots_inv_cong)
    have "once_inv ?e"
      using once_drop [OF assms(1) sl', of i] once_stage [OF assms(1) j(1) sl', of Exec] jo
      by (cases new) (simp_all add: job_ok_def)
    moreover have "has_key (ex_seen ?e) i" using jo by (cases new) (simp_all add: job_ok_def)
    ultimately show ?thesis unfolding j(2) by (intro once_log) auto
  next
    case (LRun i)
    obtain t where j: "map_of (ex_live e) i = Some (t, Exec)"
        "e' = log_effect (ERun i) (set_stage i Running e)"
      using assms(2) [unfolded LRun fire_run] by blast
    have jo: "has_key (ex_seen e) i" "ERun i \<notin> set (ex_log e)" "plain_key i"
      using job_of [OF assms(1) j(1)] by (simp_all add: job_ok_def)
    have "job_ok (ex_seen e') (ex_log e') x" if "x \<in> set (ex_live e')" for x
    proof -
      obtain k u r where x: "x = (k, u, r)" by (cases x) auto
      from that stage_member [of e i t Exec k u r Running] j assms(1)
      have "(k \<noteq> i \<and> (k, u, r) \<in> set (ex_live e)) \<or> (k = i \<and> u = t \<and> r = Running)"
        by (auto simp: x once_inv_def)
      then show ?thesis using assms(1) jo j(2)
        by (auto simp: x job_ok_def once_inv_def)
    qed
    moreover have "log_ok (ex_seen e') (ex_reacks e') (ex_log e')"
      using assms(1) jo j(2) by (auto simp: once_inv_def log_ok_def count_list_0_iff)
    ultimately show ?thesis using assms(1) sl j(2) by (simp add: once_inv_def)
  next
    case (LFinish i)
    obtain t where j: "e' = log_effect (EDone i) (release i t e)"
      using assms(2) [unfolded LFinish fire_finish] by blast
    have "slots_inv (release i t e)" using sl j by (auto intro: slots_inv_cong)
    from once_drop [OF assms(1) this, of i] show ?thesis unfolding j by (intro once_log) auto
  next
    case (LReack i ok)
    then have j: "i \<in> set (ex_reacks e)"
        "e' = (if ok then log_effect (EAck i) e else e)\<lparr>ex_reacks := remove1 i (ex_reacks e)\<rparr>"
      using assms(2) fire_reack by blast+
    have "has_key (ex_seen e) i" using assms(1) j(1) by (simp add: once_inv_def log_ok_def)
    then have "once_inv (if ok then log_effect (EAck i) e else e)" using assms(1) once_log by auto
    then show ?thesis using sl unfolding j(2)
      by (cases ok) (auto simp: once_inv_def log_ok_def dest: in_set_remove1 [THEN iffD1, rotated] notin_set_remove1)
  next
    case LShutdown
    then show ?thesis using assms(1,2) sl by (auto simp: once_inv_def)
  next
    case LCancel
    then show ?thesis using assms(1,2) sl by (auto simp: once_inv_def split: if_splits)
  next
    case LCrash
    then show ?thesis using assms(1,2) sl
      by (auto simp: once_inv_def log_ok_def durable_reload) (auto simp: durable_seen_def)
  qed
qed

lemma once_reaches: "reaches durable_label e e' \<Longrightarrow> once_inv e \<Longrightarrow> once_inv e'"
  by (induction rule: reaches.induct) (auto dest: once_fire)

lemma once_new: "durable_seen s \<Longrightarrow> once_inv (new_executor s)"
  by (simp add: once_inv_def new_executor_def log_ok_def slots_inv_def)

text \<open>Claim C1.  A task is run at most once, over any number of redeliveries, lost acknowledgements,
  failed connections, shutdowns, crashes and restarts, as long as the file of handled identifiers can
  be written; and what was acknowledged is in that file, so a restarted agent knows it.\<close>

theorem task_runs_at_most_once:
  assumes "durable_seen s" and "reaches durable_label (new_executor s) e"
  shows "count_list (ex_log e) (ERun i) \<le> 1 \<and>
    (EAck i \<in> set (ex_log e) \<longrightarrow> has_key (reload (ex_seen e)) i)"
  using once_reaches [OF assms(2) once_new [OF assms(1)]]
  by (auto simp: once_inv_def log_ok_def durable_seen_def)

subsection \<open>Shutdown\<close>

lemma map_of_set_stage: "map_of (ex_live (set_stage j st e)) i =
    (if i = j then map_option (\<lambda>(t, _). (t, st)) (map_of (ex_live e) i) else map_of (ex_live e) i)"
proof -
  have "map_of (map (\<lambda>(k, t, s). if k = j then (k, t, st) else (k, t, s)) xs) i =
      (if i = j then map_option (\<lambda>(t, _). (t, st)) (map_of xs i) else map_of xs i)"
    for xs :: "(string \<times> task \<times> stage) list"
    by (induction xs) auto
  then show ?thesis by (simp add: set_stage_def)
qed

lemma map_of_drop_job: "map_of (ex_live (drop_job j e)) i = (if i = j then None else map_of (ex_live e) i)"
proof -
  have "map_of (filter (\<lambda>(k, _). k \<noteq> j) xs) i = (if i = j then None else map_of xs i)"
    for xs :: "(string \<times> task \<times> stage) list"
    by (induction xs) auto
  then show ?thesis by (simp add: drop_job_def)
qed

text \<open>Not yet past the last check, and never to be.\<close>

definition gated :: "string \<Rightarrow> nat \<Rightarrow> ex \<Rightarrow> bool" where
  "gated i n e \<longleftrightarrow> \<not> ex_accepting e \<and> count_list (ex_log e) (ERun i) = n \<and>
     (\<forall>t s. map_of (ex_live e) i = Some (t, s) \<longrightarrow> needs_slot t \<and> (s = Waiting \<or> s = Acquired))"

lemma gated_other:
  assumes "gated i n e" and "ex_accepting e' = ex_accepting e"
    and "count_list (ex_log e') (ERun i) = count_list (ex_log e) (ERun i)"
    and "map_of (ex_live e') i = map_of (ex_live e) i \<or> map_of (ex_live e') i = None"
  shows "gated i n e'"
  using assms by (auto simp: gated_def)

lemma gated_fire:
  assumes "gated i n e" and "fire l e = Some e'" and "l \<noteq> LCrash"
  shows "gated i n e'"
proof (cases l)
  case (LSubmit t)
  then show ?thesis using assms by (simp add: submit_def gated_def)
next
  case (LAcquire j)
  obtain t where "map_of (ex_live e) j = Some (t, Waiting)" "needs_slot t"
      "e' = (set_stage j Acquired e)\<lparr>ex_sem := ex_sem e + 1\<rparr>"
    using assms(2) [unfolded LAcquire fire_acquire] by blast
  then show ?thesis using assms(1) by (auto simp: gated_def map_of_set_stage)
next
  case (LGiveUp j)
  obtain t where "e' = drop_job j e" using assms(2) [unfolded LGiveUp fire_give_up] by blast
  then show ?thesis using assms(1) by (auto simp: gated_def map_of_drop_job)
next
  case (LSkip j)
  obtain t where "map_of (ex_live e) j = Some (t, Waiting)" "\<not> needs_slot t" "e' = set_stage j Ready e"
    using assms(2) [unfolded LSkip fire_skip] by blast
  then show ?thesis using assms(1) by (auto simp: gated_def map_of_set_stage)
next
  case (LCheck j)
  obtain t where "e' = (if \<not> ex_accepting e then release j t e else set_stage j Ready e)"
    using assms(2) [unfolded LCheck fire_check] by blast
  then show ?thesis using assms(1) by (auto simp: gated_def map_of_drop_job)
next
  case (LConnectFail j)
  obtain t where "e' = release j t e" using assms(2) [unfolded LConnectFail fire_connect_fail] by blast
  then show ?thesis using assms(1) by (auto simp: gated_def map_of_drop_job)
next
  case (LMark j ok)
  obtain t where j: "map_of (ex_live e) j = Some (t, Ready)"
      "e' = (set_stage j (Marked (snd (mark_if_new ok (ex_seen e) j))) e)\<lparr>ex_seen := fst (mark_if_new ok (ex_seen e) j)\<rparr>"
    using assms(2) [unfolded LMark fire_mark] by blast
  then have "j \<noteq> i" using assms(1) by (auto simp: gated_def)
  then show ?thesis unfolding j(2) by (intro gated_other [OF assms(1)]) (simp_all add: map_of_set_stage)
next
  case (LAck j)
  obtain t new where j: "map_of (ex_live e) j = Some (t, Marked new)"
      "e' = log_effect (EAck j) (if new then set_stage j Exec e else release j t e)"
    using assms(2) [unfolded LAck fire_ack] by blast
  then have "j \<noteq> i" using assms(1) by (auto simp: gated_def)
  then show ?thesis unfolding j(2)
    by (intro gated_other [OF assms(1)]) (simp_all add: map_of_set_stage map_of_drop_job)
next
  case (LRun j)
  obtain t where j: "map_of (ex_live e) j = Some (t, Exec)" "e' = log_effect (ERun j) (set_stage j Running e)"
    using assms(2) [unfolded LRun fire_run] by blast
  then have "j \<noteq> i" using assms(1) by (auto simp: gated_def)
  then show ?thesis unfolding j(2) by (intro gated_other [OF assms(1)]) (simp_all add: map_of_set_stage)
next
  case (LFinish j)
  obtain t where j: "e' = log_effect (EDone j) (release j t e)"
    using assms(2) [unfolded LFinish fire_finish] by blast
  then show ?thesis using assms(1) by (auto simp: gated_def map_of_drop_job)
next
  case (LReack j ok)
  then have "e' = (if ok then log_effect (EAck j) e else e)\<lparr>ex_reacks := remove1 j (ex_reacks e)\<rparr>"
    using assms(2) fire_reack by blast
  then show ?thesis using assms(1) by (cases ok) (auto simp: gated_def)
next
  case LShutdown
  then show ?thesis using assms by (auto simp: gated_def)
next
  case LCancel
  then have "e' = e\<lparr>ex_cancelled := True\<rparr>" using assms(2) fire_cancel by blast
  then show ?thesis using assms(1) by (simp add: gated_def)
next
  case LCrash
  then show ?thesis using assms(3) by simp
qed

text \<open>After \<open>Shutdown\<close> closed the gate, a script or removal that had not passed the
  last check by then is not run by this process, whatever else happens; its identifier is left
  unmarked for the next delivery.\<close>

theorem no_start_after_shutdown:
  assumes "reaches (\<lambda>l. l \<noteq> LCrash) e e'" and "\<not> ex_accepting e"
    and "map_of (ex_live e) i = Some (t, s)" and "needs_slot t" and "s = Waiting \<or> s = Acquired"
  shows "count_list (ex_log e') (ERun i) = count_list (ex_log e) (ERun i)"
proof -
  let ?n = "count_list (ex_log e) (ERun i)"
  have "gated i ?n e" using assms(2-5) by (auto simp: gated_def)
  with assms(1) have "gated i ?n e'" by (induction rule: reaches.induct) (auto dest: gated_fire)
  then show ?thesis by (simp add: gated_def)
qed

subsection \<open>Progress\<close>

text \<open>The steps of the goroutines themselves, the short ones that repeat an acknowledgement included; the others are
  deliveries, the shutdown and crashes.\<close>

fun internal :: "label \<Rightarrow> bool" where
  "internal (LReack i ok) = True"
| "internal (LAcquire i) = True" | "internal (LGiveUp i) = True" | "internal (LSkip i) = True"
| "internal (LCheck i) = True" | "internal (LConnectFail i) = True" | "internal (LMark i ok) = True"
| "internal (LAck i) = True" | "internal (LRun i) = True" | "internal (LFinish i) = True"
| "internal _ = False"

fun stage_rank :: "stage \<Rightarrow> nat" where
  "stage_rank Waiting = 6" | "stage_rank Acquired = 5" | "stage_rank Ready = 4"
| "stage_rank (Marked b) = 3" | "stage_rank Exec = 2" | "stage_rank Running = 1"

definition work :: "ex \<Rightarrow> nat" where
  "work e = sum_list (map (\<lambda>(i, t, s). stage_rank s) (ex_live e)) + length (ex_reacks e)"

text \<open>The one handler that is called without a deadline and may retry until the agent ends: the revocation of
  FileVault.  Its return is never counted on.\<close>

definition endless :: "task \<Rightarrow> bool" where
  "endless t \<longleftrightarrow> (case t_lock t of None \<Rightarrow> False | Some lc \<Rightarrow> \<not> lc_unlock lc \<and> lc_filevault lc)"

definition driven :: "ex \<Rightarrow> label \<Rightarrow> bool" where
  "driven e l \<longleftrightarrow> internal l \<and>
     (case l of LFinish i \<Rightarrow> (case map_of (ex_live e) i of Some (t, _) \<Rightarrow> \<not> endless t | None \<Rightarrow> False) | _ \<Rightarrow> True)"

text \<open>Nothing is left but revocations that have not returned.\<close>

definition quiet :: "ex \<Rightarrow> bool" where
  "quiet e \<longleftrightarrow> ex_reacks e = [] \<and> list_all (\<lambda>(i, t, s). s = Running \<and> endless t) (ex_live e)"

lemma endless_no_slot: "endless t \<Longrightarrow> \<not> needs_slot t"
  by (auto simp: endless_def needs_slot_def)

lemma work_stage:
  assumes "slots_inv e" and "map_of (ex_live e) i = Some (t, s)" and "ex_live e' = ex_live (set_stage i st e)"
    and "stage_rank st < stage_rank s" and "ex_reacks e' = ex_reacks e"
  shows "work e' < work e"
proof -
  have "distinct (map fst (ex_live e))" using assms(1) by (simp add: slots_inv_def)
  from live_split [OF assms(2) this] obtain xs ys where "ex_live e = xs @ (i, t, s) # ys"
    "ex_live (set_stage i st e) = xs @ (i, t, st) # ys" by metis
  then show ?thesis using assms(3-5) by (simp add: work_def)
qed

lemma work_drop:
  assumes "slots_inv e" and "map_of (ex_live e) i = Some (t, s)" and "ex_live e' = ex_live (drop_job i e)"
    and "ex_reacks e' = ex_reacks e"
  shows "work e' < work e"
proof -
  have "distinct (map fst (ex_live e))" using assms(1) by (simp add: slots_inv_def)
  from live_split [OF assms(2) this] obtain xs ys where "ex_live e = xs @ (i, t, s) # ys"
    "ex_live (drop_job i e) = xs @ ys" by metis
  moreover have "0 < stage_rank s" by (cases s) auto
  ultimately show ?thesis using assms(3,4) by (simp add: work_def)
qed

lemma internal_decreases:
  assumes "slots_inv e" and "internal l" and "fire l e = Some e'"
  shows "work e' < work e"
proof (cases l)
  case (LReack i ok)
  then have "i \<in> set (ex_reacks e)" "ex_live e' = ex_live e" "ex_reacks e' = remove1 i (ex_reacks e)"
    using assms(3) by (auto split: if_splits)
  then show ?thesis using length_pos_if_in_set [of i] by (simp add: work_def length_remove1)
next
  case (LAcquire i)
  show ?thesis using assms(3) [unfolded LAcquire fire_acquire] by (auto intro: work_stage [OF assms(1)])
next
  case (LGiveUp i)
  show ?thesis using assms(3) [unfolded LGiveUp fire_give_up] by (auto intro: work_drop [OF assms(1)])
next
  case (LSkip i)
  show ?thesis using assms(3) [unfolded LSkip fire_skip] by (auto intro: work_stage [OF assms(1)])
next
  case (LCheck i)
  show ?thesis using assms(3) [unfolded LCheck fire_check]
    by (cases "ex_accepting e") (auto intro: work_stage [OF assms(1)] work_drop [OF assms(1)])
next
  case (LConnectFail i)
  show ?thesis using assms(3) [unfolded LConnectFail fire_connect_fail] by (auto intro: work_drop [OF assms(1)])
next
  case (LMark i ok)
  obtain t where j: "map_of (ex_live e) i = Some (t, Ready)"
      "e' = (set_stage i (Marked (snd (mark_if_new ok (ex_seen e) i))) e)\<lparr>ex_seen := fst (mark_if_new ok (ex_seen e) i)\<rparr>"
    using assms(3) [unfolded LMark fire_mark] by blast
  show ?thesis using work_stage [OF assms(1) j(1), of e'] j(2) by simp
next
  case (LAck i)
  obtain t new where j: "map_of (ex_live e) i = Some (t, Marked new)"
      "e' = log_effect (EAck i) (if new then set_stage i Exec e else release i t e)"
    using assms(3) [unfolded LAck fire_ack] by blast
  show ?thesis using work_stage [OF assms(1) j(1), of e' Exec] work_drop [OF assms(1) j(1), of e'] j(2)
    by (cases new) simp_all
next
  case (LRun i)
  show ?thesis using assms(3) [unfolded LRun fire_run] by (auto intro: work_stage [OF assms(1)])
next
  case (LFinish i)
  show ?thesis using assms(3) [unfolded LFinish fire_finish] by (auto intro: work_drop [OF assms(1)])
qed (use assms in simp_all)

lemma started_can_step:
  assumes "map_of (ex_live e) i = Some (t, s)" and "s \<noteq> Waiting" and "\<not> (s = Running \<and> endless t)"
  shows "\<exists>l e'. driven e l \<and> fire l e = Some e'"
proof -
  let ?l = "case s of Acquired \<Rightarrow> LCheck i | Ready \<Rightarrow> LConnectFail i | Marked b \<Rightarrow> LAck i | Exec \<Rightarrow> LRun i | _ \<Rightarrow> LFinish i"
  have "fire ?l e \<noteq> None" using assms by (cases s) auto
  moreover have "driven e ?l" using assms by (cases s) (auto simp: driven_def)
  ultimately show ?thesis by blast
qed

lemma some_step:
  assumes "slots_inv e" and "\<not> quiet e"
  shows "\<exists>l e'. driven e l \<and> fire l e = Some e'"
proof (cases "ex_reacks e")
  case (Cons i r)
  then have "driven e (LReack i False)" "fire (LReack i False) e \<noteq> None" by (simp_all add: driven_def)
  then show ?thesis by blast
next
  case Nil
  have dist: "distinct (map fst (ex_live e))" using assms(1) by (simp add: slots_inv_def)
  obtain i t s where j: "(i, t, s) \<in> set (ex_live e)" and n: "\<not> (s = Running \<and> endless t)"
    using assms(2) Nil by (auto simp: quiet_def list_all_iff)
  then have m: "map_of (ex_live e) i = Some (t, s)" using dist by simp
  show ?thesis
  proof (cases "s = Waiting")
    case False
    then show ?thesis using started_can_step [OF m _ n] by blast
  next
    case w: True
    show ?thesis
    proof (cases "needs_slot t \<and> \<not> ex_sem e < max_concurrent_tasks")
      case False
      then have "fire (if needs_slot t then LAcquire i else LSkip i) e \<noteq> None" using m w by auto
      moreover have "driven e (if needs_slot t then LAcquire i else LSkip i)" by (simp add: driven_def)
      ultimately show ?thesis by blast
    next
      case True
      then have "0 < length (filter holds_slot (ex_live e))"
        using assms(1) by (auto simp: slots_inv_def max_concurrent_tasks_def simp del: length_greater_0_conv)
      then obtain x where "x \<in> set (ex_live e)" "holds_slot x" by (auto simp: filter_empty_conv)
      then obtain k u r where "(k, u, r) \<in> set (ex_live e)" "r \<noteq> Waiting" "needs_slot u"
        by (cases x) (auto simp: holds_slot_def)
      then show ?thesis using started_can_step [of e k u r] dist endless_no_slot by auto
    qed
  qed
qed

fun fire_all :: "label list \<Rightarrow> ex \<Rightarrow> ex option" where
  "fire_all [] e = Some e"
| "fire_all (l # ls) e = Option.bind (fire l e) (fire_all ls)"

lemma fire_all_reaches: "reaches P e0 e \<Longrightarrow> list_all P ls \<Longrightarrow> fire_all ls e = Some e' \<Longrightarrow> reaches P e0 e'"
proof (induction ls arbitrary: e)
  case (Cons l ls)
  then obtain e1 where "fire l e = Some e1" "fire_all ls e1 = Some e'"
    by (auto simp: bind_eq_Some_conv)
  moreover have "reaches P e0 e1" using Cons.prems \<open>fire l e = Some e1\<close> by (auto intro: reaches_step)
  ultimately show ?case using Cons.IH Cons.prems(2) by simp
qed simp

lemma internal_run:
  "slots_inv e \<Longrightarrow> list_all internal ls \<Longrightarrow> fire_all ls e = Some e' \<Longrightarrow> slots_inv e' \<and> length ls + work e' \<le> work e"
proof (induction ls arbitrary: e)
  case (Cons l ls)
  then obtain e1 where e1: "fire l e = Some e1" "fire_all ls e1 = Some e'"
    by (auto simp: bind_eq_Some_conv)
  then have "slots_inv e' \<and> length ls + work e' \<le> work e1" using Cons.IH [OF slots_fire [OF Cons.prems(1) e1(1)]] Cons.prems(2) by simp
  then show ?case using internal_decreases [OF Cons.prems(1) _ e1(1)] Cons.prems(2) by simp
qed simp

lemma quiet_slots: "slots_inv e \<Longrightarrow> quiet e \<Longrightarrow> ex_sem e = 0"
  using endless_no_slot by (auto simp: slots_inv_def quiet_def list_all_iff holds_slot_def filter_empty_conv)

text \<open>Claim C36.  The executor drains, up to the handlers that have no deadline: without new deliveries its goroutines
  take at most \<open>work\<close> steps from any reachable state, in any order, and as long as anything else is left than
  revocations of FileVault that have not returned, some goroutine can take a step that does not wait for one of
  those - even when all eight slots are taken and whatever revocations hang.  What is left in the end holds no
  slot.  That a script, a removal, a restart, a screen session or a provisioning returns rests on the deadline
  that the executor gives it.\<close>

theorem tasks_drain:
  assumes "reaches (\<lambda>_. True) (new_executor s) e"
  shows "(\<forall>ls e'. list_all internal ls \<and> fire_all ls e = Some e' \<longrightarrow>
      length ls \<le> work e \<and> (quiet e' \<or> (\<exists>l e2. driven e' l \<and> fire l e' = Some e2))) \<and>
    (quiet e \<longrightarrow> ex_sem e = 0)"
proof -
  have inv: "slots_inv e" by (rule slots_reaches [OF assms slots_new])
  have "length ls \<le> work e \<and> (quiet e' \<or> (\<exists>l e2. driven e' l \<and> fire l e' = Some e2))"
    if "list_all internal ls" "fire_all ls e = Some e'" for ls e'
    using internal_run [OF inv that] some_step [of e'] by auto
  then show ?thesis using quiet_slots [OF inv] by blast
qed

subsection \<open>Results and their delivery\<close>

datatype task_status = StatusSuccess | StatusError

datatype uninstall_outcome = OutcomeUnspecified | Removed | AlreadyAbsent | NotRemovable | StillPresent
  | TargetChanged | OutcomeFailed | TimedOut

text \<open>The texts of the agent that reach the server; the wording is in the source.\<close>

datatype err_text = TextNone | TextUnsupported string | TextNoProvisioner | TextNoScreen | TextNoReboot
  | TextNoUninstall | TextNoRevoker | TextRefused string | TextErr string

record task_result =
  tr_id :: string
  tr_status :: task_status
  tr_error :: err_text
  tr_output :: string
  tr_outcome :: uninstall_outcome
  tr_refusal :: string

definition mk_result :: "string \<Rightarrow> task_status \<Rightarrow> err_text \<Rightarrow> string \<Rightarrow> task_result" where
  "mk_result i st er out = \<lparr>tr_id = i, tr_status = st, tr_error = er, tr_output = out,
     tr_outcome = OutcomeUnspecified, tr_refusal = []\<rparr>"

text \<open>
  The way of a result: the durable queue, and the direct call as the fallback.  \<open>enc\<close> is
  \<open>proto.Marshal\<close>, \<open>send\<close> says whether the server received the result of a direct call;
  \<open>q = None\<close> is an executor without a queue.
\<close>

definition deliver :: "(task_result \<Rightarrow> string option) \<Rightarrow> (task_result \<Rightarrow> bool) \<Rightarrow> io \<Rightarrow> nanos \<Rightarrow> task_result
    \<Rightarrow> queue option \<Rightarrow> queue option \<times> delivery" where
  "deliver enc send env now r q = (case q of
     None \<Rightarrow> (None, if send r then SentDirect else Lost)
   | Some q0 \<Rightarrow>
       (case enc r of
          None \<Rightarrow> (Some q0, if send r then SentDirect else Lost)
        | Some data \<Rightarrow>
            (case enqueue env now KindTask data q0 of
               (q1, None) \<Rightarrow> (Some q1, Queued)
             | (q1, Some err) \<Rightarrow> (Some q1, if send r then SentDirect else Lost))))"

lemma deliver_forward:
  "enc r = Some data \<Longrightarrow> deliver enc send env now r (Some q) =
     (let (q1, d) = outbox.forward (\<lambda>_. send r) q (env, now, KindTask, data) in (Some q1, d))"
  by (auto simp: deliver_def outbox.forward_def ob_put_def split: prod.splits option.splits)

text \<open>The result of a task is never lost silently: after \<open>deliver\<close> it is in the durable
  queue, or the server received it, or both the queue and the direct call refused it.\<close>

theorem delivery_never_silent:
  assumes "enc r = Some data" and "deliver enc send env now r (Some q) = (Some q', d)"
  shows "(d = Queued \<longrightarrow> holds q' KindTask data) \<and> (d = SentDirect \<longrightarrow> send r) \<and>
    (d = Lost \<longleftrightarrow> snd (enqueue env now KindTask data q) \<noteq> None \<and> \<not> send r)"
proof -
  let ?f = "outbox.forward (\<lambda>_. send r) q (env, now, KindTask, data)"
  have f: "fst ?f = q'" "snd ?f = d"
    using assms(2) deliver_forward [where enc = enc and r = r, OF assms(1), of send env now q] by (auto split: prod.splits)
  show ?thesis
    using outbox.forward_queued [of "\<lambda>_. send r" q "(env, now, KindTask, data)"]
      outbox.forward_lost [of "\<lambda>_. send r" q "(env, now, KindTask, data)"]
      outbox.forward_direct [of "\<lambda>_. send r" q "(env, now, KindTask, data)"] f
    by (auto simp: ob_stored_def ob_put_def)
qed

subsection \<open>Handlers\<close>

datatype fv_state = FvRevokeFailed

datatype hd_effect =
    Deliver task_result
  | ReportLock string lock_report string
  | ReportRevokeFailed string err_text
  | Revoke string
  | ReportDirect task_result
  | Decommission string string
  | NudgeInventory

definition request_or_task :: "string \<Rightarrow> string \<Rightarrow> string" where
  "request_or_task req i = (if req = [] then i else req)"

text \<open>
  \<open>handleLock\<close>: the locker is there or not (\<open>lkr\<close>), the revoker likewise.  A lock that could
  not be applied is not reported at all; the reconciler repeats it.
\<close>

definition handle_lock :: "(string \<Rightarrow> bool) \<Rightarrow> bool \<Rightarrow> bool \<Rightarrow> unixtime \<Rightarrow> dwrite \<Rightarrow> wstep option \<Rightarrow> string
    \<Rightarrow> lock_cmd \<Rightarrow> lm \<Rightarrow> lm \<times> hd_effect list" where
  "handle_lock bcost lkr rvk now dw w i lc m =
     (let req = request_or_task (lc_request lc) i in
      if lc_unlock lc then
        (if \<not> lkr then (m, [])
         else (case unlock dw w m of
             (m', None) \<Rightarrow> (m', [ReportLock req Unlocked ''ok''])
           | (m', Some e) \<Rightarrow> (m', [ReportLock req Unlocked ''error''])))
      else if lc_filevault lc then
        (if rvk then (m, [Revoke req]) else (m, [ReportRevokeFailed req TextNoRevoker]))
      else
        (if \<not> lkr then (m, [])
         else (case lock bcost now w req (lc_hash lc) (lc_reason lc) m of
             (m', Some e) \<Rightarrow> (m', [])
           | (m', None) \<Rightarrow> (m', [ReportLock req Locked ''ok'']))))"

text \<open>\<open>handleDecommission\<close>: the confirmation goes first, and its failure does not stop it.\<close>

definition handle_decommission :: "bool \<Rightarrow> string \<Rightarrow> string \<times> string \<Rightarrow> hd_effect list" where
  "handle_decommission configured i dc =
     (if \<not> configured then []
      else [ReportDirect (mk_result i StatusSuccess TextNone []),
            Decommission (request_or_task (fst dc) i) (snd dc)])"

text \<open>\<open>handleReboot\<close> with the answer of the scheduler (the delay it set, or its error);
  \<open>reportBeforeReboot\<close> queues the result only when the server did not confirm it directly.\<close>

definition report_before_reboot :: "bool \<Rightarrow> task_result \<Rightarrow> hd_effect list" where
  "report_before_reboot received r = ReportDirect r # (if received then [] else [Deliver r])"

definition handle_reboot :: "bool \<Rightarrow> (nanos \<Rightarrow> string \<Rightarrow> string + nanos) \<Rightarrow> (nanos \<Rightarrow> string) \<Rightarrow> bool \<Rightarrow> string
    \<Rightarrow> reboot_cmd \<Rightarrow> hd_effect list" where
  "handle_reboot configured schedule show_delay received i rc =
     (if \<not> configured then [Deliver (mk_result i StatusError TextNoReboot [])]
      else (case schedule (rc_delay_s rc * second) (rc_reason rc) of
          Inl err \<Rightarrow> [Deliver (mk_result i StatusError (TextErr err) [])]
        | Inr d \<Rightarrow> report_before_reboot received (mk_result i StatusSuccess TextNone (show_delay d))))"

definition uninstall_method_name :: "pb_method \<Rightarrow> uninstall_method" where
  "uninstall_method_name m = (case m of
     PbMsi \<Rightarrow> UninstallMsi | PbWindowsQuiet \<Rightarrow> UninstallWindowsQuiet
   | PbMacAppBundle \<Rightarrow> UninstallMacAppBundle | PbDpkg \<Rightarrow> UninstallDpkg | PbRpm \<Rightarrow> UninstallRpm
   | PbPacman \<Rightarrow> UninstallPacman | PbApk \<Rightarrow> UninstallApk | PbUnspecified \<Rightarrow> UninstallNone)"

text \<open>\<open>handleUninstall\<close>; \<open>res\<close> is the answer of the uninstaller to the request.\<close>

definition handle_uninstall :: "bool \<Rightarrow> bool \<Rightarrow> (string \<Rightarrow> uninstall_cmd \<Rightarrow> uninstall_method
    \<Rightarrow> uninstall_outcome \<times> string) \<Rightarrow> string \<Rightarrow> uninstall_cmd \<Rightarrow> hd_effect list" where
  "handle_uninstall configured nudge run i uc =
     (if \<not> configured
      then [Deliver ((mk_result i StatusError TextNoUninstall [])\<lparr>tr_outcome := NotRemovable\<rparr>)]
      else (let (oc, detail) = run (request_or_task (uc_request uc) i) uc (uninstall_method_name (uc_method uc));
                good = (oc = Removed \<or> oc = AlreadyAbsent);
                r = (if good then mk_result i StatusSuccess TextNone detail
                     else mk_result i StatusError (TextErr detail) [])\<lparr>tr_outcome := oc\<rparr>
            in Deliver r # (if oc = Removed \<and> nudge then [NudgeInventory] else [])))"

definition handle_provision :: "bool \<Rightarrow> (string \<Rightarrow> string \<Rightarrow> string option) \<Rightarrow> string \<Rightarrow> string \<times> string
    \<Rightarrow> hd_effect list" where
  "handle_provision configured provision i fc =
     (if \<not> configured then [Deliver (mk_result i StatusError TextNoProvisioner [])]
      else (case provision (request_or_task (fst fc) i) (snd fc) of
          Some err \<Rightarrow> [Deliver (mk_result i StatusError (TextErr err) [])]
        | None \<Rightarrow> [Deliver (mk_result i StatusSuccess TextNone [])]))"

text \<open>\<open>handleScreenSession\<close>: the answer is a refusal (possibly empty) and an error or none.\<close>

definition handle_screen :: "bool \<Rightarrow> string \<times> string option \<Rightarrow> string \<Rightarrow> hd_effect list" where
  "handle_screen configured answer i =
     (if \<not> configured
      then [Deliver ((mk_result i StatusError TextNoScreen [])\<lparr>tr_refusal := ''PLATFORM_UNSUPPORTED''\<rparr>)]
      else (case answer of (refusal, err) \<Rightarrow>
        if refusal \<noteq> [] then
          [Deliver ((mk_result i StatusError (case err of Some x \<Rightarrow> TextErr x | None \<Rightarrow> TextRefused refusal) [])
             \<lparr>tr_refusal := refusal\<rparr>)]
        else (case err of
            Some x \<Rightarrow> [Deliver (mk_result i StatusError (TextErr x) [])]
          | None \<Rightarrow> [Deliver (mk_result i StatusSuccess TextNone ''started'')])))"

definition combine_err :: "string \<Rightarrow> string \<Rightarrow> string" where
  "combine_err stderr err = (if stderr = [] then err else stderr @ newline # err)"

text \<open>\<open>interpreterCmd\<close>: the program and its arguments; the PowerShell prefix is a parameter.\<close>

definition interpreter_cmd :: "string \<Rightarrow> string \<Rightarrow> string \<Rightarrow> string list" where
  "interpreter_cmd ps_prefix platform script =
     (if to_lower platform = ''windows''
      then [''powershell'', ''-NoProfile'', ''-NonInteractive'', ''-Command'', ps_prefix @ script]
      else [''bash'', ''-c'', script])"

definition handle_script :: "(string \<Rightarrow> string \<Rightarrow> string \<times> string \<times> string option) \<Rightarrow> string \<Rightarrow> task \<Rightarrow> hd_effect list" where
  "handle_script run version t =
     (if t_script t = [] then [Deliver (mk_result (t_id t) StatusError (TextUnsupported version) [])]
      else (case run (t_platform t) (t_script t) of (out, er, err) \<Rightarrow>
        [Deliver (case err of
            Some x \<Rightarrow> mk_result (t_id t) StatusError (TextErr (combine_err er x)) out
          | None \<Rightarrow> mk_result (t_id t) StatusSuccess TextNone out)]))"

text \<open>What the agent is built and configured with, and the answers of the world to one task.\<close>

record world =
  w_locker :: bool
  w_revoker :: bool
  w_decommissioner :: bool
  w_rebooter :: bool
  w_uninstaller :: bool
  w_nudge :: bool
  w_provisioner :: bool
  w_screen :: bool
  w_version :: string
  w_now :: unixtime
  w_dwrite :: dwrite
  w_write :: "wstep option"
  w_schedule :: "nanos \<Rightarrow> string \<Rightarrow> string + nanos"
  w_show_delay :: "nanos \<Rightarrow> string"
  w_received :: bool
  w_uninstall :: "string \<Rightarrow> uninstall_cmd \<Rightarrow> uninstall_method \<Rightarrow> uninstall_outcome \<times> string"
  w_provision :: "string \<Rightarrow> string \<Rightarrow> string option"
  w_session :: "string \<times> string option"
  w_run :: "string \<Rightarrow> string \<Rightarrow> string \<times> string \<times> string option"

text \<open>The dispatch of \<open>handle\<close> on the first command that is present.\<close>

definition dispatch :: "(string \<Rightarrow> bool) \<Rightarrow> world \<Rightarrow> task \<Rightarrow> lm \<Rightarrow> lm \<times> hd_effect list" where
  "dispatch bcost w t m = (case t_lock t of
     Some lc \<Rightarrow> handle_lock bcost (w_locker w) (w_revoker w) (w_now w) (w_dwrite w) (w_write w) (t_id t) lc m
   | None \<Rightarrow> (m, case t_decommission t of
     Some dc \<Rightarrow> handle_decommission (w_decommissioner w) (t_id t) dc
   | None \<Rightarrow> (case t_reboot t of
     Some rc \<Rightarrow> handle_reboot (w_rebooter w) (w_schedule w) (w_show_delay w) (w_received w) (t_id t) rc
   | None \<Rightarrow> (case t_uninstall t of
     Some uc \<Rightarrow> handle_uninstall (w_uninstaller w) (w_nudge w) (w_uninstall w) (t_id t) uc
   | None \<Rightarrow> (case t_provision t of
     Some fc \<Rightarrow> handle_provision (w_provisioner w) (w_provision w) (t_id t) fc
   | None \<Rightarrow> (case t_screen t of
     Some sc \<Rightarrow> handle_screen (w_screen w) (w_session w) (t_id t)
   | None \<Rightarrow> handle_script (w_run w) (w_version w) t))))))"

text \<open>The result a handler sends, by either way.\<close>

definition sends_result :: "string \<Rightarrow> hd_effect list \<Rightarrow> bool" where
  "sends_result i es \<longleftrightarrow> list_ex (\<lambda>x. case x of Deliver r \<Rightarrow> tr_id r = i | ReportDirect r \<Rightarrow> tr_id r = i | _ \<Rightarrow> False) es"

lemma sends_result_simps [simp]:
  "sends_result i [] = False"
  "sends_result i (Deliver r # es) = (tr_id r = i \<or> sends_result i es)"
  "sends_result i (ReportDirect r # es) = (tr_id r = i \<or> sends_result i es)"
  by (simp_all add: sends_result_def)

lemma mk_result_id [simp]: "tr_id (mk_result i st er out) = i"
  by (simp add: mk_result_def)

lemma handle_reboot_sends: "sends_result i (handle_reboot c sch sh rcv i rc)"
  by (auto simp: handle_reboot_def report_before_reboot_def split: sum.splits)

lemma handle_uninstall_sends: "sends_result i (handle_uninstall c n run i uc)"
  by (auto simp: handle_uninstall_def Let_def split: prod.splits)

lemma handle_provision_sends: "sends_result i (handle_provision c p i fc)"
  by (auto simp: handle_provision_def split: option.splits)

lemma handle_screen_sends: "sends_result i (handle_screen c a i)"
  by (auto simp: handle_screen_def split: option.splits prod.splits)

lemma handle_script_sends: "sends_result (t_id t) (handle_script run v t)"
  by (auto simp: handle_script_def split: option.splits prod.splits)

lemma handle_decommission_sends: "c \<Longrightarrow> sends_result i (handle_decommission c i dc)"
  by (simp add: handle_decommission_def)

lemmas handlers_send = handle_reboot_sends handle_uninstall_sends handle_provision_sends
  handle_screen_sends handle_script_sends handle_decommission_sends

lemma handle_lock_truthful:
  assumes "handle_lock bcost lkr rvk now dw w i lc m = (m', es)" and "ReportLock rid st d \<in> set es"
  shows "(st = Locked \<and> locked (mem m')) \<or> (st = Unlocked \<and> \<not> locked (mem m'))"
proof -
  have "\<not> locked (mem (fst (unlock dw w m)))" by (rule unlock_off)
  then show ?thesis using assms
    by (auto simp: handle_lock_def Let_def split: if_splits prod.splits option.splits dest: lock_success_locked)
qed

lemma handlers_no_lock_report:
  "ReportLock rid st d \<notin> set (handle_reboot c1 sch sh rcv i rc)"
  "ReportLock rid st d \<notin> set (handle_uninstall c2 n run i uc)"
  "ReportLock rid st d \<notin> set (handle_provision c3 p i fc)"
  "ReportLock rid st d \<notin> set (handle_screen c4 a i)"
  "ReportLock rid st d \<notin> set (handle_script rn v t)"
  "ReportLock rid st d \<notin> set (handle_decommission c5 i dc)"
  by (auto simp: handle_reboot_def report_before_reboot_def handle_uninstall_def handle_provision_def
      handle_screen_def handle_script_def handle_decommission_def Let_def
      split: sum.splits prod.splits option.splits if_splits)

text \<open>What a task that runs tells the server: a lock command never reports a state the device
  is not in, no other task touches the lock, and every other task, unknown ones and unconfigured
  handlers included, sends a result under its own identifier (a decommission when it is configured).\<close>

theorem dispatch_answers:
  assumes "dispatch bcost w t m = (m', es)"
  shows "(ReportLock rid st d \<in> set es \<longrightarrow>
      t_lock t \<noteq> None \<and> ((st = Locked \<and> locked (mem m')) \<or> (st = Unlocked \<and> \<not> locked (mem m')))) \<and>
    (t_lock t = None \<longrightarrow> m' = m \<and> (t_decommission t = None \<or> w_decommissioner w \<longrightarrow> sends_result (t_id t) es))"
proof (cases "t_lock t")
  case (Some lc)
  with assms handle_lock_truthful show ?thesis by (auto simp: dispatch_def)
next
  case None
  with assms show ?thesis
    by (auto simp: dispatch_def handlers_send handlers_no_lock_report split: option.splits)
qed

subsection \<open>Concrete runs\<close>

definition plain_task :: "string \<Rightarrow> task" where
  "plain_task i = \<lparr>t_id = i, t_script = ''true'', t_platform = ''linux'', t_lock = None, t_decommission = None,
     t_reboot = None, t_uninstall = None, t_provision = None, t_screen = None\<rparr>"

definition seen_fresh :: seen where "seen_fresh = load_seen_set True True None"

lemma seen_fresh_durable: "durable_seen seen_fresh"
  by (simp add: seen_fresh_def durable_fresh)

definition one_run :: "label list" where
  "one_run = [LSubmit (plain_task ''a''), LAcquire ''a'', LCheck ''a'', LMark ''a'' True, LAck ''a'', LRun ''a'',
     LCrash, LSubmit (plain_task ''a''), LAcquire ''a'', LCheck ''a'', LMark ''a'' True, LAck ''a'']"

lemma plain_key_a: "plain_key ''a''"
  by (simp add: plain_key_def trim_space_def is_space_def newline_def scan_limit_def Let_def)

lemma one_run_reaches: "reaches durable_label (new_executor seen_fresh) (the (fire_all one_run (new_executor seen_fresh)))"
proof -
  have "fire_all one_run (new_executor seen_fresh) \<noteq> None" by code_simp
  moreover have "list_all durable_label one_run"
    by (simp add: one_run_def plain_task_def plain_key_a)
  ultimately show ?thesis using fire_all_reaches [OF reaches_refl] by fastforce
qed

lemma task_runs_at_most_once_witness:
  "count_list (ex_log (the (fire_all one_run (new_executor seen_fresh)))) (ERun ''a'') \<le> 1"
  using task_runs_at_most_once [OF seen_fresh_durable one_run_reaches] by blast

lemma at_most_eight_slots_witness: "ex_sem (the (fire_all one_run (new_executor seen_fresh))) \<le> 8"
proof -
  have "fire_all one_run (new_executor seen_fresh) \<noteq> None" by code_simp
  then have "reaches (\<lambda>_. True) (new_executor seen_fresh) (the (fire_all one_run (new_executor seen_fresh)))"
    using fire_all_reaches [OF reaches_refl, of "\<lambda>_. True" one_run] by (fastforce simp: list_all_iff)
  from at_most_eight_slots [OF this] show ?thesis by simp
qed

lemma no_start_after_shutdown_witness:
  "let e = the (fire_all [LSubmit (plain_task ''a''), LAcquire ''a'', LShutdown] (new_executor seen_fresh));
       e' = the (fire_all [LCheck ''a''] e)
   in count_list (ex_log e') (ERun ''a'') = count_list (ex_log e) (ERun ''a'')"
proof -
  let ?e = "the (fire_all [LSubmit (plain_task ''a''), LAcquire ''a'', LShutdown] (new_executor seen_fresh))"
  have "fire_all [LCheck ''a''] ?e \<noteq> None" by code_simp
  then have r: "reaches (\<lambda>l. l \<noteq> LCrash) ?e (the (fire_all [LCheck ''a''] ?e))"
    using fire_all_reaches [OF reaches_refl, of "\<lambda>l. l \<noteq> LCrash" "[LCheck ''a'']" ?e] by fastforce
  have "\<not> ex_accepting ?e" "map_of (ex_live ?e) ''a'' = Some (plain_task ''a'', Acquired)"
    "needs_slot (plain_task ''a'')" by code_simp+
  with no_start_after_shutdown [OF r] show ?thesis by (simp add: Let_def)
qed

text \<open>A revocation that hangs, and a script that waits behind nothing.\<close>

definition revocation :: "string \<Rightarrow> task" where
  "revocation i = (plain_task i)\<lparr>t_lock := Some \<lparr>lc_request = ''r'', lc_unlock = False, lc_filevault = True, lc_hash = ''h'', lc_reason = []\<rparr>\<rparr>"

definition hanging_run :: "label list" where
  "hanging_run = [LSubmit (revocation ''v''), LSkip ''v'', LMark ''v'' True, LAck ''v'', LRun ''v'', LSubmit (plain_task ''b''),
     LSubmit (revocation ''v'')]"

definition rest_run :: "label list" where
  "rest_run = [LAcquire ''b'', LReack ''v'' True, LCheck ''b'', LMark ''b'' True, LAck ''b'', LRun ''b'', LFinish ''b'']"

lemma tasks_drain_witness:
  "length rest_run \<le> work (the (fire_all hanging_run (new_executor seen_fresh))) \<and>
   (let e' = the (fire_all rest_run (the (fire_all hanging_run (new_executor seen_fresh))))
    in quiet e' \<and> map fst (ex_live e') = [''v''])"
proof -
  let ?e = "the (fire_all hanging_run (new_executor seen_fresh))"
  have "fire_all hanging_run (new_executor seen_fresh) \<noteq> None" by code_simp
  then have r: "reaches (\<lambda>_. True) (new_executor seen_fresh) ?e"
    using fire_all_reaches [OF reaches_refl, of "\<lambda>_. True" hanging_run] by (fastforce simp: list_all_iff)
  have "fire_all rest_run ?e \<noteq> None" by code_simp
  then obtain e' where e': "fire_all rest_run ?e = Some e'" by blast
  have "list_all internal rest_run" by (simp add: rest_run_def)
  then have "length rest_run \<le> work ?e" using tasks_drain [OF r] e' by blast
  moreover have "quiet (the (fire_all rest_run ?e)) \<and> map fst (ex_live (the (fire_all rest_run ?e))) = [''v'']" by code_simp
  ultimately show ?thesis by (simp add: Let_def)
qed

lemma delivery_never_silent_witness:
  "let r = mk_result ''a'' StatusSuccess TextNone []; x = deliver (\<lambda>_. Some ''z'') (\<lambda>_. False) io_fine 5 r (Some q_one) in
   snd x = Queued \<longrightarrow> holds (the (fst x)) KindTask ''z''"
proof -
  let ?r = "mk_result ''a'' StatusSuccess TextNone []"
  obtain q d where x: "deliver (\<lambda>_. Some ''z'') (\<lambda>_. False) io_fine 5 ?r (Some q_one) = (Some q, d)"
    by (cases "enqueue io_fine 5 KindTask ''z'' q_one"; cases "snd (enqueue io_fine 5 KindTask ''z'' q_one)")
       (auto simp: deliver_def)
  from delivery_never_silent [of "\<lambda>_. Some ''z''" ?r "''z''", OF refl x] show ?thesis
    by (simp add: x Let_def)
qed

definition world_bare :: world where
  "world_bare = \<lparr>w_locker = False, w_revoker = False, w_decommissioner = False, w_rebooter = False,
     w_uninstaller = False, w_nudge = False, w_provisioner = False, w_screen = False, w_version = ''2.5'',
     w_now = 0, w_dwrite = DOk, w_write = None, w_schedule = (\<lambda>d _. Inr d), w_show_delay = (\<lambda>_. []),
     w_received = True, w_uninstall = (\<lambda>_ _ _. (Removed, [])), w_provision = (\<lambda>_ _. None),
     w_session = ([], None), w_run = (\<lambda>_ _. ([], [], None))\<rparr>"

lemma dispatch_answers_witness:
  "sends_result ''a'' (snd (dispatch demo_cost world_bare (plain_task ''a'') lm_fresh))"
  using dispatch_answers [OF surjective_pairing, where bcost = demo_cost and w = world_bare
      and t = "plain_task ''a''" and m = lm_fresh]
  by (simp add: plain_task_def)

end
