(* ===== verification/SemVer.thy ===== *)
theory SemVer
  imports Contracts
begin

section \<open>Version numbers\<close>

text \<open>
  Model of \<open>internal/version/semver.go\<close>: what the agent and the server mean by a newer version.
  A version is read as \<open>MAJOR.MINOR.PATCH\<close> with an optional \<open>v\<close>; whatever follows the first
  \<open>-\<close> or \<open>+\<close> is ignored, so a pre-release counts as its release.
\<close>

definition cut_prerelease :: "string \<Rightarrow> string" where
  "cut_prerelease s = takeWhile (\<lambda>c. c \<noteq> CHR ''-'' \<and> c \<noteq> CHR ''+'') s"

definition parse_part :: "string \<Rightarrow> int option" where
  "parse_part p = (case parse_int p of None \<Rightarrow> None | Some n \<Rightarrow> if n < 0 then None else Some n)"

definition parse_semver :: "string \<Rightarrow> (int \<times> int \<times> int) option" where
  "parse_semver s =
     (case split_on CHR ''.'' (cut_prerelease (trim_prefix ''v'' (trim_space s))) of
        [a, b, c] \<Rightarrow>
          (case (parse_part a, parse_part b, parse_part c) of
             (Some x, Some y, Some z) \<Rightarrow> Some (x, y, z)
           | _ \<Rightarrow> None)
      | _ \<Rightarrow> None)"

definition valid_version :: "string \<Rightarrow> bool" where
  "valid_version s \<longleftrightarrow> parse_semver s \<noteq> None"

text \<open>The loop over the three components.\<close>

definition triple_newer :: "int \<times> int \<times> int \<Rightarrow> int \<times> int \<times> int \<Rightarrow> bool" where
  "triple_newer h w = (case (h, w) of ((h0, h1, h2), (w0, w1, w2)) \<Rightarrow>
     if w0 \<noteq> h0 then h0 < w0 else if w1 \<noteq> h1 then h1 < w1 else if w2 \<noteq> h2 then h2 < w2 else False)"

text \<open>\<open>IsNewer(have, want)\<close>; \<open>None\<close> is an error.\<close>

definition is_newer_err :: "string \<Rightarrow> string \<Rightarrow> bool option" where
  "is_newer_err have want = (case parse_semver have of
     None \<Rightarrow> None
   | Some h \<Rightarrow> (case parse_semver want of None \<Rightarrow> None | Some w \<Rightarrow> Some (triple_newer h w)))"

text \<open>The helper of the updater: an error counts as not newer.\<close>

definition is_newer :: "string \<Rightarrow> string \<Rightarrow> bool" where
  "is_newer have want \<longleftrightarrow> is_newer_err have want = Some True"

lemma triple_newer_irrefl: "\<not> triple_newer a a"
  by (auto simp: triple_newer_def split: prod.splits)

lemma triple_newer_trans: "triple_newer a b \<Longrightarrow> triple_newer b c \<Longrightarrow> triple_newer a c"
  by (auto simp: triple_newer_def split: prod.splits if_splits)

lemma triple_newer_split: "triple_newer a c \<Longrightarrow> triple_newer a b \<or> triple_newer b c"
  by (auto simp: triple_newer_def split: prod.splits if_splits)

lemma is_newer_alt: "is_newer a b \<longleftrightarrow>
    (\<exists>x y. parse_semver a = Some x \<and> parse_semver b = Some y \<and> triple_newer x y)"
  by (auto simp: is_newer_def is_newer_err_def split: option.splits)

interpretation ver: version_order is_newer valid_version
proof
  fix a b c :: string
  show "\<not> is_newer a a" by (auto simp: is_newer_alt triple_newer_irrefl)
  show "is_newer a b \<Longrightarrow> is_newer b c \<Longrightarrow> is_newer a c"
    by (auto simp: is_newer_alt intro: triple_newer_trans)
  show "is_newer a b \<Longrightarrow> valid_version a \<and> valid_version b"
    by (auto simp: is_newer_alt valid_version_def)
  show "is_newer a c \<Longrightarrow> valid_version b \<Longrightarrow> is_newer a b \<or> is_newer b c"
    using triple_newer_split by (fastforce simp: is_newer_alt valid_version_def)
qed

lemma is_newer_err_valid: "is_newer_err a b \<noteq> None \<longleftrightarrow> valid_version a \<and> valid_version b"
  by (auto simp: is_newer_err_def valid_version_def split: option.splits)

subsection \<open>Printing and reading back\<close>

definition show_version :: "nat \<Rightarrow> nat \<Rightarrow> nat \<Rightarrow> string" where
  "show_version x y z = CHR ''v'' # dec x @ CHR ''.'' # dec y @ CHR ''.'' # dec z"

lemma dec_no: "\<not> is_digit c \<Longrightarrow> c \<notin> set (dec n)"
  using dec_digits [of n] by (auto simp: list_all_iff)

lemma digit_not_sign: "\<not> is_digit CHR ''.''" "\<not> is_digit CHR ''-''" "\<not> is_digit CHR ''+''" "\<not> is_digit CHR ''v''"
  by (simp_all add: is_digit_def)

lemma digit_not_space: "is_digit c \<Longrightarrow> \<not> is_space c"
  by (auto simp: is_digit_def is_space_def Let_def)

lemma parse_part_dec: "n < 2 ^ 63 \<Longrightarrow> parse_part (dec n) = Some (int n)"
  by (simp add: parse_part_def parse_int_digits)

lemma parse_show_version:
  assumes "x < 2 ^ 63" "y < 2 ^ 63" "z < 2 ^ 63"
    and that: "suf = [] \<or> (hd suf = CHR ''-'' \<or> hd suf = CHR ''+'') \<and> \<not> is_space (last suf)"
  shows "parse_semver (show_version x y z @ suf) = Some (int x, int y, int z)"
proof -
  let ?b = "dec x @ CHR ''.'' # dec y @ CHR ''.'' # dec z"
  have nz: "dec z \<noteq> []" by simp
  have "last (dec z) \<in> set (dec z)" by simp
  then have lz: "\<not> is_space (last (dec z))"
    using dec_digits [of z] digit_not_space by (auto simp: list_all_iff)
  have l: "\<not> is_space (last (show_version x y z @ suf))"
    using that lz by (cases "suf = []") (auto simp: show_version_def)
  have "trim_space (show_version x y z @ suf) = show_version x y z @ suf"
    by (rule trim_space_id) (use l in \<open>auto simp: show_version_def is_space_def Let_def\<close>)
  then have "trim_prefix ''v'' (trim_space (show_version x y z @ suf)) = ?b @ suf"
    by (simp add: show_version_def trim_prefix_def)
  moreover have "takeWhile (\<lambda>c. c \<noteq> CHR ''-'' \<and> c \<noteq> CHR ''+'') (?b @ suf) = ?b"
  proof -
    have "\<forall>c \<in> set ?b. c \<noteq> CHR ''-'' \<and> c \<noteq> CHR ''+''" using dec_no digit_not_sign by auto
    then have "takeWhile (\<lambda>c. c \<noteq> CHR ''-'' \<and> c \<noteq> CHR ''+'') (?b @ suf) =
        ?b @ takeWhile (\<lambda>c. c \<noteq> CHR ''-'' \<and> c \<noteq> CHR ''+'') suf" by (intro takeWhile_append2) auto
    also have "takeWhile (\<lambda>c. c \<noteq> CHR ''-'' \<and> c \<noteq> CHR ''+'') suf = []" using that by (cases suf) auto
    finally show ?thesis by simp
  qed
  moreover have "split_on CHR ''.'' ?b = [dec x, dec y, dec z]"
    using dec_no digit_not_sign by (simp add: go_simps)
  ultimately show ?thesis using assms by (simp add: parse_semver_def cut_prerelease_def parse_part_dec)
qed

text \<open>The comparison of versions is the lexicographic order of their three numbers, whatever
  pre-release or build suffix they carry: a version is read back as it was printed, and
  \<open>IsNewer\<close> compares component by component, without overflow below \<open>2 ^ 63\<close>.\<close>

theorem is_newer_lexicographic:
  assumes "x < 2 ^ 63" "y < 2 ^ 63" "z < 2 ^ 63" "x' < 2 ^ 63" "y' < 2 ^ 63" "z' < 2 ^ 63"
    and "suf = [] \<or> (hd suf = CHR ''-'' \<or> hd suf = CHR ''+'') \<and> \<not> is_space (last suf)"
  shows "is_newer_err (show_version x y z @ suf) (show_version x' y' z') =
    Some (x < x' \<or> (x = x' \<and> (y < y' \<or> (y = y' \<and> z < z'))))"
  using parse_show_version [OF assms(1-3,7)] parse_show_version [OF assms(4-6), of "[]"]
  by (auto simp: is_newer_err_def triple_newer_def)

lemma is_newer_lexicographic_witness:
  "is_newer_err (show_version 1 4 2 @ ''-rc1'') (show_version 1 10 0) = Some True"
  using is_newer_lexicographic [of 1 4 2 1 10 0 "''-rc1''"] by (simp add: is_space_def Let_def)

end
