(* ===== verification/SelfUpdate.thy ===== *)
theory SelfUpdate
  imports SemVer
begin

section \<open>Self-update of the agent\<close>

text \<open>
  Model of \<open>internal/agent/selfupdate/selfupdate.go\<close>, \<open>hold.go\<close>, \<open>http.go\<close> and
  \<open>replace_unix.go\<close>: the agent polls a manifest, and when it offers a newer version downloads,
  verifies and installs it, unless some work in progress holds the update off.  SHA-256 and Ed25519
  are parameters (\<open>sha\<close> from bytes to bytes, \<open>edv\<close> from key, message and signature); hex and
  base64 are modelled.  The HTTP exchanges, the clock, the answers of the holder of the update and the
  outcomes of the disk are arguments.
\<close>

subsection \<open>Hex and base64\<close>

definition hex_val :: "char \<Rightarrow> nat option" where
  "hex_val c = (let n = (of_char c :: nat) in
     if 48 \<le> n \<and> n \<le> 57 then Some (n - 48)
     else if 97 \<le> n \<and> n \<le> 102 then Some (n - 87)
     else if 65 \<le> n \<and> n \<le> 70 then Some (n - 55) else None)"

fun hex_decode :: "string \<Rightarrow> string option" where
  "hex_decode [] = Some []"
| "hex_decode [c] = None"
| "hex_decode (a # b # s) = (case (hex_val a, hex_val b, hex_decode s) of
     (Some x, Some y, Some r) \<Rightarrow> Some (char_of (16 * x + y) # r) | _ \<Rightarrow> None)"

definition b64_val :: "char \<Rightarrow> nat option" where
  "b64_val c = (let n = (of_char c :: nat) in
     if 65 \<le> n \<and> n \<le> 90 then Some (n - 65)
     else if 97 \<le> n \<and> n \<le> 122 then Some (n - 71)
     else if 48 \<le> n \<and> n \<le> 57 then Some (n + 4)
     else if n = 43 then Some 62 else if n = 47 then Some 63 else None)"

text \<open>The standard encoding with padding, whose decoder skips line ends.\<close>

fun b64_quads :: "string \<Rightarrow> string option" where
  "b64_quads [] = Some []"
| "b64_quads (a # b # c # d # s) =
     (case (b64_val a, b64_val b) of
        (Some w, Some x) \<Rightarrow>
          if c = CHR ''='' then (if d = CHR ''='' \<and> s = [] then Some [char_of (4 * w + x div 16)] else None)
          else (case b64_val c of
              None \<Rightarrow> None
            | Some y \<Rightarrow>
                if d = CHR ''='' then
                  (if s = [] then Some [char_of (4 * w + x div 16), char_of (16 * (x mod 16) + y div 4)] else None)
                else (case (b64_val d, b64_quads s) of
                    (Some z, Some r) \<Rightarrow> Some (char_of (4 * w + x div 16) #
                      char_of (16 * (x mod 16) + y div 4) # char_of (64 * (y mod 4) + z) # r)
                  | _ \<Rightarrow> None))
      | _ \<Rightarrow> None)"
| "b64_quads _ = None"

definition b64_decode :: "string \<Rightarrow> string option" where
  "b64_decode s = b64_quads (filter (\<lambda>c. c \<noteq> CHR 0x0A \<and> c \<noteq> CHR 0x0D) s)"

subsection \<open>Manifest and updater\<close>

record manifest =
  m_version :: string
  m_url :: string
  m_sha256 :: string
  m_signature :: string
  m_manifest_signature :: string

datatype upd_err = ErrCheck | ErrCompare | ErrDeferred | ErrCancelled | ErrDownload
  | ErrBadSha | ErrShaMismatch | ErrNoSignature | ErrBadSignature | ErrNotSigned | ErrReplace

record hold_cfg =
  h_cap :: nanos
  h_grace :: nanos
  h_poll :: nanos

record updater =
  u_current :: string
  u_interval :: nanos
  u_pubkey :: string
  u_floor_path :: bool
  u_floor :: "string option"
  u_exe :: string
  u_channel :: bool
  u_hold :: "hold_cfg option"
  u_hold_since :: "nanos option"
  u_hold_what :: string
  u_hold_released :: bool
  u_applied :: string
  u_confirmed :: bool

datatype upd_effect = Installed string | Restarted | ReplaceFailed | Released | DroppedPrevious

definition new_updater :: "string \<Rightarrow> nanos \<Rightarrow> string \<Rightarrow> bool \<Rightarrow> string option \<Rightarrow> string \<Rightarrow> updater" where
  "new_updater current interval key fpath f exe = \<lparr>u_current = current, u_interval = interval, u_pubkey = key,
     u_floor_path = fpath, u_floor = f, u_exe = exe, u_channel = False, u_hold = None, u_hold_since = None,
     u_hold_what = [], u_hold_released = False, u_applied = [], u_confirmed = False\<rparr>"

definition default_hold_cap :: nanos where "default_hold_cap = 30 * minute"
definition default_hold_grace :: nanos where "default_hold_grace = 30 * second"
definition default_hold_poll :: nanos where "default_hold_poll = second"

definition set_hold :: "hold_cfg \<Rightarrow> updater \<Rightarrow> updater" where
  "set_hold h u = u\<lparr>u_hold := Some \<lparr>h_cap = (if h_cap h \<le> 0 then default_hold_cap else h_cap h),
     h_grace = (if h_grace h \<le> 0 then default_hold_grace else h_grace h),
     h_poll = (if h_poll h \<le> 0 then default_hold_poll else h_poll h)\<rparr>\<rparr>"

definition set_channel_source :: "updater \<Rightarrow> updater" where
  "set_channel_source u = u\<lparr>u_channel := True\<rparr>"

text \<open>The HTTP answers: a status and a decoded body, or no answer.\<close>

definition http_check :: "(int \<times> manifest option) option \<Rightarrow> manifest option" where
  "http_check resp = (case resp of
     None \<Rightarrow> None
   | Some (code, body) \<Rightarrow>
       if code \<noteq> 200 then None
       else (case body of None \<Rightarrow> None
         | Some m \<Rightarrow> if m_version m = [] \<or> m_url m = [] \<or> m_sha256 m = [] \<or> m_signature m = [] then None
                     else Some m))"

definition http_download :: "nat \<Rightarrow> (int \<times> string) option \<Rightarrow> string option" where
  "http_download max_size resp = (case resp of
     None \<Rightarrow> None
   | Some (code, data) \<Rightarrow> if code \<noteq> 200 \<or> max_size < length data then None else Some data)"

text \<open>What one check meets: the two manifests, the binary, the clock, the answers of the holder
  (first, and at each poll whether the wait ended and the work still runs), and the disk.\<close>

record upd_env =
  ue_goos :: string
  ue_goarch :: string
  ue_channel :: "manifest option"
  ue_check :: "(int \<times> manifest option) option"
  ue_download :: "(int \<times> string) option"
  ue_max :: nat
  ue_now :: nanos
  ue_active :: "bool \<times> string"
  ue_poll :: "nat \<Rightarrow> bool \<times> bool"
  ue_floor_read :: bool
  ue_floor_write :: dwrite
  ue_replace :: bool

definition fetch_manifest :: "upd_env \<Rightarrow> updater \<Rightarrow> manifest option" where
  "fetch_manifest env u =
     (if \<not> u_channel u then http_check (ue_check env)
      else case ue_channel env of Some m \<Rightarrow> Some m | None \<Rightarrow> http_check (ue_check env))"

subsection \<open>The floor against roll-back\<close>

definition load_floor :: "upd_env \<Rightarrow> updater \<Rightarrow> string" where
  "load_floor env u = (if \<not> u_floor_path u \<or> \<not> ue_floor_read env then []
     else case u_floor u of None \<Rightarrow> [] | Some f \<Rightarrow> trim_space f)"

definition save_floor :: "upd_env \<Rightarrow> string \<Rightarrow> updater \<Rightarrow> updater" where
  "save_floor env v u = (if \<not> u_floor_path u then u
     else u\<lparr>u_floor := write_file (ue_floor_write env) v (u_floor u)\<rparr>)"

definition confirm_running :: "upd_env \<Rightarrow> updater \<Rightarrow> updater \<times> upd_effect list" where
  "confirm_running env u =
     (if u_confirmed u \<or> \<not> u_floor_path u then (u, [])
      else (let u1 = u\<lparr>u_confirmed := True\<rparr> in
        if \<not> valid_version (u_current u1) then (u1, [])
        else (let f = load_floor env u1;
                  u2 = (if f = [] then save_floor env (u_current u1) u1
                        else if \<not> valid_version f then save_floor env (u_current u1) u1
                        else if is_newer (u_current u1) f then u1
                        else if f \<noteq> u_current u1 then save_floor env (u_current u1) u1
                        else u1)
              in (u2, [DroppedPrevious]))))"

text \<open>Whether the floor alone holds back a version that is newer than the running one.\<close>

definition report_floor_block :: "string \<Rightarrow> string \<Rightarrow> string \<Rightarrow> bool" where
  "report_floor_block current floor offered \<longleftrightarrow>
     \<not> (floor = [] \<or> \<not> valid_version floor \<or> \<not> valid_version offered) \<and>
     \<not> (\<not> is_newer current offered \<or> is_newer floor offered)"

definition newer_of :: "string \<Rightarrow> string \<Rightarrow> string" where
  "newer_of base other = (if other = [] then base else if is_newer base other then other else base)"

subsection \<open>Holding an update off\<close>

definition clear_hold :: "updater \<Rightarrow> updater" where
  "clear_hold u = u\<lparr>u_hold_since := None, u_hold_what := [], u_hold_released := False\<rparr>"

datatype poll_res = PollFree | PollBusy | PollCancelled

fun poll_loop :: "(nat \<Rightarrow> bool \<times> bool) \<Rightarrow> nat \<Rightarrow> nat \<Rightarrow> poll_res" where
  "poll_loop p i 0 = PollBusy"
| "poll_loop p i (Suc n) =
     (case p i of (waited, holding) \<Rightarrow>
        if \<not> waited then PollCancelled else if \<not> holding then PollFree else poll_loop p (Suc i) n)"

definition poll_steps :: "hold_cfg \<Rightarrow> nat" where
  "poll_steps h = (let n = h_grace h div h_poll h in if n < 1 then 1 else nat n)"

definition apply_allowed :: "upd_env \<Rightarrow> updater \<Rightarrow> updater \<times> upd_effect list \<times> upd_err option" where
  "apply_allowed env u = (case u_hold u of
     None \<Rightarrow> (u, [], None)
   | Some h \<Rightarrow>
       (case ue_active env of (holding, what) \<Rightarrow>
          if \<not> holding then (clear_hold u, [], None)
          else
            (let now = ue_now env;
                 u1 = (if what \<noteq> u_hold_what u
                       then u\<lparr>u_hold_since := Some now, u_hold_what := what, u_hold_released := False\<rparr> else u);
                 u2 = (if u_hold_since u1 = None then u1\<lparr>u_hold_since := Some now\<rparr> else u1);
                 since = (case u_hold_since u2 of Some t \<Rightarrow> t | None \<Rightarrow> now)
             in if now - since < h_cap h then (u2, [], Some ErrDeferred)
                else (let rel = (if u_hold_released u2 then [] else [Released]);
                          u3 = u2\<lparr>u_hold_released := True\<rparr>
                      in case poll_loop (ue_poll env) 0 (poll_steps h) of
                           PollCancelled \<Rightarrow> (u3, rel, Some ErrCancelled)
                         | PollFree \<Rightarrow> (clear_hold u3, rel, None)
                         | PollBusy \<Rightarrow> (u3, rel, Some ErrDeferred)))))"

subsection \<open>Verification\<close>

definition signed_message :: "manifest \<Rightarrow> string \<Rightarrow> string \<Rightarrow> string" where
  "signed_message m goos goarch =
     m_version m @ CHR 0x0A # goos @ CHR 0x0A # goarch @ CHR 0x0A # m_sha256 m"

definition verify_binary :: "(string \<Rightarrow> string) \<Rightarrow> (string \<Rightarrow> string \<Rightarrow> string \<Rightarrow> bool) \<Rightarrow> string \<Rightarrow> manifest
    \<Rightarrow> string \<Rightarrow> string \<Rightarrow> string \<Rightarrow> upd_err option" where
  "verify_binary sha edv data m key goos goarch =
     (case hex_decode (m_sha256 m) of
        None \<Rightarrow> Some ErrBadSha
      | Some want \<Rightarrow>
          if want \<noteq> sha data then Some ErrShaMismatch
          else if m_manifest_signature m = [] then Some ErrNoSignature
          else (case b64_decode (m_manifest_signature m) of
              None \<Rightarrow> Some ErrBadSignature
            | Some sig \<Rightarrow> if edv key (signed_message m goos goarch) sig then None else Some ErrNotSigned))"

subsection \<open>One check\<close>

definition check_and_apply :: "(string \<Rightarrow> string) \<Rightarrow> (string \<Rightarrow> string \<Rightarrow> string \<Rightarrow> bool) \<Rightarrow> upd_env \<Rightarrow> updater
    \<Rightarrow> updater \<times> upd_effect list \<times> upd_err option" where
  "check_and_apply sha edv env u =
     (case fetch_manifest env u of
        None \<Rightarrow> (u, [], Some ErrCheck)
      | Some m \<Rightarrow>
          (let (u1, fx1) = confirm_running env u;
               floor = load_floor env u1;
               baseline = newer_of (newer_of (u_current u1) floor) (u_applied u1)
           in case is_newer_err baseline (m_version m) of
                None \<Rightarrow> (u1, fx1, Some ErrCompare)
              | Some False \<Rightarrow> (u1, fx1, None)
              | Some True \<Rightarrow>
                  (case apply_allowed env u1 of
                     (u2, fx2, Some e) \<Rightarrow> (u2, fx1 @ fx2, Some e)
                   | (u2, fx2, None) \<Rightarrow>
                       (case http_download (ue_max env) (ue_download env) of
                          None \<Rightarrow> (u2, fx1 @ fx2, Some ErrDownload)
                        | Some data \<Rightarrow>
                            (case verify_binary sha edv data m (u_pubkey u2) (ue_goos env) (ue_goarch env) of
                               Some e \<Rightarrow> (u2, fx1 @ fx2, Some e)
                             | None \<Rightarrow>
                                 if \<not> ue_replace env then (u2, fx1 @ fx2 @ [ReplaceFailed], Some ErrReplace)
                                 else (u2\<lparr>u_exe := data, u_applied := m_version m\<rparr>,
                                       fx1 @ fx2 @ [Installed data, Restarted], None))))))"

definition run_enabled :: "updater \<Rightarrow> bool" where
  "run_enabled u \<longleftrightarrow> length (u_pubkey u) = 32 \<and> u_current u \<noteq> ''dev'' \<and> u_current u \<noteq> []"

fun run_checks :: "(string \<Rightarrow> string) \<Rightarrow> (string \<Rightarrow> string \<Rightarrow> string \<Rightarrow> bool) \<Rightarrow> upd_env list \<Rightarrow> updater
    \<Rightarrow> updater \<times> upd_effect list" where
  "run_checks sha edv [] u = (u, [])"
| "run_checks sha edv (env # envs) u =
     (let (u1, fx1, _) = check_and_apply sha edv env u; (u2, fx2) = run_checks sha edv envs u1 in (u2, fx1 @ fx2))"

definition run_updater :: "(string \<Rightarrow> string) \<Rightarrow> (string \<Rightarrow> string \<Rightarrow> string \<Rightarrow> bool) \<Rightarrow> upd_env list \<Rightarrow> updater
    \<Rightarrow> updater \<times> upd_effect list" where
  "run_updater sha edv envs u = (if run_enabled u then run_checks sha edv envs u else (u, []))"

definition startup_jitter_limit :: "nanos \<Rightarrow> nanos" where
  "startup_jitter_limit interval =
     (let l = interval div 10; l' = (if l > 5 * minute then 5 * minute else l) in if l' \<le> 0 then 0 else l')"

text \<open>\<open>rnd n\<close> stands for \<open>rand.Int63n\<close>, which answers below its argument.\<close>

definition startup_jitter :: "(nanos \<Rightarrow> nanos) \<Rightarrow> nanos \<Rightarrow> nanos" where
  "startup_jitter rnd interval =
     (let l = startup_jitter_limit interval in if l = 0 then 0 else rnd (l + 1))"

subsection \<open>What the steps keep\<close>

lemma save_floor_simps [simp]: "u_current (save_floor env v u) = u_current u" "u_pubkey (save_floor env v u) = u_pubkey u"
    "u_applied (save_floor env v u) = u_applied u" "u_exe (save_floor env v u) = u_exe u"
    "u_hold (save_floor env v u) = u_hold u" "u_channel (save_floor env v u) = u_channel u"
    "u_floor_path (save_floor env v u) = u_floor_path u" "u_confirmed (save_floor env v u) = u_confirmed u"
  by (simp_all add: save_floor_def)

lemma confirm_simps [simp]:
  "u_current (fst (confirm_running env u)) = u_current u" "u_pubkey (fst (confirm_running env u)) = u_pubkey u"
  "u_applied (fst (confirm_running env u)) = u_applied u" "u_exe (fst (confirm_running env u)) = u_exe u"
  "u_hold (fst (confirm_running env u)) = u_hold u" "u_channel (fst (confirm_running env u)) = u_channel u"
  "u_floor_path (fst (confirm_running env u)) = u_floor_path u"
  by (simp_all add: confirm_running_def Let_def)

lemma confirm_effects: "Installed d \<notin> set (snd (confirm_running env u))"
  by (simp add: confirm_running_def Let_def)

lemma clear_hold_simps [simp]: "u_current (clear_hold u) = u_current u" "u_pubkey (clear_hold u) = u_pubkey u"
    "u_applied (clear_hold u) = u_applied u" "u_exe (clear_hold u) = u_exe u" "u_floor (clear_hold u) = u_floor u"
    "u_hold (clear_hold u) = u_hold u" "u_floor_path (clear_hold u) = u_floor_path u"
  by (simp_all add: clear_hold_def)

lemma allowed_simps:
  assumes "apply_allowed env u = (u', fx, r)"
  shows "u_current u' = u_current u" "u_pubkey u' = u_pubkey u" "u_applied u' = u_applied u"
    "u_exe u' = u_exe u" "u_floor u' = u_floor u" "u_hold u' = u_hold u" "Installed d \<notin> set fx"
  using assms
  by (auto simp: apply_allowed_def Let_def split: option.splits prod.splits if_splits poll_res.splits)

lemma poll_free: "poll_loop p i n = PollFree \<Longrightarrow> \<exists>j. i \<le> j \<and> j < i + n \<and> p j = (True, False)"
proof (induction p i n rule: poll_loop.induct)
  case (2 p i n)
  show ?case
  proof (cases "p i = (True, False)")
    case True
    then show ?thesis by (intro exI [of _ i]) auto
  next
    case False
    with 2 have "\<exists>j. Suc i \<le> j \<and> j < Suc i + n \<and> p j = (True, False)"
      by (auto split: prod.splits if_splits)
    then show ?thesis by (metis Suc_leD add_Suc add_Suc_right)
  qed
qed simp

lemma allowed_free:
  assumes "apply_allowed env u = (u', fx, None)" and "u_hold u = Some h"
  shows "\<not> fst (ue_active env) \<or> (\<exists>j < poll_steps h. ue_poll env j = (True, False))"
  using assms poll_free [of "ue_poll env" 0 "poll_steps h"]
  by (auto simp: apply_allowed_def Let_def split: option.splits prod.splits if_splits poll_res.splits)

text \<open>A check that installs took every step of verification.\<close>

lemma installs_cases:
  assumes "check_and_apply sha edv env u = (u', fx, err)" and "Installed data \<in> set fx"
  obtains m u1 u2 fx2 where "fetch_manifest env u = Some m" "u1 = fst (confirm_running env u)"
    "is_newer (newer_of (newer_of (u_current u) (load_floor env u1)) (u_applied u)) (m_version m)"
    "apply_allowed env u1 = (u2, fx2, None)" "http_download (ue_max env) (ue_download env) = Some data"
    "verify_binary sha edv data m (u_pubkey u) (ue_goos env) (ue_goarch env) = None"
    "u' = u2\<lparr>u_exe := data, u_applied := m_version m\<rparr>" "err = None"
proof -
  obtain m where m: "fetch_manifest env u = Some m"
    using assms by (cases "fetch_manifest env u") (auto simp: check_and_apply_def)
  let ?u1 = "fst (confirm_running env u)" and ?fx1 = "snd (confirm_running env u)"
  have fx1: "Installed data \<notin> set ?fx1" by (rule confirm_effects)
  obtain u2 fx2 r where al: "apply_allowed env ?u1 = (u2, fx2, r)" by (metis prod_cases3)
  have fx2: "Installed data \<notin> set fx2" and pk: "u_pubkey u2 = u_pubkey u"
    using allowed_simps [OF al] by simp_all
  have newer: "is_newer_err (newer_of (newer_of (u_current u) (load_floor env ?u1)) (u_applied u)) (m_version m) = Some True"
    using assms m fx1 by (auto simp: check_and_apply_def Let_def split_beta split: option.splits bool.splits)
  have r: "r = None" "u' = u2\<lparr>u_exe := data, u_applied := m_version m\<rparr>" "err = None"
      "http_download (ue_max env) (ue_download env) = Some data"
      "verify_binary sha edv data m (u_pubkey u) (ue_goos env) (ue_goarch env) = None"
    using assms m fx1 fx2 newer al pk
    by (auto simp: check_and_apply_def Let_def split_beta split: option.splits if_splits)
  show thesis using that [OF m refl _ _ r(4,5,2,3)] newer al r(1) by (simp add: is_newer_def)
qed

lemma newer_of_top: "newer_of a b = ver.top a b"
  using ver.newer_ok [of a "[]"]
  by (auto simp: newer_of_def ver.top_def valid_version_def parse_semver_def cut_prerelease_def trim_prefix_def)

lemma baseline_bound:
  assumes "is_newer (newer_of (newer_of c f) a) w"
  shows "is_newer c w" "valid_version f \<Longrightarrow> is_newer f w" "valid_version a \<Longrightarrow> is_newer a w"
proof -
  have t: "is_newer (ver.top c f) w" "valid_version a \<Longrightarrow> is_newer a w"
    using ver.top_bound [of "ver.top c f" a w] assms by (simp_all add: newer_of_top)
  from ver.top_bound [OF t(1)] show "is_newer c w" "valid_version f \<Longrightarrow> is_newer f w" by simp_all
  show "valid_version a \<Longrightarrow> is_newer a w" by (rule t(2))
qed

text \<open>Claim C37.  Nothing is installed that the holder of the release key did not sign for exactly this
  version, operating system and architecture with exactly this hash, and nothing that is not newer than
  the running version and than what this process installed before.\<close>

theorem installs_only_signed_newer:
  assumes "check_and_apply sha edv env u = (u', fx, err)" and "Installed data \<in> set fx"
  shows "\<exists>m sig. fetch_manifest env u = Some m \<and> hex_decode (m_sha256 m) = Some (sha data) \<and>
    b64_decode (m_manifest_signature m) = Some sig \<and>
    edv (u_pubkey u) (signed_message m (ue_goos env) (ue_goarch env)) sig \<and>
    is_newer (u_current u) (m_version m) \<and>
    (valid_version (u_applied u) \<longrightarrow> is_newer (u_applied u) (m_version m)) \<and>
    u_exe u' = data \<and> u_applied u' = m_version m"
  using assms
proof (cases rule: installs_cases)
  case (1 m u1 u2 fx2)
  obtain sig where "b64_decode (m_manifest_signature m) = Some sig"
      "edv (u_pubkey u) (signed_message m (ue_goos env) (ue_goarch env)) sig" "hex_decode (m_sha256 m) = Some (sha data)"
    using 1(6) by (auto simp: verify_binary_def split: option.splits if_splits)
  with 1 baseline_bound [OF 1(3)] show ?thesis by auto
qed

lemma last_field_unique:
  assumes "c \<notin> set y" and "c \<notin> set y'" and "x @ c # y = x' @ c # y'"
  shows "x = x' \<and> y = y'"
proof -
  have "takeWhile (\<lambda>d. d \<noteq> c) (rev (a @ c # b)) = rev b" if "c \<notin> set b" for a b
    using that by (simp add: takeWhile_append takeWhile_eq_all_conv)
  from this [OF assms(1), of x] this [OF assms(2), of x'] have "y = y'"
    using assms(3) by simp
  with assms(3) show ?thesis by simp
qed

text \<open>The signature cannot be moved: two manifests with the same signed message agree on
  version, platform and hash, although the message is a plain concatenation with line feeds, because
  only the version, which comes first, may contain one.\<close>

theorem signed_message_binds:
  assumes "signed_message m os arch = signed_message m' os' arch'"
    and "CHR 0x0A \<notin> set os" "CHR 0x0A \<notin> set arch" "CHR 0x0A \<notin> set (m_sha256 m)"
    and "CHR 0x0A \<notin> set os'" "CHR 0x0A \<notin> set arch'" "CHR 0x0A \<notin> set (m_sha256 m')"
  shows "m_version m = m_version m' \<and> os = os' \<and> arch = arch' \<and> m_sha256 m = m_sha256 m'"
proof -
  have "((m_version m @ CHR 0x0A # os) @ CHR 0x0A # arch) @ CHR 0x0A # m_sha256 m =
      ((m_version m' @ CHR 0x0A # os') @ CHR 0x0A # arch') @ CHR 0x0A # m_sha256 m'"
    using assms(1) by (simp add: signed_message_def)
  then show ?thesis using last_field_unique assms(2-7) by metis
qed

text \<open>An update is never installed over work in progress: with a holder configured, either it
  was free when asked, or it became free during the polls after the release was requested.\<close>

theorem hold_is_respected:
  assumes "check_and_apply sha edv env u = (u', fx, err)" and "Installed data \<in> set fx" and "u_hold u = Some h"
  shows "\<not> fst (ue_active env) \<or> (\<exists>j < poll_steps h. ue_poll env j = (True, False))"
  using assms(1,2)
proof (cases rule: installs_cases)
  case (1 m u1 u2 fx2)
  then show ?thesis using allowed_free [OF 1(4)] assms(3) by simp
qed

subsection \<open>The floor\<close>

lemma parse_trim [simp]: "parse_semver (trim_space v) = parse_semver v"
  by (simp add: parse_semver_def)

lemma valid_trim [simp]: "valid_version (trim_space v) \<longleftrightarrow> valid_version v"
  by (simp add: valid_version_def)

lemma newer_trim [simp]: "is_newer (trim_space v) w \<longleftrightarrow> is_newer v w"
  by (simp add: is_newer_alt)

text \<open>The floor against roll-back is the newest version that has run: with a floor file on a
  working disk, after the first completed check of a process the floor is valid, it is not older than
  the running version and not older than the valid floor before; it is written at most once.\<close>

theorem floor_only_rises:
  assumes "u_floor_path u" and "\<not> u_confirmed u" and "valid_version (u_current u)"
    and "ue_floor_read env" and "ue_floor_write env = DOk" and "u1 = fst (confirm_running env u)"
  shows "valid_version (load_floor env u1) \<and> \<not> is_newer (load_floor env u1) (u_current u) \<and>
    \<not> is_newer (load_floor env u1) (load_floor env u) \<and> fst (confirm_running env u1) = u1"
proof -
  let ?f = "load_floor env u" and ?c = "u_current u"
  have lf: "load_floor env (u\<lparr>u_confirmed := True\<rparr>) = ?f" by (simp add: load_floor_def)
  have sv: "load_floor env (save_floor env ?c (u\<lparr>u_confirmed := True\<rparr>)) = trim_space ?c"
    using assms(1,4,5) by (simp add: load_floor_def save_floor_def write_file_def)
  have conf: "u_confirmed u1" using assms(1-3,6) by (simp add: confirm_running_def Let_def)
  have nv: "\<not> valid_version []"
    by (simp add: valid_version_def parse_semver_def cut_prerelease_def trim_prefix_def)
  consider (keep) "valid_version ?f" "is_newer ?c ?f" "load_floor env u1 = ?f"
    | (same) "?f = ?c" "load_floor env u1 = ?f"
    | (save) "\<not> is_newer ?c ?f" "load_floor env u1 = trim_space ?c"
    using assms(1-3,6) lf sv nv ver.newer_ok [of ?c ?f] ver.newer_ok [of ?c "[]"]
    by (auto simp: confirm_running_def Let_def split: if_splits)
  then have "valid_version (load_floor env u1) \<and> \<not> is_newer (load_floor env u1) ?c \<and>
      \<not> is_newer (load_floor env u1) ?f"
    by cases (use assms(3) ver.newer_irrefl ver.newer_asym in auto)
  moreover have "fst (confirm_running env u1) = u1" using conf by (simp add: confirm_running_def)
  ultimately show ?thesis by blast
qed

subsection \<open>Concrete runs\<close>

definition demo_sha :: "string \<Rightarrow> string" where "demo_sha d = ''A''"
definition demo_edv :: "string \<Rightarrow> string \<Rightarrow> string \<Rightarrow> bool" where "demo_edv k msg sig \<longleftrightarrow> sig = ''ABC''"

definition demo_manifest :: manifest where
  "demo_manifest = \<lparr>m_version = ''v1.0.1'', m_url = ''u'', m_sha256 = ''41'', m_signature = ''x'',
     m_manifest_signature = ''QUJD''\<rparr>"

definition demo_upd_env :: upd_env where
  "demo_upd_env = \<lparr>ue_goos = ''linux'', ue_goarch = ''amd64'', ue_channel = None,
     ue_check = Some (200, Some demo_manifest), ue_download = Some (200, ''bin''), ue_max = 10, ue_now = 0,
     ue_active = (False, []), ue_poll = (\<lambda>_. (True, True)), ue_floor_read = True, ue_floor_write = DOk,
     ue_replace = True\<rparr>"

definition demo_updater :: updater where
  "demo_updater = set_hold \<lparr>h_cap = 0, h_grace = 0, h_poll = 0\<rparr>
     (new_updater ''v1.0.0'' hour [] True (Some ''v0.9.0'') ''old'')"

lemma demo_installs: "Installed ''bin'' \<in> set (fst (snd (check_and_apply demo_sha demo_edv demo_upd_env demo_updater)))"
  by code_simp

lemma demo_check: "check_and_apply demo_sha demo_edv demo_upd_env demo_updater =
    (fst (check_and_apply demo_sha demo_edv demo_upd_env demo_updater),
     fst (snd (check_and_apply demo_sha demo_edv demo_upd_env demo_updater)),
     snd (snd (check_and_apply demo_sha demo_edv demo_upd_env demo_updater)))"
  by simp

lemma installs_only_signed_newer_witness:
  "u_exe (fst (check_and_apply demo_sha demo_edv demo_upd_env demo_updater)) = ''bin''"
  using installs_only_signed_newer [OF demo_check demo_installs] by blast

lemma hold_is_respected_witness: "fst (ue_active demo_upd_env) = False"
proof -
  have "u_hold demo_updater = Some (the (u_hold demo_updater))" by (simp add: demo_updater_def set_hold_def)
  from hold_is_respected [OF demo_check demo_installs this] show ?thesis by (simp add: demo_upd_env_def)
qed

lemma signed_message_binds_witness:
  "m_version demo_manifest = m_version demo_manifest \<and> ''linux'' = ''linux'' \<and> ''amd64'' = ''amd64'' \<and>
    m_sha256 demo_manifest = m_sha256 (demo_manifest\<lparr>m_url := ''other''\<rparr>)"
  using signed_message_binds [of demo_manifest "''linux''" "''amd64''" "demo_manifest\<lparr>m_url := ''other''\<rparr>" "''linux''" "''amd64''"]
  by (simp add: demo_manifest_def signed_message_def)

lemma floor_only_rises_witness:
  "\<not> is_newer (load_floor demo_upd_env (fst (confirm_running demo_upd_env demo_updater))) ''v1.0.0''"
proof -
  have "u_floor_path demo_updater" "\<not> u_confirmed demo_updater" "valid_version (u_current demo_updater)"
    "ue_floor_read demo_upd_env" "ue_floor_write demo_upd_env = DOk" by code_simp+
  from floor_only_rises [OF this refl] show ?thesis
    by (simp add: demo_updater_def set_hold_def new_updater_def)
qed

end
