(* ===== verification/AdminWindow.thy ===== *)
theory AdminWindow
  imports Contracts "HOL-Library.Product_Lexorder"
begin

section \<open>Evidence of a session of administrator rights\<close>

text \<open>
  Model of \<open>internal/agent/admin/diff.go\<close>, \<open>window.go\<close> and \<open>pbwindow.go\<close>: the difference
  of two inventories of software and services, its attribution, and the window of evidence built from
  it.  The loops over Go maps visit the keys in an order the language leaves open; the functions take
  these orders as arguments (\<open>oa\<close> for the later, \<open>ob\<close> for the earlier inventory), so that what
  depends on them can be told from what does not.  Time zero is \<open>None\<close>; SHA-256 is the parameter
  \<open>sha\<close>.
\<close>

subsection \<open>Fingerprints and changes\<close>

record soft_fp =
  sf_key :: string
  sf_name :: string
  sf_version :: string
  sf_vendor :: string
  sf_scope :: string

record svc_fp =
  sv_key :: string
  sv_display :: string
  sv_start :: string
  sv_account :: string
  sv_image :: string
  sv_def :: string
  sv_os :: bool
  sv_kind :: string

definition software_installed :: string where "software_installed = ''software_installed''"
definition software_removed :: string where "software_removed = ''software_removed''"
definition software_updated :: string where "software_updated = ''software_updated''"
definition service_installed :: string where "service_installed = ''service_installed''"
definition service_removed :: string where "service_removed = ''service_removed''"
definition service_start_changed :: string where "service_start_changed = ''service_start_type_changed''"
definition service_account_changed :: string where "service_account_changed = ''service_account_changed''"
definition service_def_changed :: string where "service_def_changed = ''service_definition_changed''"

lemmas kinds = software_installed_def software_removed_def software_updated_def service_installed_def
  service_removed_def service_start_changed_def service_account_changed_def service_def_changed_def

definition human_likely :: string where "human_likely = ''human_likely''"
definition background_likely :: string where "background_likely = ''background_likely''"
definition attr_unknown :: string where "attr_unknown = ''unknown''"

lemmas attrs = human_likely_def background_likely_def attr_unknown_def

datatype attr_reason = NewProduct | VersionBumpSameKey | ReasonRemoved | ReinstallSameName | OSOwnedPath
  | AdminOwnedPath | KernelDriverOS | KernelDriverForeign | DisabledByHand | AccountChanged | DegradedBaseline

record change =
  c_kind :: string
  c_subject :: string
  c_display :: string
  c_key :: string
  c_old :: string
  c_new :: string
  c_vendor :: string
  c_scope :: string
  c_attr :: string
  c_reason :: attr_reason
  c_at :: nanos

definition change_key :: "change \<Rightarrow> string \<times> string \<times> string" where
  "change_key c = (c_kind c, c_subject c, c_key c)"

definition sort_changes :: "change list \<Rightarrow> change list" where
  "sort_changes cs = sort_key change_key cs"

text \<open>The last of several records with one key wins, as in the loop that fills the map.\<close>

definition index_soft :: "soft_fp list \<Rightarrow> string \<Rightarrow> soft_fp option" where
  "index_soft xs = map_of (rev (map (\<lambda>s. (sf_key s, s)) xs))"

definition index_svc :: "svc_fp list \<Rightarrow> string \<Rightarrow> svc_fp option" where
  "index_svc xs = map_of (rev (map (\<lambda>s. (sv_key s, s)) xs))"

subsection \<open>Software\<close>

definition installed_change :: "string \<Rightarrow> soft_fp \<Rightarrow> nanos \<Rightarrow> change" where
  "installed_change k a now = \<lparr>c_kind = software_installed, c_subject = sf_name a, c_display = sf_name a,
     c_key = k, c_old = [], c_new = sf_version a, c_vendor = sf_vendor a, c_scope = sf_scope a,
     c_attr = human_likely, c_reason = NewProduct, c_at = now\<rparr>"

definition updated_change :: "string \<Rightarrow> soft_fp \<Rightarrow> soft_fp \<Rightarrow> nanos \<Rightarrow> change" where
  "updated_change k b a now = \<lparr>c_kind = software_updated, c_subject = sf_name a, c_display = sf_name a,
     c_key = k, c_old = sf_version b, c_new = sf_version a, c_vendor = sf_vendor a, c_scope = sf_scope a,
     c_attr = background_likely, c_reason = VersionBumpSameKey, c_at = now\<rparr>"

definition removed_change :: "string \<Rightarrow> soft_fp \<Rightarrow> nanos \<Rightarrow> change" where
  "removed_change k b now = \<lparr>c_kind = software_removed, c_subject = sf_name b, c_display = sf_name b,
     c_key = k, c_old = sf_version b, c_new = [], c_vendor = sf_vendor b, c_scope = sf_scope b,
     c_attr = human_likely, c_reason = ReasonRemoved, c_at = now\<rparr>"

definition later_change :: "(string \<Rightarrow> soft_fp option) \<Rightarrow> (string \<Rightarrow> soft_fp option) \<Rightarrow> nanos \<Rightarrow> string \<Rightarrow> change list" where
  "later_change bm am now k = (case am k of
     None \<Rightarrow> []
   | Some a \<Rightarrow> (case bm k of
       None \<Rightarrow> [installed_change k a now]
     | Some b \<Rightarrow> if sf_version b \<noteq> sf_version a then [updated_change k b a now] else []))"

definition earlier_change :: "(string \<Rightarrow> soft_fp option) \<Rightarrow> (string \<Rightarrow> soft_fp option) \<Rightarrow> nanos \<Rightarrow> string \<Rightarrow> change list" where
  "earlier_change bm am now k = (case bm k of
     None \<Rightarrow> [] | Some b \<Rightarrow> if am k = None then [removed_change k b now] else [])"

text \<open>\<open>collapseReinstalls\<close>: an installation and a removal of one name and vendor are an update.
  \<open>removed_at\<close> is the last index of a removal with that name and vendor.\<close>

definition name_vendor :: "change \<Rightarrow> string \<times> string" where
  "name_vendor c = (c_subject c, c_vendor c)"

definition removed_at :: "change list \<Rightarrow> string \<times> string \<Rightarrow> nat option" where
  "removed_at cs nv = map_of (rev (map (\<lambda>(i, c). (name_vendor c, i))
     (filter (\<lambda>(i, c). c_kind c = software_removed) (enumerate 0 cs)))) nv"

definition reinstalled :: "change \<Rightarrow> change \<Rightarrow> nanos \<Rightarrow> change" where
  "reinstalled c r now = \<lparr>c_kind = software_updated, c_subject = c_subject c, c_display = c_display c,
     c_key = c_key c, c_old = c_old r, c_new = c_new c, c_vendor = c_vendor c, c_scope = c_scope c,
     c_attr = background_likely, c_reason = ReinstallSameName, c_at = now\<rparr>"

fun collapse_loop :: "change list \<Rightarrow> nanos \<Rightarrow> (nat \<times> change) list \<Rightarrow> nat list \<Rightarrow> change list \<Rightarrow> change list \<times> nat list" where
  "collapse_loop cs now [] drp out = (out, drp)"
| "collapse_loop cs now ((i, c) # rest) drp out =
     (if c_kind c \<noteq> software_installed then collapse_loop cs now rest drp out
      else (case removed_at cs (name_vendor c) of
          None \<Rightarrow> collapse_loop cs now rest drp out
        | Some j \<Rightarrow>
            if j \<in> set drp then collapse_loop cs now rest drp out
            else collapse_loop cs now rest (i # j # drp) (out @ [reinstalled c (cs ! j) now])))"

definition collapse_reinstalls :: "change list \<Rightarrow> nanos \<Rightarrow> change list" where
  "collapse_reinstalls cs now =
     (let (out, drp) = collapse_loop cs now (enumerate 0 cs) [] []
      in out @ map snd (filter (\<lambda>(i, c). i \<notin> set drp) (enumerate 0 cs)))"

definition diff_software :: "string list \<Rightarrow> string list \<Rightarrow> soft_fp list \<Rightarrow> soft_fp list \<Rightarrow> nanos \<Rightarrow> change list" where
  "diff_software oa ob before after now =
     (let bm = index_soft before; am = index_soft after;
          raw = concat (map (later_change bm am now) oa) @ concat (map (earlier_change bm am now) ob)
      in sort_changes (collapse_reinstalls raw now))"

subsection \<open>Services\<close>

definition kind_driver :: string where "kind_driver = ''driver''"
definition start_disabled :: string where "start_disabled = ''disabled''"

definition attribute_service :: "svc_fp \<Rightarrow> string \<times> attr_reason" where
  "attribute_service s =
     (if sv_kind s = kind_driver then
        (if sv_os s then (background_likely, KernelDriverOS) else (human_likely, KernelDriverForeign))
      else if sv_os s then (background_likely, OSOwnedPath) else (human_likely, AdminOwnedPath))"

definition is_disabling :: "string \<Rightarrow> string \<Rightarrow> bool" where
  "is_disabling b a \<longleftrightarrow> a = start_disabled \<and> b \<noteq> start_disabled"

definition svc_change :: "string \<Rightarrow> string \<Rightarrow> svc_fp \<Rightarrow> string \<Rightarrow> string \<Rightarrow> string \<times> attr_reason \<Rightarrow> nanos \<Rightarrow> change" where
  "svc_change kd k s old new ar now = \<lparr>c_kind = kd, c_subject = sv_key s, c_display = sv_display s, c_key = k,
     c_old = old, c_new = new, c_vendor = [], c_scope = [], c_attr = fst ar, c_reason = snd ar, c_at = now\<rparr>"

definition later_service :: "(string \<Rightarrow> svc_fp option) \<Rightarrow> (string \<Rightarrow> svc_fp option) \<Rightarrow> nanos \<Rightarrow> string \<Rightarrow> change list" where
  "later_service bm am now k = (case am k of
     None \<Rightarrow> []
   | Some a \<Rightarrow> (case bm k of
       None \<Rightarrow> [svc_change service_installed k a [] (sv_image a) (attribute_service a) now]
     | Some b \<Rightarrow>
         if sv_account b \<noteq> sv_account a then
           [svc_change service_account_changed k a (sv_account b) (sv_account a) (human_likely, AccountChanged) now]
         else if sv_start b \<noteq> sv_start a then
           [svc_change service_start_changed k a (sv_start b) (sv_start a)
              (if is_disabling (sv_start b) (sv_start a) then (human_likely, DisabledByHand)
               else if \<not> sv_os a then (human_likely, AdminOwnedPath)
               else (background_likely, OSOwnedPath)) now]
         else if sv_def b \<noteq> sv_def a \<or> sv_image b \<noteq> sv_image a then
           [svc_change service_def_changed k a (sv_image b) (sv_image a) (attribute_service a) now]
         else []))"

definition earlier_service :: "(string \<Rightarrow> svc_fp option) \<Rightarrow> (string \<Rightarrow> svc_fp option) \<Rightarrow> nanos \<Rightarrow> string \<Rightarrow> change list" where
  "earlier_service bm am now k = (case bm k of
     None \<Rightarrow> []
   | Some b \<Rightarrow> if am k = None
               then [svc_change service_removed k b (sv_image b) [] (attribute_service b) now] else [])"

definition diff_services :: "string list \<Rightarrow> string list \<Rightarrow> svc_fp list \<Rightarrow> svc_fp list \<Rightarrow> nanos \<Rightarrow> change list" where
  "diff_services oa ob before after now =
     (let bm = index_svc before; am = index_svc after
      in sort_changes (concat (map (later_service bm am now) oa) @ concat (map (earlier_service bm am now) ob)))"

subsection \<open>Health and attribution\<close>

definition health_ok_s :: string where "health_ok_s = ''ok''"
definition health_partial :: string where "health_partial = ''partial''"
definition health_failed :: string where "health_failed = ''failed''"
definition health_unsupported :: string where "health_unsupported = ''unsupported''"

lemmas healths = health_ok_s_def health_partial_def health_failed_def health_unsupported_def

definition degrade :: "change list \<Rightarrow> string \<Rightarrow> string \<Rightarrow> bool \<Rightarrow> change list" where
  "degrade cs sw sv lost =
     (if lost \<or> (sw \<noteq> health_ok_s \<and> sw \<noteq> []) \<or> (sv \<noteq> health_ok_s \<and> sv \<noteq> [])
      then map (\<lambda>c. c\<lparr>c_attr := attr_unknown, c_reason := DegradedBaseline\<rparr>) cs else cs)"

definition health_ok :: "string \<Rightarrow> bool" where
  "health_ok h \<longleftrightarrow> h = [] \<or> h = health_ok_s"

definition health_usable :: "string \<Rightarrow> bool" where
  "health_usable h \<longleftrightarrow> h = [] \<or> h = health_ok_s \<or> h = health_partial"

definition health_rank :: "string \<Rightarrow> nat" where
  "health_rank h = (if h = health_failed then 3 else if h = health_partial then 2
     else if h = health_unsupported then 1 else 0)"

definition worse_health :: "string \<Rightarrow> string \<Rightarrow> string" where
  "worse_health a b = (if health_rank b \<le> health_rank a then a else b)"

definition attr_rank :: "string \<Rightarrow> nat" where
  "attr_rank a = (if a = human_likely then 0 else if a = attr_unknown then 1
     else if a = background_likely then 2 else 1)"

definition truncate_changes :: "change list \<Rightarrow> int \<Rightarrow> change list \<times> bool" where
  "truncate_changes cs mx =
     (if mx \<le> 0 \<or> int (length cs) \<le> mx then (cs, False)
      else (sort_changes (take (nat mx) (sort_key (\<lambda>c. attr_rank (c_attr c)) cs)), True))"

subsection \<open>The window\<close>

definition default_window_interval :: nanos where "default_window_interval = 30 * minute"
definition min_window_interval :: nanos where "min_window_interval = 5 * minute"
definition max_window_changes :: int where "max_window_changes = 1000"
definition stale_final_threshold :: nanos where "stale_final_threshold = 10 * minute"

datatype completeness = Complete | NoBaseline | Partial | Truncated | StaleFinal

record session =
  ss_rid :: string
  ss_user :: string
  ss_expires :: "nanos option"
  ss_was_admin :: bool
  ss_granted_at :: "nanos option"
  ss_boot :: int
  ss_seq :: int
  ss_collect :: bool
  ss_digest :: string
  ss_sw_health :: string
  ss_sv_health :: string
  ss_software :: "soft_fp list"
  ss_services :: "svc_fp list"

record inventory =
  iv_software :: "soft_fp list"
  iv_sw_health :: string
  iv_services :: "svc_fp list"
  iv_sv_health :: string
  iv_at :: "nanos option"
  iv_boot :: int

record window =
  w_rid :: string
  w_seq :: int
  w_start :: "nanos option"
  w_end :: nanos
  w_snapshot_at :: nanos
  w_changes :: "change list"
  w_final :: bool
  w_truncated :: bool
  w_total :: int
  w_rebooted :: bool
  w_lost :: bool
  w_sw_health :: string
  w_sv_health :: string
  w_completeness :: completeness

record window_input =
  wi_seq :: int
  wi_final :: bool
  wi_now :: nanos
  wi_session_end :: "nanos option"
  wi_lost :: bool

definition rebooted :: "session option \<Rightarrow> int \<Rightarrow> bool" where
  "rebooted st boot = (case st of None \<Rightarrow> False
     | Some s \<Rightarrow> \<not> (ss_boot s = 0 \<or> boot = 0) \<and> ss_boot s \<noteq> boot)"

definition completeness_of :: "bool \<Rightarrow> string \<Rightarrow> string \<Rightarrow> bool \<Rightarrow> bool \<Rightarrow> bool \<Rightarrow> completeness" where
  "completeness_of lost sw sv truncated stale skipped =
     (if lost then NoBaseline
      else if skipped \<or> \<not> health_ok sw \<or> \<not> health_ok sv then Partial
      else if stale then StaleFinal
      else if truncated then Truncated else Complete)"

text \<open>The orders in which the four map loops run.\<close>

record map_orders =
  mo_soft_after :: "string list"
  mo_soft_before :: "string list"
  mo_svc_after :: "string list"
  mo_svc_before :: "string list"

definition int32_of :: "int \<Rightarrow> int" where
  "int32_of i = sint (word_of_int i :: 32 word)"

definition build_window :: "map_orders \<Rightarrow> session option \<Rightarrow> inventory \<Rightarrow> window_input \<Rightarrow> window" where
  "build_window mo st cur inp =
     (let now = wi_now inp;
          lost = (wi_lost inp \<or> st = None);
          stale = (case wi_session_end inp of Some e \<Rightarrow> wi_final inp \<and> stale_final_threshold < now - e | None \<Rightarrow> False);
          wend = (case wi_session_end inp of Some e \<Rightarrow> if wi_final inp then e else now | None \<Rightarrow> now);
          bsw = (case st of Some s \<Rightarrow> ss_sw_health s | None \<Rightarrow> []);
          bsv = (case st of Some s \<Rightarrow> ss_sv_health s | None \<Rightarrow> []);
          bsoft = (case st of Some s \<Rightarrow> ss_software s | None \<Rightarrow> []);
          bsvc = (case st of Some s \<Rightarrow> ss_services s | None \<Rightarrow> []);
          swh = worse_health bsw (iv_sw_health cur);
          svh = worse_health bsv (iv_sv_health cur);
          soft_ok = (st \<noteq> None \<and> \<not> lost \<and> health_usable swh \<and> bsoft \<noteq> [] \<and> iv_software cur \<noteq> []);
          svc_ok = (st \<noteq> None \<and> \<not> lost \<and> health_usable svh \<and> bsvc \<noteq> [] \<and> iv_services cur \<noteq> []);
          cs = (if soft_ok then diff_software (mo_soft_after mo) (mo_soft_before mo) bsoft (iv_software cur) now else []) @
               (if svc_ok then diff_services (mo_svc_after mo) (mo_svc_before mo) bsvc (iv_services cur) now else []);
          cs' = degrade (sort_changes cs) swh svh lost;
          (kept, trunc) = truncate_changes cs' max_window_changes
      in \<lparr>w_rid = (case st of Some s \<Rightarrow> ss_rid s | None \<Rightarrow> []), w_seq = wi_seq inp,
          w_start = (case st of Some s \<Rightarrow> ss_granted_at s | None \<Rightarrow> None), w_end = wend,
          w_snapshot_at = (case iv_at cur of Some t \<Rightarrow> t | None \<Rightarrow> now),
          w_changes = kept, w_final = wi_final inp, w_truncated = trunc,
          w_total = int32_of (int (length cs')), w_rebooted = rebooted st (iv_boot cur), w_lost = lost,
          w_sw_health = swh, w_sv_health = svh,
          w_completeness = completeness_of lost swh svh trunc stale (\<not> soft_ok \<or> \<not> svc_ok)\<rparr>)"

definition completeness_str :: "completeness \<Rightarrow> string" where
  "completeness_str c = (case c of Complete \<Rightarrow> ''complete'' | NoBaseline \<Rightarrow> ''no_baseline''
     | Partial \<Rightarrow> ''partial'' | Truncated \<Rightarrow> ''truncated'' | StaleFinal \<Rightarrow> ''stale_final'')"

definition bool_str :: "bool \<Rightarrow> string" where
  "bool_str b = (if b then ''true'' else ''false'')"

definition digest_text :: "window \<Rightarrow> string" where
  "digest_text w =
     join_with ''|'' [dec_int (w_total w), bool_str (w_truncated w), completeness_str (w_completeness w),
       bool_str (w_rebooted w), w_sw_health w, w_sv_health w] @ [CHR 0x0A] @
     concat (map (\<lambda>c. join_with ''|'' [c_kind c, c_key c, c_subject c, c_old c, c_new c, c_attr c] @ [CHR 0x0A])
       (w_changes w))"

definition hex_digit :: "nat \<Rightarrow> char" where
  "hex_digit n = (if n < 10 then char_of (48 + n) else char_of (87 + n))"

definition hex_encode :: "string \<Rightarrow> string" where
  "hex_encode s = concat (map (\<lambda>c. let n = (of_char c :: nat) in [hex_digit (n div 16), hex_digit (n mod 16)]) s)"

definition window_digest :: "(string \<Rightarrow> string) \<Rightarrow> window \<Rightarrow> string" where
  "window_digest sha w = hex_encode (sha (digest_text w))"

definition clamp_window_interval :: "int \<Rightarrow> nanos" where
  "clamp_window_interval sec =
     (if sec \<le> 0 then default_window_interval
      else if sec * second < min_window_interval then min_window_interval else sec * second)"

subsection \<open>The window on the wire\<close>

datatype pb_change_kind = KindUnspecified | KindSoftwareInstalled | KindSoftwareRemoved | KindSoftwareUpdated
  | KindServiceInstalled | KindServiceRemoved | KindServiceStartType | KindServiceAccount | KindServiceDefinition

datatype pb_attribution = AttributionUnknown | AttributionHuman | AttributionBackground
datatype pb_health = HealthUnspecified | PbHealthOk | PbHealthPartial | PbHealthFailed | PbHealthUnsupported

record pb_change =
  pc_kind :: pb_change_kind
  pc_subject :: string
  pc_display :: string
  pc_key :: string
  pc_old :: string
  pc_new :: string
  pc_vendor :: string
  pc_scope :: string
  pc_attr :: pb_attribution
  pc_reason :: attr_reason
  pc_at :: unixtime

record pb_window =
  pw_rid :: string
  pw_seq :: int
  pw_start :: unixtime
  pw_end :: unixtime
  pw_changes :: "pb_change list"
  pw_final :: bool
  pw_truncated :: bool
  pw_total :: int
  pw_rebooted :: bool
  pw_lost :: bool
  pw_sw_health :: pb_health
  pw_sv_health :: pb_health
  pw_completeness :: completeness
  pw_snapshot_at :: unixtime

definition unix_or_zero :: "nanos option \<Rightarrow> unixtime" where
  "unix_or_zero t = (case t of None \<Rightarrow> 0 | Some n \<Rightarrow> n div second)"

definition change_kind_to_proto :: "string \<Rightarrow> pb_change_kind" where
  "change_kind_to_proto k =
     (if k = software_installed then KindSoftwareInstalled else if k = software_removed then KindSoftwareRemoved
      else if k = software_updated then KindSoftwareUpdated else if k = service_installed then KindServiceInstalled
      else if k = service_removed then KindServiceRemoved else if k = service_start_changed then KindServiceStartType
      else if k = service_account_changed then KindServiceAccount
      else if k = service_def_changed then KindServiceDefinition else KindUnspecified)"

definition attribution_to_proto :: "string \<Rightarrow> pb_attribution" where
  "attribution_to_proto a = (if a = human_likely then AttributionHuman
     else if a = background_likely then AttributionBackground else AttributionUnknown)"

definition health_to_proto :: "string \<Rightarrow> pb_health" where
  "health_to_proto h = (if h = health_ok_s then PbHealthOk else if h = health_partial then PbHealthPartial
     else if h = health_failed then PbHealthFailed else if h = health_unsupported then PbHealthUnsupported
     else HealthUnspecified)"

definition window_to_proto :: "window \<Rightarrow> pb_window" where
  "window_to_proto w = \<lparr>pw_rid = w_rid w, pw_seq = w_seq w, pw_start = unix_or_zero (w_start w),
     pw_end = unix_or_zero (Some (w_end w)),
     pw_changes = map (\<lambda>c. \<lparr>pc_kind = change_kind_to_proto (c_kind c), pc_subject = c_subject c,
       pc_display = c_display c, pc_key = c_key c, pc_old = c_old c, pc_new = c_new c, pc_vendor = c_vendor c,
       pc_scope = c_scope c, pc_attr = attribution_to_proto (c_attr c), pc_reason = c_reason c,
       pc_at = unix_or_zero (Some (c_at c))\<rparr>) (w_changes w),
     pw_final = w_final w, pw_truncated = w_truncated w, pw_total = w_total w, pw_rebooted = w_rebooted w,
     pw_lost = w_lost w, pw_sw_health = health_to_proto (w_sw_health w),
     pw_sv_health = health_to_proto (w_sv_health w), pw_completeness = w_completeness w,
     pw_snapshot_at = unix_or_zero (Some (w_snapshot_at w))\<rparr>"

subsection \<open>Collapsing loses nothing\<close>

lemma enumerate_mem: "(i, c) \<in> set (enumerate 0 cs) \<longleftrightarrow> i < length cs \<and> cs ! i = c"
  by (auto simp: in_set_enumerate_eq)

lemma removed_at_Some:
  assumes "removed_at cs nv = Some j"
  shows "j < length cs \<and> c_kind (cs ! j) = software_removed \<and> name_vendor (cs ! j) = nv"
proof -
  have "(nv, j) \<in> set (map (\<lambda>(i, c). (name_vendor c, i)) (filter (\<lambda>(i, c). c_kind c = software_removed) (enumerate 0 cs)))"
    using map_of_SomeD [OF assms [unfolded removed_at_def]] by simp
  then show ?thesis by (auto simp: enumerate_mem)
qed

text \<open>What the loop keeps: an index it drops is an installation or a removal that an update in the
  output accounts for.\<close>

definition accounted :: "change list \<Rightarrow> nanos \<Rightarrow> change list \<Rightarrow> nat \<Rightarrow> bool" where
  "accounted cs now out i \<longleftrightarrow> i < length cs \<and>
     (\<exists>c r. c \<in> set cs \<and> r \<in> set cs \<and> c_kind c = software_installed \<and> c_kind r = software_removed \<and>
        name_vendor c = name_vendor r \<and> reinstalled c r now \<in> set out \<and> (cs ! i = c \<or> cs ! i = r))"

definition from_pair :: "change list \<Rightarrow> nanos \<Rightarrow> change \<Rightarrow> bool" where
  "from_pair cs now x \<longleftrightarrow> (\<exists>c r. c \<in> set cs \<and> r \<in> set cs \<and> c_kind c = software_installed \<and>
     c_kind r = software_removed \<and> name_vendor c = name_vendor r \<and> x = reinstalled c r now)"

lemma accounted_mono: "accounted cs now out i \<Longrightarrow> set out \<subseteq> set out' \<Longrightarrow> accounted cs now out' i"
  by (auto simp: accounted_def)

lemma collapse_loop_inv:
  assumes "collapse_loop cs now rest drp out = (out', drp')" and "set rest \<subseteq> set (enumerate 0 cs)"
    and "\<forall>i \<in> set drp. accounted cs now out i" and "\<forall>x \<in> set out. from_pair cs now x"
  shows "(\<forall>i \<in> set drp'. accounted cs now out' i) \<and> (\<forall>x \<in> set out'. from_pair cs now x)"
  using assms
proof (induction rest arbitrary: drp out)
  case (Cons ic rest)
  obtain i c where icd: "ic = (i, c)" by (cases ic)
  have ic: "i < length cs" "cs ! i = c" using Cons.prems(2) by (simp_all add: icd enumerate_mem)
  have sub: "set rest \<subseteq> set (enumerate 0 cs)" using Cons.prems(2) by simp
  show ?case
  proof (cases "c_kind c = software_installed \<and> (\<exists>j. removed_at cs (name_vendor c) = Some j \<and> j \<notin> set drp)")
    case False
    then have "collapse_loop cs now rest drp out = (out', drp')"
      using Cons.prems(1) by (auto simp: icd split: if_splits option.splits)
    then show ?thesis using Cons.IH [OF _ sub] Cons.prems(3,4) by blast
  next
    case True
    then obtain j where j: "c_kind c = software_installed" "removed_at cs (name_vendor c) = Some j" "j \<notin> set drp"
      by blast
    let ?out = "out @ [reinstalled c (cs ! j) now]"
    have r: "j < length cs" "c_kind (cs ! j) = software_removed" "name_vendor (cs ! j) = name_vendor c"
      using removed_at_Some [OF j(2)] by auto
    have p: "c \<in> set cs \<and> cs ! j \<in> set cs \<and> c_kind c = software_installed \<and> c_kind (cs ! j) = software_removed \<and>
        name_vendor c = name_vendor (cs ! j) \<and> reinstalled c (cs ! j) now \<in> set ?out"
      using j(1) r ic by auto
    have pair: "from_pair cs now (reinstalled c (cs ! j) now)" "accounted cs now ?out i" "accounted cs now ?out j"
      unfolding from_pair_def accounted_def using p r ic by blast+
    have "\<forall>k \<in> set (i # j # drp). accounted cs now ?out k"
      using pair Cons.prems(3) accounted_mono [of cs now out _ ?out] by auto
    moreover have "\<forall>x \<in> set ?out. from_pair cs now x" using pair Cons.prems(4) by auto
    moreover have "collapse_loop cs now rest (i # j # drp) ?out = (out', drp')"
      using Cons.prems(1) j by (simp add: icd)
    ultimately show ?thesis using Cons.IH [OF _ sub] by blast
  qed
qed simp

lemma collapse_keeps:
  assumes "x \<in> set cs"
  shows "x \<in> set (collapse_reinstalls cs now) \<or>
    (\<exists>c r. c \<in> set cs \<and> r \<in> set cs \<and> c_kind c = software_installed \<and> c_kind r = software_removed \<and>
       name_vendor c = name_vendor r \<and> (x = c \<or> x = r) \<and> reinstalled c r now \<in> set (collapse_reinstalls cs now))"
proof -
  obtain out drp where l: "collapse_loop cs now (enumerate 0 cs) [] [] = (out, drp)" by fastforce
  have inv: "\<forall>i \<in> set drp. accounted cs now out i" using collapse_loop_inv [OF l] by auto
  obtain i where i: "i < length cs" "cs ! i = x" using assms by (auto simp: in_set_conv_nth)
  show ?thesis
  proof (cases "i \<in> set drp")
    case True
    with inv have "accounted cs now out i" by blast
    then show ?thesis using i by (auto simp: accounted_def collapse_reinstalls_def l)
  next
    case False
    then have "(i, x) \<in> set (filter (\<lambda>(i, c). i \<notin> set drp) (enumerate 0 cs))"
      using i by (simp add: enumerate_mem)
    then show ?thesis by (force simp: collapse_reinstalls_def l)
  qed
qed

lemma collapse_sound:
  assumes "x \<in> set (collapse_reinstalls cs now)"
  shows "x \<in> set cs \<or> from_pair cs now x"
proof -
  obtain out drp where l: "collapse_loop cs now (enumerate 0 cs) [] [] = (out, drp)" by fastforce
  have "\<forall>x \<in> set out. from_pair cs now x" using collapse_loop_inv [OF l] by auto
  with assms show ?thesis by (auto simp: collapse_reinstalls_def l enumerate_mem)
qed

subsection \<open>The difference is complete and sound\<close>

lemma set_sort_changes [simp]: "set (sort_changes cs) = set cs" "length (sort_changes cs) = length cs"
  by (simp_all add: sort_changes_def)

definition raw_soft :: "string list \<Rightarrow> string list \<Rightarrow> soft_fp list \<Rightarrow> soft_fp list \<Rightarrow> nanos \<Rightarrow> change list" where
  "raw_soft oa ob before after now =
     concat (map (later_change (index_soft before) (index_soft after) now) oa) @
     concat (map (earlier_change (index_soft before) (index_soft after) now) ob)"

lemma raw_soft_mem: "c \<in> set (raw_soft oa ob before after now) \<longleftrightarrow>
    (\<exists>k \<in> set oa. c \<in> set (later_change (index_soft before) (index_soft after) now k)) \<or>
    (\<exists>k \<in> set ob. c \<in> set (earlier_change (index_soft before) (index_soft after) now k))"
  by (auto simp: raw_soft_def)

lemma diff_soft_set: "set (diff_software oa ob before after now) =
    set (collapse_reinstalls (raw_soft oa ob before after now) now)"
  by (simp add: diff_software_def raw_soft_def Let_def)

lemma change_kinds [simp]:
  "c_kind (installed_change k a now) = software_installed" "c_kind (updated_change k b a now) = software_updated"
  "c_kind (removed_change k b now) = software_removed" "c_key (installed_change k a now) = k"
  "c_key (updated_change k b a now) = k" "c_key (removed_change k b now) = k"
  "c_old (removed_change k b now) = sf_version b" "c_new (installed_change k a now) = sf_version a"
  "name_vendor (removed_change k b now) = (sf_name b, sf_vendor b)"
  "name_vendor (installed_change k a now) = (sf_name a, sf_vendor a)"
  "c_key (reinstalled c r now) = c_key c" "c_new (reinstalled c r now) = c_new c"
  "c_old (reinstalled c r now) = c_old r" "c_kind (reinstalled c r now) = software_updated"
  "name_vendor (reinstalled c r now) = name_vendor c"
  by (simp_all add: installed_change_def updated_change_def removed_change_def reinstalled_def name_vendor_def)

lemma kinds_differ [simp]: "software_installed \<noteq> software_removed" "software_updated \<noteq> software_removed"
    "software_updated \<noteq> software_installed" "software_removed \<noteq> software_installed"
    "software_removed \<noteq> software_updated" "software_installed \<noteq> software_updated"
  by (simp_all add: kinds)

text \<open>The difference of two software inventories hides nothing, in whatever order the maps
  are walked: a new key is reported as an installation or as an update under its key with its version,
  a changed version as an update, a vanished key as a removal or as the old version of an update of the
  same name and vendor; and every reported key did change.\<close>

theorem software_diff_complete:
  assumes "\<And>k. k \<in> set oa \<longleftrightarrow> index_soft after k \<noteq> None" and "\<And>k. k \<in> set ob \<longleftrightarrow> index_soft before k \<noteq> None"
  shows "let D = set (diff_software oa ob before after now); bm = index_soft before; am = index_soft after in
    (\<forall>k a. am k = Some a \<and> bm k = None \<longrightarrow>
       (\<exists>c \<in> D. c_key c = k \<and> c_new c = sf_version a \<and> (c_kind c = software_installed \<or> c_kind c = software_updated))) \<and>
    (\<forall>k a b. am k = Some a \<and> bm k = Some b \<and> sf_version b \<noteq> sf_version a \<longrightarrow> updated_change k b a now \<in> D) \<and>
    (\<forall>k b. bm k = Some b \<and> am k = None \<longrightarrow>
       removed_change k b now \<in> D \<or>
       (\<exists>c \<in> D. c_kind c = software_updated \<and> c_old c = sf_version b \<and> name_vendor c = (sf_name b, sf_vendor b))) \<and>
    (\<forall>c \<in> D. (am (c_key c) = None \<or> bm (c_key c) = None \<or>
       map_option sf_version (am (c_key c)) \<noteq> map_option sf_version (bm (c_key c))))"
proof -
  let ?R = "raw_soft oa ob before after now" and ?D = "set (diff_software oa ob before after now)"
  let ?bm = "index_soft before" and ?am = "index_soft after"
  have later: "c \<in> set ?R" if "c \<in> set (later_change ?bm ?am now k)" for c k
  proof -
    have "k \<in> set oa" using that assms(1) [of k] by (cases "?am k") (simp_all add: later_change_def)
    with that show ?thesis by (auto simp: raw_soft_mem)
  qed
  have earlier: "c \<in> set ?R" if "c \<in> set (earlier_change ?bm ?am now k)" for c k
  proof -
    have "k \<in> set ob" using that assms(2) [of k] by (cases "?bm k") (simp_all add: earlier_change_def)
    with that show ?thesis by (auto simp: raw_soft_mem)
  qed
  note keeps = collapse_keeps [of _ ?R now, folded diff_soft_set]
  have 1: "\<exists>c \<in> ?D. c_key c = k \<and> c_new c = sf_version a \<and> (c_kind c = software_installed \<or> c_kind c = software_updated)"
    if "?am k = Some a" "?bm k = None" for k a
  proof -
    have "installed_change k a now \<in> set ?R" using that by (intro later [of _ k]) (simp add: later_change_def)
    from keeps [OF this] show ?thesis
      by (metis change_kinds(1,4,8,11,12,14) kinds_differ(1))
  qed
  have 2: "updated_change k b a now \<in> ?D"
    if "?am k = Some a" "?bm k = Some b" "sf_version b \<noteq> sf_version a" for k a b
  proof -
    have "updated_change k b a now \<in> set ?R" using that by (intro later [of _ k]) (simp add: later_change_def)
    from keeps [OF this] show ?thesis by (metis change_kinds(2) kinds_differ(2,3))
  qed
  have 3: "removed_change k b now \<in> ?D \<or>
      (\<exists>c \<in> ?D. c_kind c = software_updated \<and> c_old c = sf_version b \<and> name_vendor c = (sf_name b, sf_vendor b))"
    if "?bm k = Some b" "?am k = None" for k b
  proof -
    have "removed_change k b now \<in> set ?R" using that by (intro earlier [of _ k]) (simp add: earlier_change_def)
    from keeps [OF this] show ?thesis by (metis change_kinds(3,7,9,13-15) kinds_differ(4))
  qed
  have raw: "?am (c_key c) = None \<or> ?bm (c_key c) = None \<or>
      map_option sf_version (?am (c_key c)) \<noteq> map_option sf_version (?bm (c_key c))" if "c \<in> set ?R" for c
    using that by (auto simp: raw_soft_mem later_change_def earlier_change_def split: option.splits if_splits)
  have 4: "?am (c_key c) = None \<or> ?bm (c_key c) = None \<or>
      map_option sf_version (?am (c_key c)) \<noteq> map_option sf_version (?bm (c_key c))" if "c \<in> ?D" for c
  proof -
    have "c \<in> set ?R \<or> from_pair ?R now c" using collapse_sound [of c ?R now] that by (simp add: diff_soft_set)
    then obtain c' where "c' \<in> set ?R" "c_key c = c_key c'" by (auto simp: from_pair_def)
    with raw [of c'] show ?thesis by simp
  qed
  show ?thesis using 1 2 3 4 by (simp add: Let_def)
qed

definition fp :: "string \<Rightarrow> string \<Rightarrow> soft_fp" where
  "fp k v = \<lparr>sf_key = k, sf_name = ''App'', sf_version = v, sf_vendor = ''V'', sf_scope = []\<rparr>"

text \<open>But the pairing of several reinstallations under one name and vendor depends on the
  order in which Go walks the map: the same two inventories give two different lists of changes, and
  so two digests of one unchanged window.\<close>

theorem reinstall_order_dependent:
  "let before = [fp ''a'' ''1'', fp ''b'' ''2'']; after = [fp ''c'' ''3''] in
   digest_text (build_window \<lparr>mo_soft_after = [''c''], mo_soft_before = [''a'', ''b''], mo_svc_after = [], mo_svc_before = []\<rparr>
     (Some \<lparr>ss_rid = ''r'', ss_user = ''u'', ss_expires = None, ss_was_admin = False, ss_granted_at = None, ss_boot = 0,
        ss_seq = 0, ss_collect = True, ss_digest = [], ss_sw_health = [], ss_sv_health = [], ss_software = before,
        ss_services = []\<rparr>)
     \<lparr>iv_software = after, iv_sw_health = [], iv_services = [], iv_sv_health = [], iv_at = None, iv_boot = 0\<rparr>
     \<lparr>wi_seq = 1, wi_final = False, wi_now = 0, wi_session_end = None, wi_lost = False\<rparr>) \<noteq>
   digest_text (build_window \<lparr>mo_soft_after = [''c''], mo_soft_before = [''b'', ''a''], mo_svc_after = [], mo_svc_before = []\<rparr>
     (Some \<lparr>ss_rid = ''r'', ss_user = ''u'', ss_expires = None, ss_was_admin = False, ss_granted_at = None, ss_boot = 0,
        ss_seq = 0, ss_collect = True, ss_digest = [], ss_sw_health = [], ss_sv_health = [], ss_software = before,
        ss_services = []\<rparr>)
     \<lparr>iv_software = after, iv_sw_health = [], iv_services = [], iv_sv_health = [], iv_at = None, iv_boot = 0\<rparr>
     \<lparr>wi_seq = 1, wi_final = False, wi_now = 0, wi_session_end = None, wi_lost = False\<rparr>)"
  by code_simp

subsection \<open>What a window promises\<close>

lemma truncate_kept:
  assumes "truncate_changes cs mx = (kept, tr)"
  shows "if tr then 0 < mx \<and> mx < int (length cs) \<and> int (length kept) = mx \<and> set kept \<subseteq> set cs \<and>
      (\<forall>c \<in> set cs. c \<notin> set kept \<longrightarrow> (\<forall>d \<in> set kept. attr_rank (c_attr d) \<le> attr_rank (c_attr c)))
    else kept = cs"
proof (cases tr)
  case True
  let ?rk = "\<lambda>c. attr_rank (c_attr c)" and ?s = "sort_key (\<lambda>c. attr_rank (c_attr c)) cs"
  have k: "kept = sort_changes (take (nat mx) ?s)" "0 < mx" "mx < int (length cs)"
    using assms True by (auto simp: truncate_changes_def split: if_splits)
  have srt: "sorted (map ?rk (take (nat mx) ?s @ drop (nat mx) ?s))" by simp
  have "?rk d \<le> ?rk c" if "c \<in> set cs" "c \<notin> set kept" "d \<in> set kept" for c d
  proof -
    have "c \<in> set (take (nat mx) ?s @ drop (nat mx) ?s)" using that(1) by simp
    with that(2) have "c \<in> set (drop (nat mx) ?s)" unfolding k(1) by (metis Un_iff set_append set_sort_changes(1))
    moreover have "d \<in> set (take (nat mx) ?s)" using that(3) by (simp add: k(1))
    moreover have "\<forall>x \<in> set (take (nat mx) ?s). \<forall>y \<in> set (drop (nat mx) ?s). ?rk x \<le> ?rk y"
      using srt unfolding map_append sorted_append set_map by blast
    ultimately show ?thesis by blast
  qed
  moreover have "set kept \<subseteq> set cs" using set_take_subset [of "nat mx" ?s] by (simp add: k(1))
  ultimately show ?thesis using True k by simp
next
  case False
  with assms show ?thesis by (auto simp: truncate_changes_def split: if_splits)
qed

text \<open>Claim C39.  A window that calls itself complete is: a base line was there, both collections were
  healthy on both sides, nothing was cut, and its changes are exactly the difference of the inventories;
  and a window that was cut holds exactly a thousand changes and dropped none that is more suspicious
  than one it kept.\<close>

theorem window_completeness_honest:
  assumes "w = build_window mo st cur inp"
  shows "(w_completeness w = Complete \<longrightarrow> \<not> w_lost w \<and> \<not> w_truncated w \<and> health_ok (w_sw_health w) \<and>
      health_ok (w_sv_health w) \<and> (\<exists>s. st = Some s \<and> set (w_changes w) =
        set (diff_software (mo_soft_after mo) (mo_soft_before mo) (ss_software s) (iv_software cur) (wi_now inp)) \<union>
        set (diff_services (mo_svc_after mo) (mo_svc_before mo) (ss_services s) (iv_services cur) (wi_now inp)))) \<and>
    (w_truncated w \<longrightarrow> length (w_changes w) = 1000 \<and> w_completeness w \<noteq> Complete) \<and> length (w_changes w) \<le> 1000"
proof -
  let ?lost = "wi_lost inp \<or> st = None"
  let ?swh = "worse_health (case st of Some s \<Rightarrow> ss_sw_health s | None \<Rightarrow> []) (iv_sw_health cur)"
  let ?svh = "worse_health (case st of Some s \<Rightarrow> ss_sv_health s | None \<Rightarrow> []) (iv_sv_health cur)"
  let ?bsoft = "case st of Some s \<Rightarrow> ss_software s | None \<Rightarrow> []"
  let ?bsvc = "case st of Some s \<Rightarrow> ss_services s | None \<Rightarrow> []"
  let ?so = "st \<noteq> None \<and> \<not> ?lost \<and> health_usable ?swh \<and> ?bsoft \<noteq> [] \<and> iv_software cur \<noteq> []"
  let ?sv = "st \<noteq> None \<and> \<not> ?lost \<and> health_usable ?svh \<and> ?bsvc \<noteq> [] \<and> iv_services cur \<noteq> []"
  let ?ds = "diff_software (mo_soft_after mo) (mo_soft_before mo) ?bsoft (iv_software cur) (wi_now inp)"
  let ?dv = "diff_services (mo_svc_after mo) (mo_svc_before mo) ?bsvc (iv_services cur) (wi_now inp)"
  let ?cs = "degrade (sort_changes ((if ?so then ?ds else []) @ (if ?sv then ?dv else []))) ?swh ?svh ?lost"
  obtain kept tr where t: "truncate_changes ?cs max_window_changes = (kept, tr)" by fastforce
  obtain stale where w: "w_changes w = kept" "w_truncated w = tr" "w_lost w = ?lost" "w_sw_health w = ?swh"
      "w_sv_health w = ?svh" "w_completeness w = completeness_of ?lost ?swh ?svh tr stale (\<not> ?so \<or> \<not> ?sv)"
    unfolding assms build_window_def Let_def t prod.case by simp
  have len: "length kept \<le> 1000" "tr \<Longrightarrow> length kept = 1000"
    using truncate_kept [OF t] t by (auto simp: max_window_changes_def truncate_changes_def split: if_splits)
  show ?thesis
  proof (cases "w_completeness w = Complete")
    case True
    then have c: "\<not> ?lost" "?so" "?sv" "health_ok ?swh" "health_ok ?svh" "\<not> tr"
      by (auto simp: w(6) completeness_of_def split: if_splits)
    then have "kept = ?cs" using truncate_kept [OF t] by simp
    moreover have "?cs = sort_changes (?ds @ ?dv)"
      using c by (auto simp: degrade_def health_ok_def)
    ultimately have "set kept = set ?ds \<union> set ?dv" by simp
    then show ?thesis using c w(1-5) len by auto
  next
    case False
    then show ?thesis using w(1,2) len by simp
  qed
qed

lemma software_diff_complete_witness:
  "let D = set (diff_software [''c''] [''a''] [fp ''a'' ''1''] [fp ''c'' ''3''] 0) in
   \<exists>c \<in> D. c_key c = ''c'' \<and> c_new c = ''3''"
proof -
  have am: "index_soft [fp ''c'' ''3''] k = (if k = ''c'' then Some (fp ''c'' ''3'') else None)" for k
    by (simp add: index_soft_def fp_def)
  have bm: "index_soft [fp ''a'' ''1''] k = (if k = ''a'' then Some (fp ''a'' ''1'') else None)" for k
    by (simp add: index_soft_def fp_def)
  have v: "sf_version (fp ''c'' ''3'') = ''3''" by (simp add: fp_def)
  have h: "\<And>k. k \<in> set [''c''] \<longleftrightarrow> index_soft [fp ''c'' ''3''] k \<noteq> None"
    "\<And>k. k \<in> set [''a''] \<longleftrightarrow> index_soft [fp ''a'' ''1''] k \<noteq> None" by (simp_all add: am bm)
  have "\<exists>c \<in> set (diff_software [''c''] [''a''] [fp ''a'' ''1''] [fp ''c'' ''3''] 0).
      c_key c = ''c'' \<and> c_new c = sf_version (fp ''c'' ''3'') \<and> (c_kind c = software_installed \<or> c_kind c = software_updated)"
    by (rule software_diff_complete [OF h, where now = 0, unfolded Let_def, THEN conjunct1, rule_format])
       (simp add: am bm)
  then show ?thesis by (auto simp: v Let_def)
qed

lemma unsupported_hidden_by_partial:
  "health_usable (worse_health health_partial health_unsupported)" "\<not> health_usable health_unsupported"
  by (simp_all add: health_usable_def worse_health_def health_rank_def healths health_ok_s_def)

definition a_session :: session where
  "a_session = \<lparr>ss_rid = ''r'', ss_user = ''u'', ss_expires = None, ss_was_admin = False, ss_granted_at = None, ss_boot = 0,
     ss_seq = 0, ss_collect = True, ss_digest = [], ss_sw_health = [], ss_sv_health = [], ss_software = [fp ''a'' ''1''],
     ss_services = [\<lparr>sv_key = ''s'', sv_display = [], sv_start = [], sv_account = [], sv_image = [], sv_def = [],
       sv_os = False, sv_kind = []\<rparr>]\<rparr>"

definition an_inventory :: inventory where
  "an_inventory = \<lparr>iv_software = [fp ''a'' ''2''], iv_sw_health = health_ok_s, iv_services = ss_services a_session,
     iv_sv_health = health_ok_s, iv_at = None, iv_boot = 0\<rparr>"

definition a_window :: window where
  "a_window = build_window \<lparr>mo_soft_after = [''a''], mo_soft_before = [''a''], mo_svc_after = [''s''], mo_svc_before = [''s'']\<rparr>
     (Some a_session) an_inventory \<lparr>wi_seq = 1, wi_final = False, wi_now = 0, wi_session_end = None, wi_lost = False\<rparr>"

lemma window_completeness_honest_witness:
  "\<not> w_truncated a_window \<and> length (w_changes a_window) = 1 \<and> health_ok (w_sw_health a_window)"
proof -
  have "w_completeness a_window = Complete" "length (w_changes a_window) = 1" by code_simp+
  then show ?thesis using window_completeness_honest [OF a_window_def] by blast
qed

end
