(* ===== verification/AdminManager.thy ===== *)
theory AdminManager
  imports AdminWindow
begin

section \<open>Temporary administrator rights\<close>

text \<open>
  Model of \<open>internal/agent/admin/manager.go\<close>, of the store in \<open>session.go\<close> and of
  \<open>userrequest.go\<close>.  The record \<open>am\<close> is the manager with what it changes outside: the session
  file and the group of administrators of the operating system.  The group is a set of user names;
  \<open>PrivilegeManager\<close> is an interface of the code, so a call of it has an outcome as an argument: it
  is done, or it returns an error with or without an effect.  \<open>am_trace\<close> lists, oldest first, the
  file and the group after every change of either; a crash leaves one of these behind.  Texts in the
  log are left out, the reasons of a removal are constructors.
\<close>

subsection \<open>The world and the manager\<close>

datatype sfile = SAbsent | SBad | SOk session

datatype os_out = OsDone | OsErr bool \<comment> \<open>an error; did it take effect all the same?\<close>

datatype admin_status = StUnspecified | StPending | StApproved | StRejected | StExpired | StRevoked | StOther int

datatype revoke_reason = UserLeft | TermExpired | NotConfirmed admin_status

datatype details = AppliedOn string | Reason revoke_reason

record admin_report =
  ar_rid :: string
  ar_status :: admin_status
  ar_details :: details
  ar_baseline :: bool

datatype admin_event = Report admin_report | WindowOut window

record am =
  am_user :: string
  am_expires :: "nanos option"
  am_was :: bool
  am_last :: string
  am_collect :: bool
  am_latched :: bool
  am_lost :: bool
  am_interval :: nanos
  am_next :: "nanos option"
  am_durable :: bool
  am_store :: sfile
  am_os :: "string set"
  am_trace :: "(sfile \<times> string set) list"
  am_events :: "admin_event list"

definition new_admin :: "bool \<Rightarrow> sfile \<Rightarrow> string set \<Rightarrow> am" where
  "new_admin durable f os = \<lparr>am_user = [], am_expires = None, am_was = False, am_last = [], am_collect = False,
     am_latched = False, am_lost = False, am_interval = default_window_interval, am_next = None,
     am_durable = durable, am_store = f, am_os = os, am_trace = [(f, os)], am_events = []\<rparr>"

text \<open>\<open>NewSessionStore\<close>: the store is durable when the directory is the protected one; \<open>absp\<close> is
  \<open>filepath.Abs\<close>.\<close>

definition new_session_store :: "(string \<Rightarrow> string option) \<Rightarrow> string \<Rightarrow> string \<Rightarrow> bool" where
  "new_session_store absp state_dir data_dir =
     (if state_dir = [] \<or> data_dir = [] then False
      else (case (absp state_dir, absp data_dir) of (Some a, Some b) \<Rightarrow> a = b | _ \<Rightarrow> False))"

definition put_world :: "sfile \<Rightarrow> string set \<Rightarrow> am \<Rightarrow> am" where
  "put_world f os m = m\<lparr>am_store := f, am_os := os, am_trace := am_trace m @ [(f, os)]\<rparr>"

definition record_event :: "admin_event \<Rightarrow> am \<Rightarrow> am" where
  "record_event e m = m\<lparr>am_events := am_events m @ [e]\<rparr>"

text \<open>\<open>Load\<close>: \<open>Inl\<close> is an error, \<open>Inr None\<close> no file.  \<open>Save\<close> publishes by a rename, so
  that it either takes effect or leaves the old file.\<close>

definition store_load :: "bool \<Rightarrow> am \<Rightarrow> unit + session option" where
  "store_load rd m = (if \<not> am_durable m then Inl ()
     else (case am_store m of
         SAbsent \<Rightarrow> Inr None
       | SBad \<Rightarrow> Inl ()
       | SOk s \<Rightarrow> if rd then Inr (Some s) else Inl ()))"

definition store_save :: "bool \<Rightarrow> session \<Rightarrow> am \<Rightarrow> am \<times> bool" where
  "store_save ok s m = (if \<not> am_durable m \<or> \<not> ok then (m, False) else (put_world (SOk s) (am_os m) m, True))"

definition store_clear :: "bool \<Rightarrow> am \<Rightarrow> am" where
  "store_clear ok m = (if am_durable m \<and> ok then put_world SAbsent (am_os m) m else m)"

definition os_grant :: "os_out \<Rightarrow> string \<Rightarrow> am \<Rightarrow> am \<times> bool" where
  "os_grant r u m = (case r of
     OsDone \<Rightarrow> (put_world (am_store m) (insert u (am_os m)) m, True)
   | OsErr took \<Rightarrow> (if took then put_world (am_store m) (insert u (am_os m)) m else m, False))"

definition os_revoke :: "os_out \<Rightarrow> string \<Rightarrow> am \<Rightarrow> am" where
  "os_revoke r u m =
     (if r = OsErr False then m else put_world (am_store m) (am_os m - {u}) m)"

subsection \<open>The base line\<close>

record raw_software =
  rs_uninstall :: string
  rs_name :: string
  rs_version :: string
  rs_vendor :: string
  rs_scope :: string

definition software_key :: "raw_software \<Rightarrow> string" where
  "software_key s = (if rs_uninstall s \<noteq> [] then rs_uninstall s else rs_name s @ [CHR 0x00] @ rs_vendor s)"

text \<open>\<open>Snapshot\<close> over the two collectors; the software collector answers with a list and whether
  there was an error.  \<open>default_snapshot\<close> takes an empty list for an error.\<close>

definition snapshot :: "raw_software list \<times> bool \<Rightarrow> svc_fp list \<times> string
    \<Rightarrow> soft_fp list \<times> string \<times> svc_fp list \<times> string" where
  "snapshot sw svc =
     (map (\<lambda>s. \<lparr>sf_key = software_key s, sf_name = rs_name s, sf_version = rs_version s,
        sf_vendor = rs_vendor s, sf_scope = rs_scope s\<rparr>) (fst sw),
      if snd sw then health_failed else health_ok_s, fst svc, snd svc)"

definition default_snapshot :: "raw_software list \<Rightarrow> svc_fp list \<times> string
    \<Rightarrow> soft_fp list \<times> string \<times> svc_fp list \<times> string" where
  "default_snapshot sw svc = (if sw = [] then snapshot ([], True) svc else snapshot (sw, False) svc)"

subsection \<open>Windows of evidence\<close>

text \<open>\<open>windowSender\<close>: the queue first; a final window the queue refuses goes straight to the server,
  whose answer is \<open>None\<close> for an error and otherwise the flag of the acknowledgement.\<close>

definition window_sender :: "bool \<Rightarrow> bool \<Rightarrow> bool option \<Rightarrow> window \<Rightarrow> bool" where
  "window_sender enq dial ack w =
     (if enq \<or> \<not> w_final w then enq else dial \<and> ack = Some True)"

record window_env =
  we_end_now :: nanos
  we_now :: nanos
  we_load :: bool
  we_software :: "raw_software list"
  we_services :: "svc_fp list \<times> string"
  we_boot :: int
  we_orders :: map_orders
  we_enqueue :: bool
  we_dial :: bool
  we_ack :: "bool option"
  we_save :: bool

definition fallback_session :: "am \<Rightarrow> session" where
  "fallback_session m = \<lparr>ss_rid = am_last m, ss_user = am_user m, ss_expires = am_expires m, ss_was_admin = False,
     ss_granted_at = None, ss_boot = 0, ss_seq = 0, ss_collect = False, ss_digest = [], ss_sw_health = [],
     ss_sv_health = [], ss_software = [], ss_services = []\<rparr>"

definition load_baseline :: "bool \<Rightarrow> am \<Rightarrow> session \<times> bool" where
  "load_baseline rd m =
     (if \<not> am_durable m then (fallback_session m, True)
      else (case store_load rd m of
          Inl _ \<Rightarrow> (fallback_session m, True)
        | Inr None \<Rightarrow> (fallback_session m, True)
        | Inr (Some s) \<Rightarrow> if ss_rid s = [] then (fallback_session m, True) else (s, am_lost m)))"

definition current_inventory :: "window_env \<Rightarrow> inventory" where
  "current_inventory e =
     (let (sw, swh, sv, svh) = default_snapshot (we_software e) (we_services e)
      in \<lparr>iv_software = sw, iv_sw_health = swh, iv_services = sv, iv_sv_health = svh,
          iv_at = Some (we_now e), iv_boot = we_boot e\<rparr>)"

definition emit_window :: "(string \<Rightarrow> string) \<Rightarrow> window_env \<Rightarrow> bool \<Rightarrow> nanos option \<Rightarrow> am \<Rightarrow> am" where
  "emit_window sha e final session_end m =
     (if \<not> am_latched m then m
      else
        (let m1 = m\<lparr>am_next := Some (we_now e + am_interval m)\<rparr>;
             (st, lost) = load_baseline (we_load e) m1;
             seq = int32_of (ss_seq st + 1);
             w = build_window (we_orders e) (Some st) (current_inventory e)
               \<lparr>wi_seq = seq, wi_final = final, wi_now = we_now e, wi_session_end = session_end, wi_lost = lost\<rparr>;
             digest = window_digest sha w
         in if \<not> final \<and> digest = ss_digest st \<and> 0 < ss_seq st then m1
            else if \<not> window_sender (we_enqueue e) (we_dial e) (we_ack e) w then m1
            else (let m2 = record_event (WindowOut w) m1
              in if final \<or> \<not> am_durable m2 then m2
                 else fst (store_save (we_save e) (st\<lparr>ss_seq := seq, ss_digest := digest\<rparr>) m2))))"

subsection \<open>Granting and removing\<close>

definition report_status :: "bool \<Rightarrow> string \<Rightarrow> admin_status \<Rightarrow> details \<Rightarrow> bool \<Rightarrow> am \<Rightarrow> am" where
  "report_status ok rid st d b m =
     (if ok then record_event (Report \<lparr>ar_rid = rid, ar_status = st, ar_details = d, ar_baseline = b\<rparr>) m else m)"

definition session_end :: "nanos \<Rightarrow> am \<Rightarrow> nanos" where
  "session_end now m = (case am_expires m of Some e \<Rightarrow> if e < now then e else now | None \<Rightarrow> now)"

record revoke_env =
  re_os :: os_out
  re_window :: window_env
  re_clear :: bool
  re_report :: bool

definition revoke :: "(string \<Rightarrow> string) \<Rightarrow> revoke_env \<Rightarrow> revoke_reason \<Rightarrow> am \<Rightarrow> am" where
  "revoke sha e rsn m =
     (let rid = am_last m;
          captured = (am_latched m \<and> \<not> am_lost m);
          m1 = (if am_was m then m else os_revoke (re_os e) (am_user m) m);
          m2 = emit_window sha (re_window e) True (Some (session_end (we_end_now (re_window e)) m1)) m1;
          m3 = m2\<lparr>am_user := [], am_expires := None, am_was := False, am_next := None, am_latched := False\<rparr>;
          m4 = store_clear (re_clear e) m3
      in report_status (re_report e) rid StRevoked (Reason rsn) captured m4)"

text \<open>\<open>ge_member\<close> is the answer of \<open>IsAdmin\<close>, \<open>None\<close> an error.\<close>

record grant_env =
  ge_console :: "string \<times> bool"
  ge_member :: "bool option"
  ge_now :: nanos
  ge_boot :: int
  ge_software :: "raw_software list"
  ge_services :: "svc_fp list \<times> string"
  ge_save :: bool
  ge_os :: os_out
  ge_clear :: bool
  ge_next_now :: nanos
  ge_report :: bool

definition grant_session :: "grant_env \<Rightarrow> string \<Rightarrow> nanos option \<Rightarrow> string \<Rightarrow> bool \<Rightarrow> bool \<Rightarrow> session" where
  "grant_session e rid expires user was latched =
     (let (sw, swh, sv, svh) = (if latched then default_snapshot (ge_software e) (ge_services e) else ([], [], [], []))
      in \<lparr>ss_rid = rid, ss_user = user, ss_expires = expires, ss_was_admin = was, ss_granted_at = Some (ge_now e),
          ss_boot = ge_boot e, ss_seq = 0, ss_collect = latched, ss_digest = [], ss_sw_health = swh,
          ss_sv_health = svh, ss_software = sw, ss_services = sv\<rparr>)"

definition grant :: "grant_env \<Rightarrow> string \<Rightarrow> nanos option \<Rightarrow> am \<Rightarrow> am" where
  "grant e rid expires m =
     (let (user, probed) = ge_console e
      in if \<not> probed \<or> user = [] then m
         else
           (let was = (case ge_member e of None \<Rightarrow> True | Some b \<Rightarrow> b);
                m1 = m\<lparr>am_latched := am_collect m\<rparr>;
                (m2, saved) =
                  (if am_durable m1
                   then (let (m', ok) = store_save (ge_save e) (grant_session e rid expires user was (am_latched m1)) m1
                         in (if ok then m'\<lparr>am_lost := False\<rparr> else m', ok))
                   else (m1\<lparr>am_lost := True\<rparr>, True))
            in if \<not> saved then m2
               else (case os_grant (ge_os e) user m2 of
                   (m3, False) \<Rightarrow> store_clear (ge_clear e) m3
                 | (m3, True) \<Rightarrow>
                     report_status (ge_report e) rid StApproved (AppliedOn user) (am_latched m3 \<and> \<not> am_lost m3)
                       (m3\<lparr>am_user := user, am_expires := expires, am_was := was, am_last := rid,
                           am_next := Some (ge_next_now e + am_interval m3)\<rparr>))))"

subsection \<open>Restart and one tick\<close>

definition restore :: "bool \<Rightarrow> nanos \<Rightarrow> am \<Rightarrow> am" where
  "restore rd now m =
     (if \<not> am_durable m then m
      else (case store_load rd m of
          Inl _ \<Rightarrow> m
        | Inr None \<Rightarrow> m
        | Inr (Some s) \<Rightarrow> if ss_rid s = [] then m
            else m\<lparr>am_user := ss_user s, am_expires := ss_expires s, am_was := ss_was_admin s, am_last := ss_rid s,
                   am_latched := ss_collect s, am_lost := False, am_next := Some (now + am_interval m)\<rparr>))"

record admin_resp =
  rp_status :: admin_status
  rp_rid :: string
  rp_expires :: unixtime
  rp_collect :: bool
  rp_interval :: int

record poll_env =
  pe_console :: "string \<times> bool"
  pe_now1 :: nanos
  pe_local :: revoke_env
  pe_resp :: "admin_resp option"
  pe_now2 :: nanos
  pe_server :: revoke_env
  pe_grant :: grant_env
  pe_now3 :: nanos
  pe_window :: window_env

definition passed :: "nanos \<Rightarrow> nanos option \<Rightarrow> bool" where
  "passed now t = (case t of Some e \<Rightarrow> e < now | None \<Rightarrow> False)"

definition poll_local :: "(string \<Rightarrow> string) \<Rightarrow> poll_env \<Rightarrow> am \<Rightarrow> am" where
  "poll_local sha e m =
     (if am_user m = [] then m
      else if snd (pe_console e) \<and> fst (pe_console e) \<noteq> am_user m then revoke sha (pe_local e) UserLeft m
      else if passed (pe_now1 e) (am_expires m) then revoke sha (pe_local e) TermExpired m
      else m)"

definition resp_expires :: "admin_resp \<Rightarrow> nanos option" where
  "resp_expires r = (if rp_expires r \<noteq> 0 then Some (rp_expires r * second) else None)"

definition approved_now :: "nanos \<Rightarrow> admin_resp \<Rightarrow> bool" where
  "approved_now now r \<longleftrightarrow> rp_status r = StApproved \<and> rp_rid r \<noteq> [] \<and>
     (case resp_expires r of None \<Rightarrow> True | Some x \<Rightarrow> now < x)"

text \<open>The second half of \<open>poll\<close>, in its four steps.\<close>

definition take_settings :: "admin_resp \<Rightarrow> am \<Rightarrow> am" where
  "take_settings r m = m\<lparr>am_collect := rp_collect r, am_interval := clamp_window_interval (rp_interval r)\<rparr>"

definition poll_confirm :: "(string \<Rightarrow> string) \<Rightarrow> poll_env \<Rightarrow> admin_resp \<Rightarrow> am \<Rightarrow> am" where
  "poll_confirm sha e r m =
     (if am_user m \<noteq> [] \<and> (\<not> approved_now (pe_now2 e) r \<or> rp_rid r \<noteq> am_last m)
      then revoke sha (pe_server e) (NotConfirmed (rp_status r)) m else m)"

definition poll_grant :: "poll_env \<Rightarrow> admin_resp \<Rightarrow> am \<Rightarrow> am" where
  "poll_grant e r m =
     (if approved_now (pe_now2 e) r \<and> rp_rid r \<noteq> am_last m
      then grant (pe_grant e) (rp_rid r) (resp_expires r) m else m)"

definition poll_window :: "(string \<Rightarrow> string) \<Rightarrow> poll_env \<Rightarrow> am \<Rightarrow> am" where
  "poll_window sha e m = (case am_next m of
     Some t \<Rightarrow> if am_user m \<noteq> [] \<and> t \<le> pe_now3 e then emit_window sha (pe_window e) False None m else m
   | None \<Rightarrow> m)"

definition poll_server :: "(string \<Rightarrow> string) \<Rightarrow> poll_env \<Rightarrow> admin_resp \<Rightarrow> am \<Rightarrow> am" where
  "poll_server sha e r m = poll_window sha e (poll_grant e r (poll_confirm sha e r (take_settings r m)))"

definition poll :: "(string \<Rightarrow> string) \<Rightarrow> poll_env \<Rightarrow> am \<Rightarrow> am" where
  "poll sha e m =
     (let m1 = poll_local sha e m
      in case pe_resp e of None \<Rightarrow> m1 | Some r \<Rightarrow> poll_server sha e r m1)"

subsection \<open>Requests from the tray\<close>

datatype rpc_code = CodeOK | NotFound | InvalidArgument | FailedPrecondition | OtherCode nat

definition is_terminal_request_err :: "rpc_code \<Rightarrow> bool" where
  "is_terminal_request_err c \<longleftrightarrow> c \<in> {NotFound, InvalidArgument, FailedPrecondition}"

text \<open>One tick over the request file: \<open>Some None\<close> is a file that cannot be read or parsed; \<open>send\<close>
  gives \<open>None\<close> on success or the error's code.  The result is the file after the tick and the reasons sent.\<close>

definition process_request :: "(string \<Rightarrow> rpc_code option) \<Rightarrow> bool \<Rightarrow> string option option
    \<Rightarrow> string option option \<times> string list" where
  "process_request send rm f = (case f of
     Some (Some reason) \<Rightarrow>
       (let gone = (case send reason of None \<Rightarrow> True | Some c \<Rightarrow> is_terminal_request_err c)
        in (if gone \<and> rm then None else f, [reason]))
   | _ \<Rightarrow> (f, []))"

subsection \<open>What an operation leaves alone\<close>

lemma put_world_simps [simp]:
  "am_store (put_world f os m) = f" "am_os (put_world f os m) = os"
  "am_trace (put_world f os m) = am_trace m @ [(f, os)]" "am_user (put_world f os m) = am_user m"
  "am_was (put_world f os m) = am_was m" "am_last (put_world f os m) = am_last m"
  "am_durable (put_world f os m) = am_durable m" "am_events (put_world f os m) = am_events m"
  "am_expires (put_world f os m) = am_expires m" "am_latched (put_world f os m) = am_latched m"
  "am_lost (put_world f os m) = am_lost m" "am_interval (put_world f os m) = am_interval m"
  by (simp_all add: put_world_def)

lemma record_event_simps [simp]:
  "am_store (record_event x m) = am_store m" "am_os (record_event x m) = am_os m"
  "am_trace (record_event x m) = am_trace m" "am_user (record_event x m) = am_user m"
  "am_was (record_event x m) = am_was m" "am_last (record_event x m) = am_last m"
  "am_durable (record_event x m) = am_durable m" "am_lost (record_event x m) = am_lost m"
  "am_events (record_event x m) = am_events m @ [x]"
  by (simp_all add: record_event_def)

lemma report_status_simps [simp]:
  "am_store (report_status ok rid st d b m) = am_store m" "am_os (report_status ok rid st d b m) = am_os m"
  "am_trace (report_status ok rid st d b m) = am_trace m" "am_user (report_status ok rid st d b m) = am_user m"
  "am_was (report_status ok rid st d b m) = am_was m" "am_last (report_status ok rid st d b m) = am_last m"
  "am_durable (report_status ok rid st d b m) = am_durable m"
  by (simp_all add: report_status_def)

lemma emit_window_same [simp]:
  "am_os (emit_window sha e fin t m) = am_os m" "am_user (emit_window sha e fin t m) = am_user m"
  "am_was (emit_window sha e fin t m) = am_was m" "am_last (emit_window sha e fin t m) = am_last m"
  "am_durable (emit_window sha e fin t m) = am_durable m"
  by (auto simp: emit_window_def store_save_def Let_def split: prod.splits)

lemma emit_final_same [simp]:
  "am_store (emit_window sha e True t m) = am_store m" "am_trace (emit_window sha e True t m) = am_trace m"
  by (auto simp: emit_window_def Let_def split: prod.splits)

text \<open>An intermediate window touches the store only to advance the number and the digest of the base
  line it loaded.\<close>

lemma emit_store_cases:
  assumes "am_durable m" "am_store m = SOk s" "ss_rid s \<noteq> []" "we_load e"
  shows "(am_store (emit_window sha e fin t m) = SOk s \<and> am_trace (emit_window sha e fin t m) = am_trace m) \<or>
    (\<exists>n d. am_store (emit_window sha e fin t m) = SOk (s\<lparr>ss_seq := n, ss_digest := d\<rparr>) \<and>
       am_trace (emit_window sha e fin t m) = am_trace m @ [(SOk (s\<lparr>ss_seq := n, ss_digest := d\<rparr>), am_os m)])"
proof -
  have "load_baseline (we_load e) (m\<lparr>am_next := x\<rparr>) = (s, am_lost m)" for x
    using assms by (simp add: load_baseline_def store_load_def)
  then show ?thesis
    using assms(2) by (auto simp: emit_window_def Let_def store_save_def)
qed

lemma store_clear_simps [simp]:
  "am_os (store_clear ok m) = am_os m" "am_user (store_clear ok m) = am_user m"
  "am_last (store_clear ok m) = am_last m" "am_durable (store_clear ok m) = am_durable m"
  "am_was (store_clear ok m) = am_was m"
  by (simp_all add: store_clear_def)

subsection \<open>Nobody keeps rights the agent does not know of\<close>

text \<open>What holds of the file and the group for everybody but the users in \<open>H\<close>, for whom a call of the system failed.\<close>

definition safe_world :: "string set \<Rightarrow> string set \<Rightarrow> sfile \<times> string set \<Rightarrow> bool" where
  "safe_world native H w \<longleftrightarrow> native - H \<subseteq> snd w \<and>
     (\<forall>u \<in> snd w. u \<notin> native \<longrightarrow> u \<notin> H \<longrightarrow> (\<exists>s. fst w = SOk s \<and> ss_user s = u \<and> \<not> ss_was_admin s)) \<and>
     (\<forall>s. fst w = SOk s \<longrightarrow> ss_rid s \<noteq> [] \<and> ss_user s \<noteq> [] \<and> (ss_user s \<notin> H \<longrightarrow> (ss_was_admin s \<longleftrightarrow> ss_user s \<in> native)))"

definition coherent :: "string set \<Rightarrow> string set \<Rightarrow> am \<Rightarrow> bool" where
  "coherent native H m \<longleftrightarrow> am_durable m \<and> safe_world native H (am_store m, am_os m) \<and>
     list_all (safe_world native H) (am_trace m) \<and>
     (if am_user m = [] then am_os m - H = native - H
      else am_last m \<noteq> [] \<and> (\<exists>s. am_store m = SOk s \<and> ss_user s = am_user m \<and> (am_user m \<notin> H \<longrightarrow> ss_was_admin s = am_was m)))"

lemma safe_absent: "os - H = native - H \<Longrightarrow> safe_world native H (SAbsent, os)"
  by (auto simp: safe_world_def)

lemma safe_seq: "safe_world native H (SOk (s\<lparr>ss_seq := n, ss_digest := d\<rparr>), os) \<longleftrightarrow> safe_world native H (SOk s, os)"
  by (simp add: safe_world_def)

lemma safe_back: "safe_world native H (SOk s, os) \<Longrightarrow> os' - H = native - H \<Longrightarrow> safe_world native H (SOk s, os')"
  by (auto simp: safe_world_def)

lemma safe_mono: "H \<subseteq> H' \<Longrightarrow> safe_world native H w \<Longrightarrow> safe_world native H' w"
  by (auto simp: safe_world_def)

lemma coherent_mono: "H \<subseteq> H' \<Longrightarrow> coherent native H m \<Longrightarrow> coherent native H' m"
proof -
  assume H: "H \<subseteq> H'" and c: "coherent native H m"
  have "am_os m - H' = native - H'" if "am_os m - H = native - H" using H that by blast
  then show ?thesis using c safe_mono [OF H] subsetD [OF H] by (auto simp: coherent_def list_all_iff)
qed

text \<open>The session that a window saves in place of one that it could not read names the same user.\<close>

lemma emit_unread_cases:
  assumes "\<not> we_load e" "am_durable m" "am_store m = SOk s"
  shows "(am_store (emit_window sha e fin t m) = SOk s \<and> am_trace (emit_window sha e fin t m) = am_trace m) \<or>
    (\<exists>n d. am_store (emit_window sha e fin t m) = SOk (fallback_session m\<lparr>ss_seq := n, ss_digest := d\<rparr>) \<and>
       am_trace (emit_window sha e fin t m) = am_trace m @ [(SOk (fallback_session m\<lparr>ss_seq := n, ss_digest := d\<rparr>), am_os m)])"
proof -
  have "load_baseline (we_load e) (m\<lparr>am_next := x\<rparr>) = (fallback_session m, True)" for x
    using assms by (simp add: load_baseline_def store_load_def fallback_session_def)
  then show ?thesis using assms(3) by (auto simp: emit_window_def Let_def store_save_def)
qed

lemma emit_coherent:
  assumes c: "coherent native H m" and u: "am_user m \<noteq> []" and rd: "we_load e \<or> am_user m \<in> H"
  shows "coherent native H (emit_window sha e fin t m)"
proof -
  obtain s where s: "am_store m = SOk s" "ss_user s = am_user m" "am_user m \<notin> H \<longrightarrow> ss_was_admin s = am_was m" "ss_rid s \<noteq> []"
    "am_durable m" "safe_world native H (SOk s, am_os m)" "list_all (safe_world native H) (am_trace m)" "am_last m \<noteq> []"
    using c u by (auto simp: coherent_def safe_world_def)
  show ?thesis
  proof (cases "we_load e")
    case True
    from emit_store_cases [OF s(5) s(1) s(4) True, of sha fin t] show ?thesis
      using s(2,3,5-8) u by (auto simp: coherent_def safe_seq)
  next
    case False
    then have H: "am_user m \<in> H" using rd by simp
    have fb: "safe_world native H (SOk (fallback_session m\<lparr>ss_seq := n, ss_digest := d\<rparr>), am_os m)" for n d
      using s(2,6,8) H u by (auto simp: safe_world_def fallback_session_def)
    from emit_unread_cases [OF False s(5,1), of sha fin t] show ?thesis
      using s(2,3,5-8) u H fb by (auto simp: coherent_def fallback_session_def)
  qed
qed

text \<open>
  The users whom the failures of a tick touch: the removal of the rights returns an error and has no effect; an error of the
  grant that takes effect; the question whether the user is an administrator already returns an error or the wrong answer; the
  session file cannot be read when a window is due.  An outcome of a call that a tick does not make may be read as a success.
\<close>

definition harmed :: "string set \<Rightarrow> poll_env \<Rightarrow> am \<Rightarrow> string set" where
  "harmed native e m =
     (if re_os (pe_local e) = OsErr False \<or> re_os (pe_server e) = OsErr False then {am_user m} else {}) \<union>
     (if ge_member (pe_grant e) \<noteq> Some (fst (ge_console (pe_grant e)) \<in> native) \<or> ge_os (pe_grant e) = OsErr True then {fst (ge_console (pe_grant e))} else {}) \<union>
     (if we_load (pe_window e) then {} else {am_user m, fst (ge_console (pe_grant e))})"

text \<open>A tick without such a failure touches nobody.\<close>

definition calm :: "string set \<Rightarrow> poll_env \<Rightarrow> bool" where
  "calm native e \<longleftrightarrow> re_os (pe_local e) \<noteq> OsErr False \<and> re_os (pe_server e) \<noteq> OsErr False \<and>
     ge_member (pe_grant e) = Some (fst (ge_console (pe_grant e)) \<in> native) \<and> ge_os (pe_grant e) \<noteq> OsErr True \<and> we_load (pe_window e)"

lemma calm_harms_nobody: "calm native e \<Longrightarrow> harmed native e m = {}"
  by (simp add: calm_def harmed_def)

lemma os_revoke_coherent:
  assumes c: "coherent native H m" and u: "am_user m \<noteq> []" and r: "r \<noteq> OsErr False \<or> am_user m \<in> H"
  defines "m' \<equiv> if am_was m then m else os_revoke r (am_user m) m"
  shows "coherent native H m'" "am_os m' - H = native - H" "am_user m' = am_user m" "am_last m' = am_last m"
proof -
  obtain s where s: "am_store m = SOk s" "ss_user s = am_user m" "am_user m \<notin> H \<longrightarrow> ss_was_admin s = am_was m" "am_durable m"
    "safe_world native H (SOk s, am_os m)" "list_all (safe_world native H) (am_trace m)" "am_last m \<noteq> []"
    using c u by (auto simp: coherent_def)
  have others: "v \<in> native \<or> v = am_user m" if "v \<in> am_os m" "v \<notin> H" for v
    using that s(2,5) by (auto simp: safe_world_def)
  have own: "am_was m \<longleftrightarrow> am_user m \<in> native" if "am_user m \<notin> H"
    using that s(2,3,5) by (auto simp: safe_world_def)
  have nat: "native - H \<subseteq> am_os m" using s(5) by (simp add: safe_world_def)
  have after: "am_os m' = am_os m \<or> am_os m' = am_os m - {am_user m}" "am_user m \<notin> H \<Longrightarrow> \<not> am_was m \<Longrightarrow> am_os m' = am_os m - {am_user m}"
    using r by (auto simp: m'_def os_revoke_def)
  show os: "am_os m' - H = native - H"
  proof (cases "am_user m \<in> H")
    case True
    then show ?thesis using after(1) others nat by auto
  next
    case False
    then show ?thesis using after others nat own [OF False] by (cases "am_was m") (auto simp: m'_def)
  qed
  show "am_user m' = am_user m" "am_last m' = am_last m"
    by (auto simp: m'_def os_revoke_def)
  show "coherent native H m'"
    using s os u safe_back [OF s(5)] c by (auto simp: m'_def os_revoke_def coherent_def split: if_splits)
qed

lemma revoke_last [simp]: "am_last (revoke sha e rsn m) = am_last m"
  by (cases "re_os e = OsErr False") (auto simp: revoke_def Let_def os_revoke_def)

lemma revoke_user [simp]: "am_user (revoke sha e rsn m) = []"
  by (simp add: revoke_def Let_def)

lemma revoke_coherent:
  assumes c: "coherent native H m" and u: "am_user m \<noteq> []" and r: "re_os e \<noteq> OsErr False \<or> am_user m \<in> H"
  shows "coherent native H (revoke sha e rsn m)" "am_os (revoke sha e rsn m) - H = native - H"
proof -
  let ?m1 = "if am_was m then m else os_revoke (re_os e) (am_user m) m"
  note m1 = os_revoke_coherent [OF c u r]
  show os: "am_os (revoke sha e rsn m) - H = native - H"
    using m1(2) by (simp add: revoke_def Let_def)
  obtain s where "am_store ?m1 = SOk s" "safe_world native H (SOk s, am_os ?m1)" "am_durable ?m1"
      "list_all (safe_world native H) (am_trace ?m1)"
    using m1 u unfolding coherent_def by (metis (no_types, lifting))
  then show "coherent native H (revoke sha e rsn m)"
    using os safe_absent [OF m1(2)] by (auto simp: revoke_def Let_def coherent_def store_clear_def)
qed

lemma grant_coherent:
  assumes "coherent native H m" "am_user m = []" "rid \<noteq> []"
    and err: "ge_member e = Some (fst (ge_console e) \<in> native) \<and> ge_os e \<noteq> OsErr True \<or> fst (ge_console e) \<in> H"
  shows "coherent native H (grant e rid expires m)"
proof (cases "snd (ge_console e) \<and> fst (ge_console e) \<noteq> [] \<and> ge_save e")
  case False
  have "am_durable m" using assms(1) by (simp add: coherent_def)
  then have "grant e rid expires m = m \<or> grant e rid expires m = m\<lparr>am_latched := am_collect m\<rparr>"
    using False by (auto simp: grant_def Let_def store_save_def split: prod.splits)
  moreover have "coherent native H (m\<lparr>am_latched := am_collect m\<rparr>)" using assms(1) by (simp add: coherent_def)
  ultimately show ?thesis using assms(1) by auto
next
  case True
  let ?u = "fst (ge_console e)" and ?was = "case ge_member e of None \<Rightarrow> True | Some b \<Rightarrow> b"
  let ?s = "grant_session e rid expires ?u ?was (am_collect m)"
  have s: "ss_rid ?s = rid" "ss_user ?s = ?u" "ss_was_admin ?s = ?was"
    by (simp_all add: grant_session_def Let_def split: prod.splits)
  have m: "am_durable m" "am_os m - H = native - H" "list_all (safe_world native H) (am_trace m)"
    using assms(1,2) by (simp_all add: coherent_def)
  have eq: "v \<in> am_os m \<longleftrightarrow> v \<in> native" if "v \<notin> H" for v using that m(2) by blast
  have own: "?was \<longleftrightarrow> ?u \<in> native" if "?u \<notin> H" using that err by simp
  have w: "safe_world native H (SOk ?s, am_os m)" "safe_world native H (SOk ?s, insert ?u (am_os m))"
    using True s own assms(3) eq unfolding safe_world_def by auto
  have w2: "safe_world native H (SAbsent, am_os m)" "?u \<in> H \<Longrightarrow> safe_world native H (SAbsent, insert ?u (am_os m))"
    using m(2) by (auto intro!: safe_absent)
  have g: "grant e rid expires m = (case os_grant (ge_os e) ?u (put_world (SOk ?s) (am_os m) (m\<lparr>am_latched := am_collect m\<rparr>)\<lparr>am_lost := False\<rparr>) of
      (m3, False) \<Rightarrow> store_clear (ge_clear e) m3
    | (m3, True) \<Rightarrow> report_status (ge_report e) rid StApproved (AppliedOn ?u) (am_latched m3 \<and> \<not> am_lost m3)
        (m3\<lparr>am_user := ?u, am_expires := expires, am_was := ?was, am_last := rid, am_next := Some (ge_next_now e + am_interval m3)\<rparr>))"
    using True m(1) by (cases "ge_console e") (simp add: grant_def Let_def store_save_def)
  show ?thesis
  proof (cases "ge_os e")
    case OsDone
    then show ?thesis using True m w s assms(3) by (simp add: g os_grant_def coherent_def)
  next
    case (OsErr took)
    then have H: "took \<Longrightarrow> ?u \<in> H" using err by auto
    show ?thesis
    proof (cases took)
      case False
      then show ?thesis using OsErr m w(1) w2(1) assms(2) by (simp add: g os_grant_def coherent_def store_clear_def)
    next
      case True
      then have "insert ?u (am_os m) - H = native - H" using H m(2) by auto
      then show ?thesis using True OsErr m w w2(2) [OF H [OF True]] assms(2) by (simp add: g os_grant_def coherent_def store_clear_def)
    qed
  qed
qed

text \<open>The agent starts over a file that it can read, or cannot.\<close>

definition unread :: "bool \<Rightarrow> sfile \<Rightarrow> string set" where
  "unread rd f = (if rd then {} else (case f of SOk s \<Rightarrow> {ss_user s} | _ \<Rightarrow> {}))"

lemma restore_coherent:
  assumes w: "safe_world native H (f, os)" and rd: "unread rd f \<subseteq> H"
  shows "coherent native H (restore rd now (new_admin True f os))"
proof (cases f)
  case (SOk s)
  have s: "ss_rid s \<noteq> []" "ss_user s \<noteq> []" using w SOk by (auto simp: safe_world_def)
  show ?thesis
  proof (cases rd)
    case True
    then show ?thesis using SOk w s by (simp add: restore_def store_load_def new_admin_def coherent_def)
  next
    case False
    then have "ss_user s \<in> H" using rd SOk by (simp add: unread_def)
    then have "os - H = native - H" using w SOk by (auto simp: safe_world_def)
    then show ?thesis using SOk w False by (simp add: restore_def store_load_def new_admin_def coherent_def)
  qed
qed (use w in \<open>auto simp: restore_def store_load_def new_admin_def coherent_def safe_world_def\<close>)

lemma take_settings_simps [simp]:
  "coherent native H (take_settings r m) = coherent native H m" "am_user (take_settings r m) = am_user m"
  "am_last (take_settings r m) = am_last m" "am_os (take_settings r m) = am_os m"
  by (simp_all add: coherent_def take_settings_def)

lemma poll_local_coherent:
  assumes "coherent native H m" "re_os (pe_local e) \<noteq> OsErr False \<or> am_user m \<in> H"
  shows "coherent native H (poll_local sha e m)" "am_user (poll_local sha e m) = am_user m \<or> am_user (poll_local sha e m) = []"
  using assms by (auto simp: poll_local_def revoke_coherent)

lemma poll_confirm_coherent:
  assumes "coherent native H m" "re_os (pe_server e) \<noteq> OsErr False \<or> am_user m \<in> H \<or> am_user m = []"
  shows "coherent native H (poll_confirm sha e r m)" "am_user (poll_confirm sha e r m) = am_user m \<or> am_user (poll_confirm sha e r m) = []"
  using assms by (auto simp: poll_confirm_def revoke_coherent)

lemma poll_confirm_idle: "approved_now (pe_now2 e) r \<Longrightarrow> rp_rid r \<noteq> am_last (poll_confirm sha e r m) \<Longrightarrow>
    am_user (poll_confirm sha e r m) = []"
  by (auto simp: poll_confirm_def split: if_splits)

lemma grant_user: "am_user (grant e rid x m) = am_user m \<or> am_user (grant e rid x m) = fst (ge_console e)"
  by (auto simp: grant_def Let_def os_grant_def store_save_def split: prod.splits os_out.splits)

lemma poll_grant_coherent:
  assumes "coherent native H m" "ge_member (pe_grant e) = Some (fst (ge_console (pe_grant e)) \<in> native) \<and> ge_os (pe_grant e) \<noteq> OsErr True \<or> fst (ge_console (pe_grant e)) \<in> H"
    "approved_now (pe_now2 e) r \<Longrightarrow> rp_rid r \<noteq> am_last m \<Longrightarrow> am_user m = []"
  shows "coherent native H (poll_grant e r m)" "am_user (poll_grant e r m) = am_user m \<or> am_user (poll_grant e r m) = fst (ge_console (pe_grant e))"
proof -
  show "coherent native H (poll_grant e r m)"
    using assms(1,3) grant_coherent [OF assms(1) _ _ assms(2), of "rp_rid r" "resp_expires r"]
    by (auto simp: poll_grant_def approved_now_def)
  show "am_user (poll_grant e r m) = am_user m \<or> am_user (poll_grant e r m) = fst (ge_console (pe_grant e))"
    using grant_user by (simp add: poll_grant_def)
qed

lemma poll_window_coherent:
  "coherent native H m \<Longrightarrow> we_load (pe_window e) \<or> am_user m \<in> H \<or> am_user m = [] \<Longrightarrow> coherent native H (poll_window sha e m)"
  by (auto simp: poll_window_def emit_coherent split: option.split)

lemma poll_window_same [simp]: "am_user (poll_window sha e m) = am_user m" "am_last (poll_window sha e m) = am_last m"
    "am_os (poll_window sha e m) = am_os m"
  by (simp_all add: poll_window_def split: option.split)

text \<open>A tick keeps everybody in order but the users whom its failures touch.\<close>

lemma poll_coherent:
  assumes c: "coherent native H m" and H: "harmed native e m \<subseteq> H"
  shows "coherent native H (poll sha e m)"
proof -
  let ?l = "poll_local sha e m"
  have h: "re_os (pe_local e) \<noteq> OsErr False \<or> am_user m \<in> H" "re_os (pe_server e) \<noteq> OsErr False \<or> am_user m \<in> H"
    "ge_member (pe_grant e) = Some (fst (ge_console (pe_grant e)) \<in> native) \<and> ge_os (pe_grant e) \<noteq> OsErr True \<or> fst (ge_console (pe_grant e)) \<in> H"
    "we_load (pe_window e) \<or> am_user m \<in> H \<and> fst (ge_console (pe_grant e)) \<in> H"
    using H by (auto simp: harmed_def split: if_splits)
  note l = poll_local_coherent [OF c h(1), of sha]
  have "coherent native H (poll_server sha e r ?l)" for r
  proof -
    let ?c = "poll_confirm sha e r (take_settings r ?l)"
    have pre: "re_os (pe_server e) \<noteq> OsErr False \<or> am_user (take_settings r ?l) \<in> H \<or> am_user (take_settings r ?l) = []"
      using h(2) l(2) by auto
    note k = poll_confirm_coherent [where m = "take_settings r ?l", OF _ pre, of native sha r]
    have kc: "coherent native H ?c" using k(1) l(1) by simp
    note g = poll_grant_coherent [OF kc h(3) poll_confirm_idle]
    have "we_load (pe_window e) \<or> am_user (poll_grant e r ?c) \<in> H \<or> am_user (poll_grant e r ?c) = []"
      using g(2) [of r] k(2) l by (cases "am_user ?c = []") (use h(4) in auto)
    then show ?thesis unfolding poll_server_def using poll_window_coherent [OF g(1)] by blast
  qed
  then show ?thesis using l(1) by (simp add: poll_def Let_def split: option.split)
qed

subsection \<open>Runs with crashes\<close>

text \<open>The file and the group after each change of one tick, the state before it first.\<close>

definition worlds :: "(string \<Rightarrow> string) \<Rightarrow> poll_env \<Rightarrow> am \<Rightarrow> (sfile \<times> string set) list" where
  "worlds sha e m = am_trace (poll sha e (m\<lparr>am_trace := [(am_store m, am_os m)]\<rparr>))"

text \<open>The agent starts over an empty durable store, ticks, and may die after any change in the middle of a tick; then it starts
  again over what the change left, and may find the file unreadable.  \<open>H\<close> collects the users for whom a call failed.  Nobody else
  changes the group or the file.\<close>

inductive admin_run :: "(string \<Rightarrow> string) \<Rightarrow> string set \<Rightarrow> string set \<Rightarrow> am \<Rightarrow> bool" for sha native where
  first: "admin_run sha native {} (restore rd now (new_admin True SAbsent native))"
| tick: "admin_run sha native H m \<Longrightarrow> admin_run sha native (H \<union> harmed native e m) (poll sha e m)"
| crash: "admin_run sha native H m \<Longrightarrow> (f, os) \<in> set (worlds sha e m) \<Longrightarrow>
    admin_run sha native (H \<union> harmed native e m \<union> unread rd f) (restore rd now (new_admin True f os))"

lemma coherent_reset: "coherent native H m \<Longrightarrow> coherent native H (m\<lparr>am_trace := [(am_store m, am_os m)]\<rparr>)"
  by (simp add: coherent_def)

lemma worlds_safe:
  assumes "coherent native H m" and "w \<in> set (worlds sha e m)"
  shows "safe_world native (H \<union> harmed native e m) w"
proof -
  have c: "coherent native (H \<union> harmed native e m) (m\<lparr>am_trace := [(am_store m, am_os m)]\<rparr>)"
    by (rule coherent_reset, rule coherent_mono [OF Un_upper1 assms(1)])
  have "harmed native e (m\<lparr>am_trace := [(am_store m, am_os m)]\<rparr>) = harmed native e m" by (simp add: harmed_def)
  then have "coherent native (H \<union> harmed native e m) (poll sha e (m\<lparr>am_trace := [(am_store m, am_os m)]\<rparr>))"
    using poll_coherent [OF c, of e sha] by simp
  then show ?thesis using assms(2) by (auto simp: worlds_def coherent_def list_all_iff)
qed

lemma run_coherent: "admin_run sha native H m \<Longrightarrow> coherent native H m"
proof (induction rule: admin_run.induct)
  case (first rd now)
  then show ?case by (rule restore_coherent [OF safe_absent]) (simp_all add: unread_def)
next
  case (tick H m e)
  show ?case by (rule poll_coherent [OF coherent_mono [OF Un_upper1 tick.IH] Un_upper2])
next
  case (crash H m f os e rd now)
  show ?case by (rule restore_coherent [OF safe_mono [OF Un_upper1 worlds_safe [OF crash.IH crash.hyps(2)]] Un_upper2])
qed

text \<open>Claim C26.  With the durable store, and when nobody else changes the group or the file, temporary rights survive no crash
  unnoticed: at every moment at which a tick of a run can be cut off, every administrator was one before the agent came, or is named by the
  session file as somebody whose rights are to be taken away, and the agent that starts again over it and can read it knows; and
  nobody's own rights are touched.  Excepted are the users for whom a call failed, earlier in the run or in this tick: the removal of
  the rights returned an error, the grant returned an error and took effect, the question whether the user is an administrator
  returned an error or did not tell whether the user was one before the agent came, or the session file could not be read at a start or for
  a window.  A removal or grant that returns no error has been done.  If no call fails there is no exception (\<open>calm_harms_nobody\<close>).\<close>

theorem rights_never_orphaned:
  assumes "admin_run sha native H m" "(f, os) \<in> set (worlds sha e m)" "failed = H \<union> harmed native e m"
  shows "native - failed \<subseteq> os \<and> (\<forall>u \<in> os. u \<notin> native \<longrightarrow> u \<notin> failed \<longrightarrow>
    (\<exists>s. f = SOk s \<and> ss_user s = u \<and> \<not> ss_was_admin s \<and>
      am_user (restore True now (new_admin True f os)) = u \<and> \<not> am_was (restore True now (new_admin True f os))))"
proof -
  have w: "safe_world native failed (f, os)" unfolding assms(3) by (rule worlds_safe [OF run_coherent [OF assms(1)] assms(2)])
  then show ?thesis
    by (auto simp: safe_world_def restore_def store_load_def new_admin_def)
qed

lemma poll_local_ends:
  assumes "am_user m \<noteq> []" "snd (pe_console e) \<and> fst (pe_console e) \<noteq> am_user m \<or> passed (pe_now1 e) (am_expires m)"
  shows "am_user (poll_local sha e m) = []"
  using assms by (auto simp: poll_local_def)

lemma poll_server_idle:
  assumes "am_user m = []"
  shows "am_user (poll_server sha e r m) = [] \<or>
    (approved_now (pe_now2 e) r \<and> rp_rid r \<noteq> am_last m)"
  using assms by (auto simp: poll_server_def poll_grant_def poll_confirm_def)

lemma grant_last: "am_user (grant e rid x m) \<noteq> am_user m \<Longrightarrow> am_last (grant e rid x m) = rid"
  by (auto simp: grant_def Let_def os_grant_def store_save_def split: prod.splits os_out.splits if_splits)

lemma poll_server_new:
  assumes "am_user m = []" "am_user (poll_server sha e r m) \<noteq> []"
  shows "approved_now (pe_now2 e) r \<and> rp_rid r \<noteq> am_last m \<and> am_last (poll_server sha e r m) = rp_rid r"
  using assms grant_last [of "pe_grant e" "rp_rid r" "resp_expires r" "take_settings r m"]
  by (auto simp: poll_server_def poll_grant_def poll_confirm_def split: if_splits)

lemma poll_local_last [simp]: "am_last (poll_local sha e m) = am_last m"
  by (simp add: poll_local_def)

lemma poll_server_revoked:
  assumes "am_user m \<noteq> []" "\<not> approved_now (pe_now2 e) r \<or> rp_rid r \<noteq> am_last m"
  shows "am_user (poll_server sha e r m) = [] \<or> (approved_now (pe_now2 e) r \<and> rp_rid r \<noteq> am_last m \<and>
    am_last (poll_server sha e r m) = rp_rid r)"
  using assms grant_last [of "pe_grant e" "rp_rid r" "resp_expires r" "poll_confirm sha e r (take_settings r m)"]
  by (auto simp: poll_server_def poll_grant_def poll_confirm_def split: if_splits)

text \<open>Why a tick ends the session of \<open>m\<close>.\<close>

definition must_end :: "poll_env \<Rightarrow> am \<Rightarrow> bool" where
  "must_end e m \<longleftrightarrow> (snd (pe_console e) \<and> fst (pe_console e) \<noteq> am_user m) \<or> passed (pe_now1 e) (am_expires m) \<or>
     (case pe_resp e of None \<Rightarrow> False | Some r \<Rightarrow> \<not> approved_now (pe_now2 e) r \<or> rp_rid r \<noteq> am_last m)"

lemma poll_ends:
  assumes "admin_run sha native H m" "am_user m = [] \<or> must_end e m" "failed = H \<union> harmed native e m"
  shows "(am_user (poll sha e m) = [] \<and> am_os (poll sha e m) - failed = native - failed) \<or>
    (\<exists>r. pe_resp e = Some r \<and> approved_now (pe_now2 e) r \<and> rp_rid r \<noteq> am_last m \<and>
       am_last (poll sha e m) = rp_rid r)"
proof -
  let ?p = "poll sha e m" and ?l = "poll_local sha e m"
  have "coherent native failed ?p" unfolding assms(3)
    by (rule poll_coherent [OF coherent_mono [OF Un_upper1 run_coherent [OF assms(1)]] Un_upper2])
  then have os: "am_os ?p - failed = native - failed" if "am_user ?p = []"
    using that by (auto simp: coherent_def)
  have "am_user ?p = [] \<or> (\<exists>r. pe_resp e = Some r \<and> approved_now (pe_now2 e) r \<and> rp_rid r \<noteq> am_last m \<and>
       am_last ?p = rp_rid r)"
  proof (cases "am_user ?l = []")
    case True
    then show ?thesis using poll_server_new [of ?l sha e]
      by (auto simp: poll_def Let_def split: option.split)
  next
    case False
    then have l: "?l = m" "am_user m \<noteq> []" by (auto simp: poll_local_def split: if_splits)
    have "case pe_resp e of None \<Rightarrow> False | Some r \<Rightarrow> \<not> approved_now (pe_now2 e) r \<or> rp_rid r \<noteq> am_last m"
      using False assms(2) l(2) by (auto simp: must_end_def poll_local_def split: if_splits)
    then obtain r where "pe_resp e = Some r" "\<not> approved_now (pe_now2 e) r \<or> rp_rid r \<noteq> am_last m"
      by (auto split: option.splits)
    then show ?thesis using poll_server_revoked [OF l(2), of e r sha] l(1)
      by (simp add: poll_def Let_def)
  qed
  with os show ?thesis by blast
qed

text \<open>Claim C28.  Temporary rights end: a tick of a run at which another user is at the console, the term has passed or
  the server does not confirm the request ends the session and leaves exactly the original administrators, or it follows a
  new approved request; and without a session a tick never grants the last request again.  Excepted from the exact group
  are, as in C26, the users for whom a call failed, earlier in the run or in this tick: when the removal itself returns an error the
  session is over for the agent and the rights stay (\<open>failed_revoke_reported_revoked\<close>).\<close>

theorem rights_end:
  assumes "admin_run sha native H m" "am_user m = [] \<or> must_end e m" "failed = H \<union> harmed native e m"
  shows "(am_user (poll sha e m) = [] \<and> am_os (poll sha e m) - failed = native - failed) \<or>
    (\<exists>r. pe_resp e = Some r \<and> approved_now (pe_now2 e) r \<and> rp_rid r \<noteq> am_last m \<and>
       am_last (poll sha e m) = rp_rid r)"
  by (rule poll_ends [OF assms])

subsection \<open>The users for whom a call failed\<close>

text \<open>A removal that fails is forgotten: the user stays an administrator, the agent drops the
  session from memory and disk and tells the server that the rights are revoked.\<close>

theorem failed_revoke_reported_revoked:
  assumes "am_user m \<in> am_os m" "\<not> am_was m" "am_durable m" "re_os e = OsErr False" "re_clear e" "re_report e"
  shows "let m' = revoke sha e rsn m in
    am_user m \<in> am_os m' \<and> am_user m' = [] \<and> am_store m' = SAbsent \<and>
    (\<exists>r. last (am_events m') = Report r \<and> ar_rid r = am_last m \<and> ar_status r = StRevoked)"
  using assms by (simp add: revoke_def Let_def os_revoke_def store_clear_def report_status_def)

lemma emit_unreadable:
  assumes "am_latched m" "am_durable m" "\<not> we_load e" "am_store m \<noteq> SAbsent" "we_enqueue e" "we_save e"
  shows "\<exists>n d. am_store (emit_window sha e False None m) = SOk (fallback_session m\<lparr>ss_seq := n, ss_digest := d\<rparr>)"
proof -
  have fb: "fallback_session (m\<lparr>am_next := x\<rparr>) = fallback_session m" for x
    by (simp add: fallback_session_def)
  have lb: "load_baseline (we_load e) (m\<lparr>am_next := x\<rparr>) = (fallback_session m, True)" for x
    using assms by (cases "am_store m") (simp_all add: load_baseline_def store_load_def fb)
  have "ss_seq (fallback_session m) = 0" by (simp add: fallback_session_def)
  then have "emit_window sha e False None m = emit_window sha e False None m \<and>
      (\<exists>n d. am_store (emit_window sha e False None m) = SOk (fallback_session m\<lparr>ss_seq := n, ss_digest := d\<rparr>))"
    using assms unfolding emit_window_def Let_def lb prod.case window_sender_def store_save_def by auto
  then show ?thesis by blast
qed

text \<open>A failure to read the base line for an intermediate window costs an administrator the own
  rights: the window's number is saved into a substitute session that does not remember them, and after a
  restart the end of the session takes them away.\<close>

theorem unreadable_baseline_demotes:
  assumes "am_latched m" "am_durable m" "am_user m \<in> am_os m" "am_user m \<noteq> []" "am_last m \<noteq> []"
    "am_was m" "\<not> we_load e" "am_store m \<noteq> SAbsent" "we_enqueue e" "we_save e" "re_os d = OsDone"
  shows "let m1 = emit_window sha e False None m;
             m2 = restore True now (new_admin True (am_store m1) (am_os m1))
         in am_user m \<in> am_os m1 \<and> am_was m1 \<and> am_user m2 = am_user m \<and> \<not> am_was m2 \<and>
            am_user m \<notin> am_os (revoke sha d TermExpired m2)"
proof -
  obtain n d where "am_store (emit_window sha e False None m) = SOk (fallback_session m\<lparr>ss_seq := n, ss_digest := d\<rparr>)"
    using emit_unreadable [of m e sha] assms by blast
  then have "restore True now (new_admin True (am_store (emit_window sha e False None m)) (am_os m)) =
      (new_admin True (SOk (fallback_session m\<lparr>ss_seq := n, ss_digest := d\<rparr>)) (am_os m))\<lparr>am_user := am_user m,
        am_expires := am_expires m, am_was := False, am_last := am_last m, am_latched := False, am_lost := False,
        am_next := Some (now + default_window_interval)\<rparr>"
    using assms(5) by (simp add: restore_def store_load_def new_admin_def fallback_session_def)
  then show ?thesis using assms
    by (simp add: Let_def revoke_def os_revoke_def new_admin_def)
qed

subsection \<open>Concrete runs\<close>

definition a_window_env :: window_env where
  "a_window_env = \<lparr>we_end_now = 0, we_now = 0, we_load = True, we_software = [], we_services = ([], health_ok_s),
     we_boot = 0, we_orders = \<lparr>mo_soft_after = [], mo_soft_before = [], mo_svc_after = [], mo_svc_before = []\<rparr>,
     we_enqueue = True, we_dial = False, we_ack = None, we_save = True\<rparr>"

definition a_revoke_env :: revoke_env where
  "a_revoke_env = \<lparr>re_os = OsDone, re_window = a_window_env, re_clear = True, re_report = True\<rparr>"

definition a_grant_env :: grant_env where
  "a_grant_env = \<lparr>ge_console = (''alice'', True), ge_member = Some False, ge_now = 0, ge_boot = 0, ge_software = [],
     ge_services = ([], health_ok_s), ge_save = True, ge_os = OsDone, ge_clear = True, ge_next_now = 0, ge_report = True\<rparr>"

definition an_approval :: admin_resp where
  "an_approval = \<lparr>rp_status = StApproved, rp_rid = ''r1'', rp_expires = 0, rp_collect = False, rp_interval = 0\<rparr>"

definition a_poll :: "string \<Rightarrow> admin_resp option \<Rightarrow> poll_env" where
  "a_poll u r = \<lparr>pe_console = (u, True), pe_now1 = 0, pe_local = a_revoke_env, pe_resp = r, pe_now2 = 0,
     pe_server = a_revoke_env, pe_grant = a_grant_env, pe_now3 = 0, pe_window = a_window_env\<rparr>"

definition a_start :: am where
  "a_start = restore True 0 (new_admin True SAbsent {''root''})"

definition a_granted :: am where
  "a_granted = poll (\<lambda>s. s) (a_poll ''alice'' (Some an_approval)) a_start"

lemma a_poll_calm: "harmed {''root''} (a_poll u r) m = {}"
  by (rule calm_harms_nobody) (simp add: calm_def a_poll_def a_revoke_env_def a_window_env_def a_grant_env_def)

lemma a_start_run: "admin_run (\<lambda>s. s) {''root''} {} a_start"
  unfolding a_start_def by (rule admin_run.first)

lemma a_granted_run: "admin_run (\<lambda>s. s) {''root''} {} a_granted"
  unfolding a_granted_def using admin_run.tick [OF a_start_run, of "a_poll ''alice'' (Some an_approval)"] by (simp add: a_poll_calm)

theorem rights_never_orphaned_witness:
  "let w = last (worlds (\<lambda>s. s) (a_poll ''alice'' (Some an_approval)) a_start) in
   ''alice'' \<in> snd w \<and> am_user (restore True 0 (new_admin True (fst w) (snd w))) = ''alice'' \<and> ''root'' \<in> snd w"
proof -
  let ?ws = "worlds (\<lambda>s. s) (a_poll ''alice'' (Some an_approval)) a_start"
  have n: "?ws \<noteq> [] \<and> ''alice'' \<in> snd (last ?ws)" by code_simp
  then have "(fst (last ?ws), snd (last ?ws)) \<in> set ?ws" by simp
  note r = rights_never_orphaned [OF a_start_run this refl, where now = 0, unfolded a_poll_calm Un_empty_right Diff_empty]
  have "''alice'' \<notin> {''root''}" by simp
  then have "am_user (restore True 0 (new_admin True (fst (last ?ws)) (snd (last ?ws)))) = ''alice''"
    using r n by fast
  moreover have "''root'' \<in> snd (last ?ws)" using r by fast
  ultimately show ?thesis using n unfolding Let_def by (intro conjI) simp_all
qed

text \<open>The removal of Alice's rights ends her session; if it fails her rights are the only ones left over.\<close>

theorem rights_end_witness:
  "am_user a_granted = ''alice'' \<and> am_os (poll (\<lambda>s. s) (a_poll ''bob'' None) a_granted) = {''root''} \<and>
   am_os (poll (\<lambda>s. s) ((a_poll ''bob'' None)\<lparr>pe_local := a_revoke_env\<lparr>re_os := OsErr False\<rparr>\<rparr>) a_granted) - {''alice''} = {''root''}"
proof -
  have m: "am_user a_granted = ''alice''" by code_simp
  let ?bad = "(a_poll ''bob'' None)\<lparr>pe_local := a_revoke_env\<lparr>re_os := OsErr False\<rparr>\<rparr>"
  have e: "must_end (a_poll ''bob'' None) a_granted" "must_end ?bad a_granted" using m by (simp_all add: must_end_def a_poll_def)
  have h: "{} \<union> harmed {''root''} ?bad a_granted = {''alice''}"
    using m by (simp add: harmed_def a_poll_def a_revoke_env_def a_grant_env_def a_window_env_def)
  have "am_os (poll (\<lambda>s. s) (a_poll ''bob'' None) a_granted) = {''root''}"
    using rights_end [OF a_granted_run disjI2 [OF e(1)] refl] by (auto simp: a_poll_calm) (simp_all add: a_poll_def)
  moreover have "am_os (poll (\<lambda>s. s) ?bad a_granted) - {''alice''} = {''root''}"
    using rights_end [OF a_granted_run disjI2 [OF e(2)] h [symmetric]] by (auto simp: a_poll_def)
  ultimately show ?thesis using m by blast
qed

lemma failed_revoke_reported_revoked_witness:
  "let m' = revoke (\<lambda>s. s) (a_revoke_env\<lparr>re_os := OsErr False\<rparr>) UserLeft a_granted in
   ''alice'' \<in> am_os m' \<and> am_user m' = [] \<and> am_store m' = SAbsent"
proof -
  have "am_user a_granted = ''alice''" "am_user a_granted \<in> am_os a_granted" "\<not> am_was a_granted" "am_durable a_granted"
    by code_simp+
  then show ?thesis
    using failed_revoke_reported_revoked [of a_granted "a_revoke_env\<lparr>re_os := OsErr False\<rparr>" "\<lambda>s. s" UserLeft]
    by (simp add: a_revoke_env_def Let_def)
qed

definition root_session :: am where
  "root_session = (new_admin True SBad {''root''})\<lparr>am_user := ''root'', am_was := True, am_last := ''r1'', am_latched := True\<rparr>"

lemma unreadable_baseline_demotes_witness:
  "let m1 = emit_window (\<lambda>s. s) (a_window_env\<lparr>we_load := False\<rparr>) False None root_session;
       m2 = restore True 0 (new_admin True (am_store m1) (am_os m1))
   in ''root'' \<in> am_os m1 \<and> ''root'' \<notin> am_os (revoke (\<lambda>s. s) a_revoke_env TermExpired m2)"
  using unreadable_baseline_demotes [of root_session "a_window_env\<lparr>we_load := False\<rparr>" a_revoke_env "\<lambda>s. s" 0]
  by (simp add: root_session_def new_admin_def a_window_env_def a_revoke_env_def Let_def)

end
