(* ===== verification/ScriptOutput.thy ===== *)
theory ScriptOutput
  imports Prelude
begin

section \<open>The output of scripts\<close>

text \<open>
  Model of \<open>internal/agent/scriptenc/scriptenc.go\<close> and of what its callers do with the output of a
  process: \<open>runScript\<close> in \<open>internal/agent/command/run.go\<close> and \<open>defaultExec\<close> in
  \<open>internal/agent/scripts/runner.go\<close>.  A Go string is the list of its bytes.  UTF-8 and
  \<open>strings.ToValidUTF8\<close> are written out from the language's definition.  An index out of
  range is a panic of the agent and is \<open>None\<close> here.
\<close>

subsection \<open>UTF-8\<close>

definition byte :: "char \<Rightarrow> nat" where "byte c = of_char c"

definition utf8_text :: "nat list \<Rightarrow> string" where "utf8_text bs = map char_of bs"

definition is_cont :: "char \<Rightarrow> bool" where
  "is_cont c \<longleftrightarrow> 128 \<le> byte c \<and> byte c \<le> 191"

text \<open>\<open>utf8.RuneStart\<close>, and the width of the rune at the head; 0 when there is no valid one.\<close>

definition rune_start :: "char \<Rightarrow> bool" where
  "rune_start c \<longleftrightarrow> \<not> is_cont c"

text \<open>What may follow a leading byte: the range of the next byte, and the number of continuation bytes.\<close>

definition lead :: "nat \<Rightarrow> (nat \<times> nat \<times> nat) option" where
  "lead n =
     (if n < 128 then Some (0, 255, 0)
      else if 194 \<le> n \<and> n \<le> 223 then Some (128, 191, 1)
      else if n = 224 then Some (160, 191, 2)
      else if n = 237 then Some (128, 159, 2)
      else if 225 \<le> n \<and> n \<le> 239 then Some (128, 191, 2)
      else if n = 240 then Some (144, 191, 3)
      else if 241 \<le> n \<and> n \<le> 243 then Some (128, 191, 3)
      else if n = 244 then Some (128, 143, 3)
      else None)"

definition cont_from :: "nat \<Rightarrow> nat \<Rightarrow> string \<Rightarrow> nat \<Rightarrow> bool" where
  "cont_from lo hi s k \<longleftrightarrow> k \<le> length s \<and> (k = 0 \<or> lo \<le> byte (hd s) \<and> byte (hd s) \<le> hi) \<and>
     list_all is_cont (take k s)"

fun rune_len :: "string \<Rightarrow> nat" where
  "rune_len [] = 0"
| "rune_len (c # s) = (case lead (byte c) of
     None \<Rightarrow> 0
   | Some (lo, hi, k) \<Rightarrow> if cont_from lo hi s k then Suc k else 0)"

function valid_utf8 :: "string \<Rightarrow> bool" where
  "valid_utf8 [] = True"
| "valid_utf8 (c # s) = (rune_len (c # s) \<noteq> 0 \<and> valid_utf8 (drop (rune_len (c # s) - 1) s))"
  by pat_completeness auto
termination by (relation "measure length") auto

definition utf8_replacement :: string where
  "utf8_replacement = utf8_text [239, 191, 189]"

text \<open>\<open>strings.ToValidUTF8\<close>: each run of invalid bytes becomes one replacement; the flag is whether
  the bytes just before were invalid.\<close>

function to_valid :: "bool \<Rightarrow> string \<Rightarrow> string" where
  "to_valid bad [] = []"
| "to_valid bad (c # s) =
     (if rune_len (c # s) = 0 then (if bad then to_valid True s else utf8_replacement @ to_valid True s)
      else take (rune_len (c # s)) (c # s) @ to_valid False (drop (rune_len (c # s) - 1) s))"
  by pat_completeness auto
termination by (relation "measure (length \<circ> snd)") (auto simp del: rune_len.simps)

definition sanitize_utf8 :: "string \<Rightarrow> string" where
  "sanitize_utf8 s = to_valid False s"

subsection \<open>Bounding the output\<close>

definition max_output_bytes :: int where "max_output_bytes = 262144"
definition capture_cap :: int where "capture_cap = max_output_bytes + 4096"
definition note_reserve :: int where "note_reserve = 128"

text \<open>The fixed parts of the note \<open>truncateTo\<close> appends, as bytes.\<close>

definition note_a :: string where
  "note_a = utf8_text
     [10, 10, 91, 208, 178, 209, 139, 208, 178, 208, 190, 208, 180, 32, 208, 190, 208, 177, 209,
     128, 208, 181, 208, 183, 208, 176, 208, 189, 58, 32, 208, 191, 208, 190, 208, 186, 208, 176,
     208, 183, 208, 176, 208, 189, 208, 190, 32]"
definition note_b :: string where
  "note_b = utf8_text
     [44, 32, 208, 190, 209, 130, 208, 177, 209, 128, 208, 190, 209, 136, 208, 181, 208, 189, 208,
     190, 32, 126]"
definition note_c :: string where
  "note_c = utf8_text
     [32, 208, 184, 208, 183, 32, 126]"
definition note_d :: string where
  "note_d = utf8_text
     [32, 208, 177, 208, 176, 208, 185, 209, 130, 93]"

definition cut_note :: "int \<Rightarrow> int \<Rightarrow> string" where
  "cut_note shown tot = note_a @ dec_int shown @ note_b @ dec_int (tot - shown) @ note_c @ dec_int tot @ note_d"

text \<open>The loop that moves the cut back to the start of a rune; it indexes the string at the cut.\<close>

fun back_to_start :: "string \<Rightarrow> nat \<Rightarrow> nat option" where
  "back_to_start s 0 = Some 0"
| "back_to_start s (Suc n) =
     (if length s \<le> Suc n then None
      else if rune_start (s ! Suc n) then Some (Suc n) else back_to_start s n)"

definition truncate_to :: "string \<Rightarrow> int \<Rightarrow> int \<Rightarrow> string option" where
  "truncate_to s mx tot =
     (let cut0 = (if int (length s) < mx then int (length s) else mx)
      in case back_to_start s (nat cut0) of
           None \<Rightarrow> None
         | Some c \<Rightarrow> Some (take c s @ cut_note (int c) (if tot < int c then int c else tot)))"

definition truncate_total :: "string \<Rightarrow> int \<Rightarrow> string option" where
  "truncate_total s tot =
     (if int (length s) \<le> max_output_bytes \<and> tot \<le> int (length s) then Some s
      else truncate_to s max_output_bytes tot)"

definition truncate_output :: "string \<Rightarrow> string option" where
  "truncate_output s = truncate_total s (int (length s))"

definition append_note :: "string \<Rightarrow> string \<Rightarrow> string option" where
  "append_note s note =
     (let suf = CHR 0x0A # note
      in if int (length s) + int (length suf) \<le> max_output_bytes then Some (s @ suf)
         else (let k = max_output_bytes - int (length suf) - note_reserve;
                   keep = (if k < 0 then 0 else k)
               in map_option (\<lambda>t. t @ suf) (truncate_to s keep (int (length s)))))"

text \<open>\<open>CaptureBuffer\<close>.\<close>

record capture =
  cb_buf :: string
  cb_total :: int

definition empty_capture :: capture where "empty_capture = \<lparr>cb_buf = [], cb_total = 0\<rparr>"

definition capture_write :: "capture \<Rightarrow> string \<Rightarrow> capture \<times> int" where
  "capture_write c p =
     (let room = capture_cap - int (length (cb_buf c));
          buf = (if 0 < room then (if room < int (length p) then cb_buf c @ take (nat room) p else cb_buf c @ p)
                 else cb_buf c)
      in (\<lparr>cb_buf = buf, cb_total = cb_total c + int (length p)\<rparr>, int (length p)))"

definition capture_all :: "string list \<Rightarrow> capture" where
  "capture_all ps = foldl (\<lambda>c p. fst (capture_write c p)) empty_capture ps"

subsection \<open>The two callers\<close>

definition wait_delay_note :: string where
  "wait_delay_note = utf8_text
     [91, 208, 191, 208, 176, 208, 185, 208, 191, 209, 139, 32, 208, 178, 209, 139, 208, 178, 208,
     190, 208, 180, 208, 176, 32, 208, 183, 208, 176, 208, 186, 209, 128, 209, 139, 209, 130, 209,
     139, 32, 208, 191, 209, 128, 208, 184, 208, 189, 209, 131, 208, 180, 208, 184, 209, 130, 208,
     181, 208, 187, 209, 140, 208, 189, 208, 190, 32, 40, 87, 97, 105, 116, 68, 101, 108, 97, 121,
     41, 58, 32, 209, 132, 208, 190, 208, 189, 208, 190, 208, 178, 209, 139, 208, 181, 32, 208, 191,
     208, 190, 209, 130, 208, 190, 208, 188, 208, 186, 208, 184, 44, 32, 208, 191, 208, 184, 209,
     136, 209, 131, 209, 137, 208, 184, 208, 181, 32, 208, 178, 32, 209, 131, 208, 189, 208, 176,
     209, 129, 208, 187, 208, 181, 208, 180, 208, 190, 208, 178, 208, 176, 208, 189, 208, 189, 209,
     139, 208, 185, 32, 115, 116, 100, 111, 117, 116, 47, 115, 116, 100, 101, 114, 114, 44, 32, 208,
     177, 209, 131, 208, 180, 209, 131, 209, 130, 32, 208, 191, 209, 128, 208, 181, 209, 128, 208,
     178, 208, 176, 208, 189, 209, 139, 32, 208, 189, 208, 176, 32, 209, 129, 208, 187, 208, 181,
     208, 180, 209, 131, 209, 142, 209, 137, 208, 181, 208, 185, 32, 208, 183, 208, 176, 208, 191,
     208, 184, 209, 129, 208, 184, 59, 32, 208, 184, 209, 133, 32, 208, 178, 209, 139, 208, 178,
     208, 190, 208, 180, 32, 208, 189, 208, 181, 32, 208, 183, 208, 176, 209, 133, 208, 178, 208,
     176, 209, 135, 208, 181, 208, 189, 93]"
definition timeout_note :: string where
  "timeout_note = utf8_text
     [91, 208, 191, 209, 128, 208, 181, 209, 128, 208, 178, 208, 176, 208, 189, 208, 190, 32, 208,
     191, 208, 190, 32, 209, 130, 208, 176, 208, 185, 208, 188, 208, 176, 209, 131, 209, 130, 209,
     131, 93]"
definition launch_failed_note :: string where
  "launch_failed_note = utf8_text
     [91, 208, 190, 209, 136, 208, 184, 208, 177, 208, 186, 208, 176, 32, 208, 183, 208, 176, 208,
     191, 209, 131, 209, 129, 208, 186, 208, 176, 58, 32]"

text \<open>What \<open>cmd.Run\<close> returned: success, success with pipes closed by force, an exit code, or
  another error with its text.  \<open>expired\<close> is whether the context's deadline passed.\<close>

datatype run_err = RunOk | WaitDelayExpired | ExitCode int | RunFailed string

text \<open>\<open>runScript\<close>: stdout, stderr, and whether an error is left.\<close>

definition finish_script :: "run_err \<Rightarrow> capture \<Rightarrow> capture \<Rightarrow> (string \<times> string \<times> run_err) option" where
  "finish_script e out err =
     (case truncate_total (sanitize_utf8 (cb_buf out)) (cb_total out) of None \<Rightarrow> None
      | Some so \<Rightarrow> (case truncate_total (sanitize_utf8 (cb_buf err)) (cb_total err) of None \<Rightarrow> None
      | Some se \<Rightarrow> if e = WaitDelayExpired then map_option (\<lambda>so'. (so', se, RunOk)) (append_note so wait_delay_note)
                    else Some (so, se, e)))"

record exec_result =
  er_code :: int
  er_stdout :: string
  er_stderr :: string

text \<open>\<open>defaultExec\<close> after the process.\<close>

definition finish_exec :: "bool \<Rightarrow> run_err \<Rightarrow> capture \<Rightarrow> capture \<Rightarrow> exec_result option" where
  "finish_exec expired e out err =
     (case truncate_total (sanitize_utf8 (cb_buf out)) (cb_total out) of None \<Rightarrow> None
      | Some so \<Rightarrow> (case truncate_total (sanitize_utf8 (cb_buf err)) (cb_total err) of None \<Rightarrow> None
      | Some se \<Rightarrow> (case e of
            RunOk \<Rightarrow> Some \<lparr>er_code = 0, er_stdout = so, er_stderr = se\<rparr>
          | WaitDelayExpired \<Rightarrow>
              map_option (\<lambda>s. \<lparr>er_code = 0, er_stdout = so, er_stderr = s\<rparr>) (append_note se wait_delay_note)
          | ExitCode c \<Rightarrow>
              if expired then map_option (\<lambda>s. \<lparr>er_code = -1, er_stdout = so, er_stderr = s\<rparr>) (append_note se timeout_note)
              else Some \<lparr>er_code = c, er_stdout = so, er_stderr = se\<rparr>
          | RunFailed t \<Rightarrow>
              map_option (\<lambda>s. \<lparr>er_code = -1, er_stdout = so, er_stderr = s\<rparr>)
                (append_note se (if expired then timeout_note else launch_failed_note @ t @ '']'')))))"

text \<open>\<open>interpreterCommand\<close>; the empty program name stands for an unknown interpreter.\<close>

definition ps_utf8_prefix :: string where
  "ps_utf8_prefix = ''[Console]::OutputEncoding=[System.Text.Encoding]::UTF8; '' @
     ''$OutputEncoding=[System.Text.Encoding]::UTF8; ''"

definition interpreter_command :: "bool \<Rightarrow> string \<Rightarrow> string \<Rightarrow> string \<times> string list" where
  "interpreter_command windows interp content =
     (if interp \<in> {[], ''shell'', ''sh''} then (''sh'', [''-c'', content])
      else if interp = ''bash'' then (''bash'', [''-c'', content])
      else if interp \<in> {''python'', ''python3''} then (''python3'', [''-c'', content])
      else if interp \<in> {''powershell'', ''pwsh''} then
        (if windows then ''powershell'' else ''pwsh'',
         [''-NonInteractive'', ''-NoProfile'', ''-Command'', ps_utf8_prefix @ content])
      else ([], []))"

subsection \<open>Facts about UTF-8\<close>

lemma byte_less [simp]: "byte c < 256"
  by (simp add: byte_def)

lemma byte_char_of [simp]: "byte (char_of n) = n mod 256"
  by (simp add: byte_def)

lemma cont_from_append: "cont_from lo hi s k \<Longrightarrow> cont_from lo hi (s @ t) k"
  by (cases "s = []") (auto simp: cont_from_def hd_append)

lemma cont_from_take: "cont_from lo hi s k \<Longrightarrow> k \<le> m \<Longrightarrow> cont_from lo hi (take m s) k"
  by (cases "m = 0") (auto simp: cont_from_def min_def)

lemma cont_from_nth: "cont_from lo hi s k \<Longrightarrow> j < k \<Longrightarrow> is_cont (s ! j)"
  by (auto simp: cont_from_def list_all_length)

lemma rune_len_le: "rune_len s \<le> length s"
  by (cases s) (auto simp: cont_from_def split: option.split)

lemma rune_len_append: "rune_len s \<noteq> 0 \<Longrightarrow> rune_len (s @ t) = rune_len s"
  by (cases s) (auto simp: cont_from_append split: option.splits if_splits)

lemma rune_len_cont: "0 < k \<Longrightarrow> k < rune_len s \<Longrightarrow> is_cont (s ! k)"
  by (cases s) (auto simp: nth_Cons' cont_from_nth split: option.splits if_splits)

lemma rune_len_take: "rune_len s \<noteq> 0 \<Longrightarrow> rune_len s \<le> m \<Longrightarrow> rune_len (take m s) = rune_len s"
  by (cases s; cases m) (auto simp: cont_from_take split: option.splits if_splits)

lemma valid_step: "s \<noteq> [] \<Longrightarrow> valid_utf8 s \<longleftrightarrow> rune_len s \<noteq> 0 \<and> valid_utf8 (drop (rune_len s) s)"
  by (cases s) (auto simp: drop_Cons' simp del: rune_len.simps)

lemma valid_append: "valid_utf8 a \<Longrightarrow> valid_utf8 b \<Longrightarrow> valid_utf8 (a @ b)"
proof (induction a rule: length_induct)
  case (1 a)
  show ?case
  proof (cases "a = []")
    case False
    then have a: "rune_len a \<noteq> 0" "valid_utf8 (drop (rune_len a) a)" using 1 by (simp_all add: valid_step)
    have "valid_utf8 (drop (rune_len a) a @ b)" using 1 a False by simp
    then show ?thesis using False a rune_len_le [of a] by (simp add: valid_step rune_len_append)
  qed (use 1 in simp)
qed

text \<open>A position of a valid string where a rune starts cuts it into valid parts.\<close>

lemma valid_take:
  assumes "valid_utf8 s" "k = 0 \<or> k < length s \<and> rune_start (s ! k)"
  shows "valid_utf8 (take k s)"
  using assms
proof (induction s arbitrary: k rule: length_induct)
  case (1 s)
  show ?case
  proof (cases "k = 0")
    case False
    then have s: "k < length s" "rune_start (s ! k)" "s \<noteq> []" using 1 by auto
    then have r: "rune_len s \<noteq> 0" "valid_utf8 (drop (rune_len s) s)" using 1 by (simp_all add: valid_step)
    have ge: "rune_len s \<le> k"
      using rune_len_cont [of k s] False s(2) by (meson not_gr0 not_le rune_start_def)
    let ?d = "drop (rune_len s) s" and ?j = "k - rune_len s"
    have "valid_utf8 (take ?j ?d)"
      using 1 r s ge rune_len_le [of s] by (auto simp: rune_start_def)
    moreover have "drop (rune_len (take k s)) (take k s) = take ?j ?d"
      using r ge by (simp add: rune_len_take drop_take)
    moreover have "take k s \<noteq> []" using False s by auto
    ultimately show ?thesis using r ge valid_step [of "take k s"] by (simp add: rune_len_take)
  qed simp
qed

lemma valid_ascii: "list_all (\<lambda>c. byte c < 128) s \<Longrightarrow> valid_utf8 s"
  by (induction s) (auto simp: lead_def cont_from_def)

lemma digit_ascii: "is_digit c \<Longrightarrow> byte c < 128"
  by (simp add: is_digit_def byte_def Let_def)

lemma valid_dec_int [simp]: "valid_utf8 (dec_int i)"
proof (rule valid_ascii)
  have "list_all (\<lambda>c. byte c < 128) (dec n)" for n
    using dec_digits [of n] digit_ascii by (auto simp: list_all_iff)
  then show "list_all (\<lambda>c. byte c < 128) (dec_int i)" by (auto simp: dec_int_def byte_def)
qed

lemma valid_text:
  "valid_utf8 (utf8_text [])"
  "n < 128 \<Longrightarrow> valid_utf8 (utf8_text (n # s)) = valid_utf8 (utf8_text s)"
  "194 \<le> n \<Longrightarrow> n \<le> 223 \<Longrightarrow> 128 \<le> c \<Longrightarrow> c \<le> 191 \<Longrightarrow> valid_utf8 (utf8_text (n # c # s)) = valid_utf8 (utf8_text s)"
  by (simp_all add: utf8_text_def lead_def cont_from_def is_cont_def numeral_2_eq_2)

lemma valid_consts [simp]: "valid_utf8 note_a" "valid_utf8 note_b" "valid_utf8 note_c" "valid_utf8 note_d"
    "valid_utf8 wait_delay_note" "valid_utf8 timeout_note" "valid_utf8 launch_failed_note"
  by (simp_all only: note_a_def note_b_def note_c_def note_d_def wait_delay_note_def timeout_note_def
      launch_failed_note_def) (simp_all add: valid_text)

lemma valid_replacement [simp]: "valid_utf8 utf8_replacement"
  by (simp add: utf8_replacement_def utf8_text_def lead_def cont_from_def is_cont_def)

lemma note_lengths [simp]: "length note_a = 47" "length note_b = 22" "length note_c = 7" "length note_d = 10"
    "length wait_delay_note = 277" "length timeout_note = 40" "length launch_failed_note = 30"
    "length utf8_replacement = 3"
  by (simp_all add: note_a_def note_b_def note_c_def note_d_def wait_delay_note_def timeout_note_def
      launch_failed_note_def utf8_text_def utf8_replacement_def)

lemma valid_cut_note [simp]: "valid_utf8 (cut_note shown tot)"
  by (simp add: cut_note_def valid_append)

lemma valid_to_valid: "valid_utf8 (to_valid bad s)"
proof (induction bad s rule: to_valid.induct)
  case (2 bad c s)
  let ?n = "rune_len (c # s)"
  show ?case
  proof (cases "?n = 0")
    case True
    then show ?thesis using 2 by (auto simp: valid_append simp del: rune_len.simps)
  next
    case False
    have "take ?n (c # s) \<noteq> []" using False by (cases ?n) simp_all
    then have "valid_utf8 (take ?n (c # s))"
      using False rune_len_take [OF False order_refl] by (simp add: valid_step [of "take ?n (c # s)"] del: rune_len.simps)
    then show ?thesis using 2(3) False by (simp add: valid_append del: rune_len.simps)
  qed
qed simp

lemma to_valid_id: "valid_utf8 s \<Longrightarrow> to_valid bad s = s"
proof (induction bad s rule: to_valid.induct)
  case (2 bad c s)
  let ?n = "rune_len (c # s)"
  have n: "?n \<noteq> 0" "valid_utf8 (drop (?n - 1) s)" using 2(4) by (simp_all del: rune_len.simps)
  have "take ?n (c # s) @ drop (?n - 1) s = c # s"
    using n(1) by (cases ?n) (simp_all del: rune_len.simps)
  then show ?case using 2(3) n by (simp del: rune_len.simps)
qed simp

subsection \<open>Cutting\<close>

lemma back_to_start_Some:
  "back_to_start s n = Some k \<Longrightarrow> k \<le> n \<and> (k = 0 \<or> k < length s \<and> rune_start (s ! k))"
  by (induction n) (auto split: if_splits)

lemma back_to_start_inside: "n < length s \<Longrightarrow> back_to_start s n \<noteq> None"
  by (induction n) auto

lemma truncate_to_panics: "0 \<le> mx \<Longrightarrow> truncate_to s mx tot = None \<longleftrightarrow> s \<noteq> [] \<and> int (length s) \<le> mx"
proof (cases "int (length s) \<le> mx")
  case True
  then have "nat (if int (length s) < mx then int (length s) else mx) = length s" by auto
  moreover have "back_to_start s (length s) = None \<longleftrightarrow> s \<noteq> []" by (cases s) auto
  ultimately show ?thesis using True by (auto simp: truncate_to_def Let_def split: option.split)
next
  case False
  assume "0 \<le> mx"
  with False have "nat mx < length s" by auto
  with False show ?thesis using back_to_start_inside [of "nat mx" s]
    by (auto simp: truncate_to_def Let_def split: option.split)
qed

lemma truncate_to_Some:
  assumes "truncate_to s mx tot = Some t" "0 \<le> mx"
  shows "\<exists>k. int k \<le> mx \<and> k \<le> length s \<and> t = take k s @ cut_note (int k) (if tot < int k then int k else tot) \<and>
    (k = 0 \<or> k < length s \<and> rune_start (s ! k))"
proof -
  let ?c = "if int (length s) < mx then int (length s) else mx"
  obtain k where k: "back_to_start s (nat ?c) = Some k"
    and t: "t = take k s @ cut_note (int k) (if tot < int k then int k else tot)"
    using assms(1) by (auto simp: truncate_to_def Let_def split: option.splits)
  have "k \<le> nat ?c" "k = 0 \<or> k < length s \<and> rune_start (s ! k)" using back_to_start_Some [OF k] by auto
  moreover have "nat ?c \<le> length s" "int (nat ?c) \<le> mx" using assms(2) by auto
  ultimately have "int k \<le> mx" "k \<le> length s" "k = 0 \<or> k < length s \<and> rune_start (s ! k)" by linarith+
  with t show ?thesis by blast
qed

lemma length_dec_int: "0 \<le> i \<Longrightarrow> i < 10 ^ w \<Longrightarrow> 0 < w \<Longrightarrow> length (dec_int i) \<le> w"
proof -
  assume i: "0 \<le> i" "i < 10 ^ w" "0 < w"
  then have "nat i < 10 ^ w" by (simp add: nat_less_iff)
  then show ?thesis using i length_dec_le [of "nat i" w] by (simp add: dec_int_def)
qed

lemma length_cut_note:
  assumes "0 \<le> k" "k \<le> max_output_bytes" "k \<le> tot" "tot < 10 ^ 18"
  shows "length (cut_note k tot) \<le> 128"
proof -
  have "length (dec_int k) \<le> 6" using assms by (intro length_dec_int) (simp_all add: max_output_bytes_def)
  moreover have "length (dec_int tot) \<le> 18" using assms by (intro length_dec_int) simp_all
  moreover have "length (dec_int (tot - k)) \<le> 18" using assms by (intro length_dec_int) simp_all
  ultimately show ?thesis by (simp add: cut_note_def)
qed

lemma truncate_to_ok:
  assumes "truncate_to s mx tot = Some t" "0 \<le> mx" "mx \<le> max_output_bytes" "tot < 10 ^ 18"
  shows "int (length t) \<le> mx + 128 \<and> (valid_utf8 s \<longrightarrow> valid_utf8 t)"
proof -
  obtain k where k: "int k \<le> mx" "k \<le> length s" "t = take k s @ cut_note (int k) (if tot < int k then int k else tot)"
    "k = 0 \<or> k < length s \<and> rune_start (s ! k)"
    using truncate_to_Some [OF assms(1,2)] by blast
  have "length (cut_note (int k) (if tot < int k then int k else tot)) \<le> 128"
    using k(1) assms(3,4) by (intro length_cut_note) (auto simp: max_output_bytes_def)
  then show ?thesis using k valid_take [OF _ k(4)] by (auto simp: valid_append)
qed

lemma append_note_ok:
  assumes "valid_utf8 s" "valid_utf8 note" "int (length note) + 1 + note_reserve \<le> max_output_bytes"
    "int (length s) < 10 ^ 18"
  shows "\<exists>r. append_note s note = Some r \<and> suffix note r \<and> int (length r) \<le> max_output_bytes \<and> valid_utf8 r"
proof (cases "int (length s) + int (length (CHR 0x0A # note)) \<le> max_output_bytes")
  case True
  have "valid_utf8 (CHR 0x0A # note)" using assms(2) by (simp add: lead_def cont_from_def byte_def)
  then have "valid_utf8 (s @ CHR 0x0A # note)" using assms(1) valid_append by blast
  then show ?thesis using True by (auto simp: append_note_def Let_def suffix_def)
next
  case False
  let ?k = "max_output_bytes - int (length (CHR 0x0A # note)) - note_reserve"
  have k: "0 \<le> ?k" "?k \<le> max_output_bytes" "?k < int (length s)"
    using False assms(3) by (simp_all add: note_reserve_def)
  then obtain t where t: "truncate_to s ?k (int (length s)) = Some t"
    using truncate_to_panics [of ?k s "int (length s)"] by fastforce
  have r: "append_note s note = Some (t @ CHR 0x0A # note)"
    using False k(1) t by (simp add: append_note_def Let_def)
  have "int (length t) \<le> ?k + 128 \<and> valid_utf8 t"
    using truncate_to_ok [OF t k(1,2) assms(4)] assms(1) by simp
  moreover have "valid_utf8 (CHR 0x0A # note)" using assms(2) by (simp add: lead_def cont_from_def byte_def)
  ultimately show ?thesis using r by (auto simp: valid_append note_reserve_def suffix_def)
qed

text \<open>A note appended to an output always survives at its end: the result exists, fits into the
  bound together with the note, and stays valid UTF-8.\<close>

theorem append_note_survives:
  assumes "valid_utf8 s" "valid_utf8 note" "int (length note) + 1 + note_reserve \<le> max_output_bytes"
    "int (length s) < 10 ^ 18"
  shows "\<exists>r. append_note s note = Some r \<and> suffix note r \<and> int (length r) \<le> max_output_bytes \<and> valid_utf8 r"
  using append_note_ok [OF assms] .

lemma truncate_total_ok:
  assumes "truncate_total s tot = Some t" "tot < 10 ^ 18"
  shows "int (length t) \<le> max_output_bytes + 128 \<and> (valid_utf8 s \<longrightarrow> valid_utf8 t)"
  using assms truncate_to_ok [of s max_output_bytes tot t]
  by (auto simp: truncate_total_def max_output_bytes_def split: if_splits)

lemma append_note_fits:
  assumes "append_note s note = Some r" "valid_utf8 s" "valid_utf8 note" "length note \<le> 8000"
    "int (length s) \<le> max_output_bytes + 128"
  shows "int (length r) \<le> max_output_bytes + 128 \<and> valid_utf8 r"
  using append_note_ok [OF assms(2,3)] assms by (auto simp: max_output_bytes_def note_reserve_def)

lemma capture_all_snoc: "capture_all (ps @ [p]) = fst (capture_write (capture_all ps) p)"
  by (simp add: capture_all_def)

lemma capture_spec:
  "cb_total (capture_all ps) = int (length (concat ps)) \<and> cb_buf (capture_all ps) = take (nat capture_cap) (concat ps)"
proof (induction ps rule: rev_induct)
  case Nil
  then show ?case by (simp add: capture_all_def empty_capture_def)
next
  case (snoc p ps)
  let ?cap = "nat capture_cap"
  have "capture_cap = int ?cap" by (simp add: capture_cap_def max_output_bytes_def)
  then show ?case using snoc
    by (auto simp: capture_all_snoc capture_write_def Let_def nat_diff_distrib' min_def)
qed

text \<open>Claim C38.  What the agent sends about a script is valid UTF-8 and bounded, whatever bytes the script
  wrote and however many.\<close>

theorem script_report_fits:
  assumes "finish_exec expired e (capture_all ps) (capture_all qs) = Some r"
    "int (length (concat ps)) < 10 ^ 18" "int (length (concat qs)) < 10 ^ 18"
    "case e of RunFailed t \<Rightarrow> valid_utf8 t \<and> length t \<le> 4096 | _ \<Rightarrow> True"
  shows "valid_utf8 (er_stdout r) \<and> int (length (er_stdout r)) \<le> max_output_bytes + 128 \<and>
    valid_utf8 (er_stderr r) \<and> int (length (er_stderr r)) \<le> max_output_bytes + 128"
proof -
  obtain so se where so: "truncate_total (sanitize_utf8 (cb_buf (capture_all ps))) (cb_total (capture_all ps)) = Some so"
    and se: "truncate_total (sanitize_utf8 (cb_buf (capture_all qs))) (cb_total (capture_all qs)) = Some se"
    using assms(1) by (auto simp: finish_exec_def split: option.splits)
  have s: "valid_utf8 so \<and> int (length so) \<le> max_output_bytes + 128" "valid_utf8 se \<and> int (length se) \<le> max_output_bytes + 128"
    using truncate_total_ok [OF so] truncate_total_ok [OF se] assms(2,3) capture_spec [of ps] capture_spec [of qs]
      valid_to_valid unfolding sanitize_utf8_def by simp_all
  let ?n = "\<lambda>t. if expired then timeout_note else launch_failed_note @ t @ '']''"
  have n: "valid_utf8 (?n t) \<and> length (?n t) \<le> 8000" if "valid_utf8 t" "length t \<le> 4096" for t
    using that by (auto intro!: valid_append simp: lead_def cont_from_def byte_def)
  show ?thesis
  proof (cases e)
    case (RunFailed t)
    then show ?thesis using assms(1,4) s so se append_note_fits [of se "?n t"] n [of t]
      by (auto simp: finish_exec_def split del: if_split)
  qed (use assms(1) s so se append_note_fits [of se wait_delay_note] append_note_fits [of se timeout_note] in
      \<open>auto simp: finish_exec_def split: if_splits\<close>)
qed

subsection \<open>A panic\<close>

lemma truncate_total_panics:
  "truncate_total s tot = None \<longleftrightarrow> s \<noteq> [] \<and> int (length s) \<le> max_output_bytes \<and> int (length s) < tot"
  using truncate_to_panics [of max_output_bytes s tot] by (auto simp: truncate_total_def max_output_bytes_def)

lemma no_rune: "list_all (\<lambda>c. 192 \<le> byte c) s \<Longrightarrow> rune_len s = 0"
proof (cases s)
  case (Cons c r)
  assume "list_all (\<lambda>c. 192 \<le> byte c) s"
  then have c: "192 \<le> byte c" "r \<noteq> [] \<Longrightarrow> 192 \<le> byte (hd r)" using Cons by (cases r; auto)+
  have "\<not> cont_from lo hi r (Suc k)" for lo hi k
    using c(2) by (cases r) (auto simp: cont_from_def is_cont_def)
  then have "lead (byte c) = Some (lo, hi, k) \<Longrightarrow> \<not> cont_from lo hi r k" for lo hi k
    using c(1) by (cases k) (auto simp: lead_def split: if_splits)
  then show ?thesis using Cons by (auto split: option.split)
qed simp

lemma to_valid_lead_bytes:
  "list_all (\<lambda>c. 192 \<le> byte c) s \<Longrightarrow> to_valid bad s = (if bad \<or> s = [] then [] else utf8_replacement)"
proof (induction s arbitrary: bad)
  case (Cons c s)
  then show ?case using no_rune [OF Cons.prems] by (simp del: rune_len.simps)
qed simp

text \<open>An output in a legacy code page brings the agent down: Cyrillic text of code page 1251, any
  four or more bytes of it in one run, shrinks to one replacement character, the size of the raw output is
  then above the length of the text, and the cut indexes the text at its end.\<close>

theorem legacy_output_panics:
  assumes "list_all (\<lambda>c. 192 \<le> byte c) (concat ps)" "4 \<le> length (concat ps)"
  shows "finish_script e (capture_all ps) err = None \<and> finish_exec expired e (capture_all ps) err = None"
proof -
  let ?raw = "concat ps"
  have buf: "cb_buf (capture_all ps) = take (nat capture_cap) ?raw" "cb_total (capture_all ps) = int (length ?raw)"
    using capture_spec [of ps] by simp_all
  have "list_all (\<lambda>c. 192 \<le> byte c) (take (nat capture_cap) ?raw)" "take (nat capture_cap) ?raw \<noteq> []"
    using assms set_take_subset [of "nat capture_cap" ?raw] unfolding list_all_iff
    by (blast, cases ?raw) (simp_all add: capture_cap_def max_output_bytes_def)
  then have "sanitize_utf8 (cb_buf (capture_all ps)) = utf8_replacement"
    unfolding sanitize_utf8_def buf by (simp only: to_valid_lead_bytes simp_thms if_False)
  moreover have "utf8_replacement \<noteq> []" by (simp add: utf8_replacement_def utf8_text_def)
  ultimately have "truncate_total (sanitize_utf8 (cb_buf (capture_all ps))) (cb_total (capture_all ps)) = None"
    using assms(2) by (simp add: truncate_total_panics buf max_output_bytes_def)
  then show ?thesis by (simp add: finish_script_def finish_exec_def)
qed

text \<open>The real size that \<open>truncateTotal\<close> puts into its note does not survive a second note: the
  first one is cut away, and the new one counts the shortened text.\<close>

lemma honest_total_lost:
  assumes "truncate_total s tot = Some t" "max_output_bytes < int (length t)" "append_note t wait_delay_note = Some r"
  shows "\<exists>k. r = take k t @ cut_note (int k) (int (length t)) @ CHR 0x0A # wait_delay_note \<and>
    int k \<le> max_output_bytes - 278 - note_reserve"
proof -
  let ?k = "max_output_bytes - 278 - note_reserve"
  obtain t' where t': "truncate_to t ?k (int (length t)) = Some t'" "r = t' @ CHR 0x0A # wait_delay_note"
    using assms(2,3) by (auto simp: append_note_def Let_def max_output_bytes_def note_reserve_def)
  from truncate_to_Some [OF t'(1)] obtain k where "int k \<le> ?k" "k \<le> length t"
      "t' = take k t @ cut_note (int k) (int (length t))"
    by (auto simp: max_output_bytes_def note_reserve_def split: if_splits)
  then show ?thesis using t'(2) by auto
qed

subsection \<open>Concrete runs\<close>

lemma append_note_survives_witness:
  "\<exists>r. append_note ''done'' wait_delay_note = Some r \<and> suffix wait_delay_note r"
  using append_note_survives [of "''done''" wait_delay_note]
  by (auto simp: max_output_bytes_def note_reserve_def lead_def cont_from_def byte_def)

text \<open>The word of six letters that a Russian Windows prints for \<open>hello\<close>, in its own code page.\<close>

definition cp1251_word :: string where
  "cp1251_word = utf8_text [207, 240, 232, 226, 229, 242]"

lemma legacy_output_panics_witness:
  "finish_exec False RunOk (capture_all [cp1251_word]) empty_capture = None"
  using legacy_output_panics [of "[cp1251_word]" RunOk empty_capture False]
  by (simp add: cp1251_word_def utf8_text_def)

lemma script_report_fits_witness:
  "\<exists>r. finish_exec False (ExitCode 1) (capture_all [''out'']) (capture_all [[char_of (207::nat)]]) = Some r \<and>
     er_code r = 1 \<and> valid_utf8 (er_stderr r)"
proof -
  have "finish_exec False (ExitCode 1) (capture_all [''out'']) (capture_all [[char_of (207::nat)]]) =
      Some \<lparr>er_code = 1, er_stdout = ''out'', er_stderr = utf8_replacement\<rparr>"
    by code_simp
  then show ?thesis using script_report_fits [of False "ExitCode 1" "[''out'']" "[[char_of (207::nat)]]"] by auto
qed

end
