(* ===== verification/Scripts.thy ===== *)
theory Scripts
  imports SeenSet ScriptOutput
begin

section \<open>Script policies\<close>

text \<open>
  Model of \<open>internal/agent/scripts/manager.go\<close>, \<open>runner.go\<close> and \<open>events.go\<close>: the set of
  policies the server wants, their runs by schedule, by an event of the system and on connect, and the
  result of a run.  \<open>sm\<close> is the manager with the goroutines it started; a method is one function, and where it gives the
  mutex up on its way the steps between are a relation of their own (\<open>sm_run\<close>).  The cron library is the parameter \<open>cron_ok\<close> (does it accept the
  expression) and the choice of which entry fires; the append to the file of keys has its outcome as an
  argument.
\<close>

subsection \<open>Policies\<close>

datatype trigger = NoTrigger | Schedule | OnEvent | OnConnect
datatype os_event = NoEvent | Login | Logout | NetworkChange

record script_policy =
  sp_id :: string
  sp_name :: string
  sp_interp :: string
  sp_content :: string
  sp_trigger :: trigger
  sp_event :: os_event
  sp_cron :: string
  sp_timeout :: int
  sp_updated :: int

record sm =
  sm_version :: int
  sm_policies :: "script_policy list"
  sm_cron :: "string list"
  sm_ready :: bool
  sm_pending :: bool
  sm_running :: "string set"
  sm_dedup :: seen
  sm_active :: "string list"
  sm_launched :: "(script_policy \<times> trigger) list"

definition new_scripts :: "seen \<Rightarrow> sm" where
  "new_scripts d = \<lparr>sm_version = 0, sm_policies = [], sm_cron = [], sm_ready = False, sm_pending = False,
     sm_running = {}, sm_dedup = d, sm_active = [], sm_launched = []\<rparr>"

subsection \<open>Operations\<close>

text \<open>\<open>launch\<close>, and the end of the goroutine it starts.\<close>

definition launch :: "script_policy \<Rightarrow> trigger \<Rightarrow> sm \<Rightarrow> sm" where
  "launch p t m =
     (if sp_id p \<in> sm_running m then m
      else m\<lparr>sm_running := insert (sp_id p) (sm_running m), sm_active := sp_id p # sm_active m,
             sm_launched := sm_launched m @ [(p, t)]\<rparr>)"

definition run_ended :: "string \<Rightarrow> sm \<Rightarrow> sm" where
  "run_ended pid m = m\<lparr>sm_running := sm_running m - {pid}, sm_active := remove1 pid (sm_active m)\<rparr>"

definition policies_for :: "trigger \<Rightarrow> os_event \<Rightarrow> sm \<Rightarrow> script_policy list" where
  "policies_for t e m =
     filter (\<lambda>p. sp_trigger p = t \<and> (t = OnEvent \<longrightarrow> sp_event p = e)) (sm_policies m)"

definition run_key :: "script_policy \<Rightarrow> string" where
  "run_key p = sp_id p @ ''@'' @ dec_int (sp_updated p)"

fun connect_loop :: "bool \<Rightarrow> script_policy list \<Rightarrow> sm \<Rightarrow> sm" where
  "connect_loop ok [] m = m"
| "connect_loop ok (p # ps) m =
     (let (d, new) = dedup_mark_if_new ok (sm_dedup m) (run_key p);
          m1 = m\<lparr>sm_dedup := d\<rparr>
      in connect_loop ok ps (if new then launch p OnConnect m1 else m1))"

definition on_connect :: "bool \<Rightarrow> sm \<Rightarrow> sm" where
  "on_connect ok m =
     (if \<not> sm_ready m then m\<lparr>sm_pending := True\<rparr>
      else connect_loop ok (policies_for OnConnect NoEvent m) m)"

definition on_event :: "os_event \<Rightarrow> sm \<Rightarrow> sm" where
  "on_event e m = foldl (\<lambda>m p. launch p OnEvent m) m (policies_for OnEvent e m)"

definition run_by_id :: "string \<Rightarrow> trigger \<Rightarrow> sm \<Rightarrow> sm" where
  "run_by_id pid t m = (case find (\<lambda>p. sp_id p = pid) (sm_policies m) of
     None \<Rightarrow> m | Some p \<Rightarrow> launch p t m)"

text \<open>\<open>apply\<close>: the cron entries are those of the new scheduled policies whose expression is accepted.\<close>

definition apply_policies :: "(string \<Rightarrow> bool) \<Rightarrow> script_policy list \<Rightarrow> int \<Rightarrow> sm \<Rightarrow> sm" where
  "apply_policies cron_ok ps v m = m\<lparr>sm_policies := ps, sm_version := v,
     sm_cron := map sp_id (filter (\<lambda>p. sp_trigger p = Schedule \<and> cron_ok (sp_cron p)) ps)\<rparr>"

record policies_resp =
  pr_unchanged :: bool
  pr_version :: int
  pr_policies :: "script_policy list"

definition poll_policies :: "(string \<Rightarrow> bool) \<Rightarrow> (int \<Rightarrow> policies_resp option) \<Rightarrow> sm \<Rightarrow> sm" where
  "poll_policies cron_ok fetch m = (case fetch (sm_version m) of
     None \<Rightarrow> m
   | Some r \<Rightarrow> if pr_unchanged r \<or> pr_version r = sm_version m then m
       else apply_policies cron_ok (pr_policies r) (pr_version r) m)"

text \<open>The start of \<open>Run\<close>: a first poll, then the connect that came too early.\<close>

definition start_scripts :: "(string \<Rightarrow> bool) \<Rightarrow> (int \<Rightarrow> policies_resp option) \<Rightarrow> bool \<Rightarrow> sm \<Rightarrow> sm" where
  "start_scripts cron_ok fetch ok m =
     (let m1 = poll_policies cron_ok fetch m;
          m2 = m1\<lparr>sm_ready := True, sm_pending := False\<rparr>
      in if sm_pending m1 then on_connect ok m2 else m2)"

subsection \<open>One run\<close>

record script_result =
  sr_policy :: string
  sr_run :: string
  sr_code :: int
  sr_stdout :: string
  sr_stderr :: string
  sr_started :: unixtime
  sr_finished :: unixtime
  sr_trigger :: trigger

definition default_timeout :: nanos where "default_timeout = 5 * minute"

definition run_timeout :: "script_policy \<Rightarrow> nanos" where
  "run_timeout p = (if 0 < sp_timeout p then sp_timeout p * second else default_timeout)"

definition unknown_interpreter_note :: string where
  "unknown_interpreter_note = utf8_text
     [208, 189, 208, 181, 208, 184, 208, 183, 208, 178, 208, 181, 209, 129, 209, 130, 208, 189, 209, 139,
     208, 185, 32, 208, 184, 208, 189, 209, 130, 208, 181, 209, 128, 208, 191, 209, 128, 208, 181, 209,
     130, 208, 176, 209, 130, 208, 190, 209, 128, 58, 32]"

text \<open>\<open>proc\<close> is the process: given the command line and the timeout, whether the deadline passed, how it
  ended and what it wrote.  \<open>enq\<close> is the queue's answer.\<close>

definition default_exec :: "bool \<Rightarrow> (string \<times> string list \<Rightarrow> bool \<times> run_err \<times> string list \<times> string list) \<Rightarrow>
    string \<Rightarrow> string \<Rightarrow> exec_result option" where
  "default_exec windows proc interp content =
     (let cmd = interpreter_command windows interp content
      in if fst cmd = [] then Some \<lparr>er_code = -1, er_stdout = [], er_stderr = unknown_interpreter_note @ interp\<rparr>
         else (let (expired, e, ps, qs) = proc cmd in finish_exec expired e (capture_all ps) (capture_all qs)))"

definition run_policy :: "bool \<Rightarrow> (string \<times> string list \<Rightarrow> bool \<times> run_err \<times> string list \<times> string list) \<Rightarrow>
    string \<Rightarrow> unixtime \<Rightarrow> unixtime \<Rightarrow> script_policy \<Rightarrow> trigger \<Rightarrow> script_result option" where
  "run_policy windows proc rid started finished p t =
     map_option (\<lambda>r. \<lparr>sr_policy = sp_id p, sr_run = rid, sr_code = er_code r, sr_stdout = er_stdout r,
         sr_stderr = er_stderr r, sr_started = started, sr_finished = finished, sr_trigger = t\<rparr>)
       (default_exec windows proc (sp_interp p) (sp_content p))"

subsection \<open>Events of the system\<close>

record watcher =
  ew_user :: string
  ew_ip :: string

definition watch_poll :: "string \<Rightarrow> string \<Rightarrow> watcher \<Rightarrow> watcher \<times> os_event list" where
  "watch_poll u ip w =
     (let e1 = (if u \<noteq> ew_user w then (if ew_user w \<noteq> [] then [Logout] else []) @ (if u \<noteq> [] then [Login] else []) else []);
          e2 = (if ip \<noteq> ew_ip w then [NetworkChange] else [])
      in (\<lparr>ew_user = u, ew_ip = ip\<rparr>, e1 @ e2))"

fun watch_run :: "(string \<times> string) list \<Rightarrow> watcher \<Rightarrow> watcher \<times> os_event list" where
  "watch_run [] w = (w, [])"
| "watch_run ((u, ip) # os) w =
     (let (w1, es) = watch_poll u ip w; (w2, fs) = watch_run os w1 in (w2, es @ fs))"

text \<open>Logins and logouts balance: the surplus of logins is the user at the console now over the one at
  the start.\<close>

definition present :: "watcher \<Rightarrow> nat" where "present w = (if ew_user w = [] then 0 else 1)"

lemma watch_balance:
  "watch_run os w = (w', es) \<Longrightarrow> count_list es Login + present w = count_list es Logout + present w'"
proof (induction os arbitrary: w es)
  case (Cons o1 os)
  obtain u ip where o1: "o1 = (u, ip)" by force
  obtain w1 e1 where p: "watch_poll u ip w = (w1, e1)" by force
  obtain w2 e2 where r: "watch_run os w1 = (w2, e2)" by force
  have "count_list e1 Login + present w = count_list e1 Logout + present w1"
    using p by (auto simp: watch_poll_def Let_def present_def)
  then show ?case using Cons.IH [of w1 e2] Cons.prems o1 p r by auto
qed simp

subsection \<open>Runs do not overlap, and a connect runs a version once\<close>

text \<open>
  The mutex is free between the policies of a connect, of an event or of a run by schedule, and between the mark of a version and its
  launch, so that polls, ends of runs and other walks come in between.  A walk is such a loop on its way: before it takes
  its snapshot, with the policies left, or with a version marked and not yet launched.
\<close>

datatype walk = Snap trigger os_event | Walk trigger "script_policy list" | Marked script_policy "script_policy list"

fun walk_step :: "bool \<Rightarrow> walk \<Rightarrow> sm \<Rightarrow> walk list \<times> sm" where
  "walk_step ok (Snap t e) m = ([Walk t (policies_for t e m)], m)"
| "walk_step ok (Walk t []) m = ([], m)"
| "walk_step ok (Walk t (p # ps)) m =
     (if t = OnConnect
      then (let (d, new) = dedup_mark_if_new ok (sm_dedup m) (run_key p)
            in ([if new then Marked p ps else Walk t ps], m\<lparr>sm_dedup := d\<rparr>))
      else ([Walk t ps], launch p t m))"
| "walk_step ok (Marked p ps) m = ([Walk OnConnect ps], launch p OnConnect m)"

inductive sm_run :: "(string \<Rightarrow> bool) \<Rightarrow> seen \<Rightarrow> walk list \<Rightarrow> sm \<Rightarrow> bool" for cron_ok d where
  fresh: "sm_run cron_ok d [] (new_scripts d)"
| polled: "sm_run cron_ok d ws m \<Longrightarrow> sm_run cron_ok d ws (poll_policies cron_ok fetch m)"
| ready: "sm_run cron_ok d ws m \<Longrightarrow>
    sm_run cron_ok d (ws @ (if sm_pending m then [Snap OnConnect NoEvent] else [])) (m\<lparr>sm_ready := True, sm_pending := False\<rparr>)"
| early: "sm_run cron_ok d ws m \<Longrightarrow> \<not> sm_ready m \<Longrightarrow> sm_run cron_ok d ws (m\<lparr>sm_pending := True\<rparr>)"
| connect: "sm_run cron_ok d ws m \<Longrightarrow> sm_ready m \<Longrightarrow> sm_run cron_ok d (ws @ [Snap OnConnect NoEvent]) m"
| event: "sm_run cron_ok d ws m \<Longrightarrow> sm_run cron_ok d (ws @ [Snap OnEvent e]) m"
| fire: "sm_run cron_ok d ws m \<Longrightarrow> pid \<in> set (sm_cron m) \<Longrightarrow> find (\<lambda>p. sp_id p = pid) (sm_policies m) = Some p \<Longrightarrow>
    sm_run cron_ok d (ws @ [Walk Schedule [p]]) m"
| walk: "sm_run cron_ok d (us @ w # vs) m \<Longrightarrow> walk_step ok w m = (ws, m') \<Longrightarrow> sm_run cron_ok d (us @ ws @ vs) m'"
| ended: "sm_run cron_ok d ws m \<Longrightarrow> pid \<in> set (sm_active m) \<Longrightarrow> sm_run cron_ok d ws (run_ended pid m)"

text \<open>A loop that nothing interrupts is one of the methods above.\<close>

lemma walk_connect: "sm_run cron_ok d (us @ [Walk OnConnect ps]) m \<Longrightarrow> sm_run cron_ok d us (connect_loop ok ps m)"
proof (induction ps arbitrary: m)
  case Nil
  then show ?case using sm_run.walk [of cron_ok d us "Walk OnConnect []" "[]" m ok] by simp
next
  case (Cons p ps)
  obtain k new where k: "dedup_mark_if_new ok (sm_dedup m) (run_key p) = (k, new)" by force
  have mark: "sm_run cron_ok d (us @ [if new then Marked p ps else Walk OnConnect ps]) (m\<lparr>sm_dedup := k\<rparr>)"
    using sm_run.walk [of cron_ok d us "Walk OnConnect (p # ps)" "[]" m ok] Cons.prems k by simp
  show ?case
  proof (cases new)
    case True
    then have "sm_run cron_ok d (us @ [Walk OnConnect ps]) (launch p OnConnect (m\<lparr>sm_dedup := k\<rparr>))"
      using sm_run.walk [of cron_ok d us "Marked p ps" "[]" "m\<lparr>sm_dedup := k\<rparr>" ok] mark by simp
    then show ?thesis using Cons.IH k True by simp
  next
    case False
    then show ?thesis using Cons.IH mark k by simp
  qed
qed

lemma walk_others:
  "t \<noteq> OnConnect \<Longrightarrow> sm_run cron_ok d (us @ [Walk t ps]) m \<Longrightarrow> sm_run cron_ok d us (foldl (\<lambda>m p. launch p t m) m ps)"
proof (induction ps arbitrary: m)
  case Nil
  then show ?case using sm_run.walk [of cron_ok d us "Walk t []" "[]" m ok] by simp
next
  case (Cons p ps)
  then show ?case using sm_run.walk [of cron_ok d us "Walk t (p # ps)" "[]" m ok] by simp
qed

lemma walk_snap: "sm_run cron_ok d (us @ [Snap t e]) m \<Longrightarrow> sm_run cron_ok d (us @ [Walk t (policies_for t e m)]) m"
  using sm_run.walk [of cron_ok d us "Snap t e" "[]" m ok] by simp

lemma methods_run:
  assumes "sm_run cron_ok d ws m"
  shows "sm_run cron_ok d ws (on_connect ok m)" "sm_run cron_ok d ws (on_event e m)" "sm_run cron_ok d ws (start_scripts cron_ok fetch ok m)"
    "pid \<in> set (sm_cron m) \<Longrightarrow> sm_run cron_ok d ws (run_by_id pid Schedule m)"
proof -
  have connect: "sm_run cron_ok d ws (on_connect ok n)" if "sm_run cron_ok d ws n" for n
    using walk_connect [OF walk_snap [OF sm_run.connect [OF that]]] sm_run.early [OF that] by (simp add: on_connect_def)
  show "sm_run cron_ok d ws (on_connect ok m)" by (rule connect [OF assms])
  show "sm_run cron_ok d ws (on_event e m)"
    using walk_others [OF _ walk_snap [OF sm_run.event [OF assms, of e]]] by (simp add: on_event_def)
  show "sm_run cron_ok d ws (run_by_id pid Schedule m)" if "pid \<in> set (sm_cron m)"
    using walk_others [OF _ sm_run.fire [OF assms that]] assms by (auto simp: run_by_id_def split: option.split)
  let ?p = "poll_policies cron_ok fetch m"
  let ?r = "?p\<lparr>sm_ready := True, sm_pending := False\<rparr>"
  have r: "sm_run cron_ok d (ws @ (if sm_pending ?p then [Snap OnConnect NoEvent] else [])) ?r"
    by (rule sm_run.ready [OF sm_run.polled [OF assms]])
  show "sm_run cron_ok d ws (start_scripts cron_ok fetch ok m)"
  proof (cases "sm_pending ?p")
    case True
    then have "sm_run cron_ok d (ws @ [Snap OnConnect NoEvent]) ?r" using r by simp
    then show ?thesis using walk_connect [OF walk_snap] True by (simp add: start_scripts_def Let_def on_connect_def)
  next
    case False
    then show ?thesis using r by (simp add: start_scripts_def Let_def)
  qed
qed

definition connect_keys :: "sm \<Rightarrow> string list" where
  "connect_keys m = map (run_key \<circ> fst) (filter (\<lambda>(p, t). t = OnConnect) (sm_launched m))"

definition sm_inv :: "seen \<Rightarrow> sm \<Rightarrow> bool" where
  "sm_inv d m \<longleftrightarrow> distinct (sm_active m) \<and> sm_running m = set (sm_active m) \<and> distinct (connect_keys m) \<and>
     (\<forall>k. has_key d k \<longrightarrow> has_key (sm_dedup m) k) \<and>
     (\<forall>k \<in> set (connect_keys m). has_key (sm_dedup m) k \<and> \<not> has_key d k)"

lemma launch_inv:
  "sm_inv d m \<Longrightarrow> t \<noteq> OnConnect \<Longrightarrow> sm_inv d (launch p t m)"
  by (auto simp: sm_inv_def launch_def connect_keys_def)

lemma mark_cases:
  "dedup_mark_if_new ok s k = (s', new) \<Longrightarrow> new = (\<not> has_key s k) \<and> (\<forall>j. has_key s' j \<longleftrightarrow> j = k \<or> has_key s j)"
  using dedup.mark_new [of ok s k] dedup.has_mark [of ok s k] by auto

lemma sm_inv_flags [simp]: "sm_inv d (m\<lparr>sm_pending := b\<rparr>) = sm_inv d m" "sm_inv d (m\<lparr>sm_ready := b\<rparr>) = sm_inv d m"
  "connect_keys (m\<lparr>sm_pending := b\<rparr>) = connect_keys m" "connect_keys (m\<lparr>sm_ready := b\<rparr>) = connect_keys m"
  by (simp_all add: sm_inv_def connect_keys_def)

lemma poll_inv: "sm_inv d m \<Longrightarrow> sm_inv d (poll_policies cron_ok fetch m)"
  "connect_keys (poll_policies cron_ok fetch m) = connect_keys m" "sm_dedup (poll_policies cron_ok fetch m) = sm_dedup m"
  by (auto simp: poll_policies_def apply_policies_def sm_inv_def connect_keys_def split: option.split)

text \<open>The versions marked and not yet launched are marked once, by this process, and have not run.\<close>

definition marked_keys :: "walk list \<Rightarrow> string list" where
  "marked_keys ws = concat (map (\<lambda>w. case w of Marked p ps \<Rightarrow> [run_key p] | _ \<Rightarrow> []) ws)"

definition walks_inv :: "seen \<Rightarrow> walk list \<Rightarrow> sm \<Rightarrow> bool" where
  "walks_inv d ws m \<longleftrightarrow> sm_inv d m \<and> distinct (marked_keys ws) \<and>
     (\<forall>k \<in> set (marked_keys ws). has_key (sm_dedup m) k \<and> \<not> has_key d k \<and> k \<notin> set (connect_keys m))"

lemma marked_simps [simp]: "marked_keys (us @ vs) = marked_keys us @ marked_keys vs" "marked_keys [] = []"
  "marked_keys (Snap t e # ws) = marked_keys ws" "marked_keys (Walk t ps # ws) = marked_keys ws"
  "marked_keys (Marked p ps # ws) = run_key p # marked_keys ws"
  by (simp_all add: marked_keys_def)

lemma launch_keys: "t \<noteq> OnConnect \<Longrightarrow> connect_keys (launch p t m) = connect_keys m" "sm_dedup (launch p t m) = sm_dedup m"
  "connect_keys (launch p OnConnect m) = connect_keys m \<or> connect_keys (launch p OnConnect m) = connect_keys m @ [run_key p]"
  by (simp_all add: launch_def connect_keys_def)

lemma launch_connect_inv:
  assumes "sm_inv d m" and "has_key (sm_dedup m) (run_key p)" and "\<not> has_key d (run_key p)" and "run_key p \<notin> set (connect_keys m)"
  shows "sm_inv d (launch p OnConnect m)"
proof (cases "sp_id p \<in> sm_running m")
  case True
  then show ?thesis using assms(1) by (simp add: launch_def)
next
  case False
  let ?m = "launch p OnConnect m"
  have "sm_active ?m = sp_id p # sm_active m" "sm_running ?m = insert (sp_id p) (sm_running m)" "connect_keys ?m = connect_keys m @ [run_key p]"
    "sm_dedup ?m = sm_dedup m" using False by (simp_all add: launch_def connect_keys_def)
  then show ?thesis using assms False unfolding sm_inv_def by auto
qed

lemma walk_inv:
  assumes i: "walks_inv d (us @ w # vs) m" and st: "walk_step ok w m = (ws, m')"
  shows "walks_inv d (us @ ws @ vs) m'"
proof (cases w)
  case (Snap t e)
  then show ?thesis using i st by (auto simp: walks_inv_def)
next
  case (Walk t ps)
  show ?thesis
  proof (cases ps)
    case Nil
    then show ?thesis using i st Walk by (auto simp: walks_inv_def)
  next
    case (Cons p qs)
    obtain k new where k: "dedup_mark_if_new ok (sm_dedup m) (run_key p) = (k, new)" by force
    note mk = mark_cases [OF k]
    have keys: "connect_keys (m\<lparr>sm_dedup := k\<rparr>) = connect_keys m" by (simp add: connect_keys_def)
    show ?thesis
    proof (cases "t = OnConnect")
      case True
      then have e: "ws = [if new then Marked p qs else Walk OnConnect qs]" "m' = m\<lparr>sm_dedup := k\<rparr>" using st Walk Cons k by auto
      have old: "\<And>j. has_key d j \<Longrightarrow> has_key (sm_dedup m) j" "\<And>j. j \<in> set (connect_keys m) \<Longrightarrow> has_key (sm_dedup m) j \<and> \<not> has_key d j"
        "\<And>j. j \<in> set (marked_keys (us @ vs)) \<Longrightarrow> has_key (sm_dedup m) j \<and> \<not> has_key d j \<and> j \<notin> set (connect_keys m)"
        "distinct (marked_keys (us @ vs))" "sm_inv d m"
        using i Walk unfolding walks_inv_def sm_inv_def by simp_all
      have grows: "\<And>j. has_key (sm_dedup m) j \<Longrightarrow> has_key (sm_dedup m') j" "has_key (sm_dedup m') (run_key p)" using mk e(2) by simp_all
      have same: "sm_active m' = sm_active m" "sm_running m' = sm_running m" "connect_keys m' = connect_keys m" by (simp_all add: e keys)
      have inv: "sm_inv d m'" using old(1,2,5) grows(1) unfolding sm_inv_def same by simp
      have fresh: "run_key p \<notin> set (connect_keys m) \<and> run_key p \<notin> set (marked_keys (us @ vs)) \<and> \<not> has_key d (run_key p)" if new
        using old(1-3) mk that by blast
      have "set (marked_keys (us @ ws @ vs)) \<subseteq> (if new then {run_key p} else {}) \<union> set (marked_keys (us @ vs))"
        "distinct (marked_keys (us @ ws @ vs))" using fresh old(4) by (auto simp: e)
      then show ?thesis using inv fresh old(3) grows unfolding walks_inv_def same by (auto split: if_splits)
    next
      case False
      then have "ws = [Walk t qs]" "m' = launch p t m" using st Walk Cons by auto
      then show ?thesis using i Walk False by (auto simp: walks_inv_def launch_inv launch_keys)
    qed
  qed
next
  case (Marked p ps)
  then have e: "ws = [Walk OnConnect ps]" "m' = launch p OnConnect m" using st by auto
  have inv: "sm_inv d m" and k: "has_key (sm_dedup m) (run_key p)" "\<not> has_key d (run_key p)" "run_key p \<notin> set (connect_keys m)"
    "run_key p \<notin> set (marked_keys (us @ vs))" using i Marked by (auto simp: walks_inv_def)
  have "sm_inv d m'" unfolding e by (rule launch_connect_inv [OF inv k(1-3)])
  have "distinct (marked_keys (us @ vs))" "\<forall>j \<in> set (marked_keys (us @ vs)). has_key (sm_dedup m) j \<and> \<not> has_key d j \<and> j \<notin> set (connect_keys m)"
    using i Marked unfolding walks_inv_def by auto
  moreover have "marked_keys (us @ ws @ vs) = marked_keys (us @ vs)" by (simp add: e)
  moreover have "set (connect_keys m') \<subseteq> insert (run_key p) (set (connect_keys m))" using launch_keys(3) [of p m] unfolding e by auto
  moreover have "sm_dedup m' = sm_dedup m" by (simp add: e launch_keys)
  ultimately show ?thesis using \<open>sm_inv d m'\<close> k(4) unfolding walks_inv_def by auto
qed

lemma sm_run_inv: "sm_run cron_ok d ws m \<Longrightarrow> walks_inv d ws m"
proof (induction rule: sm_run.induct)
  case fresh
  then show ?case by (simp add: walks_inv_def sm_inv_def new_scripts_def connect_keys_def)
next
  case (walk us w vs m ok ws m')
  show ?case by (rule walk_inv [OF walk.IH walk.hyps(2)])
next
  case (ended ws m pid)
  then show ?case by (auto simp: walks_inv_def sm_inv_def run_ended_def connect_keys_def)
qed (simp_all add: walks_inv_def poll_inv)

text \<open>Claim C40.  In every run, with polls, connects, events, firings and ends of runs at any point between the steps of the others, no two
  runs of one policy overlap, and a connect runs no version of a policy twice, nor one that an earlier process recorded.\<close>

theorem runs_exclusive_and_once:
  assumes "sm_run cron_ok d ws m"
  shows "distinct (sm_active m) \<and> distinct (connect_keys m) \<and> (\<forall>k \<in> set (connect_keys m). \<not> has_key d k)"
  using sm_run_inv [OF assms] by (simp add: walks_inv_def sm_inv_def)

subsection \<open>A version that never runs\<close>

lemma connect_loop_keys:
  "has_key (sm_dedup (connect_loop ok ps m)) k \<longleftrightarrow> k \<in> run_key ` set ps \<or> has_key (sm_dedup m) k"
proof (induction ps arbitrary: m)
  case (Cons p ps)
  obtain s new where k: "dedup_mark_if_new ok (sm_dedup m) (run_key p) = (s, new)" by force
  have "sm_dedup (if new then launch p OnConnect (m\<lparr>sm_dedup := s\<rparr>) else m\<lparr>sm_dedup := s\<rparr>) = s"
    by (simp add: launch_def)
  then show ?case using Cons.IH mark_cases [OF k] k by (auto simp: Let_def)
qed simp

lemma connect_loop_launched:
  assumes "(q, t) \<in> set (sm_launched (connect_loop ok ps m))" "(q, t) \<notin> set (sm_launched m)"
  shows "q \<in> set ps \<and> sp_id q \<notin> sm_running m \<and> \<not> has_key (sm_dedup m) (run_key q)"
  using assms
proof (induction ps arbitrary: m)
  case (Cons p ps)
  obtain s new where k: "dedup_mark_if_new ok (sm_dedup m) (run_key p) = (s, new)" by force
  let ?m = "if new then launch p OnConnect (m\<lparr>sm_dedup := s\<rparr>) else m\<lparr>sm_dedup := s\<rparr>"
  have l: "sm_launched (connect_loop ok (p # ps) m) = sm_launched (connect_loop ok ps ?m)" using k by (simp add: Let_def)
  have m: "sm_running m \<subseteq> sm_running ?m" "sm_dedup ?m = s" by (auto simp: launch_def)
  show ?case
  proof (cases "(q, t) \<in> set (sm_launched ?m)")
    case True
    then have "q = p" "new" "sp_id p \<notin> sm_running m" using Cons.prems(2) by (auto simp: launch_def split: if_splits)
    then show ?thesis using mark_cases [OF k] by auto
  next
    case False
    then show ?thesis using Cons.IH [of ?m] Cons.prems(1) l m mark_cases [OF k] by auto
  qed
qed simp

text \<open>A connect that finds the previous run of a policy still going records the new version as
  handled without running it; no later connect runs it, not even when the run is over.\<close>

theorem connect_version_lost:
  assumes "sm_ready m" "p \<in> set (sm_policies m)" "sp_trigger p = OnConnect" "sp_id p \<in> sm_running m"
    "\<not> has_key (sm_dedup m) (run_key p)" "(p, OnConnect) \<notin> set (sm_launched m)"
  shows "let m1 = on_connect ok m; m2 = run_ended (sp_id p) m1; m3 = on_connect ok m2 in
    has_key (sm_dedup m1) (run_key p) \<and> sp_id p \<notin> sm_running m2 \<and> (p, OnConnect) \<notin> set (sm_launched m3)"
proof -
  let ?ps = "policies_for OnConnect NoEvent m"
  let ?m1 = "on_connect ok m" and ?m2 = "run_ended (sp_id p) (on_connect ok m)"
  have m1: "?m1 = connect_loop ok ?ps m" using assms(1) by (simp add: on_connect_def)
  have p: "p \<in> set ?ps" using assms(2,3) by (simp add: policies_for_def)
  have key: "has_key (sm_dedup ?m1) (run_key p)" using p by (simp add: m1 connect_loop_keys)
  have n1: "(p, OnConnect) \<notin> set (sm_launched ?m1)"
    using connect_loop_launched [of p OnConnect ok ?ps m] assms(4,6) by (auto simp: m1)
  have m2: "sm_dedup ?m2 = sm_dedup ?m1" "sm_launched ?m2 = sm_launched ?m1" "sp_id p \<notin> sm_running ?m2"
    by (simp_all add: run_ended_def)
  have "(p, OnConnect) \<notin> set (sm_launched (on_connect ok ?m2))"
    using connect_loop_launched [of p OnConnect ok "policies_for OnConnect NoEvent ?m2" ?m2] key n1 m2(1,2)
    by (cases "sm_ready ?m2") (auto simp: on_connect_def)
  then show ?thesis using key m2(3) by (simp add: Let_def)
qed

subsection \<open>Concrete runs\<close>

definition a_policy :: "int \<Rightarrow> script_policy" where
  "a_policy v = \<lparr>sp_id = ''p'', sp_name = [], sp_interp = ''sh'', sp_content = [], sp_trigger = OnConnect,
     sp_event = NoEvent, sp_cron = [], sp_timeout = 0, sp_updated = v\<rparr>"

definition no_keys :: seen where "no_keys = \<lparr>s_mem = [], s_file = None, s_path = False\<rparr>"

definition a_scripts :: sm where
  "a_scripts = start_scripts (\<lambda>c. True) (\<lambda>v. Some \<lparr>pr_unchanged = False, pr_version = 1, pr_policies = [a_policy 1]\<rparr>)
     True (on_connect True (new_scripts no_keys))"

lemma a_scripts_run: "sm_run (\<lambda>c. True) no_keys [] a_scripts"
  unfolding a_scripts_def by (intro methods_run sm_run.fresh)

lemma runs_exclusive_and_once_witness:
  "connect_keys a_scripts = [''p@1''] \<and> distinct (connect_keys a_scripts)"
proof -
  have "connect_keys a_scripts = [''p@1'']" by code_simp
  then show ?thesis using runs_exclusive_and_once [OF a_scripts_run] by simp
qed

definition b_scripts :: sm where
  "b_scripts = apply_policies (\<lambda>c. True) [a_policy 2] 2 a_scripts"

lemma connect_version_lost_witness:
  "sm_active b_scripts = [''p''] \<and>
   (a_policy 2, OnConnect) \<notin> set (sm_launched (on_connect True (run_ended ''p'' (on_connect True b_scripts))))"
proof -
  have b: "sm_active b_scripts = [''p'']" "sm_ready b_scripts" "a_policy 2 \<in> set (sm_policies b_scripts)"
    "sp_id (a_policy 2) \<in> sm_running b_scripts" "\<not> has_key (sm_dedup b_scripts) (run_key (a_policy 2))"
    "(a_policy 2, OnConnect) \<notin> set (sm_launched b_scripts)" "sp_trigger (a_policy 2) = OnConnect" "sp_id (a_policy 2) = ''p''"
    by code_simp+
  show ?thesis using connect_version_lost [OF b(2,3,7,4,5,6), where ok = True] b(1,8) by (simp add: Let_def)
qed

end
