(* ===== verification/Uninstall.thy ===== *)
theory Uninstall
  imports ScriptOutput
begin

section \<open>Removal of software\<close>

text \<open>
  Model of \<open>internal/agent/uninstall\<close>: \<open>selfguard.go\<close>, \<open>uninstall.go\<close>, \<open>validate.go\<close>
  and the argument lists of the three platforms' \<open>execute\<close>.  The two scans of the installed
  software and the run of the uninstaller are arguments.  Paths are those of a Unix system
  (\<open>filepath.Clean\<close> with the separator \<open>/\<close>); a backslash is turned into it first, as the code
  does.  The wording of the details is left out, what they carry is kept.
\<close>

subsection \<open>Paths\<close>

text \<open>\<open>filepath.Clean\<close> on the elements of a path; the stack holds them in reverse.\<close>

fun clean_elems :: "bool \<Rightarrow> string list \<Rightarrow> string list \<Rightarrow> string list" where
  "clean_elems rooted stack [] = rev stack"
| "clean_elems rooted stack (e # es) =
     (if e = [] \<or> e = ''.'' then clean_elems rooted stack es
      else if e = ''..'' then
        (case stack of
           [] \<Rightarrow> clean_elems rooted (if rooted then [] else [e]) es
         | t # ts \<Rightarrow> clean_elems rooted (if t = ''..'' then e # stack else ts) es)
      else clean_elems rooted (e # stack) es)"

definition clean_path :: "string \<Rightarrow> string" where
  "clean_path p =
     (let rooted = (p \<noteq> [] \<and> hd p = CHR ''/'');
          es = clean_elems rooted [] (split_on CHR ''/'' p);
          s = join_with ''/'' es
      in if rooted then CHR ''/'' # s else if es = [] then ''.'' else s)"

definition norm_path :: "string \<Rightarrow> string" where
  "norm_path p =
     (let q = trim_space p
      in if q = [] then []
         else to_lower (trim_suffix ''/'' (clean_path (map (\<lambda>c. if c = CHR 0x5C then CHR ''/'' else c) q))))"

definition path_covers :: "string \<Rightarrow> string \<Rightarrow> bool" where
  "path_covers parent child \<longleftrightarrow>
     (let p = norm_path parent; c = norm_path child
      in p \<noteq> [] \<and> c \<noteq> [] \<and> (p = c \<or> prefix (p @ ''/'') c))"

definition same_path :: "string \<Rightarrow> string \<Rightarrow> bool" where
  "same_path a b \<longleftrightarrow> norm_path a \<noteq> [] \<and> norm_path a = norm_path b"

subsection \<open>The guard of the agent itself\<close>

datatype umethod = UNone | UMsi | UWinQuiet | UMacApp | UDpkg | URpm | UPacman | UApk

record software =
  so_name :: string
  so_version :: string
  so_vendor :: string
  so_location :: string
  so_arch :: string
  so_uid :: string
  so_method :: umethod
  so_scope :: string

record un_request =
  ur_id :: string
  ur_name :: string
  ur_version :: string
  ur_uid :: string
  ur_location :: string
  ur_method :: umethod
  ur_scope :: string
  ur_reason :: string

record self_id =
  exe_path :: string
  exe_dir :: string

text \<open>\<open>resolveSelf\<close>: \<open>exe\<close> is the path of the process, \<open>resolved\<close> the one without symbolic links;
  \<open>None\<close> is an error, which disables the whole component.\<close>

definition dir_of :: "string \<Rightarrow> string" where
  "dir_of p = clean_path (rev (dropWhile (\<lambda>c. c \<noteq> CHR ''/'') (rev p)))"

definition resolve_self :: "string option \<Rightarrow> (string \<Rightarrow> string option) \<Rightarrow> self_id option" where
  "resolve_self exe resolved = (case exe of
     None \<Rightarrow> None
   | Some e \<Rightarrow>
       (let e2 = clean_path (case resolved e of Some r \<Rightarrow> r | None \<Rightarrow> e)
        in if e2 = [] \<or> e2 = ''.'' then None else Some \<lparr>exe_path = e2, exe_dir = dir_of e2\<rparr>))"

definition self_names :: "string list" where
  "self_names = [''routineops'', ''routineops agent'', ''routineops-agent'', ''routineops-agent.exe'',
     ''mdm-agent'', ''mdm agent'', ''mdm-agent.exe'']"

definition self_vendor :: string where "self_vendor = ''routineops''"

definition is_self_name :: "string \<Rightarrow> bool" where
  "is_self_name v \<longleftrightarrow> to_lower (trim_space v) \<noteq> [] \<and> to_lower (trim_space v) \<in> set self_names"

datatype self_sign = ByName string | ByKey string | ByVendor string | ByPath string

definition match_self :: "self_id \<Rightarrow> string \<Rightarrow> string \<Rightarrow> string \<Rightarrow> string \<Rightarrow> self_sign option" where
  "match_self s name uid loc vendor =
     (if is_self_name name then Some (ByName name)
      else if is_self_name uid then Some (ByKey uid)
      else if vendor \<noteq> [] \<and> equal_fold (trim_space vendor) self_vendor then Some (ByVendor vendor)
      else if loc \<noteq> [] \<and> (path_covers loc (exe_path s) \<or> path_covers loc (exe_dir s)) then Some (ByPath loc)
      else if loc \<noteq> [] \<and> (same_path loc (exe_path s) \<or> same_path loc (exe_dir s)) then Some (ByPath loc)
      else None)"

definition matches_request :: "self_id \<Rightarrow> un_request \<Rightarrow> self_sign option" where
  "matches_request s r = match_self s (ur_name r) (ur_uid r) (ur_location r) []"

definition matches_software :: "self_id \<Rightarrow> software \<Rightarrow> self_sign option" where
  "matches_software s w = match_self s (so_name w) (so_uid w) (so_location w) (so_vendor w)"

subsection \<open>Resolving the target\<close>

definition same_name :: "string \<Rightarrow> string \<Rightarrow> bool" where
  "same_name a b \<longleftrightarrow> equal_fold (trim_space a) (trim_space b)"

definition matches_selector :: "software \<Rightarrow> un_request \<Rightarrow> bool" where
  "matches_selector s r =
     (if ur_version r \<noteq> [] \<and> so_version s \<noteq> ur_version r then False
      else if ur_uid r \<noteq> [] \<and> so_uid s \<noteq> ur_uid r then False
      else if ur_location r \<noteq> [] \<and> \<not> same_path (so_location s) (ur_location r) then False
      else if ur_scope r \<noteq> [] \<and> so_scope s \<noteq> ur_scope r then False
      else True)"

datatype outcome = Removed | AlreadyAbsent | TargetChanged | Ambiguous | NotRemovable | SelfProtected
  | UnFailed | StillPresent

text \<open>\<open>describe\<close>: up to three versions, the empty one standing for the wording of a missing version, and how many more.\<close>

definition describe :: "software list \<Rightarrow> string list \<times> nat" where
  "describe sw = (map so_version (take 3 sw), length sw - 3)"

datatype detail = NoName | SelfSelector self_sign | SelfFound self_sign | NothingNamed string
  | Changed "string list \<times> nat" | Several "string list \<times> nat" | NoQuiet string | MethodChanged umethod umethod
  | RunError string string | Remained string | Gone string string string

record result =
  re_outcome :: outcome
  re_detail :: detail

definition resolve :: "software list \<Rightarrow> un_request \<Rightarrow> result + software" where
  "resolve installed r =
     (let by_name = filter (\<lambda>s. same_name (so_name s) (ur_name r)) installed;
          matched = filter (\<lambda>s. matches_selector s r) by_name
      in if by_name = [] then Inl \<lparr>re_outcome = AlreadyAbsent, re_detail = NothingNamed (ur_name r)\<rparr>
         else (case matched of
             [s] \<Rightarrow> Inr s
           | [] \<Rightarrow> Inl \<lparr>re_outcome = TargetChanged, re_detail = Changed (describe by_name)\<rparr>
           | _ \<Rightarrow> Inl \<lparr>re_outcome = Ambiguous, re_detail = Several (describe matched)\<rparr>))"

fun find_same :: "software list \<Rightarrow> software \<Rightarrow> software option" where
  "find_same [] t = None"
| "find_same (s # ss) t =
     (if \<not> same_name (so_name s) (so_name t) then find_same ss t
      else if so_version s = so_version t \<and> so_uid s = so_uid t \<and> same_path (so_location s) (so_location t)
        then Some s
      else find_same ss t)"

text \<open>\<open>Run\<close>: the second component is the record handed to the uninstaller, if any.  \<open>execu\<close> gives the
  output and the text of an error; the truncation of the output may panic, which is \<open>None\<close>.\<close>

definition run_uninstall :: "self_id \<Rightarrow> software list \<Rightarrow> (software \<Rightarrow> string \<times> string option) \<Rightarrow> software list
    \<Rightarrow> un_request \<Rightarrow> (result \<times> software option) option" where
  "run_uninstall self scan1 execu scan2 r =
     (if trim_space (ur_name r) = [] then Some (\<lparr>re_outcome = TargetChanged, re_detail = NoName\<rparr>, None)
      else case matches_request self r of
        Some w \<Rightarrow> Some (\<lparr>re_outcome = SelfProtected, re_detail = SelfSelector w\<rparr>, None)
      | None \<Rightarrow> (case resolve scan1 r of
          Inl res \<Rightarrow> Some (res, None)
        | Inr t \<Rightarrow> (case matches_software self t of
            Some w \<Rightarrow> Some (\<lparr>re_outcome = SelfProtected, re_detail = SelfFound w\<rparr>, None)
          | None \<Rightarrow>
              if so_method t = UNone then Some (\<lparr>re_outcome = NotRemovable, re_detail = NoQuiet (so_name t)\<rparr>, None)
              else if ur_method r \<noteq> UNone \<and> ur_method r \<noteq> so_method t then
                Some (\<lparr>re_outcome = TargetChanged, re_detail = MethodChanged (ur_method r) (so_method t)\<rparr>, None)
              else
                (let (raw, err) = execu t
                 in case truncate_output (sanitize_utf8 raw) of
                      None \<Rightarrow> None
                    | Some out \<Rightarrow> (case err of
                        Some e \<Rightarrow> Some (\<lparr>re_outcome = UnFailed, re_detail = RunError e out\<rparr>, Some t)
                      | None \<Rightarrow>
                          if find_same scan2 t \<noteq> None then
                            Some (\<lparr>re_outcome = StillPresent, re_detail = Remained out\<rparr>, Some t)
                          else Some (\<lparr>re_outcome = Removed,
                            re_detail = Gone (so_name t) (so_version t) out\<rparr>, Some t))))))"

subsection \<open>What is handed to the operating system\<close>

definition is_hex_digit :: "char \<Rightarrow> bool" where
  "is_hex_digit c \<longleftrightarrow> (CHR ''0'' \<le> c \<and> c \<le> CHR ''9'') \<or> (CHR ''a'' \<le> c \<and> c \<le> CHR ''f'') \<or> (CHR ''A'' \<le> c \<and> c \<le> CHR ''F'')"

definition looks_like_product_code :: "string \<Rightarrow> bool" where
  "looks_like_product_code s \<longleftrightarrow>
     length s = 38 \<and> s ! 0 = CHR ''{'' \<and> s ! 37 = CHR ''}'' \<and>
     list_all (\<lambda>i. if i \<in> {8, 13, 18, 23} then s ! (i + 1) = CHR ''-'' else is_hex_digit (s ! (i + 1))) [0..<36]"

definition valid_registry_key_name :: "string \<Rightarrow> bool" where
  "valid_registry_key_name s \<longleftrightarrow> trim_space s \<noteq> [] \<and> CHR 0x5C \<notin> set (trim_space s) \<and> CHR ''/'' \<notin> set (trim_space s)"

definition is_alnum :: "char \<Rightarrow> bool" where
  "is_alnum c \<longleftrightarrow> (CHR ''a'' \<le> c \<and> c \<le> CHR ''z'') \<or> (CHR ''A'' \<le> c \<and> c \<le> CHR ''Z'') \<or> (CHR ''0'' \<le> c \<and> c \<le> CHR ''9'')"

fun valid_package_name :: "string \<Rightarrow> bool" where
  "valid_package_name [] = False"
| "valid_package_name (c # s) = (is_alnum c \<and> list_all (\<lambda>d. is_alnum d \<or> d \<in> {CHR ''.'', CHR ''+'', CHR ''-'', CHR ''_''}) s)"

datatype exec_err = EmptyPackage | BadPackage string | BadMethod umethod | UserScope | BadProductCode string
  | BadKey string | NoQuietString | Unparsable | BadBundle string

definition linux_argv :: "bool \<Rightarrow> software \<Rightarrow> exec_err + string list" where
  "linux_argv has_dnf t =
     (let pkg = trim_space (so_uid t)
      in if pkg = [] then Inl EmptyPackage
         else if \<not> valid_package_name pkg then Inl (BadPackage pkg)
         else (case so_method t of
             UDpkg \<Rightarrow> Inr [''apt-get'', ''remove'', ''-y'', pkg]
           | URpm \<Rightarrow> Inr [if has_dnf then ''dnf'' else ''yum'', ''remove'', ''-y'', pkg]
           | UPacman \<Rightarrow> Inr [''pacman'', ''-R'', ''--noconfirm'', pkg]
           | UApk \<Rightarrow> Inr [''apk'', ''del'', pkg]
           | m \<Rightarrow> Inl (BadMethod m)))"

definition uninstall_key_path :: string where
  "uninstall_key_path = ''SOFTWARE'' @ [CHR 0x5C] @ ''Microsoft'' @ [CHR 0x5C] @ ''Windows'' @ [CHR 0x5C] @
     ''CurrentVersion'' @ [CHR 0x5C] @ ''Uninstall''"
definition uninstall_key_path_wow :: string where
  "uninstall_key_path_wow = ''SOFTWARE'' @ [CHR 0x5C] @ ''WOW6432Node'' @ [CHR 0x5C] @ ''Microsoft'' @ [CHR 0x5C] @
     ''Windows'' @ [CHR 0x5C] @ ''CurrentVersion'' @ [CHR 0x5C] @ ''Uninstall''"

text \<open>\<open>reg\<close> reads the value \<open>QuietUninstallString\<close> of a key.\<close>

definition read_quiet_uninstall_string :: "(string \<Rightarrow> string option) \<Rightarrow> string \<Rightarrow> exec_err + string" where
  "read_quiet_uninstall_string reg k =
     (if \<not> valid_registry_key_name k then Inl (BadKey k)
      else (case reg (uninstall_key_path @ [CHR 0x5C] @ k) of
          Some v \<Rightarrow> if trim_space v \<noteq> [] then Inr v else
            (case reg (uninstall_key_path_wow @ [CHR 0x5C] @ k) of
               Some w \<Rightarrow> if trim_space w \<noteq> [] then Inr w else Inl NoQuietString | None \<Rightarrow> Inl NoQuietString)
        | None \<Rightarrow> (case reg (uninstall_key_path_wow @ [CHR 0x5C] @ k) of
               Some w \<Rightarrow> if trim_space w \<noteq> [] then Inr w else Inl NoQuietString | None \<Rightarrow> Inl NoQuietString)))"

definition windows_argv :: "(string \<Rightarrow> string option) \<Rightarrow> (string \<Rightarrow> string list option) \<Rightarrow> software
    \<Rightarrow> exec_err + string list" where
  "windows_argv reg decompose t =
     (if so_scope t = ''user'' then Inl UserScope
      else (case so_method t of
          UMsi \<Rightarrow> if \<not> looks_like_product_code (so_uid t) then Inl (BadProductCode (so_uid t))
            else Inr [''msiexec.exe'', ''/x'', so_uid t, ''/qn'', ''/norestart'']
        | UWinQuiet \<Rightarrow> (case read_quiet_uninstall_string reg (so_uid t) of
              Inl e \<Rightarrow> Inl e
            | Inr line \<Rightarrow> (case decompose line of
                None \<Rightarrow> Inl Unparsable | Some [] \<Rightarrow> Inl Unparsable | Some argv \<Rightarrow> Inr argv))
        | m \<Rightarrow> Inl (BadMethod m)))"

definition removable_app_bundle :: "string \<Rightarrow> bool" where
  "removable_app_bundle p =
     (if \<not> suffix ''.app'' p \<or> p = ''.app'' then False
      else if p \<noteq> clean_path p \<or> contains_str ''..'' p then False
      else (let dir = dir_of p
        in if dir = ''/Applications'' then True
           else if \<not> prefix ''/Users/'' dir then False
           else (case cut_at CHR ''/'' (drop 7 dir) of
               None \<Rightarrow> False
             | Some (user, tail) \<Rightarrow> user \<noteq> [] \<and> user \<noteq> ''..'' \<and> tail = ''Applications'')))"

definition trim_right_slashes :: "string \<Rightarrow> string" where
  "trim_right_slashes s = rev (dropWhile (\<lambda>c. c = CHR ''/'') (rev s))"

text \<open>The path whose tree \<open>execute\<close> on macOS deletes.\<close>

definition darwin_target :: "software \<Rightarrow> exec_err + string" where
  "darwin_target t =
     (if so_method t \<noteq> UMacApp then Inl (BadMethod (so_method t))
      else (let p = trim_right_slashes (trim_space (so_location t))
        in if removable_app_bundle p then Inr p else Inl (BadBundle (so_location t))))"

text \<open>\<open>execute\<close> on macOS after the choice of the path: \<open>lstat\<close> says whether the path is a directory
  (\<open>None\<close> if it cannot be read), \<open>ident\<close> is the output of \<open>defaults read\<close> and \<open>remove\<close> is false when the
  deletion fails; the result lists the paths deleted and the receipts forgotten.\<close>

definition read_bundle_id :: "string option \<Rightarrow> string" where
  "read_bundle_id ident = (case ident of
     None \<Rightarrow> []
   | Some raw \<Rightarrow>
       (let i = trim_space raw
        in if i = [] \<or> list_ex (\<lambda>c. c \<in> {CHR '' '', CHR 0x09, CHR 0x0A, CHR 0x0D, CHR ''/''}) i then [] else i))"

datatype mac_step = RemoveAll string | ForgetReceipt string

definition darwin_steps :: "(string \<Rightarrow> bool option) \<Rightarrow> string option \<Rightarrow> bool \<Rightarrow> software \<Rightarrow> mac_step list \<times> bool" where
  "darwin_steps lstat ident remove t =
     (case darwin_target t of
        Inl e \<Rightarrow> ([], False)
      | Inr p \<Rightarrow>
          if lstat p \<noteq> Some True then ([], False)
          else if \<not> remove then ([RemoveAll p], False)
          else if read_bundle_id ident = [] then ([RemoveAll p], True)
          else ([RemoveAll p, ForgetReceipt (read_bundle_id ident)], True))"

text \<open>The writer that caps what is kept of the uninstaller's output.\<close>

definition run_capture_cap :: int where "run_capture_cap = max_output_bytes + 4096"

definition cap_write :: "int \<Rightarrow> string \<Rightarrow> string \<Rightarrow> string \<times> int" where
  "cap_write limit buf p =
     (let room = limit - int (length buf)
      in (if 0 < room then (if int (length p) \<le> room then buf @ p else buf @ take (nat room) p) else buf,
          int (length p)))"

subsection \<open>The removal is guarded\<close>

lemma resolve_Inr:
  assumes "resolve scan r = Inr t"
  shows "filter (\<lambda>s. same_name (so_name s) (ur_name r) \<and> matches_selector s r) scan = [t]"
proof -
  let ?m = "filter (\<lambda>s. matches_selector s r) (filter (\<lambda>s. same_name (so_name s) (ur_name r)) scan)"
  have "?m = [t]"
    using assms unfolding resolve_def Let_def by (auto split: if_splits list.splits)
  then show ?thesis by (simp add: conj_commute)
qed

lemma match_self_None:
  assumes "match_self s n u l v = None"
  shows "\<not> is_self_name n" and "\<not> is_self_name u"
    and "l \<noteq> [] \<Longrightarrow> \<not> path_covers l (exe_path s) \<and> \<not> path_covers l (exe_dir s)"
  using assms unfolding match_self_def by (auto split: if_splits)

lemma run_uninstall_target:
  assumes "run_uninstall self scan1 execu scan2 r = Some (res, Some t)"
  shows "resolve scan1 r = Inr t" and "matches_software self t = None" and "so_method t \<noteq> UNone"
    and "ur_method r \<noteq> UNone \<Longrightarrow> so_method t = ur_method r"
    and "re_outcome res = (if snd (execu t) \<noteq> None then UnFailed
           else if find_same scan2 t \<noteq> None then StillPresent else Removed)"
  using assms unfolding run_uninstall_def Let_def
  by (auto split: if_splits option.splits sum.splits prod.splits)

text \<open>Whatever was asked for, the record handed to the uninstaller is the only record of the scan made for this
  command that has the name asked for and agrees with every field the command fills in; it is not the agent by its name
  or its key, the agent's executable and directory do not lie under its location, a quiet way of removal exists, and that
  way is the one the operator saw when the command names one.\<close>

theorem removal_is_guarded:
  assumes "run_uninstall self scan1 execu scan2 r = Some (res, Some t)"
  shows "filter (\<lambda>s. same_name (so_name s) (ur_name r) \<and> matches_selector s r) scan1 = [t]
    \<and> \<not> is_self_name (so_name t) \<and> \<not> is_self_name (so_uid t)
    \<and> (so_location t \<noteq> [] \<longrightarrow> \<not> path_covers (so_location t) (exe_path self) \<and> \<not> path_covers (so_location t) (exe_dir self))
    \<and> so_method t \<noteq> UNone \<and> (ur_method r \<noteq> UNone \<longrightarrow> so_method t = ur_method r)"
  using resolve_Inr [OF run_uninstall_target(1) [OF assms]]
    match_self_None [OF run_uninstall_target(2) [OF assms, unfolded matches_software_def]]
    run_uninstall_target(3,4) [OF assms] by simp

definition zip_soft :: software where
  "zip_soft = \<lparr>so_name = ''zip'', so_version = ''3.0'', so_vendor = [], so_location = [], so_arch = [],
     so_uid = ''zip'', so_method = UDpkg, so_scope = ''machine''\<rparr>"

definition zip_request :: un_request where
  "zip_request = \<lparr>ur_id = ''r1'', ur_name = ''Zip'', ur_version = ''3.0'', ur_uid = ''zip'', ur_location = [],
     ur_method = UDpkg, ur_scope = ''machine'', ur_reason = []\<rparr>"

definition agent_self :: self_id where
  "agent_self = \<lparr>exe_path = ''/opt/routineops/agent'', exe_dir = ''/opt/routineops''\<rparr>"

lemma zip_run:
  "run_uninstall agent_self [zip_soft] (\<lambda>_. ([], None)) [zip_soft] zip_request =
     Some (\<lparr>re_outcome = Removed, re_detail = Gone ''zip'' ''3.0'' []\<rparr>, Some zip_soft)"
  by code_simp

lemma removal_is_guarded_witness:
  "so_method zip_soft = UDpkg \<and> \<not> is_self_name (so_uid zip_soft)"
  using removal_is_guarded [OF zip_run] by (simp add: zip_request_def)

lemma find_same_needs_location:
  "norm_path (so_location t) = [] \<Longrightarrow> find_same scan t = None"
  by (induction scan) (simp_all add: same_path_def)

text \<open>A record without an install location is never found again: when the uninstaller ends without an error the
  command is answered "removed" whatever the second scan shows, even if it shows the very record that was to go.  The
  Linux collector never fills the location in, so on Linux the answer "still present" cannot occur.\<close>

theorem removal_without_location_unverified:
  assumes "run_uninstall self scan1 execu scan2 r = Some (res, Some t)"
    and "norm_path (so_location t) = []" and "snd (execu t) = None"
  shows "re_outcome res = Removed \<and> re_outcome res \<noteq> StillPresent"
  using run_uninstall_target(5) [OF assms(1)] assms(2,3) by (simp add: find_same_needs_location)

lemma removal_without_location_unverified_witness:
  "zip_soft \<in> set [zip_soft] \<and>
   (\<exists>res. run_uninstall agent_self [zip_soft] (\<lambda>_. ([], None)) [zip_soft] zip_request = Some (res, Some zip_soft)
      \<and> re_outcome res = Removed)"
proof -
  have n: "norm_path (so_location zip_soft) = []" by code_simp
  show ?thesis
    using removal_without_location_unverified [OF zip_run n] by (simp add: zip_run)
qed

subsection \<open>What reaches the operating system\<close>

lemma split_on_append_gen: "split_on c (a @ c # b) = split_on c a @ split_on c b"
proof (induction a)
  case (Cons x xs)
  obtain y ys where y: "split_on c xs = y # ys" using split_on_nonempty [of c xs] by (cases "split_on c xs") blast+
  show ?case using Cons.IH by (simp add: y)
qed simp

definition plain_elem :: "string \<Rightarrow> bool" where
  "plain_elem e \<longleftrightarrow> e \<noteq> [] \<and> e \<noteq> ''.'' \<and> e \<noteq> ''..'' \<and> CHR ''/'' \<notin> set e"

lemma clean_elems_snoc:
  "plain_elem b \<Longrightarrow> clean_elems r st (es @ [b]) = clean_elems r st es @ [b]"
  by (induction es arbitrary: st) (auto simp: plain_elem_def split: list.split)

lemma join_with_snoc: "xs \<noteq> [] \<Longrightarrow> join_with sep (xs @ [b]) = join_with sep xs @ sep @ b"
  by (induction sep xs rule: join_with.induct) simp_all

lemma clean_path_snoc:
  assumes "plain_elem b" and "clean_path (d @ ''/'') \<noteq> ''.'' " and "clean_path (d @ ''/'') \<noteq> ''/''"
  shows "clean_path (d @ ''/'' @ b) = clean_path (d @ ''/'') @ ''/'' @ b"
proof -
  have sb: "split_on CHR ''/'' b = [b]" using assms(1) by (simp add: plain_elem_def split_on_simple)
  have e1: "split_on CHR ''/'' (d @ ''/'') = split_on CHR ''/'' d @ [[]]"
    using split_on_append_gen [of "CHR ''/''" d "[]"] by simp
  have e2: "split_on CHR ''/'' (d @ ''/'' @ b) = split_on CHR ''/'' d @ [b]"
    using split_on_append_gen [of "CHR ''/''" d b] sb by simp
  have nil: "clean_elems r st (es @ [[]]) = clean_elems r st es" for r st es
    by (induction es arbitrary: st) (auto split: list.split)
  define r where "r = (hd (d @ ''/'') = CHR ''/'')"
  have hd: "hd (d @ ''/'' @ b) = hd (d @ ''/'')" by (cases d) simp_all
  define es where "es = clean_elems r [] (split_on CHR ''/'' d)"
  have c1: "clean_path (d @ ''/'') = (if r then CHR ''/'' # join_with ''/'' es else if es = [] then ''.'' else join_with ''/'' es)"
    by (simp add: clean_path_def Let_def e1 nil r_def es_def)
  have c2: "clean_path (d @ ''/'' @ b) = (if r then CHR ''/'' # join_with ''/'' (es @ [b])
       else if es @ [b] = [] then ''.'' else join_with ''/'' (es @ [b]))"
    unfolding clean_path_def Let_def e2 hd clean_elems_snoc [OF assms(1)] by (simp add: r_def es_def)
  have "es \<noteq> []" using assms(2,3) c1 by (cases r) auto
  then show ?thesis using c1 c2 by (cases r) (simp_all add: join_with_snoc)
qed

lemma dir_of_append: "CHR ''/'' \<notin> set b \<Longrightarrow> dir_of (d @ ''/'' @ b) = clean_path (d @ ''/'')"
proof -
  assume n: "CHR ''/'' \<notin> set b"
  have "dropWhile (\<lambda>c. c \<noteq> CHR ''/'') (rev b @ rev (d @ ''/'')) = dropWhile (\<lambda>c. c \<noteq> CHR ''/'') (rev (d @ ''/''))"
    using n by (intro dropWhile_append2) auto
  then have "dropWhile (\<lambda>c. c \<noteq> CHR ''/'') (rev (d @ ''/'' @ b)) = rev (d @ ''/'')" by simp
  then show ?thesis unfolding dir_of_def by (simp only: rev_rev_ident)
qed

lemma last_slash:
  assumes "CHR ''/'' \<in> set p"
  obtains d b where "p = d @ ''/'' @ b" and "CHR ''/'' \<notin> set b"
  using split_list_last [OF assms] by fastforce

text \<open>A path accepted for deletion is its directory and one plain name.\<close>

lemma removable_split:
  assumes "removable_app_bundle p"
  obtains b where "p = dir_of p @ ''/'' @ b" and "plain_elem b" and "suffix ''.app'' b"
proof -
  have a: "suffix ''.app'' p" "p = clean_path p"
    "dir_of p = ''/Applications'' \<or> prefix ''/Users/'' (dir_of p)"
    using assms unfolding removable_app_bundle_def Let_def by (auto split: if_splits)
  then obtain q where q: "p = q @ ''.app''" unfolding suffix_def by blast
  have sl: "CHR ''/'' \<in> set p"
  proof (rule ccontr)
    assume n: "CHR ''/'' \<notin> set p"
    have "dropWhile (\<lambda>c. c \<noteq> CHR ''/'') (rev p) = []"
      unfolding dropWhile_eq_Nil_conv using n by auto
    then have "dir_of p = clean_path []" unfolding dir_of_def by (simp only: list.simps rev.simps)
    also have "\<dots> = ''.''" by code_simp
    finally show False using a(3) by simp
  qed
  obtain d b where db: "p = d @ ''/'' @ b" "CHR ''/'' \<notin> set b" by (rule last_slash [OF sl])
  have dir: "dir_of p = clean_path (d @ ''/'')" unfolding db(1) by (rule dir_of_append [OF db(2)])
  have sb: "suffix ''.app'' b"
  proof -
    have "suffix ''.app'' (d @ ''/'' @ b)" using a(1) db(1) by simp
    moreover have "4 \<le> length b"
    proof (rule ccontr)
      assume "\<not> 4 \<le> length b"
      then have "length b < length ''.app''" by simp
      then have "suffix (''/'' @ b) ''.app''"
        using \<open>suffix ''.app'' (d @ ''/'' @ b)\<close> suffix_length_suffix [of "''/'' @ b" "d @ ''/'' @ b" "''.app''"]
        by (simp add: suffix_def)
      then show False by (auto simp: suffix_def Cons_eq_append_conv)
    qed
    ultimately show ?thesis
      using suffix_length_suffix [of "''.app''" "d @ ''/'' @ b" b] by (simp add: suffix_def)
  qed
  then have pl: "plain_elem b" using db(2) by (auto simp: plain_elem_def suffix_def)
  have nd: "clean_path (d @ ''/'') \<noteq> ''.''" "clean_path (d @ ''/'') \<noteq> ''/''"
    using a(3) dir by (auto simp: prefix_def)
  have "p = dir_of p @ ''/'' @ b"
    using a(2) clean_path_snoc [OF pl nd] db(1) dir by metis
  then show ?thesis using pl sb that by blast
qed

text \<open>The tree that is deleted on macOS is a bundle directly in \<open>/Applications\<close> or in the
  \<open>Applications\<close> directory of one user, whatever the install location recorded for the software: its path is that
  directory, one slash and one name that ends in \<open>.app\<close> and has no slash.\<close>

theorem deletion_confined_to_applications:
  assumes "RemoveAll p \<in> set (fst (darwin_steps lstat ident remove t))"
  shows "\<exists>b. CHR ''/'' \<notin> set b \<and> suffix ''.app'' b \<and>
    (p = ''/Applications/'' @ b \<or>
     (\<exists>user. user \<noteq> [] \<and> user \<noteq> ''..'' \<and> CHR ''/'' \<notin> set user \<and> p = ''/Users/'' @ user @ ''/Applications/'' @ b))"
proof -
  have d: "darwin_target t = Inr p"
    using assms by (auto simp: darwin_steps_def split: sum.splits if_splits)
  then have r: "removable_app_bundle p"
    by (auto simp: darwin_target_def Let_def split: if_splits)
  obtain b where b: "p = dir_of p @ ''/'' @ b" "plain_elem b" "suffix ''.app'' b"
    by (rule removable_split [OF r])
  consider "dir_of p = ''/Applications''"
    | user where "prefix ''/Users/'' (dir_of p)" "cut_at CHR ''/'' (drop 7 (dir_of p)) = Some (user, ''Applications'')"
        "user \<noteq> []" "user \<noteq> ''..''"
    using r unfolding removable_app_bundle_def Let_def
    by (auto split: if_splits option.splits)
  then show ?thesis
  proof cases
    case 1
    then show ?thesis using b by (auto simp: plain_elem_def)
  next
    case 2
    obtain z where z: "dir_of p = ''/Users/'' @ z" using 2(1) by (auto simp: prefix_def)
    then have "z = user @ CHR ''/'' # ''Applications'' \<and> CHR ''/'' \<notin> set user"
      using 2(2) cut_at_Some [of "CHR ''/''" z user "''Applications''"] by simp
    with z have "p = ''/Users/'' @ user @ ''/Applications/'' @ b" "CHR ''/'' \<notin> set user"
      using b(1) by simp_all
    then show ?thesis using b(2,3) 2(3,4) by (auto simp: plain_elem_def)
  qed
qed

definition iterm_soft :: software where
  "iterm_soft = \<lparr>so_name = ''iTerm'', so_version = ''3'', so_vendor = [], so_location = ''/Users/test/Applications/iTerm.app/'',
     so_arch = [], so_uid = [], so_method = UMacApp, so_scope = ''user''\<rparr>"

lemma deletion_confined_to_applications_witness:
  "\<exists>b. CHR ''/'' \<notin> set b \<and> suffix ''.app'' b \<and>
    (''/Users/test/Applications/iTerm.app'' = ''/Applications/'' @ b \<or>
     (\<exists>user. user \<noteq> [] \<and> user \<noteq> ''..'' \<and> CHR ''/'' \<notin> set user \<and>
        ''/Users/test/Applications/iTerm.app'' = ''/Users/'' @ user @ ''/Applications/'' @ b))"
proof -
  have "fst (darwin_steps (\<lambda>_. Some True) None True iterm_soft) = [RemoveAll ''/Users/test/Applications/iTerm.app'']"
    by code_simp
  then have "RemoveAll ''/Users/test/Applications/iTerm.app'' \<in> set (fst (darwin_steps (\<lambda>_. Some True) None True iterm_soft))"
    by simp
  then show ?thesis by (rule deletion_confined_to_applications)
qed

text \<open>Further facts on the arguments: a package name is never an option, so the package manager gets exactly one operand.\<close>

lemma package_not_option: "valid_package_name s \<Longrightarrow> s \<noteq> [] \<and> hd s \<noteq> CHR ''-''"
proof (cases s)
  case (Cons c cs)
  have "\<not> is_alnum CHR ''-''" by code_simp
  then show "valid_package_name s \<Longrightarrow> ?thesis" using Cons by auto
qed simp

lemma linux_argv_operand:
  assumes "linux_argv dnf t = Inr argv"
  shows "last argv = trim_space (so_uid t)" and "hd (last argv) \<noteq> CHR ''-''"
proof -
  have v: "valid_package_name (trim_space (so_uid t))" and l: "last argv = trim_space (so_uid t)"
    using assms unfolding linux_argv_def Let_def by (auto split: if_splits umethod.splits)
  show "last argv = trim_space (so_uid t)" by (rule l)
  show "hd (last argv) \<noteq> CHR ''-''" unfolding l using package_not_option [OF v] by simp
qed

lemma cap_write_bound:
  assumes "int (length buf) \<le> limit"
  shows "int (length (fst (cap_write limit buf p))) \<le> limit" and "snd (cap_write limit buf p) = int (length p)"
  using assms by (auto simp: cap_write_def Let_def)

end
