(* ===== verification/ServerStore.thy ===== *)
theory ServerStore
  imports SemVer
begin

section \<open>The server's tables and tenant scopes\<close>

text \<open>
  What the operations of \<open>internal/server/storage\<close> share: the rows of the tables \<open>devices\<close>,
  \<open>tasks\<close>, \<open>device_software\<close>, \<open>device_group_members\<close> and \<open>audit_log\<close>, the tenant scope of a
  context (\<open>tx.go\<close>, \<open>scope.go\<close>) and the row-level security of migration 046: a query sees and
  changes only the rows of the tenant bound to its transaction, and inserts only such rows.

  A table is the list of its rows in the order of insertion.  Identifiers are strings; the uuid
  syntax is checked by the database and is left to the caller here.  Fresh identifiers and the
  database's \<open>now()\<close> are arguments.  An operation returns its error, in which case nothing
  was changed, or its result and the new database.
\<close>

subsection \<open>Rows\<close>

record device_row =
  dv_id :: string
  dv_tenant :: string
  dv_cn :: string
  dv_fp :: string
  dv_os :: string
  dv_status :: string
  dv_version :: string
  dv_lock_status :: string
  dv_lock_hash :: string
  dv_lock_reason :: string
  dv_lock_mode :: string
  dv_lock_request :: string
  dv_lock_actual :: string

datatype row_status = Pending | Acked | Completed | Failed

datatype task_type = TScript | TLock | TDecommission | TReboot | TUninstall | TProvision | TScreen

text \<open>\<open>UninstallTarget\<close>.\<close>

record uninstall_target =
  ut_name :: string
  ut_version :: string
  ut_uid :: string
  ut_location :: string
  ut_method :: string
  ut_scope :: string
  ut_reason :: string

definition no_target :: uninstall_target where
  "no_target = \<lparr>ut_name = [], ut_version = [], ut_uid = [], ut_location = [], ut_method = [], ut_scope = [], ut_reason = []\<rparr>"

record task_row =
  tk_id :: string
  tk_device :: string
  tk_tenant :: string
  tk_script :: string
  tk_platform :: string
  tk_priority :: string
  tk_status :: row_status
  tk_output :: string
  tk_error :: string
  tk_created :: nanos
  tk_acked :: nanos
  tk_completed :: nanos
  tk_type :: task_type
  tk_lock_hash :: string
  tk_lock_reason :: string
  tk_lock_unlock :: bool
  tk_lock_mode :: string
  tk_reason :: string
  tk_delay :: int
  tk_target :: uninstall_target
  tk_outcome :: string

record software_row =
  sw_device :: string
  sw_tenant :: string
  sw_name :: string
  sw_version :: string
  sw_uid :: string
  sw_location :: string
  sw_method :: string
  sw_scope :: string

record member_row =
  gm_group :: string
  gm_device :: string
  gm_tenant :: string

record audit_row =
  au_tenant :: string
  au_actor :: string
  au_action :: string
  au_object :: string

record server_db =
  db_devices :: "device_row list"
  db_tasks :: "task_row list"
  db_software :: "software_row list"
  db_members :: "member_row list"
  db_audit :: "audit_row list"

text \<open>The defaults of the columns an \<open>INSERT\<close> leaves out; \<open>default_tenant\<close> is that of migration 045.\<close>

definition default_tenant :: string where
  "default_tenant = ''00000000-0000-4000-8000-000000000001''"

definition nil_tenant :: string where
  "nil_tenant = ''00000000-0000-0000-0000-000000000000''"

definition blank_task :: "string \<Rightarrow> string \<Rightarrow> nanos \<Rightarrow> task_row" where
  "blank_task i d now = \<lparr>tk_id = i, tk_device = d, tk_tenant = default_tenant, tk_script = [], tk_platform = [],
     tk_priority = [], tk_status = Pending, tk_output = [], tk_error = [], tk_created = now, tk_acked = 0,
     tk_completed = 0, tk_type = TScript, tk_lock_hash = [], tk_lock_reason = [], tk_lock_unlock = False,
     tk_lock_mode = [], tk_reason = [], tk_delay = 0, tk_target = no_target, tk_outcome = []\<rparr>"

subsection \<open>Errors and scopes\<close>

datatype store_error = ScopeMissing | DeviceNotActive | AgentTooOld | TaskNotOwned | NoDesiredLock
  | NotInInventory | NotRemovableSoftware | NoRows | RlsViolation | RequestNotFound | StatementFailed

type_synonym 'a stored = "store_error + ('a \<times> server_db)"

text \<open>The tenant bound to the transaction of a context, if one is open, and the tenant in the context (empty: none).\<close>

record scope_ctx =
  cx_tx :: "string option"
  cx_tenant :: string

text \<open>\<open>tenancy.Require\<close>, for strings that are uuids or empty.\<close>

definition require_tenant :: "string \<Rightarrow> store_error + string" where
  "require_tenant t = (if t = [] \<or> t = nil_tenant then Inl ScopeMissing else Inr t)"

text \<open>\<open>BindTenant\<close>: an open transaction is used as it is.\<close>

definition bind_tenant :: "scope_ctx \<Rightarrow> string \<Rightarrow> store_error + string" where
  "bind_tenant cx t = (case require_tenant t of
     Inl e \<Rightarrow> Inl e
   | Inr t' \<Rightarrow> Inr (case cx_tx cx of Some b \<Rightarrow> b | None \<Rightarrow> t'))"

definition scope_for :: "scope_ctx \<Rightarrow> string \<Rightarrow> store_error + string" where
  "scope_for cx t =
     (let t' = (if t = [] then cx_tenant cx else t)
      in case cx_tx cx of Some b \<Rightarrow> Inr b | None \<Rightarrow> bind_tenant cx t')"

text \<open>\<open>beginScoped\<close>: an open transaction, or a new one for the tenant of the context.\<close>

definition begin_scoped :: "scope_ctx \<Rightarrow> store_error + string" where
  "begin_scoped cx = (case cx_tx cx of Some tn \<Rightarrow> Inr tn
     | None \<Rightarrow> if cx_tenant cx = [] then Inl ScopeMissing else Inr (cx_tenant cx))"

text \<open>The scope of an operation that takes its tenant as an argument: the tenant and the one bound to the transaction.\<close>

definition arg_scope :: "scope_ctx \<Rightarrow> string \<Rightarrow> store_error + (string \<times> string)" where
  "arg_scope cx t = (case require_tenant t of Inl e \<Rightarrow> Inl e
     | Inr t' \<Rightarrow> (case cx_tx cx of Some b \<Rightarrow> Inr (t', b)
        | None \<Rightarrow> (case bind_tenant cx t' of Inl e \<Rightarrow> Inl e | Inr b \<Rightarrow> Inr (t', b))))"

definition device_by_id :: "server_db \<Rightarrow> string \<Rightarrow> device_row option" where
  "device_by_id db i = find (\<lambda>d. dv_id d = i) (db_devices db)"

definition bind_for_device :: "scope_ctx \<Rightarrow> server_db \<Rightarrow> string \<Rightarrow> store_error + string" where
  "bind_for_device cx db dev = (case cx_tx cx of
     Some b \<Rightarrow> Inr b
   | None \<Rightarrow> (case device_by_id db dev of
       None \<Rightarrow> Inl ScopeMissing
     | Some d \<Rightarrow> if dv_tenant d = [] then Inl ScopeMissing else bind_tenant cx (dv_tenant d)))"

definition task_by_id :: "server_db \<Rightarrow> string \<Rightarrow> task_row option" where
  "task_by_id db i = find (\<lambda>t. tk_id t = i) (db_tasks db)"

definition bind_for_task :: "scope_ctx \<Rightarrow> server_db \<Rightarrow> string \<Rightarrow> store_error + string" where
  "bind_for_task cx db i = (case cx_tx cx of
     Some b \<Rightarrow> Inr b
   | None \<Rightarrow> (case task_by_id db i of
       None \<Rightarrow> Inl ScopeMissing
     | Some t \<Rightarrow> if tk_tenant t = [] then Inl ScopeMissing else bind_tenant cx (tk_tenant t)))"

text \<open>The rows a scope sees.\<close>

definition scoped_device :: "server_db \<Rightarrow> string \<Rightarrow> string \<Rightarrow> device_row option" where
  "scoped_device db tn i = find (\<lambda>d. dv_tenant d = tn \<and> dv_id d = i) (db_devices db)"

definition scoped_tasks :: "server_db \<Rightarrow> string \<Rightarrow> task_row list" where
  "scoped_tasks db tn = filter (\<lambda>t. tk_tenant t = tn) (db_tasks db)"

text \<open>\<open>UPDATE ... WHERE\<close>: the new rows; whether any row was affected is asked with \<open>list_ex\<close>.\<close>

definition update_where :: "('a \<Rightarrow> bool) \<Rightarrow> ('a \<Rightarrow> 'a) \<Rightarrow> 'a list \<Rightarrow> 'a list" where
  "update_where P f xs = map (\<lambda>x. if P x then f x else x) xs"

lemma update_where_Nil [simp]: "update_where P f [] = []"
  by (simp add: update_where_def)

lemma length_update_where [simp]: "length (update_where P f xs) = length xs"
  by (simp add: update_where_def)

lemma set_update_where: "y \<in> set (update_where P f xs) \<longleftrightarrow> (\<exists>x \<in> set xs. y = (if P x then f x else x))"
  by (auto simp: update_where_def)

lemma map_update_where: "(\<And>x. g (f x) = g x) \<Longrightarrow> map g (update_where P f xs) = map g xs"
  by (simp add: update_where_def)

lemma update_where_none: "\<not> list_ex P xs \<Longrightarrow> update_where P f xs = xs"
  by (induction xs) (auto simp: update_where_def list_ex_iff)

lemma filter_update_where_other:
  "(\<And>x. P x \<Longrightarrow> \<not> Q x) \<Longrightarrow> (\<And>x. P x \<Longrightarrow> \<not> Q (f x)) \<Longrightarrow> filter Q (update_where P f xs) = filter Q xs"
  by (induction xs) (auto simp: update_where_def)

subsection \<open>The device of a certificate\<close>

definition device_by_fp :: "server_db \<Rightarrow> string \<Rightarrow> device_row option" where
  "device_by_fp db fp = find (\<lambda>d. dv_fp d = fp) (db_devices db)"

definition device_id_by_fp :: "server_db \<Rightarrow> string \<Rightarrow> string" where
  "device_id_by_fp db fp = (case device_by_fp db fp of None \<Rightarrow> [] | Some d \<Rightarrow> dv_id d)"

definition device_status_by_fp :: "server_db \<Rightarrow> string \<Rightarrow> string" where
  "device_status_by_fp db fp = (case device_by_fp db fp of None \<Rightarrow> [] | Some d \<Rightarrow> dv_status d)"

definition tenant_for_fp :: "server_db \<Rightarrow> string \<Rightarrow> string" where
  "tenant_for_fp db fp = (case device_by_fp db fp of
     None \<Rightarrow> default_tenant | Some d \<Rightarrow> if dv_tenant d = [] then default_tenant else dv_tenant d)"

text \<open>\<open>scopeByFingerprint\<close> on a request's context: a transaction bound to the tenant of the device.\<close>

definition scope_by_fp :: "server_db \<Rightarrow> string \<Rightarrow> scope_ctx" where
  "scope_by_fp db fp = \<lparr>cx_tx = Some (tenant_for_fp db fp), cx_tenant = tenant_for_fp db fp\<rparr>"

subsection \<open>The gate of agent versions\<close>

definition min_agent_version :: "task_type \<Rightarrow> string option" where
  "min_agent_version t = (case t of
     TProvision \<Rightarrow> Some ''2.5.8'' | TScreen \<Rightarrow> Some ''2.6.0'' | _ \<Rightarrow> None)"

definition assert_agent_supports :: "server_db \<Rightarrow> string \<Rightarrow> string \<Rightarrow> task_type \<Rightarrow> store_error + unit" where
  "assert_agent_supports db tn dev t = (case min_agent_version t of
     None \<Rightarrow> Inr ()
   | Some need \<Rightarrow> (case scoped_device db tn dev of
       None \<Rightarrow> Inl NoRows
     | Some d \<Rightarrow> (case is_newer_err (dv_version d) need of
         None \<Rightarrow> Inl AgentTooOld
       | Some older \<Rightarrow> if older then Inl AgentTooOld else Inr ())))"

subsection \<open>Well-formed databases\<close>

text \<open>Primary keys, the unique fingerprints, and the tenant of a task, which is that of its device.\<close>

definition keys_ok :: "server_db \<Rightarrow> bool" where
  "keys_ok db \<longleftrightarrow> distinct (map dv_id (db_devices db)) \<and> distinct (map dv_fp (db_devices db)) \<and>
     distinct (map tk_id (db_tasks db)) \<and> list_all (\<lambda>d. dv_tenant d \<noteq> [] \<and> dv_id d \<noteq> []) (db_devices db)"

definition tenants_ok :: "server_db \<Rightarrow> bool" where
  "tenants_ok db \<longleftrightarrow> list_all (\<lambda>t. list_ex (\<lambda>d. dv_id d = tk_device t \<and> dv_tenant d = tk_tenant t) (db_devices db)) (db_tasks db)"

lemma device_unique:
  "keys_ok db \<Longrightarrow> d \<in> set (db_devices db) \<Longrightarrow> e \<in> set (db_devices db) \<Longrightarrow> dv_id d = dv_id e \<Longrightarrow> d = e"
  by (auto simp: keys_ok_def distinct_map dest: inj_onD)

lemma device_named: "keys_ok db \<Longrightarrow> d \<in> set (db_devices db) \<Longrightarrow> dv_id d \<noteq> [] \<and> dv_tenant d \<noteq> []"
  by (auto simp: keys_ok_def list_all_iff)

lemma keys_ok_update:
  assumes "keys_ok db" and f: "\<And>d. dv_id (f d) = dv_id d \<and> dv_fp (f d) = dv_fp d \<and> dv_tenant (f d) = dv_tenant d"
  shows "keys_ok (db\<lparr>db_devices := update_where P f (db_devices db)\<rparr>)"
proof -
  have "map dv_id (update_where P f (db_devices db)) = map dv_id (db_devices db)"
    "map dv_fp (update_where P f (db_devices db)) = map dv_fp (db_devices db)"
    using f by (simp_all add: map_update_where)
  moreover have "list_all (\<lambda>d. dv_tenant d \<noteq> [] \<and> dv_id d \<noteq> []) (update_where P f (db_devices db))"
    unfolding list_all_iff
  proof
    fix e assume "e \<in> set (update_where P f (db_devices db))"
    then obtain d where d: "d \<in> set (db_devices db)" "e = (if P d then f d else d)" by (auto simp: set_update_where)
    show "dv_tenant e \<noteq> [] \<and> dv_id e \<noteq> []" using device_named [OF assms(1) d(1)] f [of d] d(2) by simp
  qed
  ultimately show ?thesis using assms(1) by (simp add: keys_ok_def)
qed

end
