(* ===== verification/ServerTasks.thy ===== *)
theory ServerTasks
  imports ServerStore Executor
begin

section \<open>Tasks on the server\<close>

text \<open>
  The task operations of \<open>storage/postgres.go\<close>, their delivery by \<open>worker.go\<close> and
  \<open>registry.go\<close>, and the calls of \<open>gateway.go\<close> by which a device acknowledges a task and reports
  its result.  The partial unique indexes of migrations 037 and 043 are \<open>conflicts\<close>.
\<close>

subsection \<open>Creation\<close>

text \<open>The unique indexes: the primary key, one pending reboot of a device, one pending removal of a target of a device.\<close>

definition clash :: "task_row \<Rightarrow> task_row \<Rightarrow> bool" where
  "clash t r \<longleftrightarrow> tk_id t = tk_id r \<or>
     (tk_status t = Pending \<and> tk_status r = Pending \<and> tk_device t = tk_device r \<and> tk_type t = tk_type r \<and>
      (tk_type r = TReboot \<or> (tk_type r = TUninstall \<and> ut_name (tk_target t) = ut_name (tk_target r) \<and>
        ut_uid (tk_target t) = ut_uid (tk_target r))))"

definition conflicts :: "task_row list \<Rightarrow> task_row \<Rightarrow> bool" where
  "conflicts ts r \<longleftrightarrow> list_ex (\<lambda>t. clash t r) ts"

text \<open>\<open>INSERT INTO tasks ... ON CONFLICT DO NOTHING\<close> of one row in the scope \<open>tn\<close>; \<open>None\<close> is no row returned.\<close>

definition insert_task :: "string \<Rightarrow> task_row \<Rightarrow> server_db \<Rightarrow> store_error + (task_row option \<times> server_db)" where
  "insert_task tn r db =
     (if tk_tenant r \<noteq> tn then Inl RlsViolation
      else if conflicts (db_tasks db) r then Inr (None, db)
      else Inr (Some r, db\<lparr>db_tasks := db_tasks db @ [r]\<rparr>))"

definition or_unknown :: "string \<Rightarrow> string" where
  "or_unknown os = (if os = [] then ''unknown'' else os)"

definition create_task :: "scope_ctx \<Rightarrow> string \<Rightarrow> nanos \<Rightarrow> string \<Rightarrow> string \<Rightarrow> string \<Rightarrow> string \<Rightarrow> server_db \<Rightarrow> task_row stored" where
  "create_task cx i now dev script platform priority db =
     (case bind_for_device cx db dev of Inl e \<Rightarrow> Inl e
      | Inr tn \<Rightarrow> (case assert_agent_supports db tn dev TScript of Inl e \<Rightarrow> Inl e
        | Inr _ \<Rightarrow> (case scoped_device db tn dev of None \<Rightarrow> Inl DeviceNotActive
          | Some d \<Rightarrow> if dv_status d \<noteq> ''active'' then Inl DeviceNotActive
             else (case insert_task tn ((blank_task i dev now)\<lparr>tk_script := script, tk_platform := platform,
                     tk_priority := priority, tk_tenant := dv_tenant d\<rparr>) db of
                 Inl e \<Rightarrow> Inl e
               | Inr (None, _) \<Rightarrow> Inl DeviceNotActive
               | Inr (Some t, db') \<Rightarrow> Inr (t, db')))))"

text \<open>The commands share the shape: bind, gate, insert for the device whatever its status.\<close>

definition insert_command :: "scope_ctx \<Rightarrow> task_type \<Rightarrow> string \<Rightarrow> (device_row \<Rightarrow> task_row) \<Rightarrow> server_db
    \<Rightarrow> store_error + (string \<times> task_row option \<times> server_db)" where
  "insert_command cx ty dev row db =
     (case bind_for_device cx db dev of Inl e \<Rightarrow> Inl e
      | Inr tn \<Rightarrow> (case assert_agent_supports db tn dev ty of Inl e \<Rightarrow> Inl e
        | Inr _ \<Rightarrow> (case scoped_device db tn dev of None \<Rightarrow> Inr (tn, None, db)
          | Some d \<Rightarrow> map_sum id (\<lambda>(r, db'). (tn, r, db')) (insert_task tn (row d) db))))"

definition command_row :: "string \<Rightarrow> nanos \<Rightarrow> task_type \<Rightarrow> string \<Rightarrow> device_row \<Rightarrow> task_row" where
  "command_row i now ty priority d = (blank_task i (dv_id d) now)\<lparr>tk_platform := or_unknown (dv_os d),
     tk_priority := priority, tk_type := ty, tk_tenant := dv_tenant d\<rparr>"

definition create_lock_task :: "scope_ctx \<Rightarrow> string \<Rightarrow> nanos \<Rightarrow> string \<Rightarrow> string \<Rightarrow> string \<Rightarrow> bool \<Rightarrow> string \<Rightarrow> server_db \<Rightarrow> task_row stored" where
  "create_lock_task cx i now dev pw_hash why unl mode db =
     (let m = (if mode = [] then ''overlay'' else mode)
      in case insert_command cx TLock dev (\<lambda>d. (command_row i now TLock ''high'' d)\<lparr>tk_lock_hash := pw_hash,
             tk_lock_reason := why, tk_lock_unlock := unl, tk_lock_mode := m\<rparr>) db of
           Inl e \<Rightarrow> Inl e | Inr (_, None, _) \<Rightarrow> Inl NoRows | Inr (_, Some t, db') \<Rightarrow> Inr (t, db'))"

definition create_decommission_task :: "scope_ctx \<Rightarrow> string \<Rightarrow> nanos \<Rightarrow> string \<Rightarrow> server_db \<Rightarrow> task_row stored" where
  "create_decommission_task cx i now dev db =
     (case insert_command cx TDecommission dev (command_row i now TDecommission ''high'') db of
        Inl e \<Rightarrow> Inl e | Inr (_, None, _) \<Rightarrow> Inl NoRows | Inr (_, Some t, db') \<Rightarrow> Inr (t, db'))"

text \<open>When nothing was inserted the waiting command is returned.\<close>

definition insert_or_find :: "scope_ctx \<Rightarrow> task_type \<Rightarrow> string \<Rightarrow> (device_row \<Rightarrow> task_row) \<Rightarrow> (task_row \<Rightarrow> bool)
    \<Rightarrow> server_db \<Rightarrow> task_row stored" where
  "insert_or_find cx ty dev row same db =
     (case insert_command cx ty dev row db of
        Inl e \<Rightarrow> Inl e
      | Inr (_, Some t, db') \<Rightarrow> Inr (t, db')
      | Inr (tn, None, db') \<Rightarrow>
          (case find (\<lambda>t. tk_device t = dev \<and> tk_type t = ty \<and> tk_status t = Pending \<and> same t) (scoped_tasks db' tn) of
             None \<Rightarrow> Inl NoRows | Some t \<Rightarrow> Inr (t, db')))"

definition create_reboot_task :: "scope_ctx \<Rightarrow> string \<Rightarrow> nanos \<Rightarrow> string \<Rightarrow> string \<Rightarrow> int \<Rightarrow> server_db \<Rightarrow> task_row stored" where
  "create_reboot_task cx i now dev why delay db =
     insert_or_find cx TReboot dev (\<lambda>d. (command_row i now TReboot ''high'' d)\<lparr>tk_reason := why,
       tk_delay := (if delay < 0 then 0 else delay)\<rparr>) (\<lambda>_. True) db"

definition create_provision_task :: "scope_ctx \<Rightarrow> string \<Rightarrow> nanos \<Rightarrow> string \<Rightarrow> string \<Rightarrow> server_db \<Rightarrow> task_row stored" where
  "create_provision_task cx i now dev why db =
     insert_or_find cx TProvision dev (\<lambda>d. (command_row i now TProvision ''normal'' d)\<lparr>tk_reason := why\<rparr>) (\<lambda>_. True) db"

text \<open>\<open>pick\<close> stands for the row the database chooses under \<open>LIMIT 1\<close>.\<close>

definition create_uninstall_task :: "(software_row list \<Rightarrow> software_row) \<Rightarrow> scope_ctx \<Rightarrow> string \<Rightarrow> nanos \<Rightarrow> string \<Rightarrow> string \<Rightarrow> string
    \<Rightarrow> string \<Rightarrow> server_db \<Rightarrow> task_row stored" where
  "create_uninstall_task pick cx i now dev name uid why db =
     (case bind_for_device cx db dev of Inl e \<Rightarrow> Inl e
      | Inr tn \<Rightarrow> (case assert_agent_supports db tn dev TUninstall of Inl e \<Rightarrow> Inl e
        | Inr _ \<Rightarrow>
          if \<not> list_ex (\<lambda>d. dv_tenant d = tn \<and> dv_id d = dev \<and> dv_status d = ''active'') (db_devices db) then Inl DeviceNotActive
          else (case filter (\<lambda>s. sw_tenant s = tn \<and> sw_device s = dev \<and> sw_name s = name \<and> sw_uid s = uid) (db_software db) of
              [] \<Rightarrow> Inl NotInInventory
            | s # ss \<Rightarrow>
                (let w = pick (s # ss);
                     tgt = \<lparr>ut_name = sw_name w, ut_version = sw_version w, ut_uid = sw_uid w, ut_location = sw_location w,
                            ut_method = sw_method w, ut_scope = sw_scope w, ut_reason = why\<rparr>
                 in if sw_method w = [] then Inl NotRemovableSoftware
                    else insert_or_find \<lparr>cx_tx = Some tn, cx_tenant = tn\<rparr> TUninstall dev
                      (\<lambda>d. (command_row i now TUninstall ''high'' d)\<lparr>tk_target := tgt\<rparr>)
                      (\<lambda>t. ut_name (tk_target t) = ut_name tgt \<and> ut_uid (tk_target t) = ut_uid tgt) db))))"

subsection \<open>Groups\<close>

definition platform_of_os :: "string \<Rightarrow> string" where
  "platform_of_os os =
     (let l = to_lower os
      in if contains_str l ''win'' then ''Windows''
         else if contains_str l ''mac'' \<or> contains_str l ''darwin'' then ''macOS''
         else ''Linux'')"

text \<open>The devices of a group in the join of the two queries.\<close>

definition group_devices :: "string \<Rightarrow> string \<Rightarrow> server_db \<Rightarrow> device_row list" where
  "group_devices tn g db =
     concat (map (\<lambda>m. filter (\<lambda>d. dv_tenant d = tn \<and> dv_id d = gm_device m \<and> dv_status d = ''active'') (db_devices db))
       (filter (\<lambda>m. gm_tenant m = tn \<and> gm_group m = g) (db_members db)))"

text \<open>One statement: the first row that the policy refuses fails it as a whole.\<close>

fun insert_all :: "string \<Rightarrow> task_row list \<Rightarrow> server_db \<Rightarrow> (task_row list) stored" where
  "insert_all tn [] db = Inr ([], db)"
| "insert_all tn (r # rs) db = (case insert_task tn r db of
     Inl e \<Rightarrow> Inl e
   | Inr (x, db') \<Rightarrow> (case insert_all tn rs db' of
       Inl e \<Rightarrow> Inl e
     | Inr (ts, db'') \<Rightarrow> Inr ((case x of Some t \<Rightarrow> [t] | None \<Rightarrow> []) @ ts, db'')))"

text \<open>\<open>fresh\<close> gives the identifier of the row made for a device.\<close>

definition fan_out_reboot :: "scope_ctx \<Rightarrow> (string \<Rightarrow> string) \<Rightarrow> nanos \<Rightarrow> string \<Rightarrow> string \<Rightarrow> int \<Rightarrow> server_db \<Rightarrow> (task_row list) stored" where
  "fan_out_reboot cx fresh now g why delay db =
     (case scope_for cx [] of Inl e \<Rightarrow> Inl e
      | Inr tn \<Rightarrow> insert_all tn
          (map (\<lambda>d. (blank_task (fresh (dv_id d)) (dv_id d) now)\<lparr>tk_platform := or_unknown (dv_os d), tk_priority := ''high'',
                 tk_type := TReboot, tk_reason := why, tk_delay := (if delay < 0 then 0 else delay)\<rparr>)
             (group_devices tn g db)) db)"

definition fan_out_script :: "scope_ctx \<Rightarrow> (string \<Rightarrow> string) \<Rightarrow> nanos \<Rightarrow> string \<Rightarrow> string \<Rightarrow> string \<Rightarrow> string \<Rightarrow> server_db
    \<Rightarrow> (task_row list) stored" where
  "fan_out_script cx fresh now g script platform priority db =
     (case scope_for cx [] of Inl e \<Rightarrow> Inl e
      | Inr tn \<Rightarrow> insert_all tn
          (map (\<lambda>d. (blank_task (fresh (dv_id d)) (dv_id d) now)\<lparr>tk_script := script, tk_platform := platform, tk_priority := priority\<rparr>)
             (filter (\<lambda>d. platform_of_os (dv_os d) = platform_of_os platform) (group_devices tn g db))) db)"

definition count_active_in_group :: "scope_ctx \<Rightarrow> string \<Rightarrow> server_db \<Rightarrow> store_error + nat" where
  "count_active_in_group cx g db = (case scope_for cx [] of Inl e \<Rightarrow> Inl e | Inr tn \<Rightarrow> Inr (length (group_devices tn g db)))"

subsection \<open>Acknowledgement, result and timeout\<close>

text \<open>An empty device identifier is no uuid: the statement fails.\<close>

definition owns :: "string \<Rightarrow> string \<Rightarrow> string \<Rightarrow> task_row \<Rightarrow> bool" where
  "owns tn i dev t \<longleftrightarrow> tk_tenant t = tn \<and> tk_id t = i \<and> tk_device t = dev"

definition ack_task :: "scope_ctx \<Rightarrow> nanos \<Rightarrow> string \<Rightarrow> string \<Rightarrow> server_db \<Rightarrow> unit stored" where
  "ack_task cx now i dev db = (case bind_for_device cx db dev of Inl e \<Rightarrow> Inl e
     | Inr tn \<Rightarrow>
        if dev = [] then Inl StatementFailed
        else if \<not> list_ex (owns tn i dev) (db_tasks db) then Inl TaskNotOwned
        else Inr ((), db\<lparr>db_tasks := update_where (owns tn i dev)
               (\<lambda>t. t\<lparr>tk_status := Acked, tk_acked := now\<rparr>) (db_tasks db)\<rparr>))"

definition complete_task :: "scope_ctx \<Rightarrow> nanos \<Rightarrow> string \<Rightarrow> string \<Rightarrow> row_status \<Rightarrow> string \<Rightarrow> string \<Rightarrow> server_db
    \<Rightarrow> (row_status \<times> task_type) stored" where
  "complete_task cx now i dev st out err db = (case bind_for_device cx db dev of Inl e \<Rightarrow> Inl e
     | Inr tn \<Rightarrow>
        if dev = [] then Inl StatementFailed
        else (case find (owns tn i dev) (db_tasks db) of
            None \<Rightarrow> Inl TaskNotOwned
          | Some old \<Rightarrow> Inr ((tk_status old, tk_type old), db\<lparr>db_tasks := update_where (owns tn i dev)
               (\<lambda>t. t\<lparr>tk_status := st, tk_output := out, tk_error := err, tk_completed := now\<rparr>) (db_tasks db)\<rparr>)))"

definition stale_acked_timeout_minutes :: int where "stale_acked_timeout_minutes = 15"

definition stale :: "string \<Rightarrow> nanos \<Rightarrow> int \<Rightarrow> task_row \<Rightarrow> bool" where
  "stale tn now mins t \<longleftrightarrow> tk_tenant t = tn \<and> tk_status t = Acked \<and> tk_type t \<noteq> TLock \<and> tk_acked t < now - mins * minute"

definition fail_stale_acked :: "scope_ctx \<Rightarrow> nanos \<Rightarrow> int \<Rightarrow> server_db \<Rightarrow> nat stored" where
  "fail_stale_acked cx now mins db = (case scope_for cx [] of Inl e \<Rightarrow> Inl e
     | Inr tn \<Rightarrow> Inr (length (filter (stale tn now mins) (db_tasks db)),
         db\<lparr>db_tasks := update_where (stale tn now mins)
           (\<lambda>t. t\<lparr>tk_status := Failed, tk_error := ''timeout'', tk_completed := now\<rparr>) (db_tasks db)\<rparr>))"

definition set_uninstall_outcome :: "scope_ctx \<Rightarrow> string \<Rightarrow> string \<Rightarrow> string \<Rightarrow> server_db \<Rightarrow> unit stored" where
  "set_uninstall_outcome cx i dev outcome db = (case scope_for cx [] of Inl e \<Rightarrow> Inl e
     | Inr tn \<Rightarrow> Inr ((), db\<lparr>db_tasks := update_where (\<lambda>t. owns tn i dev t \<and> tk_type t = TUninstall)
         (\<lambda>t. t\<lparr>tk_outcome := outcome\<rparr>) (db_tasks db)\<rparr>))"

definition mark_decommissioned :: "scope_ctx \<Rightarrow> string \<Rightarrow> server_db \<Rightarrow> unit stored" where
  "mark_decommissioned cx dev db = (case scope_for cx [] of Inl e \<Rightarrow> Inl e
     | Inr tn \<Rightarrow> Inr ((), db\<lparr>db_devices := update_where (\<lambda>d. dv_tenant d = tn \<and> dv_id d = dev)
         (\<lambda>d. d\<lparr>dv_status := ''decommissioned''\<rparr>) (db_devices db)\<rparr>))"

text \<open>
  The rows of a device go with it (\<open>ON DELETE CASCADE\<close>), follow it to another tenant, or follow their whole tenant.  Whether escrowed
  keys hold a device back (theory \<open>Enrollment\<close>) and whether the new tenant exists are arguments.
\<close>

definition delete_device_rows :: "string \<Rightarrow> string \<Rightarrow> bool \<Rightarrow> server_db \<Rightarrow> server_db" where
  "delete_device_rows tn dev escrow db =
     (if escrow \<or> \<not> list_ex (\<lambda>d. dv_tenant d = tn \<and> dv_id d = dev) (db_devices db) then db
      else db\<lparr>db_devices := filter (\<lambda>d. dv_id d \<noteq> dev) (db_devices db), db_tasks := filter (\<lambda>t. tk_device t \<noteq> dev) (db_tasks db),
              db_software := filter (\<lambda>s. sw_device s \<noteq> dev) (db_software db), db_members := filter (\<lambda>m. gm_device m \<noteq> dev) (db_members db)\<rparr>)"

definition move_device_rows :: "bool \<Rightarrow> string \<Rightarrow> string \<Rightarrow> server_db \<Rightarrow> server_db" where
  "move_device_rows dst_ok dev dst db =
     (if \<not> dst_ok \<or> \<not> list_ex (\<lambda>d. dv_id d = dev) (db_devices db) then db
      else db\<lparr>db_members := filter (\<lambda>m. gm_device m \<noteq> dev) (db_members db),
              db_software := update_where (\<lambda>s. sw_device s = dev) (\<lambda>s. s\<lparr>sw_tenant := dst\<rparr>) (db_software db),
              db_tasks := update_where (\<lambda>t. tk_device t = dev) (\<lambda>t. t\<lparr>tk_tenant := dst\<rparr>) (db_tasks db),
              db_devices := update_where (\<lambda>d. dv_id d = dev) (\<lambda>d. d\<lparr>dv_tenant := dst\<rparr>) (db_devices db)\<rparr>)"

definition reparent_rows :: "string \<Rightarrow> server_db \<Rightarrow> server_db" where
  "reparent_rows src db = (if src = default_tenant then db
      else db\<lparr>db_devices := update_where (\<lambda>d. dv_tenant d = src) (\<lambda>d. d\<lparr>dv_tenant := default_tenant\<rparr>) (db_devices db),
              db_tasks := update_where (\<lambda>t. tk_tenant t = src) (\<lambda>t. t\<lparr>tk_tenant := default_tenant\<rparr>) (db_tasks db),
              db_software := update_where (\<lambda>s. sw_tenant s = src) (\<lambda>s. s\<lparr>sw_tenant := default_tenant\<rparr>) (db_software db),
              db_members := update_where (\<lambda>m. gm_tenant m = src) (\<lambda>m. m\<lparr>gm_tenant := default_tenant\<rparr>) (db_members db)\<rparr>)"

definition write_audit :: "string \<Rightarrow> string \<Rightarrow> string \<Rightarrow> string \<Rightarrow> server_db \<Rightarrow> server_db" where
  "write_audit tn actor action object db =
     db\<lparr>db_audit := db_audit db @ [\<lparr>au_tenant = tn, au_actor = actor, au_action = action, au_object = object\<rparr>]\<rparr>"

subsection \<open>The calls of the gateway\<close>

definition ack_task_received :: "nanos \<Rightarrow> string \<Rightarrow> string \<Rightarrow> server_db \<Rightarrow> bool \<times> server_db" where
  "ack_task_received now fp i db =
     (case ack_task (scope_by_fp db fp) now i (device_id_by_fp db fp) db of
        Inl e \<Rightarrow> (False, db) | Inr (_, db') \<Rightarrow> (True, db'))"

text \<open>A report: whether its status is \<open>ERROR\<close>, the texts and the outcome of a removal, \<open>None\<close> for unspecified.\<close>

record task_report =
  rp_task :: string
  rp_error :: bool
  rp_output :: string
  rp_log :: string
  rp_outcome :: "string option"

text \<open>Which statements after the first fail, and whether the commit does.\<close>

record report_faults =
  rf_outcome :: bool
  rf_audit :: bool
  rf_mark :: bool
  rf_commit :: bool

definition no_faults :: report_faults where
  "no_faults = \<lparr>rf_outcome = False, rf_audit = False, rf_mark = False, rf_commit = False\<rparr>"

text \<open>
  The whole call runs in the one transaction of \<open>scopeByFingerprint\<close>: a statement that fails aborts
  it, and \<open>finish\<close> ignores the error of the commit, so the answer is the one computed but nothing is
  stored.
\<close>

definition or_same :: "server_db \<Rightarrow> unit stored \<Rightarrow> server_db" where
  "or_same db r = (case r of Inl _ \<Rightarrow> db | Inr (_, db') \<Rightarrow> db')"

definition report_task_result :: "report_faults \<Rightarrow> nanos \<Rightarrow> string \<Rightarrow> task_report \<Rightarrow> server_db \<Rightarrow> bool \<times> server_db" where
  "report_task_result f now fp rp db =
     (let cx = scope_by_fp db fp; tn = tenant_for_fp db fp; dev = device_id_by_fp db fp;
          st = (if rp_error rp then Failed else Completed)
      in case complete_task cx now (rp_task rp) dev st (rp_output rp) (rp_log rp) db of
           Inl TaskNotOwned \<Rightarrow> (True, db)
         | Inl _ \<Rightarrow> (False, db)
         | Inr ((prev, ty), db1) \<Rightarrow>
            (let outcome_due = (ty = TUninstall \<and> rp_outcome rp \<noteq> None);
                 db2 = (if outcome_due then or_same db1 (set_uninstall_outcome cx (rp_task rp) dev (the (rp_outcome rp)) db1) else db1);
                 audit_due = (prev = Failed);
                 db3 = (if audit_due then write_audit tn (''agent:'' @ dev) ''late_task_result'' (rp_task rp) db2 else db2);
                 mark_due = (ty = TDecommission \<and> st = Completed);
                 db4 = (if mark_due then or_same db3 (mark_decommissioned cx dev db3) else db3)
             in (True, if (outcome_due \<and> rf_outcome f) \<or> (audit_due \<and> rf_audit f) \<or> (mark_due \<and> rf_mark f) \<or> rf_commit f
                       then db else db4)))"

definition is_cut_off :: "string \<Rightarrow> bool" where
  "is_cut_off s \<longleftrightarrow> s = ''blocked'' \<or> s = ''decommissioned'' \<or> s = ''rejected''"

text \<open>The interceptor before every call: \<open>lookup\<close> is the status, \<open>None\<close> an error of the database.\<close>

datatype guard_result = Pass | PermissionDenied string | GuardInternal | Unauthenticated

definition blocked_guard :: "string option \<Rightarrow> (string \<Rightarrow> string option) \<Rightarrow> guard_result" where
  "blocked_guard cert lookup = (case cert of
     None \<Rightarrow> Unauthenticated
   | Some fp \<Rightarrow> (case lookup fp of
       None \<Rightarrow> GuardInternal
     | Some st \<Rightarrow> if is_cut_off st then PermissionDenied st else Pass))"

text \<open>The decision of \<open>Connect\<close> on a new stream.\<close>

datatype connect_result = Connected | ConnectDenied string | ConnectDeleted | ConnectInternal | ConnectNoCert

definition connect_decision :: "string option \<Rightarrow> (string \<Rightarrow> string option) \<Rightarrow> (string \<Rightarrow> bool option) \<Rightarrow> connect_result" where
  "connect_decision cert lookup revoked = (case cert of
     None \<Rightarrow> ConnectNoCert
   | Some fp \<Rightarrow> (case lookup fp of
       None \<Rightarrow> ConnectInternal
     | Some st \<Rightarrow>
         if is_cut_off st then ConnectDenied st
         else if st = [] then (case revoked fp of
             None \<Rightarrow> ConnectInternal | Some r \<Rightarrow> if r then ConnectDeleted else Connected)
         else Connected))"

subsection \<open>Delivery\<close>

definition lock_mode_to_filevault :: "string \<Rightarrow> bool" where
  "lock_mode_to_filevault m \<longleftrightarrow> m = ''filevault''"

text \<open>The canonical names of the methods; \<open>uninstallMethodFromString\<close> looks the upper-case form up in the enum.\<close>

definition method_names :: "(pb_method \<times> string) list" where
  "method_names = [(PbMsi, ''msi''), (PbWindowsQuiet, ''windows_quiet''), (PbMacAppBundle, ''macos_app_bundle''),
     (PbDpkg, ''dpkg''), (PbRpm, ''rpm''), (PbPacman, ''pacman''), (PbApk, ''apk'')]"

definition uninstall_method_to_string :: "pb_method \<Rightarrow> string" where
  "uninstall_method_to_string m = (case map_of method_names m of None \<Rightarrow> [] | Some n \<Rightarrow> n)"

definition uninstall_method_from_string :: "string \<Rightarrow> pb_method" where
  "uninstall_method_from_string s =
     (case find (\<lambda>(m, n). n = to_lower s) method_names of None \<Rightarrow> PbUnspecified | Some (m, n) \<Rightarrow> m)"

definition proto_task :: "task_row \<Rightarrow> task" where
  "proto_task t = \<lparr>t_id = tk_id t, t_script = tk_script t, t_platform = tk_platform t,
     t_lock = (if tk_type t = TLock then Some \<lparr>lc_request = tk_id t, lc_unlock = tk_lock_unlock t,
         lc_filevault = lock_mode_to_filevault (tk_lock_mode t), lc_hash = tk_lock_hash t, lc_reason = tk_lock_reason t\<rparr> else None),
     t_decommission = (if tk_type t = TDecommission then Some (tk_id t, ''decommissioned by the administrator'') else None),
     t_reboot = (if tk_type t = TReboot then Some \<lparr>rc_request = tk_id t, rc_delay_s = tk_delay t, rc_reason = tk_reason t\<rparr> else None),
     t_uninstall = (if tk_type t = TUninstall then Some \<lparr>uc_request = tk_id t, uc_name = ut_name (tk_target t),
         uc_version = ut_version (tk_target t), uc_id = ut_uid (tk_target t), uc_location = ut_location (tk_target t),
         uc_method = uninstall_method_from_string (ut_method (tk_target t)), uc_scope = ut_scope (tk_target t),
         uc_reason = ut_reason (tk_target t)\<rparr> else None),
     t_provision = (if tk_type t = TProvision then Some (tk_id t, tk_reason t) else None),
     t_screen = None\<rparr>"

text \<open>The registry: the channel of each connected device, the buffers and the closed channels, and the next channel.\<close>

record registry =
  rg_conns :: "string \<Rightarrow> nat option"
  rg_buffer :: "nat \<Rightarrow> task list"
  rg_closed :: "nat \<Rightarrow> bool"
  rg_next :: nat

definition new_registry :: registry where
  "new_registry = \<lparr>rg_conns = (\<lambda>_. None), rg_buffer = (\<lambda>_. []), rg_closed = (\<lambda>_. False), rg_next = 0\<rparr>"

definition channel_size :: nat where "channel_size = 16"

definition register :: "string \<Rightarrow> registry \<Rightarrow> nat \<times> registry" where
  "register cn g = (rg_next g, g\<lparr>rg_conns := (rg_conns g)(cn \<mapsto> rg_next g), rg_buffer := (rg_buffer g)(rg_next g := []),
     rg_closed := (rg_closed g)(rg_next g := False), rg_next := Suc (rg_next g)\<rparr>)"

text \<open>The function \<open>Register\<close> returns: \<open>None\<close> is the panic of closing a closed channel.\<close>

definition unregister :: "string \<Rightarrow> nat \<Rightarrow> registry \<Rightarrow> registry option" where
  "unregister cn c g =
     (if rg_closed g c then None
      else Some (g\<lparr>rg_conns := (if rg_conns g cn = Some c then (rg_conns g)(cn := None) else rg_conns g),
                   rg_closed := (rg_closed g)(c := True)\<rparr>))"

text \<open>\<open>None\<close> is the panic of sending on a closed channel.\<close>

definition send :: "string \<Rightarrow> task \<Rightarrow> registry \<Rightarrow> (bool \<times> registry) option" where
  "send cn m g = (case rg_conns g cn of
     None \<Rightarrow> Some (False, g)
   | Some c \<Rightarrow>
       if rg_closed g c then None
       else if length (rg_buffer g c) < channel_size then
         Some (True, g\<lparr>rg_buffer := (rg_buffer g)(c := rg_buffer g c @ [m])\<rparr>)
       else Some (False, g))"

definition connected :: "registry \<Rightarrow> string \<Rightarrow> bool" where
  "connected g cn \<longleftrightarrow> rg_conns g cn \<noteq> None"

text \<open>The stream's sender takes the oldest message of its channel.\<close>

definition take_message :: "nat \<Rightarrow> registry \<Rightarrow> (task option \<times> registry)" where
  "take_message c g = (case rg_buffer g c of
     [] \<Rightarrow> (None, g) | m # ms \<Rightarrow> (Some m, g\<lparr>rg_buffer := (rg_buffer g)(c := ms)\<rparr>))"

text \<open>
  \<open>ProcessTask\<close>: \<open>retried\<close> is the number of earlier attempts and \<open>conn2\<close> whether the device is found
  connected at the second look.  \<open>Retry\<close> is an error, on which the queue tries again.
\<close>

datatype attempt = NoTask | NotPending | NoCn | Retry | Deferred | Delivered task

definition offline_delivery_retries :: nat where "offline_delivery_retries = 3"

definition process_task :: "nat \<Rightarrow> bool \<Rightarrow> string \<Rightarrow> server_db \<Rightarrow> registry \<Rightarrow> (attempt \<times> registry) option" where
  "process_task retried conn2 i db g = (case bind_for_task \<lparr>cx_tx = None, cx_tenant = []\<rparr> db i of
     Inl e \<Rightarrow> Some (NoTask, g)
   | Inr tn \<Rightarrow> (case find (\<lambda>t. tk_id t = i) (scoped_tasks db tn) of
       None \<Rightarrow> Some (NoTask, g)
     | Some t \<Rightarrow>
        if tk_status t \<noteq> Pending then Some (NotPending, g)
        else (case scoped_device db tn (tk_device t) of
            None \<Rightarrow> Some (NoCn, g)
          | Some d \<Rightarrow>
             if dv_cn d = [] then Some (NoCn, g)
             else if \<not> connected g (dv_cn d) then
               Some (if offline_delivery_retries \<le> retried \<and> \<not> conn2 then Deferred else Retry, g)
             else (case send (dv_cn d) (proto_task t) g of
                 None \<Rightarrow> None
               | Some (ok, g') \<Rightarrow> Some (if ok then Delivered (proto_task t) else Retry, g')))))"

definition deliver_retry_delay :: "nat \<Rightarrow> nanos" where
  "deliver_retry_delay n = (let d = int n * (3 * second) in if d > 30 * second then 30 * second else d)"

text \<open>The tasks \<open>Connect\<close> and the reconciler put into the queue, oldest first; \<open>tenants\<close> is \<open>ListTenants\<close>.\<close>

definition pending_of_device :: "scope_ctx \<Rightarrow> string \<Rightarrow> server_db \<Rightarrow> store_error + task_row list" where
  "pending_of_device cx dev db = (case bind_for_device cx db dev of Inl e \<Rightarrow> Inl e
     | Inr tn \<Rightarrow> Inr (sort_key tk_created (filter (\<lambda>t. tk_device t = dev \<and> tk_status t = Pending) (scoped_tasks db tn))))"

definition pending_of_tenant :: "string \<Rightarrow> server_db \<Rightarrow> (string \<times> string) list" where
  "pending_of_tenant tn db =
     concat (map (\<lambda>t. map (\<lambda>d. (tk_id t, dv_cn d))
         (filter (\<lambda>d. dv_tenant d = tn \<and> dv_id d = tk_device t \<and> dv_cn d \<noteq> []) (db_devices db)))
       (sort_key tk_created (filter (\<lambda>t. tk_status t = Pending) (scoped_tasks db tn))))"

fun list_pending :: "nat \<Rightarrow> string list \<Rightarrow> server_db \<Rightarrow> (string \<times> string) list" where
  "list_pending limit [] db = []"
| "list_pending limit (tn # tns) db =
     (if limit = 0 then []
      else (let refs = take limit (pending_of_tenant tn db)
            in refs @ list_pending (limit - length refs) tns db))"

subsection \<open>Histories\<close>

text \<open>What can happen to the task table: every operation that writes it, by any caller, and the ones that take its rows away or move them
  with a device or a tenant.\<close>

inductive task_step :: "server_db \<Rightarrow> server_db \<Rightarrow> bool" where
  S_script: "create_task cx i now dev sc pf pr db = Inr (t, db') \<Longrightarrow> task_step db db'"
| S_lock: "create_lock_task cx i now dev h r u m db = Inr (t, db') \<Longrightarrow> task_step db db'"
| S_decommission: "create_decommission_task cx i now dev db = Inr (t, db') \<Longrightarrow> task_step db db'"
| S_reboot: "create_reboot_task cx i now dev r d db = Inr (t, db') \<Longrightarrow> task_step db db'"
| S_uninstall: "create_uninstall_task pick cx i now dev n u r db = Inr (t, db') \<Longrightarrow> task_step db db'"
| S_provision: "create_provision_task cx i now dev r db = Inr (t, db') \<Longrightarrow> task_step db db'"
| S_group_reboot: "fan_out_reboot cx fresh now g r d db = Inr (ts, db') \<Longrightarrow> task_step db db'"
| S_group_script: "fan_out_script cx fresh now g sc pf pr db = Inr (ts, db') \<Longrightarrow> task_step db db'"
| S_ack: "ack_task_received now fp i db = (b, db') \<Longrightarrow> task_step db db'"
| S_result: "report_task_result f now fp rp db = (b, db') \<Longrightarrow> task_step db db'"
| S_timeout: "fail_stale_acked cx now mins db = Inr (n, db') \<Longrightarrow> task_step db db'"
| S_delete: "task_step db (delete_device_rows tn dev escrow db)"
| S_move: "task_step db (move_device_rows dst_ok dev dst db)"
| S_reparent: "task_step db (reparent_rows src db)"

subsection \<open>The invariant of the table\<close>

definition no_clash :: "task_row list \<Rightarrow> bool" where
  "no_clash ts \<longleftrightarrow> sorted_wrt (\<lambda>t r. \<not> clash t r) ts"

definition tasks_ok :: "server_db \<Rightarrow> bool" where
  "tasks_ok db \<longleftrightarrow> no_clash (db_tasks db) \<and> tenants_ok db"

lemma tenants_okI:
  "(\<And>t. t \<in> set (db_tasks db) \<Longrightarrow> \<exists>d \<in> set (db_devices db). dv_id d = tk_device t \<and> dv_tenant d = tk_tenant t) \<Longrightarrow> tenants_ok db"
  by (simp add: tenants_ok_def list_all_iff list_ex_iff)

lemma tenants_okD:
  "tenants_ok db \<Longrightarrow> t \<in> set (db_tasks db) \<Longrightarrow> \<exists>d \<in> set (db_devices db). dv_id d = tk_device t \<and> dv_tenant d = tk_tenant t"
  by (simp add: tenants_ok_def list_all_iff list_ex_iff)

lemma insert_task_ok:
  assumes "insert_task tn r db = Inr (x, db')" and "tasks_ok db"
    and "tk_tenant r = tn \<Longrightarrow> \<exists>d \<in> set (db_devices db). dv_id d = tk_device r \<and> dv_tenant d = tk_tenant r"
  shows "tasks_ok db' \<and> db_devices db' = db_devices db"
  using assms unfolding insert_task_def tasks_ok_def no_clash_def tenants_ok_def conflicts_def
  by (auto split: if_splits simp: sorted_wrt_append list_ex_iff)

lemma clash_mono:
  assumes "clash t' r'"
    and "tk_id t' = tk_id t \<and> tk_device t' = tk_device t \<and> tk_type t' = tk_type t \<and> tk_target t' = tk_target t
        \<and> (tk_status t' = Pending \<longrightarrow> tk_status t = Pending)"
    and "tk_id r' = tk_id r \<and> tk_device r' = tk_device r \<and> tk_type r' = tk_type r \<and> tk_target r' = tk_target r
        \<and> (tk_status r' = Pending \<longrightarrow> tk_status r = Pending)"
  shows "clash t r"
  using assms unfolding clash_def by auto

lemma update_where_ok:
  assumes ok: "tasks_ok db"
    and same: "\<And>t. tk_id (f t) = tk_id t \<and> tk_device (f t) = tk_device t \<and> tk_tenant (f t) = tk_tenant t \<and> tk_type (f t) = tk_type t \<and> tk_target (f t) = tk_target t"
    and pend: "\<And>t. tk_status (f t) = Pending \<Longrightarrow> tk_status t = Pending"
  shows "tasks_ok (db\<lparr>db_tasks := update_where P f (db_tasks db)\<rparr>)"
proof -
  let ?u = "\<lambda>x. if P x then f x else x"
  have clash: "clash (?u t) (?u r) \<Longrightarrow> clash t r" for t r
  proof -
    assume c: "clash (?u t) (?u r)"
    have f: "tk_id (?u x) = tk_id x \<and> tk_device (?u x) = tk_device x \<and> tk_type (?u x) = tk_type x \<and> tk_target (?u x) = tk_target x
        \<and> (tk_status (?u x) = Pending \<longrightarrow> tk_status x = Pending)" for x
      using same [of x] pend [of x] by simp
    show "clash t r" using clash_mono [OF c] f [of t] f [of r] by blast
  qed
  have "no_clash (update_where P f (db_tasks db))"
  proof -
    have "sorted_wrt (\<lambda>t r. \<not> clash (?u t) (?u r)) (db_tasks db)"
      using ok clash unfolding tasks_ok_def no_clash_def by (metis (no_types, lifting) sorted_wrt_mono_rel)
    then show ?thesis by (simp add: no_clash_def update_where_def sorted_wrt_map)
  qed
  moreover have "tenants_ok (db\<lparr>db_tasks := update_where P f (db_tasks db)\<rparr>)"
  proof (rule tenants_okI)
    fix t assume "t \<in> set (db_tasks (db\<lparr>db_tasks := update_where P f (db_tasks db)\<rparr>))"
    then obtain s where s: "s \<in> set (db_tasks db)" "t = ?u s" by (auto simp: set_update_where)
    have "tk_device t = tk_device s \<and> tk_tenant t = tk_tenant s" using same [of s] s(2) by simp
    then show "\<exists>d \<in> set (db_devices (db\<lparr>db_tasks := update_where P f (db_tasks db)\<rparr>)). dv_id d = tk_device t \<and> dv_tenant d = tk_tenant t"
      using ok tenants_okD [OF _ s(1)] by (auto simp: tasks_ok_def)
  qed
  ultimately show ?thesis by (simp add: tasks_ok_def)
qed

lemma tasks_ok_devices:
  assumes "tasks_ok db" and "\<And>d. dv_id (f d) = dv_id d \<and> dv_tenant (f d) = dv_tenant d"
  shows "tasks_ok (db\<lparr>db_devices := update_where P f (db_devices db)\<rparr>)"
proof -
  have "tenants_ok (db\<lparr>db_devices := update_where P f (db_devices db)\<rparr>)"
  proof (rule tenants_okI)
    fix t assume "t \<in> set (db_tasks (db\<lparr>db_devices := update_where P f (db_devices db)\<rparr>))"
    then obtain d where d: "d \<in> set (db_devices db)" "dv_id d = tk_device t" "dv_tenant d = tk_tenant t"
      using assms(1) tenants_okD [of db t] by (auto simp: tasks_ok_def)
    show "\<exists>d \<in> set (db_devices (db\<lparr>db_devices := update_where P f (db_devices db)\<rparr>)). dv_id d = tk_device t \<and> dv_tenant d = tk_tenant t"
      using d assms(2) [of d] by (intro bexI [where x = "if P d then f d else d"]) (auto simp: set_update_where)
  qed
  then show ?thesis using assms(1) by (simp add: tasks_ok_def)
qed

lemma scoped_device_some:
  "scoped_device db tn i = Some d \<Longrightarrow> d \<in> set (db_devices db) \<and> dv_tenant d = tn \<and> dv_id d = i"
  unfolding scoped_device_def by (auto simp: find_Some_iff)

lemma insert_command_ok:
  assumes "insert_command cx ty dev row db = Inr (tn, x, db')" and "tasks_ok db"
    and "\<And>d. tk_device (row d) = dv_id d \<and> tk_tenant (row d) = dv_tenant d"
  shows "tasks_ok db'"
proof (cases "bind_for_device cx db dev")
  case (Inr tn')
  then show ?thesis
  proof (cases "scoped_device db tn' dev")
    case None
    then show ?thesis using assms Inr by (auto simp: insert_command_def split: sum.splits)
  next
    case (Some d)
    have "\<exists>x db''. insert_task tn' (row d) db = Inr (x, db'') \<and> db'' = db'"
      using assms(1) Inr Some by (cases "insert_task tn' (row d) db") (auto simp: insert_command_def split: sum.splits)
    then show ?thesis
      using insert_task_ok [OF _ assms(2)] assms(3) [of d] scoped_device_some [OF Some] by metis
  qed
qed (use assms in \<open>simp add: insert_command_def\<close>)

lemma insert_or_find_ok:
  assumes "insert_or_find cx ty dev row same db = Inr (t, db')" and "tasks_ok db"
    and "\<And>d. tk_device (row d) = dv_id d \<and> tk_tenant (row d) = dv_tenant d"
  shows "tasks_ok db'"
  using assms insert_command_ok [OF _ assms(2,3), of cx ty dev]
  unfolding insert_or_find_def by (auto split: sum.splits option.splits)

lemma insert_all_ok:
  "insert_all tn rs db = Inr (ts, db') \<Longrightarrow> tasks_ok db \<Longrightarrow>
   (\<And>r. r \<in> set rs \<Longrightarrow> tk_tenant r = tn \<Longrightarrow> \<exists>d \<in> set (db_devices db). dv_id d = tk_device r \<and> dv_tenant d = tk_tenant r) \<Longrightarrow> tasks_ok db'"
proof (induction rs arbitrary: db ts)
  case (Cons r rs)
  obtain x db1 where i: "insert_task tn r db = Inr (x, db1)"
    using Cons.prems(1) by (auto split: sum.splits)
  obtain ts1 where a: "insert_all tn rs db1 = Inr (ts1, db')"
    using Cons.prems(1) i by (auto split: sum.splits)
  have ok: "tasks_ok db1 \<and> db_devices db1 = db_devices db"
    by (rule insert_task_ok [OF i Cons.prems(2)]) (rule Cons.prems(3), simp)
  show ?case
    by (rule Cons.IH [OF a]) (use ok Cons.prems(3) in auto)
qed simp

lemma ack_task_ok: "ack_task cx now i dev db = Inr (u, db') \<Longrightarrow> tasks_ok db \<Longrightarrow> tasks_ok db'"
  unfolding ack_task_def by (auto split: sum.splits if_splits intro!: update_where_ok)

lemma complete_task_ok:
  "complete_task cx now i dev st out err db = Inr (u, db') \<Longrightarrow> st \<noteq> Pending \<Longrightarrow> tasks_ok db \<Longrightarrow> tasks_ok db'"
  unfolding complete_task_def by (auto split: sum.splits if_splits option.splits intro!: update_where_ok)

lemma set_outcome_ok: "tasks_ok db \<Longrightarrow> tasks_ok (or_same db (set_uninstall_outcome cx i dev oc db))"
  unfolding set_uninstall_outcome_def or_same_def by (auto split: sum.splits intro!: update_where_ok)

lemma mark_ok: "tasks_ok db \<Longrightarrow> tasks_ok (or_same db (mark_decommissioned cx dev db))"
  unfolding mark_decommissioned_def or_same_def by (auto split: sum.splits intro!: tasks_ok_devices)

lemma audit_ok [simp]: "tasks_ok (write_audit tn a b c db) = tasks_ok db"
  by (simp add: tasks_ok_def write_audit_def tenants_ok_def)

lemma report_task_result_ok:
  assumes "report_task_result f now fp rp db = (b, db')" and "tasks_ok db"
  shows "tasks_ok db'"
proof -
  let ?cx = "scope_by_fp db fp" and ?dev = "device_id_by_fp db fp"
  let ?st = "if rp_error rp then Failed else Completed"
  show ?thesis
  proof (cases "complete_task ?cx now (rp_task rp) ?dev ?st (rp_output rp) (rp_log rp) db")
    case (Inl e)
    then show ?thesis using assms by (cases e) (auto simp: report_task_result_def Let_def)
  next
    case (Inr r)
    obtain prev ty db1 where r: "r = ((prev, ty), db1)" by (metis surj_pair)
    have ok1: "tasks_ok db1"
      by (rule complete_task_ok [OF Inr [unfolded r] _ assms(2)]) simp
    show ?thesis
      using assms Inr r ok1 set_outcome_ok mark_ok audit_ok
      unfolding report_task_result_def Let_def by (auto split: if_splits)
  qed
qed

lemma group_device_in: "d \<in> set (group_devices tn g db) \<Longrightarrow> d \<in> set (db_devices db) \<and> dv_tenant d = tn"
  by (auto simp: group_devices_def)

lemma group_device_ex: "d \<in> set (group_devices tn g db) \<Longrightarrow> \<exists>e \<in> set (db_devices db). dv_id e = dv_id d \<and> dv_tenant e = tn"
  using group_device_in by blast

lemma fan_out_reboot_ok: "fan_out_reboot cx fresh now g r d db = Inr (ts, db') \<Longrightarrow> tasks_ok db \<Longrightarrow> tasks_ok db'"
  unfolding fan_out_reboot_def
  by (auto split: sum.splits elim!: insert_all_ok simp: blank_task_def intro!: group_device_ex)

lemma fan_out_script_ok: "fan_out_script cx fresh now g sc pf pr db = Inr (ts, db') \<Longrightarrow> tasks_ok db \<Longrightarrow> tasks_ok db'"
  unfolding fan_out_script_def
  by (auto split: sum.splits elim!: insert_all_ok simp: blank_task_def intro!: group_device_ex)

lemma command_row_owner [simp]:
  "tk_device (command_row i now ty pr d) = dv_id d" "tk_tenant (command_row i now ty pr d) = dv_tenant d"
  by (simp_all add: command_row_def blank_task_def)

lemma create_task_ok:
  assumes "create_task cx i now dev sc pf pr db = Inr (t, db')" and "tasks_ok db"
  shows "tasks_ok db'"
proof -
  obtain tn d where d: "scoped_device db tn dev = Some d"
    and i: "insert_task tn ((blank_task i dev now)\<lparr>tk_script := sc, tk_platform := pf, tk_priority := pr, tk_tenant := dv_tenant d\<rparr>) db
       = Inr (Some t, db')"
    using assms(1) unfolding create_task_def by (auto split: sum.splits option.splits if_splits)
  then show ?thesis using insert_task_ok [OF i assms(2)] scoped_device_some [OF d] by (auto simp: blank_task_def)
qed

lemma create_lock_ok: "create_lock_task cx i now dev h r u m db = Inr (t, db') \<Longrightarrow> tasks_ok db \<Longrightarrow> tasks_ok db'"
  unfolding create_lock_task_def Let_def
  by (auto split: sum.splits option.splits dest!: insert_command_ok)

lemma create_decommission_ok: "create_decommission_task cx i now dev db = Inr (t, db') \<Longrightarrow> tasks_ok db \<Longrightarrow> tasks_ok db'"
  unfolding create_decommission_task_def
  by (auto split: sum.splits option.splits dest!: insert_command_ok)

lemma create_uninstall_ok: "create_uninstall_task pick cx i now dev n u r db = Inr (t, db') \<Longrightarrow> tasks_ok db \<Longrightarrow> tasks_ok db'"
  unfolding create_uninstall_task_def Let_def
  by (auto split: sum.splits list.splits if_splits elim!: insert_or_find_ok)

lemma no_clash_map:
  assumes "no_clash ts" and "\<And>t. tk_id (f t) = tk_id t \<and> tk_device (f t) = tk_device t \<and> tk_type (f t) = tk_type t \<and>
    tk_target (f t) = tk_target t \<and> tk_status (f t) = tk_status t"
  shows "no_clash (map f ts)"
proof -
  have "clash (f t) (f r) = clash t r" for t r by (simp add: clash_def assms(2))
  then show ?thesis using assms(1) by (simp add: no_clash_def sorted_wrt_map)
qed

lemma no_clash_filter: "no_clash ts \<Longrightarrow> no_clash (filter P ts)"
  unfolding no_clash_def by (rule sorted_wrt_filter)

lemma tenants_ok_map:
  assumes "tenants_ok db" and "db_tasks db' = map f (db_tasks db)" and "db_devices db' = map g (db_devices db)"
    and "\<And>t d. dv_id d = tk_device t \<Longrightarrow> dv_tenant d = tk_tenant t \<Longrightarrow> dv_id (g d) = tk_device (f t) \<and> dv_tenant (g d) = tk_tenant (f t)"
  shows "tenants_ok db'"
proof (rule tenants_okI)
  fix r assume "r \<in> set (db_tasks db')"
  then obtain t where t: "t \<in> set (db_tasks db)" "r = f t" using assms(2) by auto
  obtain d where d: "d \<in> set (db_devices db)" "dv_id d = tk_device t" "dv_tenant d = tk_tenant t"
    using tenants_okD [OF assms(1) t(1)] by blast
  then have "g d \<in> set (db_devices db')" using assms(3) by simp
  then show "\<exists>d \<in> set (db_devices db'). dv_id d = tk_device r \<and> dv_tenant d = tk_tenant r"
    using assms(4) [OF d(2,3)] t(2) by blast
qed

lemma delete_rows_ok:
  assumes "tasks_ok db" shows "tasks_ok (delete_device_rows tn dev escrow db)" (is "tasks_ok ?db")
proof (cases "?db = db")
  case False
  then have db: "db_tasks ?db = filter (\<lambda>t. tk_device t \<noteq> dev) (db_tasks db)" "db_devices ?db = filter (\<lambda>d. dv_id d \<noteq> dev) (db_devices db)"
    by (simp_all add: delete_device_rows_def split: if_splits)
  have "tenants_ok ?db"
  proof (rule tenants_okI)
    fix t assume "t \<in> set (db_tasks ?db)"
    then have t: "t \<in> set (db_tasks db)" "tk_device t \<noteq> dev" by (simp_all add: db)
    then show "\<exists>d \<in> set (db_devices ?db). dv_id d = tk_device t \<and> dv_tenant d = tk_tenant t"
      using tenants_okD [OF _ t(1)] assms by (auto simp: db tasks_ok_def)
  qed
  then show ?thesis using assms no_clash_filter by (simp add: db tasks_ok_def)
qed (use assms in simp)

lemma move_rows_ok:
  assumes "tasks_ok db" shows "tasks_ok (move_device_rows dst_ok dev dst db)" (is "tasks_ok ?db")
proof (cases "?db = db")
  case False
  let ?f = "\<lambda>t. if tk_device t = dev then t\<lparr>tk_tenant := dst\<rparr> else t" and ?g = "\<lambda>d. if dv_id d = dev then d\<lparr>dv_tenant := dst\<rparr> else d"
  have db: "db_tasks ?db = map ?f (db_tasks db)" "db_devices ?db = map ?g (db_devices db)"
    using False by (simp_all add: move_device_rows_def update_where_def split: if_splits)
  have "no_clash (map ?f (db_tasks db))" using assms unfolding tasks_ok_def by (intro no_clash_map) simp_all
  moreover have "tenants_ok ?db" using assms unfolding tasks_ok_def by (intro tenants_ok_map [OF _ db]) auto
  ultimately show ?thesis by (simp add: tasks_ok_def db)
qed (use assms in simp)

lemma reparent_rows_ok:
  assumes "tasks_ok db" shows "tasks_ok (reparent_rows src db)" (is "tasks_ok ?db")
proof (cases "?db = db")
  case False
  let ?f = "\<lambda>t. if tk_tenant t = src then t\<lparr>tk_tenant := default_tenant\<rparr> else t"
    and ?g = "\<lambda>d. if dv_tenant d = src then d\<lparr>dv_tenant := default_tenant\<rparr> else d"
  have db: "db_tasks ?db = map ?f (db_tasks db)" "db_devices ?db = map ?g (db_devices db)"
    using False by (simp_all add: reparent_rows_def update_where_def split: if_splits)
  have "no_clash (map ?f (db_tasks db))" using assms unfolding tasks_ok_def by (intro no_clash_map) simp_all
  moreover have "tenants_ok ?db" using assms unfolding tasks_ok_def by (intro tenants_ok_map [OF _ db]) auto
  ultimately show ?thesis by (simp add: tasks_ok_def db)
qed (use assms in simp)

lemma task_step_ok: "task_step db db' \<Longrightarrow> tasks_ok db \<Longrightarrow> tasks_ok db'"
proof (induction rule: task_step.induct)
  case (S_reboot cx i now dev r d db t db')
  then show ?case unfolding create_reboot_task_def by (elim insert_or_find_ok) simp_all
next
  case (S_provision cx i now dev r db t db')
  then show ?case unfolding create_provision_task_def by (elim insert_or_find_ok) simp_all
next
  case (S_ack now fp i db b db')
  then show ?case unfolding ack_task_received_def by (auto split: sum.splits intro: ack_task_ok)
next
  case (S_timeout cx now mins db n db')
  then show ?case unfolding fail_stale_acked_def by (auto split: sum.splits intro!: update_where_ok)
qed (blast intro: create_task_ok create_lock_ok create_decommission_ok create_uninstall_ok fan_out_reboot_ok
      fan_out_script_ok report_task_result_ok delete_rows_ok move_rows_ok reparent_rows_ok)+

lemma no_clash_eq:
  assumes "no_clash ts" and "t \<in> set ts" and "r \<in> set ts" and "clash t r" and "clash r t"
  shows "t = r"
  using assms
proof (induction ts)
  case (Cons x xs)
  then show ?case by (auto simp: no_clash_def)
qed simp

text \<open>Claim C12. However the task table is used, by operators, groups and devices, and whatever devices are deleted or moved to another tenant, a device never has two pending reboots, nor two
  pending removals of the same target; identifiers stay unique and a task belongs to the tenant of its device.\<close>

theorem one_pending_command:
  assumes "rtranclp task_step db0 db" and "tasks_ok db0"
    and "t \<in> set (db_tasks db)" and "r \<in> set (db_tasks db)"
  shows "(tk_id t = tk_id r \<longrightarrow> t = r)
    \<and> (tk_status t = Pending \<and> tk_status r = Pending \<and> tk_device t = tk_device r \<and> tk_type t = TReboot \<and> tk_type r = TReboot
         \<longrightarrow> t = r)
    \<and> (tk_status t = Pending \<and> tk_status r = Pending \<and> tk_device t = tk_device r \<and> tk_type t = TUninstall \<and> tk_type r = TUninstall
         \<and> ut_name (tk_target t) = ut_name (tk_target r) \<and> ut_uid (tk_target t) = ut_uid (tk_target r) \<longrightarrow> t = r)
    \<and> (\<exists>d \<in> set (db_devices db). dv_id d = tk_device t \<and> dv_tenant d = tk_tenant t)"
proof -
  have ok: "tasks_ok db"
    using assms(1,2) by (induction rule: rtranclp_induct) (auto intro: task_step_ok)
  then have nc: "no_clash (db_tasks db)" and tn: "tenants_ok db" by (auto simp: tasks_ok_def)
  have eq: "clash t r \<Longrightarrow> clash r t \<Longrightarrow> t = r" using no_clash_eq [OF nc assms(3,4)] by blast
  show ?thesis
    using eq tenants_okD [OF tn assms(3)] unfolding clash_def by simp
qed

subsection \<open>What a device can do: mailboxes\<close>

text \<open>The abstract table: for each device the status of the tasks it has been given, by identifier.\<close>

type_synonym mailboxes = "string \<Rightarrow> string \<Rightarrow> row_status option"

definition mail :: "server_db \<Rightarrow> mailboxes" where
  "mail db dev i = map_option tk_status (find (\<lambda>t. tk_id t = i \<and> tk_device t = dev) (db_tasks db))"

definition spec_set :: "string \<Rightarrow> string \<Rightarrow> row_status \<Rightarrow> mailboxes \<Rightarrow> mailboxes" where
  "spec_set dev i st m = (if m dev i = None then m else m(dev := (m dev)(i := Some st)))"

lemma find_update_where:
  "(\<And>x. Q (f x) = Q x) \<Longrightarrow> find Q (update_where P f xs) = map_option (\<lambda>x. if P x then f x else x) (find Q xs)"
  by (induction xs) (auto simp: update_where_def)

lemma own_tenant:
  assumes "tasks_ok db" and "keys_ok db" and "t \<in> set (db_tasks db)" and "tk_device t = device_id_by_fp db fp"
  shows "tk_tenant t = tenant_for_fp db fp" and "device_id_by_fp db fp \<noteq> []"
proof -
  obtain d where d: "d \<in> set (db_devices db)" "dv_id d = tk_device t" "dv_tenant d = tk_tenant t"
    using assms(1,3) tenants_okD by (auto simp: tasks_ok_def)
  have nonempty: "dv_tenant d \<noteq> [] \<and> dv_id d \<noteq> []"
    using device_named [OF assms(2) d(1)] by simp
  then show ne: "device_id_by_fp db fp \<noteq> []" using d(2) assms(4) by simp
  then obtain e where e: "device_by_fp db fp = Some e" "dv_id e = dv_id d"
    using d(2) assms(4) by (auto simp: device_id_by_fp_def split: option.splits)
  have "e \<in> set (db_devices db)" using e(1) by (auto simp: device_by_fp_def find_Some_iff)
  then have "e = d" by (rule device_unique [OF assms(2) _ d(1) e(2)])
  then show "tk_tenant t = tenant_for_fp db fp"
    using e(1) d(3) nonempty by (simp add: tenant_for_fp_def)
qed

lemma scope_by_fp_simps [simp]:
  "bind_for_device (scope_by_fp db fp) db' dev = Inr (tenant_for_fp db fp)"
  "scope_for (scope_by_fp db fp) t = Inr (tenant_for_fp db fp)"
  by (simp_all add: scope_by_fp_def bind_for_device_def scope_for_def)

lemma mail_None_iff: "mail db dev i = None \<longleftrightarrow> (\<forall>t \<in> set (db_tasks db). tk_id t = i \<longrightarrow> tk_device t \<noteq> dev)"
  by (auto simp: mail_def find_None_iff)

lemma mail_update:
  assumes ok: "tasks_ok db" "keys_ok db" and dev: "dev = device_id_by_fp db fp" and tn: "tn = tenant_for_fp db fp"
    and f: "\<And>t. tk_id (f t) = tk_id t \<and> tk_device (f t) = tk_device t" and st: "\<And>t. tk_status (f t) = st"
  shows "mail (db\<lparr>db_tasks := update_where (owns tn i dev) f (db_tasks db)\<rparr>) = spec_set dev i st (mail db)"
proof (intro ext)
  fix dev' i'
  let ?Q = "\<lambda>t. tk_id t = i' \<and> tk_device t = dev'"
  have u: "mail (db\<lparr>db_tasks := update_where (owns tn i dev) f (db_tasks db)\<rparr>) dev' i'
      = map_option tk_status (map_option (\<lambda>x. if owns tn i dev x then f x else x) (find ?Q (db_tasks db)))"
    using f by (simp add: mail_def find_update_where)
  show "mail (db\<lparr>db_tasks := update_where (owns tn i dev) f (db_tasks db)\<rparr>) dev' i' = spec_set dev i st (mail db) dev' i'"
  proof (cases "find ?Q (db_tasks db)")
    case None
    then show ?thesis using u by (auto simp: spec_set_def mail_def)
  next
    case (Some x)
    then have x: "x \<in> set (db_tasks db)" "tk_id x = i'" "tk_device x = dev'" by (auto simp: find_Some_iff)
    have own: "owns tn i dev x \<longleftrightarrow> i = i' \<and> dev = dev'"
      using own_tenant(1) [OF ok x(1), of fp] x dev tn by (auto simp: owns_def)
    show ?thesis
      using u own Some st by (auto simp: spec_set_def mail_def)
  qed
qed

lemma no_own_row:
  assumes "tasks_ok db" and "keys_ok db"
    and "\<not> list_ex (owns (tenant_for_fp db fp) i (device_id_by_fp db fp)) (db_tasks db)"
  shows "mail db (device_id_by_fp db fp) i = None"
  using assms(3) own_tenant(1) [OF assms(1,2), of _ fp]
  by (auto simp: mail_None_iff list_ex_iff owns_def)

lemma no_device_no_mail:
  assumes "tasks_ok db" and "keys_ok db" and "device_id_by_fp db fp = []"
  shows "mail db (device_id_by_fp db fp) i = None"
  using own_tenant(2) [OF assms(1,2), of _ fp] assms(3) by (auto simp: mail_None_iff)

lemma mail_ack:
  assumes "tasks_ok db" and "keys_ok db"
  shows "mail (snd (ack_task_received now fp i db)) = spec_set (device_id_by_fp db fp) i Acked (mail db)"
proof -
  let ?dev = "device_id_by_fp db fp" and ?tn = "tenant_for_fp db fp"
  consider "?dev = []" | "?dev \<noteq> []" "\<not> list_ex (owns ?tn i ?dev) (db_tasks db)"
    | "?dev \<noteq> []" "list_ex (owns ?tn i ?dev) (db_tasks db)" by blast
  then show ?thesis
  proof cases
    case 1
    then show ?thesis using no_device_no_mail [OF assms 1, of i]
      by (simp add: ack_task_received_def ack_task_def spec_set_def)
  next
    case 2
    then show ?thesis using no_own_row [OF assms 2(2)]
      by (simp add: ack_task_received_def ack_task_def spec_set_def)
  next
    case 3
    have "snd (ack_task_received now fp i db) = db\<lparr>db_tasks := update_where (owns ?tn i ?dev)
        (\<lambda>t. t\<lparr>tk_status := Acked, tk_acked := now\<rparr>) (db_tasks db)\<rparr>"
      using 3 by (simp add: ack_task_received_def ack_task_def)
    then show ?thesis using mail_update [OF assms refl refl, where fp = fp and i = i and st = Acked and f = "\<lambda>t. t\<lparr>tk_status := Acked, tk_acked := now\<rparr>"]
      by simp
  qed
qed

lemma mail_same:
  "mail (or_same db (set_uninstall_outcome cx i dev oc db)) = mail db"
  "mail (or_same db (mark_decommissioned cx dev db)) = mail db"
  "mail (write_audit tn a b c db) = mail db"
proof -
  show "mail (or_same db (set_uninstall_outcome cx i dev oc db)) = mail db"
    by (intro ext) (auto simp: or_same_def set_uninstall_outcome_def mail_def find_update_where option.map_comp
      split: sum.splits intro!: option.map_cong)
qed (auto simp: or_same_def mark_decommissioned_def write_audit_def mail_def fun_eq_iff split: sum.splits)

lemma mail_report:
  assumes "tasks_ok db" and "keys_ok db"
  shows "mail (snd (report_task_result no_faults now fp rp db))
    = spec_set (device_id_by_fp db fp) (rp_task rp) (if rp_error rp then Failed else Completed) (mail db)"
proof -
  let ?dev = "device_id_by_fp db fp" and ?tn = "tenant_for_fp db fp" and ?i = "rp_task rp"
  let ?st = "if rp_error rp then Failed else Completed"
  let ?f = "\<lambda>t. t\<lparr>tk_status := ?st, tk_output := rp_output rp, tk_error := rp_log rp, tk_completed := now\<rparr>"
  consider "?dev = []" | "?dev \<noteq> []" "\<not> list_ex (owns ?tn ?i ?dev) (db_tasks db)"
    | "?dev \<noteq> []" "list_ex (owns ?tn ?i ?dev) (db_tasks db)" by blast
  then show ?thesis
  proof cases
    case 1
    then show ?thesis using no_device_no_mail [OF assms 1, of ?i]
      by (simp add: report_task_result_def complete_task_def spec_set_def Let_def)
  next
    case 2
    then have "find (owns ?tn ?i ?dev) (db_tasks db) = None" by (auto simp: find_None_iff list_ex_iff)
    then show ?thesis using 2 no_own_row [OF assms 2(2)]
      by (simp add: report_task_result_def complete_task_def spec_set_def Let_def)
  next
    case 3
    then obtain old where old: "find (owns ?tn ?i ?dev) (db_tasks db) = Some old"
      by (cases "find (owns ?tn ?i ?dev) (db_tasks db)") (auto simp: find_None_iff list_ex_iff)
    let ?db1 = "db\<lparr>db_tasks := update_where (owns ?tn ?i ?dev) ?f (db_tasks db)\<rparr>"
    have "complete_task (scope_by_fp db fp) now ?i ?dev ?st (rp_output rp) (rp_log rp) db = Inr ((tk_status old, tk_type old), ?db1)"
      using 3(1) old by (simp add: complete_task_def)
    then have "mail (snd (report_task_result no_faults now fp rp db)) = mail ?db1"
      by (simp add: report_task_result_def Let_def no_faults_def mail_same)
    then show ?thesis using mail_update [OF assms refl refl, where fp = fp and i = ?i and st = ?st and f = ?f] by simp
  qed
qed

text \<open>Claim C7. Refinement: seen as mailboxes, one per device, an acknowledgement and a report of a device set the status of
  the task they name in the mailbox of that device, and do nothing when it is not there; no call of a device changes
  the status of another device's task, whatever identifier it sends.\<close>

theorem calls_refine_mailboxes:
  assumes "tasks_ok db" and "keys_ok db"
  shows "mail (snd (ack_task_received now fp i db)) = spec_set (device_id_by_fp db fp) i Acked (mail db)
    \<and> mail (snd (report_task_result no_faults now fp rp db))
        = spec_set (device_id_by_fp db fp) (rp_task rp) (if rp_error rp then Failed else Completed) (mail db)"
  using mail_ack [OF assms] mail_report [OF assms] by simp

subsection \<open>Requests made twice\<close>

lemma bind_for_device_tasks [simp]: "bind_for_device cx (db\<lparr>db_tasks := ts\<rparr>) dev = bind_for_device cx db dev"
  by (simp add: bind_for_device_def device_by_id_def split: option.splits)

lemma scoped_device_tasks [simp]: "scoped_device (db\<lparr>db_tasks := ts\<rparr>) tn dev = scoped_device db tn dev"
  by (simp add: scoped_device_def)

lemma assert_tasks [simp]: "assert_agent_supports (db\<lparr>db_tasks := ts\<rparr>) tn dev ty = assert_agent_supports db tn dev ty"
  by (simp add: assert_agent_supports_def split: option.splits)

text \<open>What a request that succeeds has done.\<close>

lemma insert_or_find_cases:
  assumes "insert_or_find cx ty dev row same db = Inr (t, db')" and ok: "tasks_ok db"
    and own: "\<And>d. tk_tenant (row d) = dv_tenant d"
  obtains tn d where "bind_for_device cx db dev = Inr tn" and "assert_agent_supports db tn dev ty = Inr ()"
    and "scoped_device db tn dev = Some d"
    and "(t = row d \<and> db' = db\<lparr>db_tasks := db_tasks db @ [row d]\<rparr> \<and> \<not> conflicts (db_tasks db) (row d))
       \<or> (db' = db \<and> conflicts (db_tasks db) (row d) \<and> t \<in> set (db_tasks db) \<and> tk_tenant t = tn \<and> tk_device t = dev
           \<and> tk_type t = ty \<and> tk_status t = Pending \<and> same t)"
proof -
  obtain tn where b: "bind_for_device cx db dev = Inr tn"
    using assms(1) by (auto simp: insert_or_find_def insert_command_def split: sum.splits)
  have a: "assert_agent_supports db tn dev ty = Inr ()"
    using assms(1) b by (auto simp: insert_or_find_def insert_command_def split: sum.splits)
  show ?thesis
  proof (cases "scoped_device db tn dev")
    case None
    then have "find (\<lambda>t. tk_device t = dev \<and> tk_type t = ty \<and> tk_status t = Pending \<and> same t) (scoped_tasks db tn) = Some t"
      using assms(1) a b by (auto simp: insert_or_find_def insert_command_def split: option.splits)
    then have t: "t \<in> set (db_tasks db)" "tk_tenant t = tn" "tk_device t = dev"
      by (auto simp: find_Some_iff scoped_tasks_def dest: nth_mem)
    then obtain d where "d \<in> set (db_devices db)" "dv_id d = dev" "dv_tenant d = tn"
      using ok tenants_okD [of db t] by (auto simp: tasks_ok_def)
    then show ?thesis using None by (auto simp: scoped_device_def find_None_iff)
  next
    case (Some d)
    have tn: "tk_tenant (row d) = tn" using own [of d] scoped_device_some [OF Some] by simp
    show ?thesis
    proof (cases "conflicts (db_tasks db) (row d)")
      case False
      then show ?thesis using that [OF b a Some] assms(1) a b Some tn
        by (auto simp: insert_or_find_def insert_command_def insert_task_def)
    next
      case True
      then have f: "db' = db \<and> find (\<lambda>t. tk_device t = dev \<and> tk_type t = ty \<and> tk_status t = Pending \<and> same t) (scoped_tasks db tn) = Some t"
        using assms(1) a b Some tn by (auto simp: insert_or_find_def insert_command_def insert_task_def split: option.splits)
      then have "t \<in> set (db_tasks db) \<and> tk_tenant t = tn \<and> tk_device t = dev \<and> tk_type t = ty \<and> tk_status t = Pending \<and> same t"
        by (auto simp: find_Some_iff scoped_tasks_def dest: nth_mem)
      then show ?thesis using that [OF b a Some] True f by blast
    qed
  qed
qed

text \<open>A second reboot request made while the first one is still waiting creates nothing and answers with the waiting
  task, so the agent, which runs an identifier once, reboots once.\<close>

theorem repeated_reboot_is_one_task:
  assumes "create_reboot_task cx i now dev why delay db = Inr (t, db1)" and "tasks_ok db"
  shows "create_reboot_task cx j now' dev why' delay' db1 = Inr (t, db1) \<and> tk_status t = Pending"
proof -
  let ?row = "\<lambda>d. (command_row i now TReboot ''high'' d)\<lparr>tk_reason := why, tk_delay := (if delay < 0 then 0 else delay)\<rparr>"
  let ?row' = "\<lambda>d. (command_row j now' TReboot ''high'' d)\<lparr>tk_reason := why', tk_delay := (if delay' < 0 then 0 else delay')\<rparr>"
  obtain tn d where b: "bind_for_device cx db dev = Inr tn" and a: "assert_agent_supports db tn dev TReboot = Inr ()"
    and d: "scoped_device db tn dev = Some d"
    and r: "(t = ?row d \<and> db1 = db\<lparr>db_tasks := db_tasks db @ [?row d]\<rparr> \<and> \<not> conflicts (db_tasks db) (?row d))
       \<or> (db1 = db \<and> conflicts (db_tasks db) (?row d) \<and> t \<in> set (db_tasks db) \<and> tk_tenant t = tn \<and> tk_device t = dev
           \<and> tk_type t = TReboot \<and> tk_status t = Pending \<and> True)"
    by (rule insert_or_find_cases [OF assms(1) [unfolded create_reboot_task_def] assms(2)]) simp_all
  have dv: "dv_id d = dev" "dv_tenant d = tn" using scoped_device_some [OF d] by auto
  have t: "t \<in> set (db_tasks db1)" "tk_tenant t = tn" "tk_device t = dev" "tk_type t = TReboot" "tk_status t = Pending"
    using r dv by (auto simp: command_row_def blank_task_def)
  have same: "bind_for_device cx db1 dev = Inr tn" "assert_agent_supports db1 tn dev TReboot = Inr ()"
    "scoped_device db1 tn dev = Some d" using r a b d by auto
  have "tasks_ok db1" using insert_or_find_ok [OF assms(1) [unfolded create_reboot_task_def] assms(2)] by simp
  then have nc: "no_clash (db_tasks db1)" by (simp add: tasks_ok_def)
  have "clash t (?row' d)" using t dv by (auto simp: clash_def command_row_def blank_task_def)
  then have c: "conflicts (db_tasks db1) (?row' d)" using t(1) by (auto simp: conflicts_def list_ex_iff)
  let ?Q = "\<lambda>t. tk_device t = dev \<and> tk_type t = TReboot \<and> tk_status t = Pending \<and> True"
  have "find ?Q (scoped_tasks db1 tn) = Some t"
  proof (cases "find ?Q (scoped_tasks db1 tn)")
    case None
    then show ?thesis using t by (auto simp: find_None_iff scoped_tasks_def)
  next
    case (Some u)
    then have u: "u \<in> set (db_tasks db1)" "tk_device u = dev" "tk_type u = TReboot" "tk_status u = Pending"
      by (auto simp: find_Some_iff scoped_tasks_def dest: nth_mem)
    have "u = t"
      by (rule no_clash_eq [OF nc u(1) t(1)]) (use u t in \<open>auto simp: clash_def\<close>)
    then show ?thesis using Some by simp
  qed
  moreover have "insert_command cx TReboot dev ?row' db1 = Inr (tn, None, db1)"
    using same c dv by (simp add: insert_command_def insert_task_def)
  ultimately show ?thesis using t(5) by (simp add: create_reboot_task_def insert_or_find_def)
qed

definition fresh_id :: "server_db \<Rightarrow> string \<Rightarrow> bool" where
  "fresh_id db i \<longleftrightarrow> list_all (\<lambda>t. tk_id t \<noteq> i) (db_tasks db)"

text \<open>A request to finish the provisioning of FileVault is not deduplicated: no index covers that type of task,
  so a second request made while the first is waiting adds a second waiting task for the same device, and its user is
  asked twice.\<close>

theorem repeated_provision_adds_task:
  assumes "create_provision_task cx i now dev why db = Inr (t, db1)" and "tasks_ok db" and "fresh_id db1 j"
  shows "\<exists>t' db2. create_provision_task cx j now' dev why' db1 = Inr (t', db2) \<and> tk_id t' = j
    \<and> {t, t'} \<subseteq> set (db_tasks db2) \<and> tk_id t \<noteq> j \<and> tk_device t = dev \<and> tk_device t' = dev
    \<and> tk_type t = TProvision \<and> tk_type t' = TProvision \<and> tk_status t = Pending \<and> tk_status t' = Pending"
proof -
  let ?row = "\<lambda>d. (command_row i now TProvision ''normal'' d)\<lparr>tk_reason := why\<rparr>"
  let ?row' = "\<lambda>d. (command_row j now' TProvision ''normal'' d)\<lparr>tk_reason := why'\<rparr>"
  obtain tn d where b: "bind_for_device cx db dev = Inr tn" and a: "assert_agent_supports db tn dev TProvision = Inr ()"
    and d: "scoped_device db tn dev = Some d"
    and r: "(t = ?row d \<and> db1 = db\<lparr>db_tasks := db_tasks db @ [?row d]\<rparr> \<and> \<not> conflicts (db_tasks db) (?row d))
       \<or> (db1 = db \<and> conflicts (db_tasks db) (?row d) \<and> t \<in> set (db_tasks db) \<and> tk_tenant t = tn \<and> tk_device t = dev
           \<and> tk_type t = TProvision \<and> tk_status t = Pending \<and> True)"
    by (rule insert_or_find_cases [OF assms(1) [unfolded create_provision_task_def] assms(2)]) simp_all
  have dv: "dv_id d = dev" "dv_tenant d = tn" using scoped_device_some [OF d] by auto
  have t: "t \<in> set (db_tasks db1)" "tk_device t = dev" "tk_type t = TProvision" "tk_status t = Pending"
    using r dv by (auto simp: command_row_def blank_task_def)
  have nc: "\<not> conflicts (db_tasks db1) (?row' d)"
    using assms(3) by (auto simp: conflicts_def list_ex_iff clash_def command_row_def blank_task_def fresh_id_def list_all_iff)
  have "insert_command cx TProvision dev ?row' db1 = Inr (tn, Some (?row' d), db1\<lparr>db_tasks := db_tasks db1 @ [?row' d]\<rparr>)"
    using r a b d nc dv by (auto simp: insert_command_def insert_task_def)
  then have c: "create_provision_task cx j now' dev why' db1 = Inr (?row' d, db1\<lparr>db_tasks := db_tasks db1 @ [?row' d]\<rparr>)"
    by (simp add: create_provision_task_def insert_or_find_def)
  have "tk_id t \<noteq> j" using t(1) assms(3) by (auto simp: fresh_id_def list_all_iff)
  then show ?thesis
    unfolding c using t dv by (auto simp: command_row_def blank_task_def)
qed

subsection \<open>Late acknowledgements, lost results, groups\<close>

lemma owns_self:
  assumes "tasks_ok db" and "keys_ok db" and "t \<in> set (db_tasks db)" and "tk_device t = device_id_by_fp db fp"
  shows "owns (tenant_for_fp db fp) (tk_id t) (device_id_by_fp db fp) t"
  using own_tenant(1) [OF assms] assms(4) by (simp add: owns_def)

text \<open>An acknowledgement that comes after the result reopens the task: the agent acknowledges a task again whenever it
  is delivered again, the server sets it back to "acked" whatever its status, and the sweep of unanswered tasks later
  marks as failed a task that was reported completed.\<close>

theorem late_ack_fails_completed_task:
  assumes "tasks_ok db" and "keys_ok db" and "t \<in> set (db_tasks db)" and "tk_device t = device_id_by_fp db fp"
    and "tk_status t = Completed" and "tk_type t \<noteq> TLock"
    and "scope_for cx [] = Inr (tk_tenant t)" and "now + stale_acked_timeout_minutes * minute < later"
  shows "\<exists>db1 n db2 t'. ack_task_received now fp (tk_id t) db = (True, db1)
    \<and> fail_stale_acked cx later stale_acked_timeout_minutes db1 = Inr (n, db2)
    \<and> t' \<in> set (db_tasks db2) \<and> tk_id t' = tk_id t \<and> tk_status t' = Failed"
proof -
  let ?dev = "device_id_by_fp db fp" and ?tn = "tenant_for_fp db fp"
  let ?f = "\<lambda>t. t\<lparr>tk_status := Acked, tk_acked := now\<rparr>"
  have own: "owns ?tn (tk_id t) ?dev t" by (rule owns_self [OF assms(1-4)])
  have ne: "?dev \<noteq> []" by (rule own_tenant(2) [OF assms(1-4)])
  define db1 where "db1 = db\<lparr>db_tasks := update_where (owns ?tn (tk_id t) ?dev) ?f (db_tasks db)\<rparr>"
  have ack: "ack_task_received now fp (tk_id t) db = (True, db1)"
    using own ne assms(3) by (auto simp: ack_task_received_def ack_task_def db1_def list_ex_iff)
  have t1: "?f t \<in> set (db_tasks db1)"
    using own assms(3) by (auto simp: db1_def set_update_where intro!: bexI [where x = t])
  let ?P = "stale (tk_tenant t) later stale_acked_timeout_minutes"
  let ?g = "\<lambda>t. t\<lparr>tk_status := Failed, tk_error := ''timeout'', tk_completed := later\<rparr>"
  define db2 where "db2 = db1\<lparr>db_tasks := update_where ?P ?g (db_tasks db1)\<rparr>"
  have sw: "fail_stale_acked cx later stale_acked_timeout_minutes db1 = Inr (length (filter ?P (db_tasks db1)), db2)"
    using assms(7) by (simp add: fail_stale_acked_def db2_def)
  have "?P (?f t)" using assms(6,8) by (simp add: stale_def)
  then have "?g (?f t) \<in> set (db_tasks db2)"
    using t1 by (auto simp: db2_def set_update_where intro!: bexI [where x = "?f t"])
  then show ?thesis using ack sw by (intro exI [where x = db1] exI [where x = "length (filter ?P (db_tasks db1))"]
      exI [where x = db2] exI [where x = "?g (?f t)"]) simp
qed

text \<open>A result can be acknowledged and not stored: when the outcome of a removal cannot be written, or the commit fails,
  the transaction with the result in it is gone, and the device, which was told "received", does not send it again.\<close>

theorem acknowledged_result_is_lost:
  assumes "tasks_ok db" and "keys_ok db" and "t \<in> set (db_tasks db)" and "tk_device t = device_id_by_fp db fp"
    and "tk_type t = TUninstall" and "rp_task rp = tk_id t" and "rp_outcome rp = Some oc"
  shows "report_task_result (no_faults\<lparr>rf_outcome := True\<rparr>) now fp rp db = (True, db)
    \<and> report_task_result (no_faults\<lparr>rf_commit := True\<rparr>) now fp rp db = (True, db)"
proof -
  let ?dev = "device_id_by_fp db fp" and ?tn = "tenant_for_fp db fp"
  have own: "owns ?tn (tk_id t) ?dev t" by (rule owns_self [OF assms(1-4)])
  have ne: "?dev \<noteq> []" by (rule own_tenant(2) [OF assms(1-4)])
  obtain u where u: "find (owns ?tn (tk_id t) ?dev) (db_tasks db) = Some u"
    using own assms(3) by (cases "find (owns ?tn (tk_id t) ?dev) (db_tasks db)") (auto simp: find_None_iff)
  then have "u \<in> set (db_tasks db) \<and> tk_id u = tk_id t" by (auto simp: find_Some_iff owns_def)
  then have "u = t"
    using no_clash_eq [of "db_tasks db" u t] assms(1,3) by (simp add: tasks_ok_def clash_def)
  then have "find (owns ?tn (rp_task rp) ?dev) (db_tasks db) = Some t" using u assms(6) by simp
  then show ?thesis
    using ne assms(5,7) by (simp add: report_task_result_def complete_task_def Let_def no_faults_def)
qed

text \<open>A group command works only in the default tenant: its rows take the tenant from the default of the column, so in any
  other tenant the row-level policy refuses the statement as soon as one device of the group is meant, although the
  number of devices shown to the operator is not zero.\<close>

theorem group_command_refused_outside_default:
  assumes "scope_for cx [] = Inr tn" and "tn \<noteq> default_tenant" and "d \<in> set (group_devices tn g db)"
    and "platform_of_os (dv_os d) = platform_of_os platform"
  shows "fan_out_reboot cx fresh now g why delay db = Inl RlsViolation
    \<and> fan_out_script cx fresh now g script platform priority db = Inl RlsViolation
    \<and> (\<exists>n > 0. count_active_in_group cx g db = Inr n)"
proof -
  have head: "insert_all tn rs db = Inl RlsViolation" if "rs \<noteq> []" "\<forall>r \<in> set rs. tk_tenant r \<noteq> tn" for rs
    using that by (cases rs) (simp_all add: insert_task_def)
  have "group_devices tn g db \<noteq> []" using assms(3) by auto
  moreover have "filter (\<lambda>d. platform_of_os (dv_os d) = platform_of_os platform) (group_devices tn g db) \<noteq> []"
    using assms(3,4) by (auto simp: filter_empty_conv)
  ultimately show ?thesis
    using assms(1,2) by (auto simp: fan_out_reboot_def fan_out_script_def count_active_in_group_def blank_task_def intro!: head)
qed

lemma darwin_is_windows: "contains_str (to_lower os) ''darwin'' \<Longrightarrow> platform_of_os os = ''Windows''"
proof -
  assume "contains_str (to_lower os) ''darwin''"
  moreover have "sublist ''win'' ''darwin''"
    unfolding sublist_def by (rule exI [where x = "''dar''"], rule exI [where x = "[]"]) simp
  ultimately have "contains_str (to_lower os) ''win''"
    unfolding contains_str_def by (meson sublist_order.order.trans)
  then show ?thesis by (simp add: platform_of_os_def)
qed

subsection \<open>Decommissioning\<close>

lemma complete_devices: "complete_task cx now i dev st oc err db = Inr (r, db') \<Longrightarrow> db_devices db' = db_devices db"
  by (auto simp: complete_task_def split: sum.splits if_splits option.splits)

lemma outcome_devices: "db_devices (or_same db (set_uninstall_outcome cx i dev oc db)) = db_devices db"
  by (auto simp: or_same_def set_uninstall_outcome_def split: sum.splits)

text \<open>The report of a device changes the row of a device only by writing off the device itself, and only when the task it
  reports is a decommissioning of this very device that did not fail.\<close>

theorem only_own_report_decommissions:
  assumes "tasks_ok db" and "keys_ok db" and "report_task_result f now fp rp db = (b, db')"
    and "d' \<in> set (db_devices db')" and "d' \<notin> set (db_devices db)"
  shows "dv_id d' = device_id_by_fp db fp \<and> dv_status d' = ''decommissioned'' \<and> \<not> rp_error rp
    \<and> (\<exists>t \<in> set (db_tasks db). tk_id t = rp_task rp \<and> tk_device t = dv_id d' \<and> tk_type t = TDecommission)"
proof -
  let ?cx = "scope_by_fp db fp" and ?dev = "device_id_by_fp db fp" and ?tn = "tenant_for_fp db fp"
  let ?st = "if rp_error rp then Failed else Completed"
  obtain prev ty db1 where c: "complete_task ?cx now (rp_task rp) ?dev ?st (rp_output rp) (rp_log rp) db = Inr ((prev, ty), db1)"
  proof (cases "complete_task ?cx now (rp_task rp) ?dev ?st (rp_output rp) (rp_log rp) db")
    case (Inl e)
    then have "db' = db" using assms(3) by (cases e) (auto simp: report_task_result_def Let_def)
    then show ?thesis using assms(4,5) by simp
  next
    case (Inr r)
    then show ?thesis using that by (metis surj_pair)
  qed
  define db2 where "db2 = (if ty = TUninstall \<and> rp_outcome rp \<noteq> None
      then or_same db1 (set_uninstall_outcome ?cx (rp_task rp) ?dev (the (rp_outcome rp)) db1) else db1)"
  define db3 where "db3 = (if prev = Failed then write_audit ?tn (''agent:'' @ ?dev) ''late_task_result'' (rp_task rp) db2 else db2)"
  have dv3: "db_devices db3 = db_devices db"
    using complete_devices [OF c] outcome_devices by (simp add: db3_def db2_def write_audit_def)
  have "db' = db \<or> db' = (if ty = TDecommission \<and> ?st = Completed then or_same db3 (mark_decommissioned ?cx ?dev db3) else db3)"
    using assms(3) c unfolding report_task_result_def Let_def db3_def db2_def by (auto split: if_splits)
  then have m: "ty = TDecommission" "?st = Completed" "db' = or_same db3 (mark_decommissioned ?cx ?dev db3)"
    using assms(4,5) dv3 by (auto split: if_splits)
  have "d' \<in> set (update_where (\<lambda>d. dv_tenant d = ?tn \<and> dv_id d = ?dev) (\<lambda>d. d\<lparr>dv_status := ''decommissioned''\<rparr>) (db_devices db))"
    using assms(4) m(3) dv3 by (simp add: or_same_def mark_decommissioned_def)
  then have d: "dv_id d' = ?dev" "dv_status d' = ''decommissioned''"
    using assms(5) by (auto simp: set_update_where split: if_splits)
  obtain t where "find (owns ?tn (rp_task rp) ?dev) (db_tasks db) = Some t" "tk_type t = ty"
    using c by (auto simp: complete_task_def split: if_splits option.splits)
  then have "t \<in> set (db_tasks db) \<and> tk_id t = rp_task rp \<and> tk_device t = ?dev \<and> tk_type t = TDecommission"
    using m(1) by (auto simp: find_Some_iff owns_def)
  then show ?thesis using d m(2) by (auto split: if_splits)
qed

subsection \<open>Connections and delivery\<close>

text \<open>The registry with the connections that are open, each with the channel it was given.\<close>

inductive reg_reach :: "registry \<Rightarrow> (string \<times> nat) set \<Rightarrow> bool" where
  R_new: "reg_reach new_registry {}"
| R_register: "reg_reach g L \<Longrightarrow> register cn g = (c, g') \<Longrightarrow> reg_reach g' (insert (cn, c) L)"
| R_unregister: "reg_reach g L \<Longrightarrow> (cn, c) \<in> L \<Longrightarrow> unregister cn c g = Some g' \<Longrightarrow> reg_reach g' (L - {(cn, c)})"
| R_send: "reg_reach g L \<Longrightarrow> send cn m g = Some (ok, g') \<Longrightarrow> reg_reach g' L"
| R_take: "reg_reach g L \<Longrightarrow> take_message c g = (x, g') \<Longrightarrow> reg_reach g' L"

definition reg_ok :: "registry \<Rightarrow> (string \<times> nat) set \<Rightarrow> bool" where
  "reg_ok g L \<longleftrightarrow> (\<forall>cn c. (cn, c) \<in> L \<longrightarrow> c < rg_next g \<and> \<not> rg_closed g c) \<and>
     (\<forall>cn c. rg_conns g cn = Some c \<longrightarrow> (cn, c) \<in> L) \<and> inj_on snd L \<and>
     (\<forall>c. length (rg_buffer g c) \<le> channel_size)"

lemma reg_reach_ok: "reg_reach g L \<Longrightarrow> reg_ok g L"
proof (induction rule: reg_reach.induct)
  case R_new
  then show ?case by (simp add: reg_ok_def new_registry_def)
next
  case (R_register g L cn c g')
  then have g': "c = rg_next g" "g' = g\<lparr>rg_conns := (rg_conns g)(cn \<mapsto> rg_next g), rg_buffer := (rg_buffer g)(rg_next g := []),
     rg_closed := (rg_closed g)(rg_next g := False), rg_next := Suc (rg_next g)\<rparr>" by (auto simp: register_def)
  have lt: "\<And>dn e. (dn, e) \<in> L \<Longrightarrow> e < rg_next g" using R_register.IH by (auto simp: reg_ok_def)
  then have "(dn, rg_next g) \<notin> L" for dn by blast
  then have "inj_on snd (insert (cn, rg_next g) L)"
    using R_register.IH by (auto simp: reg_ok_def inj_on_insert)
  then show ?case using R_register.IH lt unfolding g' reg_ok_def by (auto simp: less_Suc_eq)
next
  case (R_unregister g L cn c g')
  have g': "g' = g\<lparr>rg_conns := (if rg_conns g cn = Some c then (rg_conns g)(cn := None) else rg_conns g),
      rg_closed := (rg_closed g)(c := True)\<rparr>"
    using R_unregister.hyps(3) by (auto simp: unregister_def split: if_splits)
  have other: "e \<noteq> c" if "(dn, e) \<in> L" "(dn, e) \<noteq> (cn, c)" for dn e
  proof
    assume "e = c"
    then have "snd (dn, e) = snd (cn, c)" by simp
    then show False using that R_unregister.hyps(2) R_unregister.IH unfolding reg_ok_def by (meson inj_onD)
  qed
  have conns: "rg_conns g' dn = Some e \<Longrightarrow> rg_conns g dn = Some e \<and> (dn, e) \<noteq> (cn, c)" for dn e
    unfolding g' by (auto split: if_splits)
  show ?case
    unfolding reg_ok_def
  proof (intro conjI allI impI)
    fix dn e
    assume m: "(dn, e) \<in> L - {(cn, c)}"
    then show "e < rg_next g'" using R_unregister.IH unfolding g' by (auto simp: reg_ok_def)
    show "\<not> rg_closed g' e" using m other [of dn e] R_unregister.IH unfolding g' by (auto simp: reg_ok_def)
  next
    fix dn e assume "rg_conns g' dn = Some e"
    then show "(dn, e) \<in> L - {(cn, c)}" using conns [of dn e] R_unregister.IH by (auto simp: reg_ok_def)
  next
    show "inj_on snd (L - {(cn, c)})" using R_unregister.IH by (auto simp: reg_ok_def intro: inj_on_subset)
  next
    fix e show "length (rg_buffer g' e) \<le> channel_size" using R_unregister.IH unfolding g' by (simp add: reg_ok_def)
  qed
next
  case (R_send g L cn m ok g')
  then show ?case by (auto simp: reg_ok_def send_def split: option.splits if_splits)
next
  case (R_take g L c x g')
  have b: "length (rg_buffer g e) \<le> channel_size" for e using R_take.IH by (simp add: reg_ok_def)
  show ?case
  proof (cases "rg_buffer g c")
    case (Cons m ms)
    then have "length ms \<le> channel_size" using b [of c] by simp
    then show ?thesis using Cons R_take by (auto simp: reg_ok_def take_message_def)
  qed (use R_take in \<open>simp add: take_message_def\<close>)
qed

text \<open>Connections come, go and replace each other in any order: sending to a device never hits a closed channel, ending an
  open connection never closes a channel twice, a device is served on a connection that is still open, and no buffer
  exceeds its size.\<close>

theorem registry_never_panics:
  assumes "reg_reach g L"
  shows "send cn m g \<noteq> None \<and> ((dn, c) \<in> L \<longrightarrow> unregister dn c g \<noteq> None)
    \<and> (rg_conns g cn = Some e \<longrightarrow> (cn, e) \<in> L) \<and> length (rg_buffer g e) \<le> channel_size"
proof -
  have ok: "reg_ok g L" by (rule reg_reach_ok [OF assms])
  have "send cn m g \<noteq> None"
    using ok by (auto simp: send_def reg_ok_def split: option.splits)
  moreover have "(dn, c) \<in> L \<Longrightarrow> unregister dn c g \<noteq> None"
    using ok by (auto simp: unregister_def reg_ok_def)
  ultimately show ?thesis using ok by (simp add: reg_ok_def)
qed

lemma two_connections:
  "\<exists>g. reg_reach g {(''pc1'', 1)} \<and> rg_conns g ''pc1'' = Some 1"
proof -
  define g1 where "g1 = snd (register ''pc1'' new_registry)"
  define g2 where "g2 = snd (register ''pc1'' g1)"
  have r1: "reg_reach g1 (insert (''pc1'', 0) {})"
    by (rule R_register [OF R_new]) (simp add: g1_def register_def new_registry_def)
  have r2: "reg_reach g2 (insert (''pc1'', 1) (insert (''pc1'', 0) {}))"
    by (rule R_register [OF r1]) (simp add: g2_def g1_def register_def new_registry_def)
  obtain g3 where g3: "unregister ''pc1'' 0 g2 = Some g3"
    by (simp add: g2_def g1_def register_def new_registry_def unregister_def)
  have "reg_reach g3 (insert (''pc1'', 1) (insert (''pc1'', 0) {}) - {(''pc1'', 0)})"
    by (rule R_unregister [OF r2 _ g3]) simp
  moreover have "insert (''pc1'', 1::nat) (insert (''pc1'', 0) {}) - {(''pc1'', 0)} = {(''pc1'', 1)}" by auto
  moreover have "rg_conns g3 ''pc1'' = Some 1"
    using g3 by (auto simp: g2_def g1_def register_def new_registry_def unregister_def)
  ultimately show ?thesis by metis
qed

lemma registry_never_panics_witness:
  "\<exists>g. rg_conns g ''pc1'' = Some 1 \<and> send ''pc1'' (proto_task (blank_task [] [] 0)) g \<noteq> None \<and> unregister ''pc1'' 1 g \<noteq> None"
proof -
  obtain g where g: "reg_reach g {(''pc1'', 1)}" "rg_conns g ''pc1'' = Some 1" using two_connections by blast
  then show ?thesis using registry_never_panics [OF g(1), of "''pc1''" _ "''pc1''" 1] by blast
qed

text \<open>The first delivery attempt for a waiting task of a connected device whose buffer has room puts the task into the
  channel of that device; a lock in it destroys keys (FileVault) only if the stored mode says so.\<close>

theorem pending_task_is_delivered:
  assumes "tasks_ok db" and "keys_ok db" and "t \<in> set (db_tasks db)" and "tk_status t = Pending"
    and "d \<in> set (db_devices db)" and "dv_id d = tk_device t" and "dv_cn d \<noteq> []" and "tk_tenant t \<noteq> nil_tenant"
    and "reg_reach g L" and "rg_conns g (dv_cn d) = Some c" and "length (rg_buffer g c) < channel_size"
  shows "\<exists>g'. process_task 0 conn2 (tk_id t) db g = Some (Delivered (proto_task t), g')
    \<and> rg_buffer g' c = rg_buffer g c @ [proto_task t] \<and> t_id (proto_task t) = tk_id t
    \<and> (\<forall>lc. t_lock (proto_task t) = Some lc \<longrightarrow> lc_filevault lc = (tk_lock_mode t = ''filevault''))"
proof -
  have open_c: "\<not> rg_closed g c"
    using reg_reach_ok [OF assms(9)] assms(10) by (auto simp: reg_ok_def)
  have fid: "find (\<lambda>u. tk_id u = tk_id t) (filter Q (db_tasks db)) = Some t" if "Q t" for Q
  proof (cases "find (\<lambda>u. tk_id u = tk_id t) (filter Q (db_tasks db))")
    case None
    then show ?thesis using that assms(3) by (auto simp: find_None_iff)
  next
    case (Some u)
    then have "u \<in> set (filter Q (db_tasks db)) \<and> tk_id u = tk_id t" by (auto simp: find_Some_iff dest: nth_mem)
    then have "u = t"
      using no_clash_eq [of "db_tasks db" u t] assms(1,3) by (simp add: tasks_ok_def clash_def)
    then show ?thesis using Some by simp
  qed
  obtain e where e: "e \<in> set (db_devices db)" "dv_id e = tk_device t" "dv_tenant e = tk_tenant t"
    using assms(1,3) tenants_okD by (auto simp: tasks_ok_def)
  then have ed: "e = d" using device_unique [OF assms(2) e(1) assms(5)] assms(6) by simp
  have ne: "tk_tenant t \<noteq> []" using device_named [OF assms(2) e(1)] e(3) by simp
  have bt: "bind_for_task \<lparr>cx_tx = None, cx_tenant = []\<rparr> db (tk_id t) = Inr (tk_tenant t)"
    using fid [of "\<lambda>_. True"] ne assms(8)
    by (simp add: bind_for_task_def task_by_id_def bind_tenant_def require_tenant_def)
  have st: "find (\<lambda>u. tk_id u = tk_id t) (scoped_tasks db (tk_tenant t)) = Some t"
    unfolding scoped_tasks_def by (rule fid) simp
  have sd: "scoped_device db (tk_tenant t) (tk_device t) = Some d"
  proof (cases "scoped_device db (tk_tenant t) (tk_device t)")
    case None
    then show ?thesis using assms(5) e ed by (auto simp: scoped_device_def find_None_iff)
  next
    case (Some h)
    then have "h \<in> set (db_devices db)" "dv_id h = dv_id d" using scoped_device_some [OF Some] assms(6) by auto
    then have "h = d" by (intro device_unique [OF assms(2) _ assms(5)])
    then show ?thesis using Some by simp
  qed
  have lk: "\<forall>lc. t_lock (proto_task t) = Some lc \<longrightarrow> lc_filevault lc = (tk_lock_mode t = ''filevault'')" "t_id (proto_task t) = tk_id t"
    by (auto simp: proto_task_def lock_mode_to_filevault_def)
  show ?thesis
    using bt st sd assms(4,7,10,11) open_c lk
    by (simp add: process_task_def connected_def send_def)
qed

subsection \<open>A small database\<close>

definition demo_device :: device_row where
  "demo_device = \<lparr>dv_id = ''d1'', dv_tenant = ''t2'', dv_cn = ''pc1'', dv_fp = ''f1'', dv_os = ''macOS'', dv_status = ''active'',
     dv_version = ''2.6.0'', dv_lock_status = [], dv_lock_hash = [], dv_lock_reason = [], dv_lock_mode = [],
     dv_lock_request = [], dv_lock_actual = []\<rparr>"

definition demo_task :: "row_status \<Rightarrow> task_row" where
  "demo_task st = (blank_task ''k1'' ''d1'' 0)\<lparr>tk_tenant := ''t2'', tk_type := TUninstall, tk_status := st\<rparr>"

definition demo_db :: "task_row list \<Rightarrow> server_db" where
  "demo_db ts = \<lparr>db_devices = [demo_device], db_tasks = ts, db_software = [],
     db_members = [\<lparr>gm_group = ''g'', gm_device = ''d1'', gm_tenant = ''t2''\<rparr>], db_audit = []\<rparr>"

definition panel_cx :: scope_ctx where "panel_cx = \<lparr>cx_tx = None, cx_tenant = ''t2''\<rparr>"

lemma demo_empty_ok: "tasks_ok (demo_db []) \<and> keys_ok (demo_db [])"
  by (simp add: tasks_ok_def no_clash_def tenants_ok_def keys_ok_def demo_db_def demo_device_def)

lemma demo_ok: "tasks_ok (demo_db [demo_task st])" "keys_ok (demo_db [demo_task st])"
  by (simp_all add: tasks_ok_def no_clash_def tenants_ok_def keys_ok_def demo_db_def demo_device_def demo_task_def blank_task_def)

lemma demo_in: "demo_task st \<in> set (db_tasks (demo_db [demo_task st]))"
  by (simp add: demo_db_def)

lemma demo_owner: "tk_device (demo_task st) = device_id_by_fp (demo_db [demo_task st]) ''f1''"
  by (simp add: demo_task_def blank_task_def device_id_by_fp_def device_by_fp_def demo_db_def demo_device_def)

lemma demo_type: "tk_type (demo_task st) = TUninstall" "tk_id (demo_task st) = ''k1''" "tk_tenant (demo_task st) = ''t2''"
  "tk_status (demo_task st) = st"
  by (simp_all add: demo_task_def blank_task_def)

definition demo_reboot :: task_row where
  "demo_reboot = (command_row ''r1'' 5 TReboot ''high'' demo_device)\<lparr>tk_reason := ''patch'', tk_delay := 60\<rparr>"

lemma demo_scope: "bind_for_device panel_cx (demo_db ts) ''d1'' = Inr ''t2''"
  by (simp add: bind_for_device_def panel_cx_def device_by_id_def demo_db_def demo_device_def bind_tenant_def
      require_tenant_def nil_tenant_def)

lemma demo_scoped: "scoped_device (demo_db ts) ''t2'' ''d1'' = Some demo_device"
  by (simp add: scoped_device_def demo_db_def demo_device_def)

lemma demo_reboot_created: "create_reboot_task panel_cx ''r1'' 5 ''d1'' ''patch'' 60 (demo_db []) = Inr (demo_reboot, demo_db [demo_reboot])"
  using demo_scope [of "[]"] demo_scoped [of "[]"]
  by (simp add: create_reboot_task_def insert_or_find_def insert_command_def assert_agent_supports_def min_agent_version_def
      insert_task_def conflicts_def demo_reboot_def) (simp add: demo_db_def command_row_def blank_task_def demo_device_def)

lemma demo_fields: "tk_id demo_reboot = ''r1''" "tk_device demo_reboot = ''d1''"
  by (simp_all add: demo_reboot_def command_row_def blank_task_def demo_device_def)

lemma one_pending_command_witness:
  "\<exists>d \<in> set (db_devices (demo_db [demo_reboot])). dv_id d = ''d1''"
proof -
  have "rtranclp task_step (demo_db []) (demo_db [demo_reboot])"
    using S_reboot [OF demo_reboot_created] by blast
  moreover have "tasks_ok (demo_db [])" using demo_empty_ok by simp
  moreover have "demo_reboot \<in> set (db_tasks (demo_db [demo_reboot]))" by (simp add: demo_db_def)
  ultimately show ?thesis
    using one_pending_command [of "demo_db []" "demo_db [demo_reboot]" demo_reboot demo_reboot] demo_fields by metis
qed

lemma calls_refine_mailboxes_witness:
  "mail (snd (ack_task_received 9 ''f1'' ''k1'' (demo_db [demo_task Pending]))) ''d1'' ''k1'' = Some Acked"
proof -
  have "device_id_by_fp (demo_db [demo_task Pending]) ''f1'' = ''d1''"
    by (simp add: device_id_by_fp_def device_by_fp_def demo_db_def demo_device_def)
  moreover have "mail (demo_db [demo_task Pending]) ''d1'' ''k1'' = Some Pending"
    by (simp add: mail_def demo_db_def demo_task_def blank_task_def)
  ultimately show ?thesis
    using calls_refine_mailboxes [OF demo_ok, of 9 "''f1''" "''k1''" Pending] by (simp add: spec_set_def)
qed

lemma repeated_reboot_is_one_task_witness:
  "create_reboot_task panel_cx ''r2'' 8 ''d1'' ''again'' 10 (demo_db [demo_reboot]) = Inr (demo_reboot, demo_db [demo_reboot])"
  using repeated_reboot_is_one_task [OF demo_reboot_created] demo_empty_ok by simp

definition demo_provision :: task_row where
  "demo_provision = (command_row ''p1'' 5 TProvision ''normal'' demo_device)\<lparr>tk_reason := ''key''\<rparr>"

lemma demo_provision_created:
  "create_provision_task panel_cx ''p1'' 5 ''d1'' ''key'' (demo_db []) = Inr (demo_provision, demo_db [demo_provision])"
proof -
  have "is_newer_err ''2.6.0'' ''2.5.8'' = Some False" by code_simp
  then have "assert_agent_supports (demo_db []) ''t2'' ''d1'' TProvision = Inr ()"
    using demo_scoped [of "[]"] by (simp add: assert_agent_supports_def min_agent_version_def demo_device_def)
  then show ?thesis
    using demo_scope [of "[]"] demo_scoped [of "[]"]
    by (simp add: create_provision_task_def insert_or_find_def insert_command_def insert_task_def conflicts_def demo_provision_def)
      (simp add: demo_db_def command_row_def blank_task_def demo_device_def)
qed

lemma repeated_provision_adds_task_witness:
  "\<exists>t' db2. create_provision_task panel_cx ''p2'' 8 ''d1'' ''key'' (demo_db [demo_provision]) = Inr (t', db2) \<and> tk_id t' = ''p2''
     \<and> {demo_provision, t'} \<subseteq> set (db_tasks db2)"
proof -
  have "fresh_id (demo_db [demo_provision]) ''p2''"
    by (simp add: fresh_id_def demo_db_def demo_provision_def command_row_def blank_task_def)
  then show ?thesis
    using repeated_provision_adds_task [OF demo_provision_created _, of "''p2''" 8 "''key''"] demo_empty_ok by blast
qed

lemma late_ack_fails_completed_task_witness:
  "\<exists>db1 n db2 t'. ack_task_received 0 ''f1'' ''k1'' (demo_db [demo_task Completed]) = (True, db1)
     \<and> fail_stale_acked panel_cx (16 * minute) stale_acked_timeout_minutes db1 = Inr (n, db2)
     \<and> t' \<in> set (db_tasks db2) \<and> tk_id t' = ''k1'' \<and> tk_status t' = Failed"
proof -
  have s: "scope_for panel_cx [] = Inr (tk_tenant (demo_task Completed))"
    by (simp add: scope_for_def panel_cx_def bind_tenant_def require_tenant_def nil_tenant_def demo_type)
  have n: "tk_type (demo_task Completed) \<noteq> TLock" by (simp add: demo_type)
  show ?thesis
    using late_ack_fails_completed_task [OF demo_ok demo_in demo_owner demo_type(4) n s, of 0 "16 * minute"]
    by (simp add: demo_type stale_acked_timeout_minutes_def)
qed

definition demo_report :: task_report where
  "demo_report = \<lparr>rp_task = ''k1'', rp_error = False, rp_output = ''done'', rp_log = [], rp_outcome = Some ''removed''\<rparr>"

lemma acknowledged_result_is_lost_witness:
  "report_task_result (no_faults\<lparr>rf_outcome := True\<rparr>) 7 ''f1'' demo_report (demo_db [demo_task Acked]) = (True, demo_db [demo_task Acked])"
proof -
  have "rp_task demo_report = tk_id (demo_task Acked)" "rp_outcome demo_report = Some ''removed''"
    by (simp_all add: demo_report_def demo_type)
  then show ?thesis
    using acknowledged_result_is_lost [OF demo_ok demo_in demo_owner demo_type(1), where rp = demo_report] by blast
qed

lemma group_command_refused_outside_default_witness:
  "fan_out_reboot panel_cx (\<lambda>d. ''n'' @ d) 5 ''g'' ''patch'' 60 (demo_db []) = Inl RlsViolation"
proof -
  have s: "scope_for panel_cx [] = Inr ''t2''"
    by (simp add: scope_for_def panel_cx_def bind_tenant_def require_tenant_def nil_tenant_def)
  have n: "''t2'' \<noteq> default_tenant" by (simp add: default_tenant_def)
  have d: "demo_device \<in> set (group_devices ''t2'' ''g'' (demo_db []))"
    by (simp add: group_devices_def demo_db_def demo_device_def)
  show ?thesis using group_command_refused_outside_default [OF s n d refl] by blast
qed

lemma only_own_report_decommissions_witness:
  "\<exists>db'. report_task_result no_faults 7 ''f1'' \<lparr>rp_task = ''x1'', rp_error = False, rp_output = [], rp_log = [], rp_outcome = None\<rparr>
       (demo_db [(blank_task ''x1'' ''d1'' 0)\<lparr>tk_tenant := ''t2'', tk_type := TDecommission\<rparr>]) = (True, db')
     \<and> (demo_device\<lparr>dv_status := ''decommissioned''\<rparr>) \<in> set (db_devices db')
     \<and> dv_id (demo_device\<lparr>dv_status := ''decommissioned''\<rparr>) = ''d1''"
proof -
  let ?t = "(blank_task ''x1'' ''d1'' 0)\<lparr>tk_tenant := ''t2'', tk_type := TDecommission\<rparr>"
  let ?db = "demo_db [?t]"
  let ?rp = "\<lparr>rp_task = ''x1'', rp_error = False, rp_output = [], rp_log = [], rp_outcome = None\<rparr>"
  let ?d = "demo_device\<lparr>dv_status := ''decommissioned''\<rparr>"
  have ok: "tasks_ok ?db" "keys_ok ?db"
    by (simp_all add: tasks_ok_def no_clash_def tenants_ok_def keys_ok_def demo_db_def demo_device_def blank_task_def)
  have dev: "device_by_fp ?db ''f1'' = Some demo_device"
    by (simp add: device_by_fp_def demo_db_def demo_device_def)
  have ids: "device_id_by_fp ?db ''f1'' = ''d1''" "tenant_for_fp ?db ''f1'' = ''t2''"
    using dev by (simp_all add: device_id_by_fp_def tenant_for_fp_def demo_device_def)
  have f: "fst (report_task_result no_faults 7 ''f1'' ?rp ?db)
      \<and> ?d \<in> set (db_devices (snd (report_task_result no_faults 7 ''f1'' ?rp ?db)))" by code_simp
  then obtain db' where r: "report_task_result no_faults 7 ''f1'' ?rp ?db = (True, db')" and d: "?d \<in> set (db_devices db')"
    by (cases "report_task_result no_faults 7 ''f1'' ?rp ?db") auto
  have n: "?d \<notin> set (db_devices ?db)" by (simp add: demo_db_def demo_device_def)
  have "dv_id ?d = ''d1''" using only_own_report_decommissions [OF ok r d n] ids by simp
  then show ?thesis using r d by blast
qed

lemma pending_task_is_delivered_witness:
  "\<exists>g g'. rg_conns g ''pc1'' = Some 0 \<and>
     process_task 0 False ''k1'' (demo_db [demo_task Pending]) g = Some (Delivered (proto_task (demo_task Pending)), g')"
proof -
  define g where "g = snd (register ''pc1'' new_registry)"
  have g: "reg_reach g (insert (''pc1'', 0) {})"
    by (rule R_register [OF R_new]) (simp add: g_def register_def new_registry_def)
  have c: "rg_conns g (dv_cn demo_device) = Some 0" and b: "length (rg_buffer g 0) < channel_size"
    by (simp_all add: g_def register_def new_registry_def demo_device_def channel_size_def)
  have d: "demo_device \<in> set (db_devices (demo_db [demo_task Pending]))" "dv_id demo_device = tk_device (demo_task Pending)"
    "dv_cn demo_device \<noteq> []" "tk_tenant (demo_task Pending) \<noteq> nil_tenant"
    by (simp_all add: demo_db_def demo_device_def demo_task_def blank_task_def nil_tenant_def)
  have "rg_conns g ''pc1'' = Some 0" using c by (simp add: demo_device_def)
  then show ?thesis
    using pending_task_is_delivered [OF demo_ok demo_in demo_type(4) d g c b, of False] demo_type(2) by metis
qed

end
