(* ===== verification/ServerLock.thy ===== *)
theory ServerLock
  imports ServerTasks Reconcile
begin

section \<open>Device locks on the server\<close>

text \<open>
  The desired and the reported lock state of a device: the operations of \<open>storage/postgres.go\<close> on
  the lock columns of \<open>devices\<close>, the calls \<open>ReportLockStatus\<close> and \<open>FetchLockStatus\<close> of
  \<open>gateway.go\<close> and the handlers \<open>lockDevice\<close> and \<open>unlockDevice\<close> of \<open>api/handler.go\<close>.

  A report runs without a transaction of its own: each statement commits by itself, so the branch
  of an unlock report, which reads and then writes, is modelled as the decision \<open>unlock_decision\<close>
  on what was read and the write on what is stored by then.
\<close>

subsection \<open>The columns\<close>

definition set_device :: "string \<Rightarrow> string \<Rightarrow> (device_row \<Rightarrow> device_row) \<Rightarrow> server_db \<Rightarrow> server_db" where
  "set_device tn dev f db = db\<lparr>db_devices := update_where (\<lambda>d. dv_tenant d = tn \<and> dv_id d = dev) f (db_devices db)\<rparr>"

definition update_lock_status :: "scope_ctx \<Rightarrow> string \<Rightarrow> string \<Rightarrow> server_db \<Rightarrow> unit stored" where
  "update_lock_status cx dev st db = (case scope_for cx [] of Inl e \<Rightarrow> Inl e
     | Inr tn \<Rightarrow>
        (let P = (\<lambda>d. dv_tenant d = tn \<and> dv_id d = dev \<and> (st \<noteq> ''locked'' \<or> dv_lock_hash d \<noteq> []))
         in if \<not> list_ex P (db_devices db) \<and> st = ''locked'' then Inl NoDesiredLock
            else Inr ((), db\<lparr>db_devices := update_where P (\<lambda>d. d\<lparr>dv_lock_status := st\<rparr>) (db_devices db)\<rparr>)))"

definition set_lock_state :: "scope_ctx \<Rightarrow> string \<Rightarrow> string \<Rightarrow> string \<Rightarrow> string \<Rightarrow> string \<Rightarrow> string \<Rightarrow> string \<Rightarrow> server_db
    \<Rightarrow> unit stored" where
  "set_lock_state cx t dev st pw_hash why mode req db = (case bind_tenant cx t of Inl e \<Rightarrow> Inl e
     | Inr tn \<Rightarrow> Inr ((), set_device tn dev (\<lambda>d. d\<lparr>dv_lock_status := st, dv_lock_hash := pw_hash, dv_lock_reason := why,
          dv_lock_mode := (if mode = [] then ''overlay'' else mode), dv_lock_request := req\<rparr>) db))"

definition set_lock_actual :: "scope_ctx \<Rightarrow> string \<Rightarrow> string \<Rightarrow> server_db \<Rightarrow> unit stored" where
  "set_lock_actual cx dev st db = (case scope_for cx [] of Inl e \<Rightarrow> Inl e
     | Inr tn \<Rightarrow> Inr ((), set_device tn dev (\<lambda>d. d\<lparr>dv_lock_actual := st\<rparr>) db))"

definition lock_actual_started :: string where "lock_actual_started = ''filevault_revoke_failed''"

definition set_lock_actual_no_downgrade :: "scope_ctx \<Rightarrow> string \<Rightarrow> string \<Rightarrow> server_db \<Rightarrow> bool stored" where
  "set_lock_actual_no_downgrade cx dev st db = (case scope_for cx [] of Inl e \<Rightarrow> Inl e
     | Inr tn \<Rightarrow>
        (let P = (\<lambda>d. dv_tenant d = tn \<and> dv_id d = dev \<and> dv_lock_actual d \<noteq> lock_actual_started)
         in Inr (list_ex P (db_devices db),
              db\<lparr>db_devices := update_where P (\<lambda>d. d\<lparr>dv_lock_actual := st\<rparr>) (db_devices db)\<rparr>)))"

text \<open>\<open>GetDesiredLockState\<close>: status, hash, reason, mode (never empty) and request.\<close>

definition get_desired :: "scope_ctx \<Rightarrow> string \<Rightarrow> server_db \<Rightarrow> store_error + (string \<times> string \<times> string \<times> string \<times> string)" where
  "get_desired cx dev db = (case bind_for_device cx db dev of Inl e \<Rightarrow> Inl e
     | Inr tn \<Rightarrow> (case scoped_device db tn dev of None \<Rightarrow> Inl NoRows
        | Some d \<Rightarrow> Inr (dv_lock_status d, dv_lock_hash d, dv_lock_reason d,
             (if dv_lock_mode d = [] then ''overlay'' else dv_lock_mode d), dv_lock_request d)))"

subsection \<open>Reports of devices\<close>

datatype lock_state = LsUnspecified | LsLocked | LsUnlocked | LsRevoked | LsRevokeFailed | LsLockFailed
  | LsNotArmed | LsMismatch | LsOther int

record lock_msg =
  lk_state :: lock_state
  lk_request :: string

text \<open>Which statements fail: the write of the reported state, the audit entry, the final mirror of the state.\<close>

record lock_faults =
  lf_write :: bool
  lf_audit :: bool
  lf_mirror :: bool

definition calm_lock :: lock_faults where "calm_lock = \<lparr>lf_write = False, lf_audit = False, lf_mirror = False\<rparr>"

text \<open>\<open>False\<close> is \<open>Unavailable\<close>, on which the device sends the report again; the list names the alerts to create.\<close>

type_synonym lock_reply = "bool \<times> string list \<times> server_db"

text \<open>The context after \<open>WithTenantID\<close>: a tenant, no transaction.\<close>

definition tenant_ctx :: "string \<Rightarrow> scope_ctx" where "tenant_ctx tn = \<lparr>cx_tx = None, cx_tenant = tn\<rparr>"

text \<open>A state that is only mirrored: written, audited, perhaps with an alert.\<close>

definition mirror_branch :: "lock_faults \<Rightarrow> string \<Rightarrow> string \<Rightarrow> string \<Rightarrow> string list \<Rightarrow> server_db \<Rightarrow> lock_reply" where
  "mirror_branch f tn dev st alerts db =
     (if lf_write f then (False, [], db)
      else (case set_lock_actual (tenant_ctx tn) dev st db of
          Inl _ \<Rightarrow> (False, [], db)
        | Inr (_, db1) \<Rightarrow>
            if lf_audit f then (False, [], db1) else (True, alerts, write_audit tn ''agent'' st dev db1)))"

definition guarded_branch :: "lock_faults \<Rightarrow> string \<Rightarrow> string \<Rightarrow> string \<Rightarrow> string list \<Rightarrow> server_db \<Rightarrow> lock_reply" where
  "guarded_branch f tn dev st alerts db =
     (if lf_write f then (False, [], db)
      else (case set_lock_actual_no_downgrade (tenant_ctx tn) dev st db of
          Inl _ \<Rightarrow> (False, [], db)
        | Inr (applied, db1) \<Rightarrow>
            if lf_audit f then (False, [], db1)
            else (True, (if applied then alerts else []), write_audit tn ''agent'' st dev db1)))"

text \<open>The last step of the terminal states, best effort.\<close>

definition mirror_last :: "lock_faults \<Rightarrow> string \<Rightarrow> string \<Rightarrow> string \<Rightarrow> server_db \<Rightarrow> server_db" where
  "mirror_last f tn dev st db =
     (if lf_mirror f then db else (case set_lock_actual (tenant_ctx tn) dev st db of Inl _ \<Rightarrow> db | Inr (_, db') \<Rightarrow> db'))"

definition locked_branch :: "lock_faults \<Rightarrow> string \<Rightarrow> string \<Rightarrow> server_db \<Rightarrow> lock_reply" where
  "locked_branch f tn dev db =
     (if lf_write f then (False, [], db)
      else (case update_lock_status (tenant_ctx tn) dev ''locked'' db of
          Inl NoDesiredLock \<Rightarrow> (True, [], mirror_last f tn dev ''locked'' db)
        | Inl _ \<Rightarrow> (False, [], db)
        | Inr (_, db1) \<Rightarrow> (True, [], mirror_last f tn dev ''locked'' db1)))"

text \<open>What is done with an unlock report, decided on the desired state read.\<close>

datatype unlock_decision = KeepFileVault | KeepOther | ClearLock

definition decide_unlock :: "string \<Rightarrow> string \<times> string \<times> string \<times> string \<times> string \<Rightarrow> unlock_decision" where
  "decide_unlock rid cur = (case cur of (st, h, _, mode, req) \<Rightarrow>
     if st = ''locked'' \<and> mode = ''filevault'' then KeepFileVault
     else if st = ''locked'' \<and> req \<noteq> [] \<and> rid \<noteq> req \<and> rid \<noteq> h then KeepOther
     else ClearLock)"

definition apply_unlock :: "lock_faults \<Rightarrow> string \<Rightarrow> string \<Rightarrow> unlock_decision \<Rightarrow> server_db \<Rightarrow> lock_reply" where
  "apply_unlock f tn dev dcn db = (case dcn of
     KeepFileVault \<Rightarrow> (True, [], db)
   | KeepOther \<Rightarrow> (True, [], mirror_last f tn dev ''unlocked'' db)
   | ClearLock \<Rightarrow>
       if lf_write f then (False, [], db)
       else (case set_lock_state (tenant_ctx tn) tn dev ''unlocked'' [] [] ''overlay'' [] db of
           Inl _ \<Rightarrow> (False, [], db)
         | Inr (_, db1) \<Rightarrow> (True, [], mirror_last f tn dev ''unlocked'' db1)))"

definition report_lock_status :: "lock_faults \<Rightarrow> string \<Rightarrow> lock_msg \<Rightarrow> server_db \<Rightarrow> lock_reply" where
  "report_lock_status f fp m db =
     (let tn = tenant_for_fp db fp; dev = device_id_by_fp db fp
      in if dev = [] then (True, [], db)
         else (case lk_state m of
             LsUnspecified \<Rightarrow> (True, [], db)
           | LsRevoked \<Rightarrow> mirror_branch f tn dev ''filevault_revoked'' [] db
           | LsRevokeFailed \<Rightarrow> mirror_branch f tn dev ''filevault_revoke_failed'' [''filevault_revoke_failed''] db
           | LsLockFailed \<Rightarrow> mirror_branch f tn dev ''lock_failed'' [] db
           | LsNotArmed \<Rightarrow> guarded_branch f tn dev ''filevault_not_armed'' [] db
           | LsMismatch \<Rightarrow> guarded_branch f tn dev ''filevault_secret_mismatch'' [''filevault_secret_mismatch''] db
           | LsLocked \<Rightarrow> locked_branch f tn dev db
           | LsUnlocked \<Rightarrow> (case get_desired (tenant_ctx tn) dev db of
                 Inl _ \<Rightarrow> (False, [], db)
               | Inr cur \<Rightarrow> apply_unlock f tn dev (decide_unlock (lk_request m) cur) db)
           | LsOther _ \<Rightarrow> (True, [], db)))"

text \<open>The same call as its two halves, for what other transactions do in between: \<open>report_look\<close> finds the device and,
  which only an unlock report uses, reads its wish; \<open>report_act\<close> is the switch with the writes.\<close>

type_synonym report_view = "string \<times> string \<times> (store_error + string \<times> string \<times> string \<times> string \<times> string)"

definition report_look :: "string \<Rightarrow> server_db \<Rightarrow> report_view" where
  "report_look fp db = (tenant_for_fp db fp, device_id_by_fp db fp, get_desired (tenant_ctx (tenant_for_fp db fp)) (device_id_by_fp db fp) db)"

definition report_act :: "lock_faults \<Rightarrow> lock_msg \<Rightarrow> report_view \<Rightarrow> server_db \<Rightarrow> lock_reply" where
  "report_act f m v db = (case v of (tn, dev, wish) \<Rightarrow>
     if dev = [] then (True, [], db)
     else (case lk_state m of
         LsUnspecified \<Rightarrow> (True, [], db)
       | LsRevoked \<Rightarrow> mirror_branch f tn dev ''filevault_revoked'' [] db
       | LsRevokeFailed \<Rightarrow> mirror_branch f tn dev ''filevault_revoke_failed'' [''filevault_revoke_failed''] db
       | LsLockFailed \<Rightarrow> mirror_branch f tn dev ''lock_failed'' [] db
       | LsNotArmed \<Rightarrow> guarded_branch f tn dev ''filevault_not_armed'' [] db
       | LsMismatch \<Rightarrow> guarded_branch f tn dev ''filevault_secret_mismatch'' [''filevault_secret_mismatch''] db
       | LsLocked \<Rightarrow> locked_branch f tn dev db
       | LsUnlocked \<Rightarrow> (case wish of Inl _ \<Rightarrow> (False, [], db)
           | Inr cur \<Rightarrow> apply_unlock f tn dev (decide_unlock (lk_request m) cur) db)
       | LsOther _ \<Rightarrow> (True, [], db)))"

lemma report_halves: "report_lock_status f fp m db = report_act f m (report_look fp db) db"
  by (simp add: report_lock_status_def report_act_def report_look_def Let_def)

definition fetch_lock_status :: "string \<Rightarrow> server_db \<Rightarrow> lock_response option" where
  "fetch_lock_status fp db =
     (let dev = device_id_by_fp db fp
      in if dev = [] then None
         else (case get_desired (scope_by_fp db fp) dev db of
             Inl _ \<Rightarrow> None
           | Inr (st, h, why, mode, _) \<Rightarrow>
               Some (if st \<noteq> ''locked'' then \<lparr>resp_locked = False, resp_hash = [], resp_reason = [], resp_mode = ModeUnspecified\<rparr>
                 else \<lparr>resp_locked = True, resp_hash = h, resp_reason = why,
                   resp_mode = (if lock_mode_to_filevault mode then ModeFileVault else ModeOverlay)\<rparr>)))"

subsection \<open>The operator's requests\<close>

text \<open>The policies on the mode: the open edition's, and any other as a function; \<open>Inl True\<close> is "unavailable".\<close>

definition overlay_only_policy :: "string \<Rightarrow> bool + unit" where
  "overlay_only_policy mode = (if mode = [] \<or> mode = ''overlay'' then Inr ()
     else if mode = ''filevault'' then Inl True else Inl False)"

datatype http = HttpOk string string | HttpStatus nat

text \<open>
  \<open>pw\<close> is the generated password, or \<open>None\<close> when the generator fails, \<open>bc\<close> the hash function,
  \<open>enq\<close> whether the task could be queued; \<open>HttpOk\<close> carries the task and the password.
\<close>

text \<open>The part of \<open>lockDevice\<close> after the password and its hash are there.\<close>

definition order_lock :: "bool \<Rightarrow> string \<Rightarrow> scope_ctx \<Rightarrow> string \<Rightarrow> nanos \<Rightarrow> string \<Rightarrow> string \<Rightarrow> string \<Rightarrow> string \<Rightarrow> string \<Rightarrow> server_db
    \<Rightarrow> http \<times> server_db" where
  "order_lock enq who cx i now dev why m p h db =
     (case create_lock_task cx i now dev h why False m db of
        Inl e \<Rightarrow> (HttpStatus (if e = AgentTooOld then 409 else 500), db)
      | Inr (t, db1) \<Rightarrow> (case set_lock_state cx (cx_tenant cx) dev ''locked'' h why m (tk_id t) db1 of
          Inl _ \<Rightarrow> (HttpStatus 500, db1)
        | Inr (_, db2) \<Rightarrow> (if enq then (HttpOk (tk_id t) p, write_audit (cx_tenant cx) who ''lock_device'' dev db2)
            else (HttpStatus 500, db2))))"

definition lock_device :: "(string \<Rightarrow> bool + unit) \<Rightarrow> string option \<Rightarrow> (string \<Rightarrow> string option) \<Rightarrow> bool \<Rightarrow> string \<Rightarrow> scope_ctx \<Rightarrow> string
    \<Rightarrow> nanos \<Rightarrow> string \<Rightarrow> string \<Rightarrow> string \<Rightarrow> server_db \<Rightarrow> http \<times> server_db" where
  "lock_device policy pw bc enq who cx i now dev why mode db =
     (case policy mode of
        Inl not_here \<Rightarrow> (HttpStatus (if not_here then 409 else 400), db)
      | Inr _ \<Rightarrow> (case pw of None \<Rightarrow> (HttpStatus 500, db)
          | Some p \<Rightarrow> (case bc p of None \<Rightarrow> (HttpStatus 500, db)
            | Some h \<Rightarrow> order_lock enq who cx i now dev why (if mode = ''filevault'' then ''filevault'' else ''overlay'') p h db)))"

definition unlock_device :: "bool \<Rightarrow> string \<Rightarrow> scope_ctx \<Rightarrow> string \<Rightarrow> nanos \<Rightarrow> string \<Rightarrow> server_db \<Rightarrow> http \<times> server_db" where
  "unlock_device enq who cx i now dev db =
     (case create_lock_task cx i now dev [] [] True ''overlay'' db of
        Inl AgentTooOld \<Rightarrow> (HttpStatus 409, db)
      | Inl _ \<Rightarrow> (HttpStatus 500, db)
      | Inr (t, db1) \<Rightarrow> (case set_lock_state cx (cx_tenant cx) dev ''unlocked'' [] [] ''overlay'' [] db1 of
          Inl _ \<Rightarrow> (HttpStatus 500, db1)
        | Inr (_, db2) \<Rightarrow> (if enq then (HttpOk (tk_id t) [], write_audit (cx_tenant cx) who ''unlock_device'' dev db2)
            else (HttpStatus 500, db2))))"

definition normalize_reboot_delay :: "int \<Rightarrow> int" where
  "normalize_reboot_delay d = (if d \<le> 0 then 0 else if d < 10 then 10 else d)"

subsection \<open>A locked device has a hash\<close>

definition lock_ok :: "device_row \<Rightarrow> bool" where
  "lock_ok d \<longleftrightarrow> (dv_lock_status d = ''locked'' \<longrightarrow> dv_lock_hash d \<noteq> []) \<and> (dv_lock_mode d = ''filevault'' \<longrightarrow> dv_lock_status d = ''locked'')"

definition locks_ok :: "server_db \<Rightarrow> bool" where
  "locks_ok db \<longleftrightarrow> (\<forall>d \<in> set (db_devices db). lock_ok d)"

lemma locks_ok_update:
  "locks_ok db \<Longrightarrow> (\<And>d. lock_ok d \<Longrightarrow> P d \<Longrightarrow> lock_ok (f d)) \<Longrightarrow> locks_ok (db\<lparr>db_devices := update_where P f (db_devices db)\<rparr>)"
  by (auto simp: locks_ok_def set_update_where)

lemma locks_ok_same: "db_devices db' = db_devices db \<Longrightarrow> locks_ok db' = locks_ok db"
  by (simp add: locks_ok_def)

lemma set_lock_actual_ok: "set_lock_actual cx dev st db = Inr (u, db') \<Longrightarrow> locks_ok db \<Longrightarrow> locks_ok db'"
  unfolding set_lock_actual_def set_device_def
  by (auto split: sum.splits intro!: locks_ok_update simp: lock_ok_def)

lemma no_downgrade_ok: "set_lock_actual_no_downgrade cx dev st db = Inr (u, db') \<Longrightarrow> locks_ok db \<Longrightarrow> locks_ok db'"
  unfolding set_lock_actual_no_downgrade_def Let_def
  by (auto split: sum.splits intro!: locks_ok_update simp: lock_ok_def)

lemma update_locked_ok: "update_lock_status cx dev ''locked'' db = Inr (u, db') \<Longrightarrow> locks_ok db \<Longrightarrow> locks_ok db'"
  unfolding update_lock_status_def Let_def
  by (auto split: sum.splits if_splits intro!: locks_ok_update simp: lock_ok_def)

lemma set_lock_state_ok:
  "set_lock_state cx t dev st h why mode req db = Inr (u, db') \<Longrightarrow> locks_ok db \<Longrightarrow>
   (st = ''locked'' \<longrightarrow> h \<noteq> []) \<Longrightarrow> (mode = ''filevault'' \<longrightarrow> st = ''locked'') \<Longrightarrow> locks_ok db'"
  unfolding set_lock_state_def set_device_def
  by (auto split: sum.splits intro!: locks_ok_update simp: lock_ok_def)

lemma mirror_last_ok: "locks_ok db \<Longrightarrow> locks_ok (mirror_last f tn dev st db)"
  unfolding mirror_last_def by (auto split: sum.splits intro: set_lock_actual_ok)

lemma write_audit_devices [simp]: "db_devices (write_audit a b c d db) = db_devices db"
  by (simp add: write_audit_def)

lemma locks_ok_audit [simp]: "locks_ok (write_audit a b c d db) = locks_ok db"
  by (rule locks_ok_same) simp

lemma mirror_branch_ok:
  assumes "mirror_branch f tn dev st al db = (b, al', db')" and "locks_ok db"
  shows "locks_ok db'"
proof -
  have l: "set_lock_actual (tenant_ctx tn) dev st db = Inr (u, db1) \<Longrightarrow> locks_ok db1" for u db1
    using set_lock_actual_ok assms(2) by blast
  show ?thesis using assms l unfolding mirror_branch_def by (auto split: if_splits sum.splits)
qed

lemma guarded_branch_ok:
  assumes "guarded_branch f tn dev st al db = (b, al', db')" and "locks_ok db"
  shows "locks_ok db'"
proof -
  have l: "set_lock_actual_no_downgrade (tenant_ctx tn) dev st db = Inr (u, db1) \<Longrightarrow> locks_ok db1" for u db1
    using no_downgrade_ok assms(2) by blast
  show ?thesis using assms l unfolding guarded_branch_def by (auto split: if_splits sum.splits)
qed

lemma apply_unlock_ok: "apply_unlock f tn dev dcn db = (b, al, db') \<Longrightarrow> locks_ok db \<Longrightarrow> locks_ok db'"
  unfolding apply_unlock_def
  by (auto split: unlock_decision.splits if_splits sum.splits intro: mirror_last_ok set_lock_state_ok)

lemma locked_branch_ok: "locked_branch f tn dev db = (b, al, db') \<Longrightarrow> locks_ok db \<Longrightarrow> locks_ok db'"
  unfolding locked_branch_def
  by (auto split: if_splits sum.splits store_error.splits intro: mirror_last_ok update_locked_ok)

lemma report_lock_ok: "report_lock_status f fp m db = (b, al, db') \<Longrightarrow> locks_ok db \<Longrightarrow> locks_ok db'"
  unfolding report_lock_status_def Let_def
  by (auto split: if_splits lock_state.splits sum.splits
      intro: mirror_branch_ok guarded_branch_ok apply_unlock_ok locked_branch_ok)

lemma insert_task_devices: "insert_task tn r db = Inr (x, db') \<Longrightarrow> db_devices db' = db_devices db"
  by (auto simp: insert_task_def split: if_splits)

lemma insert_command_devices: "insert_command cx ty dev row db = Inr (tn, x, db') \<Longrightarrow> db_devices db' = db_devices db"
proof -
  assume a: "insert_command cx ty dev row db = Inr (tn, x, db')"
  then obtain t where b: "bind_for_device cx db dev = Inr t" by (auto simp: insert_command_def split: sum.splits)
  show ?thesis
  proof (cases "scoped_device db t dev")
    case (Some d)
    then show ?thesis using a b insert_task_devices
      by (cases "insert_task t (row d) db") (auto simp: insert_command_def split: sum.splits)
  qed (use a b in \<open>auto simp: insert_command_def split: sum.splits\<close>)
qed

lemma insert_or_find_devices: "insert_or_find cx ty dev row same db = Inr (t, db') \<Longrightarrow> db_devices db' = db_devices db"
  unfolding insert_or_find_def by (auto split: sum.splits option.splits dest: insert_command_devices)

lemma insert_all_devices: "insert_all tn rs db = Inr (ts, db') \<Longrightarrow> db_devices db' = db_devices db"
proof (induction rs arbitrary: db ts)
  case (Cons r rs)
  then obtain x db1 ts1 where "insert_task tn r db = Inr (x, db1)" "insert_all tn rs db1 = Inr (ts1, db')"
    by (auto split: sum.splits)
  then show ?case using Cons.IH insert_task_devices by metis
qed simp

lemma create_lock_devices: "create_lock_task cx i now dev h r u m db = Inr (t, db') \<Longrightarrow> db_devices db' = db_devices db"
  unfolding create_lock_task_def Let_def by (auto split: sum.splits option.splits dest: insert_command_devices)

lemma mark_locks: "locks_ok db \<Longrightarrow> locks_ok (or_same db (mark_decommissioned cx dev db))"
  unfolding or_same_def mark_decommissioned_def by (auto split: sum.splits intro!: locks_ok_update simp: lock_ok_def)

lemma report_task_locks:
  assumes "report_task_result f now fp rp db = (b, db')" and "locks_ok db"
  shows "locks_ok db'"
proof -
  let ?cx = "scope_by_fp db fp" and ?dev = "device_id_by_fp db fp"
  let ?st = "if rp_error rp then Failed else Completed"
  show ?thesis
  proof (cases "complete_task ?cx now (rp_task rp) ?dev ?st (rp_output rp) (rp_log rp) db")
    case (Inl e)
    then show ?thesis using assms by (cases e) (auto simp: report_task_result_def Let_def)
  next
    case (Inr r)
    obtain prev ty db1 where r: "r = ((prev, ty), db1)" by (metis surj_pair)
    have "locks_ok db1" using locks_ok_same [OF complete_devices [OF Inr [unfolded r]]] assms(2) by simp
    then show ?thesis
      using assms Inr r mark_locks locks_ok_same [OF outcome_devices] locks_ok_audit
      unfolding report_task_result_def Let_def by (auto split: if_splits)
  qed
qed

lemma create_uninstall_devices: "create_uninstall_task pick cx i now dev n u r db = Inr (t, db') \<Longrightarrow> db_devices db' = db_devices db"
  unfolding create_uninstall_task_def Let_def by (auto split: sum.splits list.splits if_splits dest: insert_or_find_devices)

lemma task_step_locks: "task_step db db' \<Longrightarrow> locks_ok db \<Longrightarrow> locks_ok db'"
proof (induction rule: task_step.induct)
  case (S_script cx i now dev sc pf pr db t db')
  have "db_devices db' = db_devices db"
    using S_script(1) unfolding create_task_def by (auto split: sum.splits option.splits if_splits dest: insert_task_devices)
  then show ?case using S_script(2) locks_ok_same by blast
next
  case (S_lock cx i now dev h r u m db t db')
  then show ?case using create_lock_devices locks_ok_same by blast
next
  case (S_decommission cx i now dev db t db')
  have "db_devices db' = db_devices db"
    using S_decommission(1) unfolding create_decommission_task_def
    by (auto split: sum.splits option.splits dest: insert_command_devices)
  then show ?case using S_decommission(2) locks_ok_same by blast
next
  case (S_reboot cx i now dev r d db t db')
  then show ?case unfolding create_reboot_task_def using insert_or_find_devices locks_ok_same by blast
next
  case (S_uninstall pick cx i now dev n u r db t db')
  then show ?case using create_uninstall_devices locks_ok_same by blast
next
  case (S_provision cx i now dev r db t db')
  then show ?case unfolding create_provision_task_def using insert_or_find_devices locks_ok_same by blast
next
  case (S_group_reboot cx fresh now g r d db ts db')
  have "db_devices db' = db_devices db"
    using S_group_reboot(1) unfolding fan_out_reboot_def by (auto split: sum.splits dest: insert_all_devices)
  then show ?case using S_group_reboot(2) locks_ok_same by blast
next
  case (S_group_script cx fresh now g sc pf pr db ts db')
  have "db_devices db' = db_devices db"
    using S_group_script(1) unfolding fan_out_script_def by (auto split: sum.splits dest: insert_all_devices)
  then show ?case using S_group_script(2) locks_ok_same by blast
next
  case (S_ack now fp i db b db')
  have "db_devices db' = db_devices db"
    using S_ack(1) unfolding ack_task_received_def ack_task_def by (auto split: sum.splits if_splits)
  then show ?case using S_ack(2) locks_ok_same by blast
next
  case (S_result f now fp rp db b db')
  then show ?case by (rule report_task_locks)
next
  case (S_timeout cx now mins db n db')
  have "db_devices db' = db_devices db"
    using S_timeout(1) unfolding fail_stale_acked_def by (auto split: sum.splits)
  then show ?case using S_timeout(2) locks_ok_same by blast
next
  case (S_delete db tn dev escrow)
  then show ?case by (simp add: delete_device_rows_def locks_ok_def)
next
  case (S_move db dst_ok dev dst)
  then show ?case by (auto simp: move_device_rows_def locks_ok_def lock_ok_def set_update_where split: if_splits)
next
  case (S_reparent db src)
  then show ?case by (auto simp: reparent_rows_def locks_ok_def lock_ok_def set_update_where split: if_splits)
qed

text \<open>
  What can happen to the lock columns: requests of operators, with a hash function that gives no
  empty hash, reports of devices, an unlock report whose decision was taken on an earlier state,
  and everything that happens to tasks.
\<close>

inductive lock_step :: "server_db \<Rightarrow> server_db \<Rightarrow> bool" where
  L_lock: "lock_device policy pw bc enq who cx i now dev why mode db = (r, db') \<Longrightarrow> (\<forall>p h. bc p = Some h \<longrightarrow> h \<noteq> []) \<Longrightarrow> lock_step db db'"
| L_unlock: "unlock_device enq who cx i now dev db = (r, db') \<Longrightarrow> lock_step db db'"
| L_report: "report_lock_status f fp m db = (b, al, db') \<Longrightarrow> lock_step db db'"
| L_late: "apply_unlock f tn dev dcn db = (b, al, db') \<Longrightarrow> lock_step db db'"
| L_task: "task_step db db' \<Longrightarrow> lock_step db db'"

lemma order_lock_ok:
  assumes "order_lock enq who cx i now dev why m p h db = (r, db')" and "h \<noteq> []" and "locks_ok db"
  shows "locks_ok db'"
proof (cases "create_lock_task cx i now dev h why False m db")
  case (Inl e)
  then show ?thesis using assms by (simp add: order_lock_def)
next
  case (Inr k)
  obtain t db1 where k: "k = (t, db1)" by (cases k)
  have ok1: "locks_ok db1" using locks_ok_same [OF create_lock_devices [OF Inr [unfolded k]]] assms(3) by simp
  then show ?thesis
    using assms(1,2) Inr k set_lock_state_ok [OF _ ok1]
    by (cases "set_lock_state cx (cx_tenant cx) dev ''locked'' h why m (tk_id t) db1") (auto simp: order_lock_def split: if_splits)
qed

lemma lock_device_ok:
  assumes "lock_device policy pw bc enq who cx i now dev why mode db = (r, db')" and "\<forall>p h. bc p = Some h \<longrightarrow> h \<noteq> []" and "locks_ok db"
  shows "locks_ok db'"
  using assms order_lock_ok unfolding lock_device_def by (auto split: sum.splits option.splits)

lemma unlock_device_ok:
  assumes "unlock_device enq who cx i now dev db = (r, db')" and "locks_ok db"
  shows "locks_ok db'"
proof -
  have c: "create_lock_task cx i now dev [] [] True ''overlay'' db = Inr (t, db1) \<Longrightarrow> locks_ok db1" for t db1
    using create_lock_devices locks_ok_same assms(2) by blast
  have l: "locks_ok db2" if "create_lock_task cx i now dev [] [] True ''overlay'' db = Inr (t, db1)"
      "set_lock_state cx t' dev ''unlocked'' [] [] ''overlay'' [] db1 = Inr (u, db2)" for t db1 t' u db2
    using set_lock_state_ok [OF that(2) c [OF that(1)]] by simp
  show ?thesis
    using assms c l unfolding unlock_device_def
    by (auto split: sum.splits store_error.splits if_splits)
qed

lemma lock_step_ok: "lock_step db db' \<Longrightarrow> locks_ok db \<Longrightarrow> locks_ok db'"
  by (induction rule: lock_step.induct)
    (blast intro: lock_device_ok unlock_device_ok report_lock_ok apply_unlock_ok task_step_locks)+

text \<open>Claim C18. Whatever operators and devices do, in any order and with reports that arrive late, a device that is to be locked has a
  password hash, so the agent can carry the lock out, and a device that is not to be locked is never in FileVault mode.\<close>

theorem locked_has_hash:
  assumes "rtranclp lock_step db0 db" and "locks_ok db0" and "d \<in> set (db_devices db)"
  shows "(dv_lock_status d = ''locked'' \<longrightarrow> dv_lock_hash d \<noteq> []) \<and> (dv_lock_mode d = ''filevault'' \<longrightarrow> dv_lock_status d = ''locked'')"
proof -
  have "locks_ok db" using assms(1,2) by (induction rule: rtranclp_induct) (auto intro: lock_step_ok)
  then show ?thesis using assms(3) by (auto simp: locks_ok_def lock_ok_def)
qed

subsection \<open>Late reports\<close>

text \<open>The desired state of a device.\<close>

definition desired :: "device_row \<Rightarrow> string \<times> string \<times> string \<times> string \<times> string" where
  "desired d = (dv_lock_status d, dv_lock_hash d, dv_lock_reason d, dv_lock_mode d, dv_lock_request d)"

text \<open>No row loses its identity or its desired state.\<close>

definition keeps_desired :: "server_db \<Rightarrow> server_db \<Rightarrow> bool" where
  "keeps_desired db db' \<longleftrightarrow> (\<forall>d \<in> set (db_devices db). \<exists>d' \<in> set (db_devices db'). dv_id d' = dv_id d \<and> desired d' = desired d)"

lemma keeps_refl [simp]: "keeps_desired db db"
  by (auto simp: keeps_desired_def)

lemma keeps_audit [simp]: "keeps_desired db (write_audit a b c d db') = keeps_desired db db'"
  by (simp add: keeps_desired_def)

lemma keeps_update:
  "(\<And>d. dv_id (f d) = dv_id d \<and> desired (f d) = desired d) \<Longrightarrow> keeps_desired db (db\<lparr>db_devices := update_where P f (db_devices db)\<rparr>)"
proof -
  assume f: "\<And>d. dv_id (f d) = dv_id d \<and> desired (f d) = desired d"
  show ?thesis
    unfolding keeps_desired_def
  proof
    fix d assume d: "d \<in> set (db_devices db)"
    show "\<exists>d' \<in> set (db_devices (db\<lparr>db_devices := update_where P f (db_devices db)\<rparr>)). dv_id d' = dv_id d \<and> desired d' = desired d"
      using d f [of d] by (intro bexI [where x = "if P d then f d else d"]) (auto simp: set_update_where)
  qed
qed

lemma keeps_actual: "set_lock_actual cx dev st db = Inr (u, db') \<Longrightarrow> keeps_desired db db'"
  unfolding set_lock_actual_def set_device_def by (auto split: sum.splits intro!: keeps_update simp: desired_def)

lemma keeps_no_downgrade: "set_lock_actual_no_downgrade cx dev st db = Inr (u, db') \<Longrightarrow> keeps_desired db db'"
  unfolding set_lock_actual_no_downgrade_def Let_def by (auto split: sum.splits intro!: keeps_update simp: desired_def)

lemma keeps_mirror_last: "keeps_desired db db1 \<Longrightarrow> keeps_desired db (mirror_last f tn dev st db1)"
proof -
  assume k: "keeps_desired db db1"
  have "keeps_desired db1 (mirror_last f tn dev st db1)"
    unfolding mirror_last_def by (auto split: sum.splits intro: keeps_actual)
  then show ?thesis using k unfolding keeps_desired_def by metis
qed

lemma keeps_mirror_branch: "mirror_branch f tn dev st al db = (b, al', db') \<Longrightarrow> keeps_desired db db'"
  using keeps_actual [of "tenant_ctx tn" dev st db] unfolding mirror_branch_def
  by (auto split: if_splits sum.splits)

lemma keeps_guarded_branch: "guarded_branch f tn dev st al db = (b, al', db') \<Longrightarrow> keeps_desired db db'"
  using keeps_no_downgrade [of "tenant_ctx tn" dev st db] unfolding guarded_branch_def
  by (auto split: if_splits sum.splits)

text \<open>A report of the state "locked" changes a desired state only from not locked, with a hash, to locked.\<close>

lemma locked_branch_keeps:
  assumes "locked_branch f tn dev db = (b, al, db')" and "d \<in> set (db_devices db)" and "dv_lock_status d = ''locked''"
  shows "\<exists>d' \<in> set (db_devices db'). dv_id d' = dv_id d \<and> desired d' = desired d"
proof -
  let ?P = "\<lambda>tn' e. dv_tenant e = tn' \<and> dv_id e = dev \<and> dv_lock_hash e \<noteq> []"
  have u: "\<exists>e \<in> set (db_devices db1). dv_id e = dv_id d \<and> desired e = desired d"
    if up: "update_lock_status (tenant_ctx tn) dev ''locked'' db = Inr ((), db1)" for db1
  proof -
    obtain tn' where "db1 = db\<lparr>db_devices := update_where (?P tn') (\<lambda>d. d\<lparr>dv_lock_status := ''locked''\<rparr>) (db_devices db)\<rparr>"
      using up unfolding update_lock_status_def Let_def by (auto split: sum.splits if_splits)
    then show ?thesis using assms(2,3)
      by (intro bexI [where x = "if ?P tn' d then d\<lparr>dv_lock_status := ''locked''\<rparr> else d"])
        (auto simp: set_update_where desired_def)
  qed
  have m: "\<exists>e' \<in> set (db_devices (mirror_last f tn dev ''locked'' db1)). dv_id e' = dv_id d \<and> desired e' = desired d"
    if "\<exists>e \<in> set (db_devices db1). dv_id e = dv_id d \<and> desired e = desired d" for db1
    using that keeps_mirror_last [OF keeps_refl, of db1 f tn dev "''locked''"] unfolding keeps_desired_def by metis
  show ?thesis
    using assms(1,2) u m unfolding locked_branch_def
    by (auto split: if_splits sum.splits store_error.splits)
qed

text \<open>What an unlock report reads of the device that sends it.\<close>

lemma get_desired_own:
  assumes "keys_ok db" and "d \<in> set (db_devices db)" and "get_desired (tenant_ctx tn) (dv_id d) db = Inr cur"
  shows "cur = (dv_lock_status d, dv_lock_hash d, dv_lock_reason d, (if dv_lock_mode d = [] then ''overlay'' else dv_lock_mode d),
     dv_lock_request d)"
proof -
  obtain tn' e where e: "scoped_device db tn' (dv_id d) = Some e" and c: "cur = (dv_lock_status e, dv_lock_hash e, dv_lock_reason e,
      (if dv_lock_mode e = [] then ''overlay'' else dv_lock_mode e), dv_lock_request e)"
    using assms(3) unfolding get_desired_def by (auto split: sum.splits option.splits)
  have "e = d" using scoped_device_some [OF e] device_unique [OF assms(1) _ assms(2)] by blast
  then show ?thesis using c by simp
qed

text \<open>An unlock report that is not about the lock of the device, or about another device, in its second half.\<close>

lemma unlock_keeps:
  assumes "apply_unlock f tn dev ud db = (b, al, db')" and "d \<in> set (db_devices db)" and "dv_id d = dev \<Longrightarrow> ud \<noteq> ClearLock"
  shows "\<exists>d' \<in> set (db_devices db'). dv_id d' = dv_id d \<and> desired d' = desired d"
proof -
  have keep: "keeps_desired db db1 \<Longrightarrow> \<exists>d' \<in> set (db_devices db1). dv_id d' = dv_id d \<and> desired d' = desired d" for db1
    using assms(2) by (auto simp: keeps_desired_def)
  show ?thesis
  proof (cases "ud = ClearLock")
    case False
    then have "keeps_desired db db'" using assms(1) keeps_mirror_last [OF keeps_refl]
      by (auto simp: apply_unlock_def split: unlock_decision.splits)
    then show ?thesis by (rule keep)
  next
    case True
    then have other: "dv_id d \<noteq> dev" using assms(3) by blast
    have "\<exists>e \<in> set (db_devices db1). dv_id e = dv_id d \<and> desired e = desired d"
      if "set_lock_state (tenant_ctx tn) tn dev ''unlocked'' [] [] ''overlay'' [] db = Inr (u, db1)" for u db1
      using that assms(2) other unfolding set_lock_state_def set_device_def
      by (intro bexI [where x = d]) (auto simp: set_update_where split: sum.splits intro!: bexI [where x = d])
    then have "\<exists>e \<in> set (db_devices (mirror_last f tn dev ''unlocked'' db1)). dv_id e = dv_id d \<and> desired e = desired d"
      if "set_lock_state (tenant_ctx tn) tn dev ''unlocked'' [] [] ''overlay'' [] db = Inr (u, db1)" for u db1
      using that keeps_mirror_last [OF keeps_refl, of db1 f tn dev "''unlocked''"] unfolding keeps_desired_def by metis
    then show ?thesis
      using assms(1) True keep keeps_mirror_last [OF keeps_refl] assms(2) unfolding apply_unlock_def
      by (auto split: if_splits sum.splits)
  qed
qed

text \<open>Claim C4. A named lock stays wanted unless the report that cancels it is about that very lock: whatever else happens between
  the two halves of a report - its look-up in the state \<open>db0\<close> and its writes in the state \<open>db\<close> - it leaves the wish of a
  device that is locked when it writes as it is, if it comes from another device, or if it is no unlock report, or if at
  the look-up the device was locked by FileVault, or under a name that the report does not give.  What is left out, and
  does fall: a lock without a name, from before locks had names, and a lock, a FileVault one included, that is ordered
  between the two halves when at the look-up the device was not locked, or locked under the name of the report.\<close>

theorem late_report_keeps_lock:
  assumes "keys_ok db0" and "d0 \<in> set (db_devices db0)"
    and "d \<in> set (db_devices db)" and "dv_id d = dv_id d0" and "dv_lock_status d = ''locked''"
    and "lk_state m = LsUnlocked \<Longrightarrow> device_id_by_fp db0 fp = dv_id d0 \<Longrightarrow> dv_lock_status d0 = ''locked'' \<and>
       (dv_lock_mode d0 = ''filevault'' \<or> (dv_lock_request d0 \<noteq> [] \<and> lk_request m \<noteq> dv_lock_request d0 \<and> lk_request m \<noteq> dv_lock_hash d0))"
    and "report_act f m (report_look fp db0) db = (b, al, db')"
  shows "\<exists>d' \<in> set (db_devices db'). dv_id d' = dv_id d \<and> desired d' = desired d"
proof -
  let ?tn = "tenant_for_fp db0 fp" and ?dev = "device_id_by_fp db0 fp"
  let ?goal = "\<exists>d' \<in> set (db_devices db'). dv_id d' = dv_id d \<and> desired d' = desired d"
  have keep: "keeps_desired db db' \<Longrightarrow> ?goal" using assms(3) by (auto simp: keeps_desired_def)
  show ?thesis
  proof (cases "?dev = []")
    case True
    then show ?thesis using assms(3,7) by (auto simp: report_act_def report_look_def)
  next
    case False
    note act = assms(7) [unfolded report_act_def report_look_def prod.case if_not_P [OF False]]
    show ?thesis
    proof (cases "lk_state m")
      case LsLocked
      then show ?thesis using locked_branch_keeps [OF _ assms(3,5)] act by simp
    next
      case LsUnlocked
      show ?thesis
      proof (cases "get_desired (tenant_ctx ?tn) ?dev db0")
        case (Inl e)
        then show ?thesis using act LsUnlocked assms(3) by auto
      next
        case (Inr cur)
        have "decide_unlock (lk_request m) cur \<noteq> ClearLock" if "dv_id d = ?dev"
        proof -
          have own: "?dev = dv_id d0" using that assms(4) by simp
          show ?thesis using get_desired_own [OF assms(1,2) Inr [unfolded own]] assms(6) [OF LsUnlocked own]
            by (auto simp: decide_unlock_def)
        qed
        then show ?thesis using unlock_keeps [OF _ assms(3)] act LsUnlocked Inr by simp
      qed
    qed (use act keep keeps_refl keeps_mirror_branch keeps_guarded_branch in auto)
  qed
qed

subsection \<open>Races and lost passwords\<close>

text \<open>The lookups of a row of a well-formed database.\<close>

lemma row_lookups:
  assumes "keys_ok db" and "d \<in> set (db_devices db)"
  shows "scoped_device db (dv_tenant d) (dv_id d) = Some d" and "device_by_id db (dv_id d) = Some d"
    and "device_by_fp db (dv_fp d) = Some d" and "device_id_by_fp db (dv_fp d) = dv_id d"
    and "tenant_for_fp db (dv_fp d) = dv_tenant d" and "dv_id d \<noteq> []" and "dv_tenant d \<noteq> []"
proof -
  show n: "dv_id d \<noteq> []" "dv_tenant d \<noteq> []" using device_named [OF assms(1,2)] by simp_all
  have only: "find P (db_devices db) = Some d" if P: "P d" "\<And>x. x \<in> set (db_devices db) \<Longrightarrow> P x \<Longrightarrow> x = d" for P
  proof (cases "find P (db_devices db)")
    case None
    then show ?thesis using P(1) assms(2) by (simp add: find_None_iff)
  next
    case (Some x)
    then have "x \<in> set (db_devices db)" "P x" by (auto simp: find_Some_iff)
    then show ?thesis using P(2) Some by blast
  qed
  have id: "x \<in> set (db_devices db) \<Longrightarrow> dv_id x = dv_id d \<Longrightarrow> x = d" for x
    using device_unique [OF assms(1) _ assms(2)] .
  have fp: "x \<in> set (db_devices db) \<Longrightarrow> dv_fp x = dv_fp d \<Longrightarrow> x = d" for x
    using assms(1,2) by (auto simp: keys_ok_def distinct_map dest: inj_onD)
  show "scoped_device db (dv_tenant d) (dv_id d) = Some d" "device_by_id db (dv_id d) = Some d" "device_by_fp db (dv_fp d) = Some d"
    unfolding scoped_device_def device_by_id_def device_by_fp_def using id fp by (auto intro!: only)
  then show "device_id_by_fp db (dv_fp d) = dv_id d" "tenant_for_fp db (dv_fp d) = dv_tenant d"
    using n by (simp_all add: device_id_by_fp_def tenant_for_fp_def)
qed

lemma get_desired_of_row:
  assumes "keys_ok db" and "d \<in> set (db_devices db)" and "dv_tenant d \<noteq> nil_tenant"
  shows "get_desired (tenant_ctx (dv_tenant d)) (dv_id d) db = Inr (dv_lock_status d, dv_lock_hash d, dv_lock_reason d,
      (if dv_lock_mode d = [] then ''overlay'' else dv_lock_mode d), dv_lock_request d)"
  using row_lookups [OF assms(1,2)] assms(3)
  by (simp add: get_desired_def bind_for_device_def tenant_ctx_def bind_tenant_def require_tenant_def)

lemma fetch_of_row:
  assumes "keys_ok db" and "d \<in> set (db_devices db)" and "dv_fp d = fp"
  shows "fetch_lock_status fp db = Some (if dv_lock_status d \<noteq> ''locked''
      then \<lparr>resp_locked = False, resp_hash = [], resp_reason = [], resp_mode = ModeUnspecified\<rparr>
      else \<lparr>resp_locked = True, resp_hash = dv_lock_hash d, resp_reason = dv_lock_reason d,
         resp_mode = (if dv_lock_mode d = ''filevault'' then ModeFileVault else ModeOverlay)\<rparr>)"
proof -
  have "get_desired (scope_by_fp db fp) (dv_id d) db = Inr (dv_lock_status d, dv_lock_hash d, dv_lock_reason d,
      (if dv_lock_mode d = [] then ''overlay'' else dv_lock_mode d), dv_lock_request d)"
    using row_lookups [OF assms(1,2)] assms(3) by (simp add: get_desired_def)
  then show ?thesis
    using row_lookups [OF assms(1,2)] assms(3) by (simp add: fetch_lock_status_def Let_def lock_mode_to_filevault_def)
qed

text \<open>The lock request writes the desired state of the device in the operator's tenant.\<close>

lemma order_lock_writes:
  assumes "order_lock True who cx i now dev why m p h db = (HttpOk t q, db')"
  obtains db1 db2 where "db_devices db1 = db_devices db" and "q = p"
    and "set_lock_state cx (cx_tenant cx) dev ''locked'' h why m t db1 = Inr ((), db2)"
    and "db' = write_audit (cx_tenant cx) who ''lock_device'' dev db2"
    and "order_lock False who cx i now dev why m p h db = (HttpStatus 500, db2)"
proof (cases "create_lock_task cx i now dev h why False m db")
  case (Inl e)
  then show ?thesis using assms by (simp add: order_lock_def)
next
  case (Inr k)
  obtain u db1 where k: "k = (u, db1)" by (cases k)
  show ?thesis
  proof (cases "set_lock_state cx (cx_tenant cx) dev ''locked'' h why m (tk_id u) db1")
    case (Inl e)
    then show ?thesis using assms Inr k by (simp add: order_lock_def)
  next
    case s: (Inr v)
    then show ?thesis using that [of db1 "snd v"] assms Inr k create_lock_devices [OF Inr [unfolded k]]
      by (cases v) (simp add: order_lock_def)
  qed
qed

lemma lock_device_orders:
  assumes "lock_device policy pw bc True who cx i now dev why mode db = (HttpOk t p, db')"
  obtains h m where "bc p = Some h" and "order_lock True who cx i now dev why m p h db = (HttpOk t p, db')"
    and "lock_device policy pw bc False who cx i now dev why mode db = order_lock False who cx i now dev why m p h db"
    and "policy mode = Inr ()" and "m = (if mode = ''filevault'' then ''filevault'' else ''overlay'')"
proof -
  let ?m = "if mode = ''filevault'' then ''filevault'' else ''overlay''"
  obtain u where pol: "policy mode = Inr u" using assms by (cases "policy mode") (simp_all add: lock_device_def)
  obtain q where q: "pw = Some q" using assms pol by (cases pw) (simp_all add: lock_device_def)
  obtain h where h: "bc q = Some h" using assms pol q by (cases "bc q") (simp_all add: lock_device_def)
  have o: "order_lock True who cx i now dev why ?m q h db = (HttpOk t p, db')" using assms pol q h by (simp add: lock_device_def)
  have "p = q" by (rule order_lock_writes [OF o])
  then show ?thesis using that [of h ?m] o pol q h by (simp add: lock_device_def)
qed

lemma fetch_lock_devices: "db_devices a = db_devices b \<Longrightarrow> fetch_lock_status fp a = fetch_lock_status fp b"
  by (simp add: fetch_lock_status_def Let_def device_id_by_fp_def device_by_fp_def get_desired_def bind_for_device_def
      scope_by_fp_def tenant_for_fp_def scoped_device_def)

text \<open>The row of the device after the order.\<close>

lemma lock_device_row:
  assumes "lock_device policy pw bc True who cx i now dev why mode db = (HttpOk t p, db')"
    and "bind_tenant cx (cx_tenant cx) = Inr (dv_tenant d)" and "d \<in> set (db_devices db)" and "dv_id d = dev"
  obtains h db2 where "bc p = Some h" and "policy mode = Inr ()"
    and "lock_device policy pw bc False who cx i now dev why mode db = (HttpStatus 500, db2)"
    and "db' = write_audit (cx_tenant cx) who ''lock_device'' dev db2"
    and "d\<lparr>dv_lock_status := ''locked'', dv_lock_hash := h, dv_lock_reason := why,
       dv_lock_mode := (if mode = ''filevault'' then ''filevault'' else ''overlay''), dv_lock_request := t\<rparr> \<in> set (db_devices db')"
    and "keys_ok db \<Longrightarrow> keys_ok (db\<lparr>db_devices := db_devices db'\<rparr>)"
proof -
  obtain h m where b: "bc p = Some h" and o: "order_lock True who cx i now dev why m p h db = (HttpOk t p, db')"
    and f: "lock_device policy pw bc False who cx i now dev why mode db = order_lock False who cx i now dev why m p h db"
    and pol: "policy mode = Inr ()" and m: "m = (if mode = ''filevault'' then ''filevault'' else ''overlay'')"
    by (rule lock_device_orders [OF assms(1)])
  obtain db1 db2 where w: "db_devices db1 = db_devices db" "set_lock_state cx (cx_tenant cx) dev ''locked'' h why m t db1 = Inr ((), db2)"
    and au: "db' = write_audit (cx_tenant cx) who ''lock_device'' dev db2"
    and e: "order_lock False who cx i now dev why m p h db = (HttpStatus 500, db2)"
    by (rule order_lock_writes [OF o])
  let ?P = "\<lambda>e. dv_tenant e = dv_tenant d \<and> dv_id e = dev"
  let ?f = "\<lambda>d. d\<lparr>dv_lock_status := ''locked'', dv_lock_hash := h, dv_lock_reason := why, dv_lock_mode := m, dv_lock_request := t\<rparr>"
  have "m \<noteq> []" by (simp add: m)
  then have ds: "db_devices db' = update_where ?P ?f (db_devices db)"
    using w assms(2) by (auto simp: au set_lock_state_def set_device_def)
  then have "?f d \<in> set (db_devices db')"
    using assms(3,4) by (auto simp: set_update_where intro!: bexI [where x = d])
  moreover have "keys_ok (db\<lparr>db_devices := db_devices db'\<rparr>)" if "keys_ok db"
    unfolding ds by (rule keys_ok_update [OF that]) simp
  ultimately show ?thesis using that [OF b pol _ au] f e by (simp add: m)
qed

text \<open>What the cancelling branch leaves for the device to fetch.\<close>

lemma clear_lock_fetch:
  assumes "keys_ok db" and "d \<in> set (db_devices db)" and "dv_tenant d \<noteq> nil_tenant"
  shows "\<exists>db'. apply_unlock calm_lock (dv_tenant d) (dv_id d) ClearLock db = (True, [], db')
    \<and> fetch_lock_status (dv_fp d) db' = Some \<lparr>resp_locked = False, resp_hash = [], resp_reason = [], resp_mode = ModeUnspecified\<rparr>"
proof -
  let ?tn = "dv_tenant d" and ?dev = "dv_id d"
  let ?P = "\<lambda>e. dv_tenant e = ?tn \<and> dv_id e = ?dev"
  let ?f = "\<lambda>d. d\<lparr>dv_lock_status := ''unlocked'', dv_lock_hash := [], dv_lock_reason := [], dv_lock_mode := ''overlay'', dv_lock_request := []\<rparr>"
  let ?g = "\<lambda>d. d\<lparr>dv_lock_actual := ''unlocked''\<rparr>"
  have tn: "?tn \<noteq> []" using device_named [OF assms(1,2)] by simp
  define db1 where "db1 = db\<lparr>db_devices := update_where ?P ?f (db_devices db)\<rparr>"
  define db2 where "db2 = db1\<lparr>db_devices := update_where ?P ?g (db_devices db1)\<rparr>"
  have "apply_unlock calm_lock ?tn ?dev ClearLock db = (True, [], db2)"
    using tn assms(3) by (simp add: apply_unlock_def calm_lock_def set_lock_state_def bind_tenant_def require_tenant_def tenant_ctx_def
        mirror_last_def set_lock_actual_def scope_for_def set_device_def db1_def db2_def)
  moreover have "?g (?f d) \<in> set (db_devices db2)"
  proof -
    have "?f d \<in> set (db_devices db1)" using assms(2) by (auto simp: db1_def set_update_where intro!: bexI [where x = d])
    then show ?thesis by (auto simp: db2_def set_update_where intro!: bexI [where x = "?f d"])
  qed
  moreover have "keys_ok db2"
    unfolding db2_def db1_def by (intro keys_ok_update assms(1)) simp_all
  ultimately show ?thesis using fetch_of_row [of db2 "?g (?f d)" "dv_fp d"] by simp
qed

text \<open>Claim C23. The branch that cancels a lock reads and writes in two transactions: a lock ordered between the two, by whatever
  operator and in whatever mode, is erased, and the device is told to be unlocked.\<close>

theorem unlock_race_erases_new_lock:
  assumes "keys_ok db" and "d \<in> set (db_devices db)" and "dv_tenant d \<noteq> nil_tenant"
    and "get_desired (tenant_ctx (dv_tenant d)) (dv_id d) db0 = Inr cur" and "decide_unlock rid cur = ClearLock"
    and "dv_lock_status d = ''locked''"
  shows "\<exists>db'. apply_unlock calm_lock (dv_tenant d) (dv_id d) (decide_unlock rid cur) db = (True, [], db')
    \<and> fetch_lock_status (dv_fp d) db = Some \<lparr>resp_locked = True, resp_hash = dv_lock_hash d, resp_reason = dv_lock_reason d,
         resp_mode = (if dv_lock_mode d = ''filevault'' then ModeFileVault else ModeOverlay)\<rparr>
    \<and> fetch_lock_status (dv_fp d) db' = Some \<lparr>resp_locked = False, resp_hash = [], resp_reason = [], resp_mode = ModeUnspecified\<rparr>"
  using clear_lock_fetch [OF assms(1-3)] fetch_of_row [OF assms(1,2) refl] assms(5,6) by simp

text \<open>When the task of a lock cannot be queued the operator gets an error instead of the password, but the lock is
  ordered all the same, without an entry in the journal: the device will lock with a hash whose password nobody was told.\<close>

theorem lock_password_is_lost:
  assumes "lock_device policy pw bc True who cx i now dev why mode db = (HttpOk t p, db')"
    and "bind_tenant cx (cx_tenant cx) = Inr (dv_tenant d)" and "d \<in> set (db_devices db)" and "dv_id d = dev"
  shows "\<exists>db2. lock_device policy pw bc False who cx i now dev why mode db = (HttpStatus 500, db2)
    \<and> (\<exists>d' \<in> set (db_devices db2). dv_id d' = dev \<and> dv_lock_status d' = ''locked'' \<and> bc p = Some (dv_lock_hash d'))
    \<and> db' = write_audit (cx_tenant cx) who ''lock_device'' dev db2"
proof (rule lock_device_row [OF assms])
  fix h db2 assume h: "bc p = Some h" "lock_device policy pw bc False who cx i now dev why mode db = (HttpStatus 500, db2)"
    "db' = write_audit (cx_tenant cx) who ''lock_device'' dev db2" "d\<lparr>dv_lock_status := ''locked'', dv_lock_hash := h, dv_lock_reason := why,
       dv_lock_mode := (if mode = ''filevault'' then ''filevault'' else ''overlay''), dv_lock_request := t\<rparr> \<in> set (db_devices db')"
  then have "d\<lparr>dv_lock_status := ''locked'', dv_lock_hash := h, dv_lock_reason := why,
       dv_lock_mode := (if mode = ''filevault'' then ''filevault'' else ''overlay''), dv_lock_request := t\<rparr> \<in> set (db_devices db2)" by simp
  then show ?thesis using h(1-3) assms(4) by (intro exI [of _ db2] conjI bexI) simp_all
qed

text \<open>The mark of a half-done FileVault revocation survives the reports that precede any change ("not armed", "wrong
  secret"), but not a failed overlay lock: that report overwrites it, and the console no longer shows that the machine
  is half revoked.\<close>

theorem half_revoked_mark:
  assumes "keys_ok db" and "d \<in> set (db_devices db)" and "dv_fp d = fp" and "dv_lock_actual d = lock_actual_started"
    and "dv_tenant d \<noteq> nil_tenant"
  shows "(lk_state m \<in> {LsNotArmed, LsMismatch} \<longrightarrow> d \<in> set (db_devices (snd (snd (report_lock_status f fp m db)))))
    \<and> (lk_state m = LsLockFailed \<longrightarrow> d\<lparr>dv_lock_actual := ''lock_failed''\<rparr> \<in> set (db_devices (snd (snd (report_lock_status calm_lock fp m db))))
         \<and> d \<notin> set (db_devices (snd (snd (report_lock_status calm_lock fp m db)))))"
proof -
  obtain e where e: "device_by_fp db fp = Some e"
    using assms(2,3) by (cases "device_by_fp db fp") (auto simp: device_by_fp_def find_None_iff)
  then have "e \<in> set (db_devices db)" "dv_fp e = fp" by (auto simp: device_by_fp_def find_Some_iff)
  then have ed: "e = d" using assms(1-3) by (auto simp: keys_ok_def distinct_map dest: inj_onD)
  have n: "dv_id d \<noteq> [] \<and> dv_tenant d \<noteq> []" by (rule device_named [OF assms(1,2)])
  have ids: "device_id_by_fp db fp = dv_id d" "tenant_for_fp db fp = dv_tenant d"
    using e ed n by (simp_all add: device_id_by_fp_def tenant_for_fp_def)
  have sc: "scope_for (tenant_ctx (dv_tenant d)) [] = Inr (dv_tenant d)"
    using n assms(5) by (simp add: scope_for_def tenant_ctx_def bind_tenant_def require_tenant_def)
  have g: "d \<in> set (db_devices (snd (snd (guarded_branch f (dv_tenant d) (dv_id d) st al db))))" for st al
    using sc assms(2,4) by (auto simp: guarded_branch_def set_lock_actual_no_downgrade_def Let_def set_update_where intro!: bexI [where x = d])
  have l: "db_devices (snd (snd (mirror_branch calm_lock (dv_tenant d) (dv_id d) ''lock_failed'' [] db)))
      = update_where (\<lambda>e. dv_tenant e = dv_tenant d \<and> dv_id e = dv_id d) (\<lambda>d. d\<lparr>dv_lock_actual := ''lock_failed''\<rparr>) (db_devices db)"
    using sc by (simp add: mirror_branch_def calm_lock_def set_lock_actual_def set_device_def)
  have x: "d \<notin> set (update_where (\<lambda>e. dv_tenant e = dv_tenant d \<and> dv_id e = dv_id d) (\<lambda>d. d\<lparr>dv_lock_actual := ''lock_failed''\<rparr>) (db_devices db))"
    using assms(4) by (auto simp: set_update_where lock_actual_started_def split: if_splits dest!: arg_cong [where f = dv_lock_actual])
  have y: "d\<lparr>dv_lock_actual := ''lock_failed''\<rparr> \<in> set (update_where (\<lambda>e. dv_tenant e = dv_tenant d \<and> dv_id e = dv_id d)
      (\<lambda>d. d\<lparr>dv_lock_actual := ''lock_failed''\<rparr>) (db_devices db))"
    using assms(2) by (auto simp: set_update_where intro!: bexI [where x = d])
  show ?thesis
    using ids n g l x y by (auto simp: report_lock_status_def Let_def)
qed

subsection \<open>Witnesses\<close>

definition locked_row :: "string \<Rightarrow> device_row" where
  "locked_row h = demo_device\<lparr>dv_lock_status := ''locked'', dv_lock_hash := h, dv_lock_reason := ''lost'', dv_lock_mode := ''overlay'',
     dv_lock_request := ''q2''\<rparr>"

definition one_device :: "device_row \<Rightarrow> server_db" where
  "one_device d = \<lparr>db_devices = [d], db_tasks = [], db_software = [], db_members = [], db_audit = []\<rparr>"

lemma one_device_simps:
  "locked_row h \<in> set (db_devices (one_device (locked_row h)))" "keys_ok (one_device (locked_row h))"
  by (simp_all add: one_device_def keys_ok_def locked_row_def demo_device_def)

definition demo_bc :: "string \<Rightarrow> string option" where "demo_bc p = Some (CHR ''$'' # p)"

lemma demo_lock:
  "\<exists>db'. lock_device overlay_only_policy (Some ''pw'') demo_bc True ''admin'' panel_cx ''q1'' 5 ''d1'' ''lost'' [] (one_device demo_device) = (HttpOk ''q1'' ''pw'', db')
     \<and> (demo_device\<lparr>dv_lock_status := ''locked'', dv_lock_hash := ''$pw'', dv_lock_reason := ''lost'', dv_lock_mode := ''overlay'',
          dv_lock_request := ''q1''\<rparr>) \<in> set (db_devices db')"
proof -
  have "fst (lock_device overlay_only_policy (Some ''pw'') demo_bc True ''admin'' panel_cx ''q1'' 5 ''d1'' ''lost'' [] (one_device demo_device)) = HttpOk ''q1'' ''pw''
     \<and> (demo_device\<lparr>dv_lock_status := ''locked'', dv_lock_hash := ''$pw'', dv_lock_reason := ''lost'', dv_lock_mode := ''overlay'',
          dv_lock_request := ''q1''\<rparr>) \<in> set (db_devices
       (snd (lock_device overlay_only_policy (Some ''pw'') demo_bc True ''admin'' panel_cx ''q1'' 5 ''d1'' ''lost'' [] (one_device demo_device))))"
    by code_simp
  then show ?thesis
    by (cases "lock_device overlay_only_policy (Some ''pw'') demo_bc True ''admin'' panel_cx ''q1'' 5 ''d1'' ''lost'' [] (one_device demo_device)") auto
qed

lemma locked_has_hash_witness:
  "\<exists>db. rtranclp lock_step (one_device demo_device) db \<and>
     (\<exists>d \<in> set (db_devices db). dv_lock_status d = ''locked'' \<and> dv_lock_hash d \<noteq> [])"
proof -
  obtain db' where l: "lock_device overlay_only_policy (Some ''pw'') demo_bc True ''admin'' panel_cx ''q1'' 5 ''d1'' ''lost'' [] (one_device demo_device)
      = (HttpOk ''q1'' ''pw'', db')"
    and d: "(demo_device\<lparr>dv_lock_status := ''locked'', dv_lock_hash := ''$pw'', dv_lock_reason := ''lost'', dv_lock_mode := ''overlay'',
          dv_lock_request := ''q1''\<rparr>) \<in> set (db_devices db')"
    using demo_lock by blast
  have "lock_step (one_device demo_device) db'"
    by (rule L_lock [OF l]) (simp add: demo_bc_def)
  then have r: "rtranclp lock_step (one_device demo_device) db'" by blast
  have k: "locks_ok (one_device demo_device)" by (simp add: locks_ok_def lock_ok_def one_device_def demo_device_def)
  let ?d = "demo_device\<lparr>dv_lock_status := ''locked'', dv_lock_hash := ''$pw'', dv_lock_reason := ''lost'', dv_lock_mode := ''overlay'',
          dv_lock_request := ''q1''\<rparr>"
  have s: "dv_lock_status ?d = ''locked''" by simp
  moreover have "dv_lock_hash ?d \<noteq> []" using locked_has_hash [OF r k d] s by blast
  ultimately show ?thesis using r d by blast
qed

text \<open>The report names an old lock; between its halves the operator replaces the lock by yet another one.\<close>

lemma late_report_keeps_lock_witness:
  "\<exists>b al db'. report_act calm_lock \<lparr>lk_state = LsUnlocked, lk_request = ''q1''\<rparr> (report_look ''f1'' (one_device (locked_row ''H'')))
      (one_device (locked_row ''K'')) = (b, al, db')
     \<and> (\<exists>d' \<in> set (db_devices db'). dv_id d' = ''d1'' \<and> desired d' = desired (locked_row ''K''))"
proof -
  obtain b al db' where r: "report_act calm_lock \<lparr>lk_state = LsUnlocked, lk_request = ''q1''\<rparr>
      (report_look ''f1'' (one_device (locked_row ''H''))) (one_device (locked_row ''K'')) = (b, al, db')"
    by (metis prod.collapse)
  have "\<exists>d' \<in> set (db_devices db'). dv_id d' = dv_id (locked_row ''K'') \<and> desired d' = desired (locked_row ''K'')"
    by (rule late_report_keeps_lock [OF one_device_simps(2,1) one_device_simps(1) _ _ _ r]) (simp_all add: locked_row_def demo_device_def)
  moreover have "dv_id (locked_row ''K'') = ''d1''" by (simp add: locked_row_def demo_device_def)
  ultimately show ?thesis using r by metis
qed

lemma unlock_race_erases_new_lock_witness:
  "\<exists>db'. apply_unlock calm_lock ''t2'' ''d1'' ClearLock (one_device (locked_row ''H'')) = (True, [], db')
    \<and> fetch_lock_status ''f1'' db' = Some \<lparr>resp_locked = False, resp_hash = [], resp_reason = [], resp_mode = ModeUnspecified\<rparr>"
proof -
  have t: "dv_tenant (locked_row ''H'') \<noteq> nil_tenant" "dv_lock_status (locked_row ''H'') = ''locked''"
    "dv_tenant (locked_row ''H'') = ''t2''" "dv_id (locked_row ''H'') = ''d1''" "dv_fp (locked_row ''H'') = ''f1''"
    by (simp_all add: locked_row_def demo_device_def nil_tenant_def)
  have g: "get_desired (tenant_ctx (dv_tenant (locked_row ''H''))) (dv_id (locked_row ''H'')) (one_device demo_device)
      = Inr ([], [], [], ''overlay'', [])"
    by (simp add: get_desired_def bind_for_device_def tenant_ctx_def device_by_id_def bind_tenant_def require_tenant_def one_device_def
        scoped_device_def locked_row_def demo_device_def nil_tenant_def)
  have c: "decide_unlock [] ([], [], [], ''overlay'', []) = ClearLock" by (simp add: decide_unlock_def)
  show ?thesis
    using unlock_race_erases_new_lock [OF one_device_simps(2,1) t(1) g c t(2)] unfolding c t(3-5) by blast
qed

lemma lock_password_is_lost_witness:
  "fst (lock_device overlay_only_policy (Some ''pw'') demo_bc False ''admin'' panel_cx ''q1'' 5 ''d1'' ''lost'' [] (one_device demo_device)) = HttpStatus 500"
proof -
  obtain db' where l: "lock_device overlay_only_policy (Some ''pw'') demo_bc True ''admin'' panel_cx ''q1'' 5 ''d1'' ''lost'' [] (one_device demo_device)
      = (HttpOk ''q1'' ''pw'', db')" using demo_lock by blast
  have t: "bind_tenant panel_cx (cx_tenant panel_cx) = Inr (dv_tenant demo_device)"
    by (simp add: bind_tenant_def panel_cx_def require_tenant_def nil_tenant_def demo_device_def)
  have d: "demo_device \<in> set (db_devices (one_device demo_device))" "dv_id demo_device = ''d1''"
    by (simp_all add: one_device_def demo_device_def)
  show ?thesis using lock_password_is_lost [OF l t d] by (elim exE conjE) simp
qed

lemma half_revoked_mark_witness:
  "demo_device\<lparr>dv_lock_actual := lock_actual_started\<rparr> \<in> set (db_devices (snd (snd
     (report_lock_status calm_lock ''f1'' \<lparr>lk_state = LsNotArmed, lk_request = []\<rparr> (one_device (demo_device\<lparr>dv_lock_actual := lock_actual_started\<rparr>))))))"
proof -
  let ?d = "demo_device\<lparr>dv_lock_actual := lock_actual_started\<rparr>"
  have k: "keys_ok (one_device ?d)" "?d \<in> set (db_devices (one_device ?d))" "dv_fp ?d = ''f1''"
    "dv_lock_actual ?d = lock_actual_started" "dv_tenant ?d \<noteq> nil_tenant"
    by (simp_all add: one_device_def keys_ok_def demo_device_def nil_tenant_def)
  show ?thesis
    using half_revoked_mark [OF k, where m = "\<lparr>lk_state = LsNotArmed, lk_request = []\<rparr>" and f = calm_lock] by simp
qed

end
