(* ===== verification/ServerAdmin.thy ===== *)
theory ServerAdmin
  imports ServerTasks AdminManager ScriptOutput
begin

section \<open>Administrator requests and session evidence on the server\<close>

text \<open>
  The tables \<open>admin_access_requests\<close>, \<open>admin_session_changes\<close>, \<open>system_settings\<close> and
  \<open>alerts\<close> with their operations (\<open>storage/postgres.go\<close>, \<open>storage/admin_session.go\<close>), the
  calls of the gateway on them (\<open>gateway.go\<close>, \<open>gateway/admin_session.go\<close>), the operator's
  decisions (\<open>respondAdminRequest\<close>, \<open>revokeAdminRequest\<close> in \<open>api/handler.go\<close>) and the
  two sweeps of \<open>cmd/server/main.go\<close>.  The agent's side is \<open>AdminManager\<close>; the answer to its
  poll is its record \<open>admin_resp\<close>, and the report of a window its \<open>pb_window\<close>.
\<close>

subsection \<open>Rows\<close>

datatype request_status = RqPending | RqApproved | RqRejected | RqExpired | RqRevoked

record request_row =
  rq_id :: string
  rq_device :: string
  rq_tenant :: string
  rq_reason :: string
  rq_status :: request_status
  rq_requested :: nanos
  rq_pending_until :: nanos
  rq_decided_by :: string
  rq_decided :: "nanos option"
  rq_granted :: "nanos option"
  rq_expires :: "nanos option"
  rq_revoked :: "nanos option"
  rq_baseline :: "nanos option"
  rq_final :: "nanos option"
  rq_summary :: "(int \<times> nat \<times> int \<times> bool) option"
  rq_completeness :: string
  rq_rebooted :: bool
  rq_truncated :: bool
  rq_sw_health :: string
  rq_sv_health :: string
  rq_last_seq :: int

record change_row =
  ch_request :: string
  ch_device :: string
  ch_tenant :: string
  ch_seq :: int
  ch_kind :: string
  ch_subject :: string
  ch_display :: string
  ch_key :: string
  ch_old :: string
  ch_new :: string
  ch_vendor :: string
  ch_scope :: string
  ch_attr :: string
  ch_reason :: string
  ch_at :: nanos

record alert_row =
  al_id :: string
  al_device :: string
  al_tenant :: string
  al_type :: string
  al_details :: string
  al_request :: "string option"
  al_acked :: "nanos option"

record admin_db =
  ad_base :: server_db
  ad_requests :: "request_row list"
  ad_changes :: "change_row list"
  ad_settings :: "(string \<times> string \<times> string) list"
  ad_alerts :: "alert_row list"

type_synonym 'a admin_stored = "store_error + ('a \<times> admin_db)"

subsection \<open>Settings and times\<close>

text \<open>\<open>strconv.Atoi\<close> with its error ignored: 0 for bad syntax, the nearest bound out of range.\<close>

definition atoi_value :: "string \<Rightarrow> int" where
  "atoi_value s = (case parse_int s of Some n \<Rightarrow> n
     | None \<Rightarrow>
         (let body = (if s \<noteq> [] \<and> (hd s = CHR ''+'' \<or> hd s = CHR ''-'') then tl s else s)
          in if body = [] \<or> \<not> list_all is_digit body then 0
             else if hd s = CHR ''-'' then - (2 ^ 63) else 2 ^ 63 - 1))"

text \<open>A \<open>time.Duration\<close> is an \<open>int64\<close>.\<close>

definition wrap_duration :: "int \<Rightarrow> nanos" where
  "wrap_duration d = sint (word_of_int d :: 64 word)"

text \<open>\<open>GetSystemSetting\<close>: the tenant's value, else that of the installation, else empty.\<close>

definition get_setting :: "string \<Rightarrow> string \<Rightarrow> admin_db \<Rightarrow> string" where
  "get_setting tn key ad =
     (let own = filter (\<lambda>(t, k, _). t = tn \<and> k = key) (ad_settings ad);
          inst = filter (\<lambda>(t, k, _). t = nil_tenant \<and> k = key) (ad_settings ad)
      in case own @ inst of [] \<Rightarrow> [] | (_, _, v) # _ \<Rightarrow> v)"

definition admin_collect_flags :: "string \<Rightarrow> admin_db \<Rightarrow> bool \<times> int" where
  "admin_collect_flags tn ad =
     (let v = trim_space (get_setting tn ''collect_admin_session_changes'' ad);
          raw = trim_space (get_setting tn ''admin_session_snapshot_interval_sec'' ad)
      in (equal_fold v ''true'' \<or> v = ''1'',
          case parse_int raw of
            Some n \<Rightarrow> if 0 < n then (if int32_of n < 300 then 300 else int32_of n) else 0
          | None \<Rightarrow> 0))"

definition clamp_agent_time :: "nanos \<Rightarrow> unixtime \<Rightarrow> nanos" where
  "clamp_agent_time now unix =
     (let t = unix * second
      in if unix = 0 \<or> t < now - 24 * hour \<or> now + 5 * minute < t then now else t)"

text \<open>The floor is the first of January 2020.\<close>

definition clamp_evidence_time :: "nanos \<Rightarrow> unixtime \<Rightarrow> nanos" where
  "clamp_evidence_time now unix =
     (let t = unix * second
      in if unix = 0 \<or> t < 1577836800 * second \<or> now + 5 * minute < t then now else t)"

subsection \<open>Requests\<close>

definition blank_request :: "string \<Rightarrow> string \<Rightarrow> string \<Rightarrow> request_row" where
  "blank_request i dev tn = \<lparr>rq_id = i, rq_device = dev, rq_tenant = tn, rq_reason = [], rq_status = RqPending,
     rq_requested = 0, rq_pending_until = 0, rq_decided_by = [], rq_decided = None, rq_granted = None,
     rq_expires = None, rq_revoked = None, rq_baseline = None, rq_final = None, rq_summary = None,
     rq_completeness = ''unspecified'', rq_rebooted = False, rq_truncated = False, rq_sw_health = [],
     rq_sv_health = [], rq_last_seq = 0\<rparr>"

definition create_admin_request :: "scope_ctx \<Rightarrow> string \<Rightarrow> string \<Rightarrow> string \<Rightarrow> nanos \<Rightarrow> nanos \<Rightarrow> admin_db
    \<Rightarrow> request_row admin_stored" where
  "create_admin_request cx i dev why at until ad = (case bind_for_device cx (ad_base ad) dev of Inl e \<Rightarrow> Inl e
     | Inr tn \<Rightarrow> (case scoped_device (ad_base ad) tn dev of None \<Rightarrow> Inl RlsViolation
        | Some d \<Rightarrow>
            (let r = (blank_request i dev (dv_tenant d))\<lparr>rq_reason := why, rq_requested := at, rq_pending_until := until\<rparr>
             in Inr (r, ad\<lparr>ad_requests := ad_requests ad @ [r]\<rparr>))))"

text \<open>The newest row; of several with one time the first in the table.\<close>

definition newer_row :: "request_row option \<Rightarrow> request_row \<Rightarrow> request_row option" where
  "newer_row best r = (case best of None \<Rightarrow> Some r | Some b \<Rightarrow> Some (if rq_requested b < rq_requested r then r else b))"

definition active_rows :: "string \<Rightarrow> string \<Rightarrow> admin_db \<Rightarrow> request_row list" where
  "active_rows tn dev ad = filter (\<lambda>r. rq_tenant r = tn \<and> rq_device r = dev \<and>
     (rq_status r = RqPending \<or> rq_status r = RqApproved)) (ad_requests ad)"

definition fetch_active :: "scope_ctx \<Rightarrow> string \<Rightarrow> admin_db \<Rightarrow> store_error + request_row option" where
  "fetch_active cx dev ad = (case bind_for_device cx (ad_base ad) dev of Inl e \<Rightarrow> Inl e
     | Inr tn \<Rightarrow> Inr (foldl newer_row None (active_rows tn dev ad)))"

definition set_requests :: "(request_row \<Rightarrow> bool) \<Rightarrow> (request_row \<Rightarrow> request_row) \<Rightarrow> admin_db \<Rightarrow> admin_db" where
  "set_requests P f ad = ad\<lparr>ad_requests := update_where P f (ad_requests ad)\<rparr>"

text \<open>An empty device is no uuid, and the statement fails.\<close>

definition update_admin_report :: "scope_ctx \<Rightarrow> string \<Rightarrow> string \<Rightarrow> bool \<Rightarrow> nanos \<Rightarrow> admin_db \<Rightarrow> unit admin_stored" where
  "update_admin_report cx rid dev approved at ad = (case scope_for cx [] of Inl e \<Rightarrow> Inl e
     | Inr tn \<Rightarrow>
        if dev = [] then Inl StatementFailed
        else (let P = (\<lambda>r. rq_tenant r = tn \<and> rq_id r = rid \<and> rq_device r = dev \<and> (approved \<longrightarrow> rq_granted r = None));
                  f = (\<lambda>r. if approved then r\<lparr>rq_granted := Some at\<rparr> else r\<lparr>rq_status := RqRevoked, rq_revoked := Some at\<rparr>)
              in if list_ex P (ad_requests ad) then Inr ((), set_requests P f ad) else Inl RequestNotFound))"

definition mark_baseline :: "scope_ctx \<Rightarrow> string \<Rightarrow> string \<Rightarrow> nanos \<Rightarrow> admin_db \<Rightarrow> unit admin_stored" where
  "mark_baseline cx rid dev at ad = (case scope_for cx [] of Inl e \<Rightarrow> Inl e
     | Inr tn \<Rightarrow> Inr ((), set_requests (\<lambda>r. rq_tenant r = tn \<and> rq_id r = rid \<and> rq_device r = dev)
         (\<lambda>r. r\<lparr>rq_baseline := (case rq_baseline r of Some t \<Rightarrow> Some t | None \<Rightarrow> Some at)\<rparr>) ad))"

definition respond_request :: "scope_ctx \<Rightarrow> nanos \<Rightarrow> string \<Rightarrow> bool \<Rightarrow> string \<Rightarrow> nanos option \<Rightarrow> admin_db \<Rightarrow> unit admin_stored" where
  "respond_request cx now rid approve by expires ad = (case scope_for cx [] of Inl e \<Rightarrow> Inl e
     | Inr tn \<Rightarrow> Inr ((), set_requests (\<lambda>r. rq_tenant r = tn \<and> rq_id r = rid \<and> rq_status r = RqPending)
         (\<lambda>r. r\<lparr>rq_status := (if approve then RqApproved else RqRejected), rq_decided_by := by,
                rq_decided := Some now, rq_expires := expires\<rparr>) ad))"

definition revoke_request :: "scope_ctx \<Rightarrow> string \<Rightarrow> nanos \<Rightarrow> string \<Rightarrow> admin_db \<Rightarrow> unit admin_stored" where
  "revoke_request cx t now rid ad = (case bind_tenant cx t of Inl e \<Rightarrow> Inl e
     | Inr tn \<Rightarrow> Inr ((), set_requests (\<lambda>r. rq_tenant r = tn \<and> rq_id r = rid \<and> rq_status r = RqApproved)
         (\<lambda>r. r\<lparr>rq_status := RqRevoked, rq_revoked := Some now\<rparr>) ad))"

definition overdue :: "nanos \<Rightarrow> request_row \<Rightarrow> bool" where
  "overdue now r \<longleftrightarrow> (rq_status r = RqPending \<and> rq_pending_until r < now) \<or>
     (rq_status r = RqApproved \<and> (case rq_expires r of None \<Rightarrow> False | Some e \<Rightarrow> e < now))"

definition expire_stale :: "scope_ctx \<Rightarrow> nanos \<Rightarrow> admin_db \<Rightarrow> nat admin_stored" where
  "expire_stale cx now ad = (case scope_for cx [] of Inl e \<Rightarrow> Inl e
     | Inr tn \<Rightarrow>
        (let P = (\<lambda>r. rq_tenant r = tn \<and> overdue now r)
         in Inr (length (filter P (ad_requests ad)), set_requests P (\<lambda>r. r\<lparr>rq_status := RqExpired\<rparr>) ad)))"

text \<open>\<open>ForEachTenant\<close> over the sweep: a failing tenant is passed over.\<close>

definition expire_all :: "nanos \<Rightarrow> string list \<Rightarrow> admin_db \<Rightarrow> admin_db" where
  "expire_all now tenants ad = foldl (\<lambda>s tn. case expire_stale \<lparr>cx_tx = Some tn, cx_tenant = tn\<rparr> now s of
     Inl _ \<Rightarrow> s | Inr (_, s') \<Rightarrow> s') ad tenants"

subsection \<open>Calls of the devices\<close>

text \<open>\<open>Inl\<close> carries the code of the error; 13 is \<open>Internal\<close>, 14 \<open>Unavailable\<close>.\<close>

definition request_admin_access :: "nanos \<Rightarrow> string \<Rightarrow> string \<Rightarrow> string \<Rightarrow> unixtime \<Rightarrow> admin_db
    \<Rightarrow> rpc_code + (string \<times> admin_db)" where
  "request_admin_access now i cert why at ad =
     (let dev = device_id_by_fp (ad_base ad) cert; tn = tenant_for_fp (ad_base ad) cert;
          m = atoi_value (get_setting tn ''admin_request_timeout_minutes'' ad);
          m' = (if m \<le> 0 then 15 else m);
          asked = clamp_agent_time now at
      in if dev = [] then Inl NotFound
         else (case create_admin_request \<lparr>cx_tx = None, cx_tenant = tn\<rparr> i dev why asked (asked + wrap_duration (m' * minute)) ad of
             Inl _ \<Rightarrow> Inl (OtherCode 13)
           | Inr (r, ad') \<Rightarrow> Inr (rq_id r, ad')))"

definition admin_status_to_proto :: "request_status \<Rightarrow> admin_status" where
  "admin_status_to_proto s = (case s of RqPending \<Rightarrow> StPending | RqApproved \<Rightarrow> StApproved | RqRejected \<Rightarrow> StRejected
     | RqExpired \<Rightarrow> StExpired | RqRevoked \<Rightarrow> StRevoked)"

definition fetch_admin_status :: "string \<Rightarrow> admin_db \<Rightarrow> rpc_code + admin_resp" where
  "fetch_admin_status cert ad =
     (let dev = device_id_by_fp (ad_base ad) cert; tn = tenant_for_fp (ad_base ad) cert;
          (collect, interval) = admin_collect_flags tn ad
      in if dev = [] then Inl NotFound
         else (case fetch_active \<lparr>cx_tx = None, cx_tenant = tn\<rparr> dev ad of
             Inl _ \<Rightarrow> Inl (OtherCode 13)
           | Inr None \<Rightarrow> Inr \<lparr>rp_status = StUnspecified, rp_rid = [], rp_expires = 0, rp_collect = collect, rp_interval = interval\<rparr>
           | Inr (Some r) \<Rightarrow> Inr \<lparr>rp_status = admin_status_to_proto (rq_status r), rp_rid = rq_id r,
               rp_expires = unix_or_zero (rq_expires r), rp_collect = collect, rp_interval = interval\<rparr>))"

text \<open>The report of the agent; the time is the one it gives.  \<open>Inr\<close> is "received".\<close>

definition report_admin_access :: "nanos \<Rightarrow> string \<Rightarrow> admin_report \<Rightarrow> unixtime \<Rightarrow> admin_db \<Rightarrow> rpc_code + admin_db" where
  "report_admin_access now cert rp at ad =
     (let cx = scope_by_fp (ad_base ad) cert; dev = device_id_by_fp (ad_base ad) cert;
          t = clamp_agent_time now at; approved = (ar_status rp = StApproved)
      in if ar_status rp \<noteq> StApproved \<and> ar_status rp \<noteq> StRevoked then Inl InvalidArgument
         else (case update_admin_report cx (ar_rid rp) dev approved t ad of
             Inl RequestNotFound \<Rightarrow> Inr ad
           | Inl _ \<Rightarrow> Inl (OtherCode 14)
           | Inr (_, ad1) \<Rightarrow>
               if approved \<and> ar_baseline rp
               then (case mark_baseline cx (ar_rid rp) dev t ad1 of Inl _ \<Rightarrow> Inl (OtherCode 14) | Inr (_, ad2) \<Rightarrow> Inr ad2)
               else Inr ad1))"

subsection \<open>Decisions of the operator\<close>

definition min_grant_seconds :: int where "min_grant_seconds = 60"
definition max_grant_seconds :: int where "max_grant_seconds = 30 * 24 * 3600"

text \<open>The term in seconds, or \<open>None\<close> for one out of bounds.\<close>

definition grant_seconds :: "string \<Rightarrow> int \<Rightarrow> int option" where
  "grant_seconds dflt dur =
     (if dur \<le> 0 then
        (let d = atoi_value dflt; d' = (if d \<le> 0 then 3600 else d)
         in Some (min (max d' min_grant_seconds) max_grant_seconds))
      else if dur < min_grant_seconds \<or> max_grant_seconds < dur then None
      else Some dur)"

definition respond_admin_request :: "scope_ctx \<Rightarrow> nanos \<Rightarrow> nanos \<Rightarrow> string \<Rightarrow> string \<Rightarrow> string \<Rightarrow> int \<Rightarrow> admin_db \<Rightarrow> nat \<times> admin_db" where
  "respond_admin_request cx clock now user rid decision dur ad =
     (if decision \<noteq> ''approved'' \<and> decision \<noteq> ''rejected'' then (400, ad)
      else (let approve = (decision = ''approved'');
                term = (if approve then map_option Some (grant_seconds (get_setting (cx_tenant cx) ''admin_request_default_duration'' ad) dur)
                        else Some None)
            in case term of None \<Rightarrow> (400, ad)
             | Some sec \<Rightarrow> (case respond_request cx now rid approve user (map_option (\<lambda>s. clock + s * second) sec) ad of
                   Inl _ \<Rightarrow> (500, ad)
                 | Inr (_, ad') \<Rightarrow> (200, ad'))))"

definition revoke_admin_request :: "scope_ctx \<Rightarrow> nanos \<Rightarrow> string \<Rightarrow> admin_db \<Rightarrow> nat \<times> admin_db" where
  "revoke_admin_request cx now rid ad = (case revoke_request cx (cx_tenant cx) now rid ad of
     Inl _ \<Rightarrow> (500, ad) | Inr (_, ad') \<Rightarrow> (200, ad'))"

subsection \<open>Evidence of sessions\<close>

text \<open>\<open>clipRunes\<close>: ranging over a string gives U+FFFD for a byte that starts no rune.\<close>

function clip_loop :: "nat \<Rightarrow> string \<Rightarrow> string \<Rightarrow> string" where
  "clip_loop mx out [] = out"
| "clip_loop mx out (c # s) =
     (let n = rune_len (c # s);
          r = (if n = 0 then utf8_replacement else take n (c # s))
      in if mx < length out + length r then out
         else clip_loop mx (out @ r) (drop (if n = 0 then 1 else n) (c # s)))"
  by pat_completeness auto
termination by (relation "measure (\<lambda>(_, _, s). length s)") (auto simp del: rune_len.simps)

definition clip_runes :: "nat \<Rightarrow> string \<Rightarrow> string" where
  "clip_runes mx s = (if mx = 0 \<or> length s \<le> mx then s else clip_loop mx [] s)"

definition max_session_changes :: nat where "max_session_changes = 1000"
definition max_field_bytes :: nat where "max_field_bytes = 512"
definition max_seq_jump :: int where "max_seq_jump = 64"
definition evidence_grace :: nanos where "evidence_grace = 2 * hour"

text \<open>\<open>AdminSessionWindow\<close>, its changes still without request, device and number.\<close>

record session_window =
  sn_request :: string
  sn_device :: string
  sn_seq :: int
  sn_end :: nanos
  sn_changes :: "change_row list"
  sn_final :: bool
  sn_truncated :: bool
  sn_total :: int
  sn_rebooted :: bool
  sn_lost :: bool
  sn_sw_health :: string
  sn_sv_health :: string
  sn_completeness :: string

datatype accept_error = TooMany | SeqJump | NoRequest | Refused store_error

definition stored_change :: "session_window \<Rightarrow> change_row \<Rightarrow> change_row" where
  "stored_change w c =
     (let clip = clip_runes max_field_bytes; a = clip (ch_attr c)
      in \<lparr>ch_request = sn_request w, ch_device = sn_device w, ch_tenant = default_tenant, ch_seq = sn_seq w,
          ch_kind = clip (ch_kind c), ch_subject = clip (ch_subject c), ch_display = clip (ch_display c),
          ch_key = clip (ch_key c), ch_old = clip (ch_old c), ch_new = clip (ch_new c), ch_vendor = clip (ch_vendor c),
          ch_scope = clip (ch_scope c), ch_attr = (if a = [] then ''unknown'' else a), ch_reason = clip (ch_reason c),
          ch_at = ch_at c\<rparr>)"

definition row_key :: "change_row \<Rightarrow> string \<times> int \<times> string \<times> string" where
  "row_key c = (ch_request c, ch_seq c, ch_kind c, ch_key c)"

text \<open>
  The insertion leaves the tenant out of the columns, so the row gets the default tenant, and row-level
  security refuses it in any other tenant's transaction.  A row with a known key is left alone.
\<close>

fun insert_changes :: "string \<Rightarrow> session_window \<Rightarrow> change_row list \<Rightarrow> change_row list \<Rightarrow> store_error + change_row list" where
  "insert_changes tn w [] stored = Inr stored"
| "insert_changes tn w (c # cs) stored =
     (let r = stored_change w c
      in if tn \<noteq> ch_tenant r then Inl RlsViolation
         else if row_key r \<in> set (map row_key stored) then insert_changes tn w cs stored
         else insert_changes tn w cs (stored @ [r]))"

definition window_summary :: "session_window \<Rightarrow> request_row \<Rightarrow> request_row" where
  "window_summary w r = r\<lparr>rq_last_seq := max (rq_last_seq r) (sn_seq w),
     rq_summary := Some (sn_total w, length (sn_changes w), sn_seq w, sn_lost w),
     rq_completeness := (if sn_completeness w = [] then ''unspecified'' else sn_completeness w),
     rq_rebooted := rq_rebooted r \<or> sn_rebooted w, rq_truncated := rq_truncated r \<or> sn_truncated w,
     rq_sw_health := (if sn_sw_health w \<noteq> [] then sn_sw_health w else rq_sw_health r),
     rq_sv_health := (if sn_sv_health w \<noteq> [] then sn_sv_health w else rq_sv_health r),
     rq_final := (if sn_final w \<and> rq_final r = None then Some (sn_end w) else rq_final r)\<rparr>"

definition accept_window :: "scope_ctx \<Rightarrow> session_window \<Rightarrow> admin_db \<Rightarrow> accept_error + admin_db" where
  "accept_window cx w ad =
     (if max_session_changes < length (sn_changes w) then Inl TooMany
      else (case begin_scoped cx of Inl e \<Rightarrow> Inl (Refused e)
        | Inr tn \<Rightarrow>
           (let mine = (\<lambda>r. rq_tenant r = tn \<and> rq_id r = sn_request w \<and> rq_device r = sn_device w)
            in case find mine (ad_requests ad) of None \<Rightarrow> Inl NoRequest
             | Some r \<Rightarrow>
                 if int32_of (rq_last_seq r + max_seq_jump) < sn_seq w then Inl SeqJump
                 else (case insert_changes tn w (sn_changes w) (ad_changes ad) of Inl e \<Rightarrow> Inl (Refused e)
                   | Inr cs \<Rightarrow> Inr (set_requests mine (window_summary w) (ad\<lparr>ad_changes := cs\<rparr>))))))"

definition change_kind_string :: "pb_change_kind \<Rightarrow> string" where
  "change_kind_string k = (case k of KindUnspecified \<Rightarrow> ''unspecified''
     | KindSoftwareInstalled \<Rightarrow> ''software_installed'' | KindSoftwareRemoved \<Rightarrow> ''software_removed''
     | KindSoftwareUpdated \<Rightarrow> ''software_updated'' | KindServiceInstalled \<Rightarrow> ''service_installed''
     | KindServiceRemoved \<Rightarrow> ''service_removed'' | KindServiceStartType \<Rightarrow> ''service_start_type_changed''
     | KindServiceAccount \<Rightarrow> ''service_account_changed'' | KindServiceDefinition \<Rightarrow> ''service_definition_changed'')"

definition attribution_string :: "pb_attribution \<Rightarrow> string" where
  "attribution_string a = (case a of AttributionUnknown \<Rightarrow> ''unknown'' | AttributionHuman \<Rightarrow> ''human_likely''
     | AttributionBackground \<Rightarrow> ''background_likely'')"

definition health_string :: "pb_health \<Rightarrow> string" where
  "health_string h = (case h of HealthUnspecified \<Rightarrow> ''unspecified'' | PbHealthOk \<Rightarrow> ''ok'' | PbHealthPartial \<Rightarrow> ''partial''
     | PbHealthFailed \<Rightarrow> ''failed'' | PbHealthUnsupported \<Rightarrow> ''unsupported'')"

definition completeness_string :: "completeness \<Rightarrow> string" where
  "completeness_string c = (case c of Complete \<Rightarrow> ''complete'' | NoBaseline \<Rightarrow> ''no_baseline'' | Partial \<Rightarrow> ''partial''
     | Truncated \<Rightarrow> ''truncated'' | StaleFinal \<Rightarrow> ''stale_final'')"

definition window_of_proto :: "nanos \<Rightarrow> string \<Rightarrow> (attr_reason \<Rightarrow> string) \<Rightarrow> pb_window \<Rightarrow> session_window" where
  "window_of_proto now dev why w = \<lparr>sn_request = pw_rid w, sn_device = dev, sn_seq = pw_seq w,
     sn_end = clamp_evidence_time now (pw_end w),
     sn_changes = map (\<lambda>c. \<lparr>ch_request = [], ch_device = [], ch_tenant = [], ch_seq = 0,
       ch_kind = change_kind_string (pc_kind c), ch_subject = pc_subject c, ch_display = pc_display c,
       ch_key = pc_key c, ch_old = pc_old c, ch_new = pc_new c, ch_vendor = pc_vendor c, ch_scope = pc_scope c,
       ch_attr = attribution_string (pc_attr c), ch_reason = why (pc_reason c),
       ch_at = clamp_evidence_time now (pc_at c)\<rparr>) (pw_changes w),
     sn_final = pw_final w, sn_truncated = pw_truncated w, sn_total = pw_total w, sn_rebooted = pw_rebooted w,
     sn_lost = pw_lost w, sn_sw_health = health_string (pw_sw_health w), sn_sv_health = health_string (pw_sv_health w),
     sn_completeness = completeness_string (pw_completeness w)\<rparr>"

text \<open>
  \<open>ReportAdminSessionChanges\<close>.  The context handed to the storage is that of the request: neither a
  transaction nor a tenant was put into it.  The digest of a final window only logs its failure, which in
  this context it always meets.  \<open>why\<close> gives the text of a reason.
\<close>

definition bare_ctx :: scope_ctx where "bare_ctx = \<lparr>cx_tx = None, cx_tenant = []\<rparr>"

definition report_session_changes :: "nanos \<Rightarrow> (attr_reason \<Rightarrow> string) \<Rightarrow> string \<Rightarrow> pb_window \<Rightarrow> admin_db \<Rightarrow> rpc_code + admin_db" where
  "report_session_changes now why cert w ad =
     (let dev = device_id_by_fp (ad_base ad) cert
      in if dev = [] then Inr ad
         else if pw_rid w = [] then Inl InvalidArgument
         else if max_session_changes < length (pw_changes w) then Inl InvalidArgument
         else (case accept_window bare_ctx (window_of_proto now dev why w) ad of
             Inl NoRequest \<Rightarrow> Inr ad
           | Inl TooMany \<Rightarrow> Inl InvalidArgument
           | Inl SeqJump \<Rightarrow> Inl InvalidArgument
           | Inl (Refused _) \<Rightarrow> Inl (OtherCode 14)
           | Inr ad' \<Rightarrow> Inr ad'))"

subsection \<open>Alerts on missing evidence\<close>

definition closed_at :: "request_row \<Rightarrow> nanos" where
  "closed_at r = (case rq_revoked r of Some t \<Rightarrow> t | None \<Rightarrow> (case rq_expires r of Some t \<Rightarrow> t | None \<Rightarrow>
     (case rq_decided r of Some t \<Rightarrow> t | None \<Rightarrow> rq_requested r)))"

definition is_gap :: "nanos \<Rightarrow> request_row \<Rightarrow> bool" where
  "is_gap cutoff r \<longleftrightarrow> rq_baseline r \<noteq> None \<and> rq_final r = None \<and>
     (rq_status r = RqRevoked \<or> rq_status r = RqExpired) \<and> closed_at r < cutoff"

definition list_gaps :: "scope_ctx \<Rightarrow> nanos \<Rightarrow> nanos \<Rightarrow> admin_db \<Rightarrow> store_error + request_row list" where
  "list_gaps cx now grace ad = (case scope_for cx [] of Inl e \<Rightarrow> Inl e
     | Inr tn \<Rightarrow>
        (let cutoff = now - (if grace \<le> 0 then evidence_grace else grace)
         in Inr (take 200 (sort_key closed_at (filter (\<lambda>r. rq_tenant r = tn \<and> is_gap cutoff r \<and>
               scoped_device (ad_base ad) tn (rq_device r) \<noteq> None) (ad_requests ad))))))"

definition create_alert :: "scope_ctx \<Rightarrow> string \<Rightarrow> string \<Rightarrow> string \<Rightarrow> string \<Rightarrow> string \<Rightarrow> admin_db \<Rightarrow> bool admin_stored" where
  "create_alert cx i dev ty details rid ad = (case bind_for_device cx (ad_base ad) dev of Inl e \<Rightarrow> Inl e
     | Inr tn \<Rightarrow>
        if list_ex (\<lambda>a. al_tenant a = tn \<and> al_device a = dev \<and> al_type a = ty \<and> al_details a = details \<and> al_acked a = None) (ad_alerts ad)
        then Inr (False, ad)
        else (let owned = list_ex (\<lambda>r. rq_tenant r = tn \<and> rq_id r = rid \<and> rq_device r = dev) (ad_requests ad)
              in Inr (True, ad\<lparr>ad_alerts := ad_alerts ad @ [\<lparr>al_id = i, al_device = dev, al_tenant = tn, al_type = ty,
                   al_details = details, al_request = (if owned then Some rid else None), al_acked = None\<rparr>]\<rparr>)))"

definition acknowledge_alert :: "scope_ctx \<Rightarrow> string \<Rightarrow> nanos \<Rightarrow> string \<Rightarrow> admin_db \<Rightarrow> unit admin_stored" where
  "acknowledge_alert cx t now i ad = (case bind_tenant cx t of Inl e \<Rightarrow> Inl e
     | Inr tn \<Rightarrow>
        (let P = (\<lambda>a. al_tenant a = tn \<and> al_id a = i \<and> al_acked a = None)
         in if list_ex P (ad_alerts ad) then Inr ((), ad\<lparr>ad_alerts := update_where P (\<lambda>a. a\<lparr>al_acked := Some now\<rparr>) (ad_alerts ad)\<rparr>)
            else Inl NoRows))"

text \<open>The sweep in one tenant; \<open>text\<close> is the details of a gap, \<open>ids\<close> the identifiers of new alerts.\<close>

definition sweep_step :: "scope_ctx \<Rightarrow> (request_row \<Rightarrow> string) \<Rightarrow> (request_row \<Rightarrow> string) \<Rightarrow> nat \<times> admin_db \<Rightarrow> request_row \<Rightarrow> nat \<times> admin_db" where
  "sweep_step cx ids dsc s r = (case create_alert cx (ids r) (rq_device r) ''admin_session_evidence_gap'' (dsc r) (rq_id r) (snd s) of
     Inl _ \<Rightarrow> s | Inr (made, ad') \<Rightarrow> (if made then Suc (fst s) else fst s, ad'))"

definition sweep_gaps :: "scope_ctx \<Rightarrow> nanos \<Rightarrow> (request_row \<Rightarrow> string) \<Rightarrow> (request_row \<Rightarrow> string) \<Rightarrow> admin_db \<Rightarrow> nat admin_stored" where
  "sweep_gaps cx now ids dsc ad = (case list_gaps cx now evidence_grace ad of Inl e \<Rightarrow> Inl e
     | Inr gaps \<Rightarrow> Inr (foldl (sweep_step cx ids dsc) (0, ad) gaps))"

subsection \<open>Histories\<close>

datatype admin_op =
    OpRequest nanos string string string unixtime
  | OpReport nanos string admin_report unixtime
  | OpChanges nanos "attr_reason \<Rightarrow> string" string pb_window
  | OpRespond scope_ctx nanos nanos string string string int
  | OpRevoke scope_ctx nanos string
  | OpExpire nanos "string list"
  | OpSweep scope_ctx nanos "request_row \<Rightarrow> string" "request_row \<Rightarrow> string"
  | OpAck scope_ctx string nanos string

definition or_old :: "admin_db \<Rightarrow> 'e + admin_db \<Rightarrow> admin_db" where
  "or_old ad x = (case x of Inl _ \<Rightarrow> ad | Inr ad' \<Rightarrow> ad')"

fun run_op :: "admin_op \<Rightarrow> admin_db \<Rightarrow> admin_db" where
  "run_op (OpRequest now i cert why at) ad = or_old ad (map_sum id snd (request_admin_access now i cert why at ad))"
| "run_op (OpReport now cert rp at) ad = or_old ad (report_admin_access now cert rp at ad)"
| "run_op (OpChanges now why cert w) ad = or_old ad (report_session_changes now why cert w ad)"
| "run_op (OpRespond cx clock now user rid decision dur) ad = snd (respond_admin_request cx clock now user rid decision dur ad)"
| "run_op (OpRevoke cx now rid) ad = snd (revoke_admin_request cx now rid ad)"
| "run_op (OpExpire now tenants) ad = expire_all now tenants ad"
| "run_op (OpSweep cx now ids dsc) ad = or_old ad (map_sum id snd (sweep_gaps cx now ids dsc ad))"
| "run_op (OpAck cx t now i) ad = or_old ad (map_sum id snd (acknowledge_alert cx t now i ad))"

definition run_ops :: "admin_op list \<Rightarrow> admin_db \<Rightarrow> admin_db" where
  "run_ops ops ad = foldl (\<lambda>s x. run_op x s) ad ops"

text \<open>The transitions of a request.\<close>

inductive status_step :: "request_status \<Rightarrow> request_status \<Rightarrow> bool" where
  stay: "status_step s s"
| approve: "status_step RqPending RqApproved"
| reject: "status_step RqPending RqRejected"
| expire: "s = RqPending \<or> s = RqApproved \<Longrightarrow> status_step s RqExpired"
| withdraw: "status_step s RqRevoked"

inductive_simps to_pending [simp]: "status_step s RqPending"
inductive_simps to_approved: "status_step s RqApproved"

text \<open>What one operation does to a row: a transition; the term of a grant is fixed with the grant, and ends by \<open>B\<close>.\<close>

definition row_step :: "nanos \<Rightarrow> request_row \<Rightarrow> request_row \<Rightarrow> bool" where
  "row_step B r r' \<longleftrightarrow> rq_id r' = rq_id r \<and> rq_device r' = rq_device r \<and> rq_tenant r' = rq_tenant r \<and> rq_final r' = rq_final r \<and>
     status_step (rq_status r) (rq_status r') \<and>
     (rq_status r' = RqApproved \<longrightarrow> (if rq_status r = RqApproved then rq_expires r' = rq_expires r else \<exists>e. rq_expires r' = Some e \<and> e \<le> B))"

definition fresh_row :: "request_row \<Rightarrow> bool" where
  "fresh_row r \<longleftrightarrow> rq_status r = RqPending \<and> rq_final r = None"

definition born_row :: "nanos \<Rightarrow> request_row \<Rightarrow> bool" where
  "born_row B r \<longleftrightarrow> (\<exists>r0. fresh_row r0 \<and> row_step B r0 r)"

text \<open>The rows of the table keep their place, and new rows come at its end.\<close>

definition evolves :: "nanos \<Rightarrow> admin_db \<Rightarrow> admin_db \<Rightarrow> bool" where
  "evolves B ad ad' \<longleftrightarrow> (\<exists>old new. ad_requests ad' = old @ new \<and> list_all2 (row_step B) (ad_requests ad) old \<and>
     list_all (born_row B) new \<and> ad_base ad' = ad_base ad \<and> ad_changes ad' = ad_changes ad)"

lemma row_step_refl [simp]: "row_step B r r"
  by (simp add: row_step_def status_step.stay)

lemma evolves_same: "ad_requests ad' = ad_requests ad \<Longrightarrow> ad_base ad' = ad_base ad \<Longrightarrow> ad_changes ad' = ad_changes ad \<Longrightarrow> evolves B ad ad'"
  unfolding evolves_def by (rule exI [of _ "ad_requests ad"], rule exI [of _ "[]"]) (simp add: list_all2_refl)

lemma evolves_refl [simp]: "evolves B ad ad"
  by (simp add: evolves_same)

lemma evolves_set:
  assumes "\<And>r. P r \<Longrightarrow> row_step B r (f r)"
  shows "evolves B ad (set_requests P f ad)"
proof -
  have "list_all2 (row_step B) (ad_requests ad) (update_where P f (ad_requests ad))"
    using assms by (simp add: update_where_def list.rel_map list_all2_same)
  then show ?thesis unfolding evolves_def set_requests_def
    by (intro exI [of _ "update_where P f (ad_requests ad)"] exI [of _ "[]"]) simp
qed

lemma evolves_append: "fresh_row r \<Longrightarrow> evolves B ad (ad\<lparr>ad_requests := ad_requests ad @ [r]\<rparr>)"
  unfolding evolves_def born_row_def
  by (intro exI [of _ "ad_requests ad"] exI [of _ "[r]"]) (auto simp: list_all2_refl intro: row_step_refl)

lemma status_step_trans: "status_step a b \<Longrightarrow> status_step b c \<Longrightarrow> status_step a c"
  by (cases a; cases b; cases c) (auto simp: status_step.simps)

lemma row_step_trans:
  assumes "row_step B a b" and "row_step B b c"
  shows "row_step B a c"
proof -
  have "rq_status a = RqPending" if "rq_status b = RqPending" using assms(1) that by (simp add: row_step_def)
  moreover have "rq_status b = RqPending \<or> rq_status b = RqApproved" if "rq_status c = RqApproved"
    using assms(2) that by (auto simp: row_step_def to_approved)
  ultimately show ?thesis
    using assms status_step_trans [of "rq_status a" "rq_status b" "rq_status c"]
    by (auto simp: row_step_def split: if_splits)
qed

lemma born_step: "born_row B a \<Longrightarrow> row_step B a b \<Longrightarrow> born_row B b"
  unfolding born_row_def using row_step_trans by blast

lemma born_steps: "list_all (born_row B) xs \<Longrightarrow> list_all2 (row_step B) xs ys \<Longrightarrow> list_all (born_row B) ys"
  by (induction xs arbitrary: ys) (auto simp: list_all2_Cons1 intro: born_step)

lemma evolves_trans:
  assumes "evolves B a b" and "evolves B b c"
  shows "evolves B a c"
proof -
  from assms(1) obtain o1 n1 where 1: "ad_requests b = o1 @ n1" "list_all2 (row_step B) (ad_requests a) o1"
    "list_all (born_row B) n1" "ad_base b = ad_base a" "ad_changes b = ad_changes a" by (auto simp: evolves_def)
  from assms(2) obtain o2 n2 where 2: "ad_requests c = o2 @ n2" "list_all2 (row_step B) (o1 @ n1) o2"
    "list_all (born_row B) n2" "ad_base c = ad_base b" "ad_changes c = ad_changes b" by (auto simp: evolves_def 1(1))
  from 2(2) obtain x y where xy: "o2 = x @ y" "list_all2 (row_step B) o1 x" "list_all2 (row_step B) n1 y"
    by (auto simp: list_all2_append1)
  have "list_all2 (row_step B) (ad_requests a) x" using list_all2_trans [OF row_step_trans 1(2) xy(2)] .
  moreover have "list_all (born_row B) (y @ n2)" using born_steps [OF 1(3) xy(3)] 2(3) by simp
  ultimately show ?thesis unfolding evolves_def using 1 2 xy(1) by (intro exI [of _ x] exI [of _ "y @ n2"]) simp
qed

subsection \<open>Every operation evolves B the table\<close>

lemma create_request_evolves: "create_admin_request cx i dev why at until ad = Inr (r, ad') \<Longrightarrow> evolves B ad ad'"
  unfolding create_admin_request_def Let_def
  by (auto split: sum.splits option.splits intro!: evolves_append simp: fresh_row_def blank_request_def)

lemma request_access_evolves: "request_admin_access now i cert why at ad = Inr (k, ad') \<Longrightarrow> evolves B ad ad'"
  unfolding request_admin_access_def Let_def
  by (auto split: if_splits sum.splits dest: create_request_evolves)

lemma update_report_evolves: "update_admin_report cx rid dev a t ad = Inr (u, ad') \<Longrightarrow> evolves B ad ad'"
  unfolding update_admin_report_def Let_def
  by (auto split: sum.splits if_splits intro!: evolves_set
      simp: row_step_def intro: status_step.intros)

lemma mark_baseline_evolves: "mark_baseline cx rid dev t ad = Inr (u, ad') \<Longrightarrow> evolves B ad ad'"
  unfolding mark_baseline_def by (auto split: sum.splits intro!: evolves_set simp: row_step_def status_step.stay)

lemma respond_evolves: "respond_request cx now rid a by e ad = Inr (u, ad') \<Longrightarrow> (a \<Longrightarrow> \<exists>x. e = Some x \<and> x \<le> B) \<Longrightarrow> evolves B ad ad'"
  unfolding respond_request_def
  by (auto split: sum.splits intro!: evolves_set simp: row_step_def intro: status_step.intros)

lemma grant_seconds_bounds:
  "grant_seconds dflt dur = Some n \<Longrightarrow> min_grant_seconds \<le> n \<and> n \<le> max_grant_seconds"
  by (auto simp: grant_seconds_def Let_def min_grant_seconds_def max_grant_seconds_def split: if_splits)

lemma respond_handler_evolves:
  assumes "clock + max_grant_seconds * second \<le> B"
  shows "evolves B ad (snd (respond_admin_request cx clock now user rid dcn dur ad))"
proof -
  have "clock + n * second \<le> B" if n: "grant_seconds dflt dur = Some n" for n dflt
    using grant_seconds_bounds [OF n] assms by simp
  then show ?thesis unfolding respond_admin_request_def Let_def
    by (auto split: option.splits sum.splits dest: respond_evolves)
qed

lemma revoke_evolves: "evolves B ad (snd (revoke_admin_request cx now rid ad))"
  unfolding revoke_admin_request_def revoke_request_def
  by (auto split: sum.splits intro!: evolves_set simp: row_step_def intro: status_step.intros)

lemma expire_evolves: "expire_stale cx now ad = Inr (n, ad') \<Longrightarrow> evolves B ad ad'"
  unfolding expire_stale_def Let_def
  by (auto split: sum.splits intro!: evolves_set simp: row_step_def overdue_def intro: status_step.intros)

lemma expire_all_evolves: "evolves B ad (expire_all now tenants ad)"
  unfolding expire_all_def
proof (induction tenants arbitrary: ad)
  case (Cons t ts)
  show ?case
  proof (cases "expire_stale \<lparr>cx_tx = Some t, cx_tenant = t\<rparr> now ad")
    case (Inr r)
    then show ?thesis using evolves_trans [OF expire_evolves Cons.IH] by (cases r) auto
  qed (use Cons.IH in simp)
qed simp

lemma report_access_evolves:
  assumes "report_admin_access now cert rp at ad = Inr ad'"
  shows "evolves B ad ad'"
proof -
  let ?cx = "scope_by_fp (ad_base ad) cert" and ?dev = "device_id_by_fp (ad_base ad) cert"
  let ?t = "clamp_agent_time now at" and ?a = "ar_status rp = StApproved"
  show ?thesis
  proof (cases "update_admin_report ?cx (ar_rid rp) ?dev ?a ?t ad")
    case (Inl e)
    then show ?thesis using assms by (cases e) (auto simp: report_admin_access_def Let_def split: if_splits)
  next
    case (Inr r)
    obtain u ad1 where r: "r = (u, ad1)" by (cases r)
    have 1: "evolves B ad ad1" using update_report_evolves [OF Inr [unfolded r]] .
    show ?thesis
    proof (cases "mark_baseline ?cx (ar_rid rp) ?dev ?t ad1")
      case (Inl e)
      then show ?thesis using assms Inr r 1 by (auto simp: report_admin_access_def Let_def split: if_splits)
    next
      case (Inr q)
      obtain v ad2 where q: "q = (v, ad2)" by (cases q)
      have "evolves B ad ad2" using evolves_trans [OF 1 mark_baseline_evolves [OF Inr [unfolded q]]] .
      then show ?thesis using assms \<open>update_admin_report _ _ _ _ _ _ = _\<close> Inr r q 1
        by (auto simp: report_admin_access_def Let_def split: if_splits)
    qed
  qed
qed

text \<open>The report of a window changes nothing: its context names no tenant.\<close>

lemma accept_bare: "accept_window bare_ctx w ad = Inl (if max_session_changes < length (sn_changes w) then TooMany else Refused ScopeMissing)"
  by (simp add: accept_window_def begin_scoped_def bare_ctx_def)

lemma report_changes_cases:
  "report_session_changes now why cert w ad =
     (if device_id_by_fp (ad_base ad) cert = [] then Inr ad
      else if pw_rid w = [] \<or> max_session_changes < length (pw_changes w) then Inl InvalidArgument
      else Inl (OtherCode 14))"
  by (simp add: report_session_changes_def Let_def accept_bare window_of_proto_def)

lemma create_alert_same:
  "create_alert cx i dev ty dt rid ad = Inr (b, ad') \<Longrightarrow>
     ad_requests ad' = ad_requests ad \<and> ad_base ad' = ad_base ad \<and> ad_changes ad' = ad_changes ad"
  unfolding create_alert_def Let_def by (auto split: sum.splits if_splits)

lemma sweep_fold_same:
  "ad_requests (snd (foldl (sweep_step cx ids dsc) s gaps)) = ad_requests (snd s) \<and>
   ad_base (snd (foldl (sweep_step cx ids dsc) s gaps)) = ad_base (snd s) \<and>
   ad_changes (snd (foldl (sweep_step cx ids dsc) s gaps)) = ad_changes (snd s)"
proof (induction gaps arbitrary: s)
  case (Cons g gs)
  have "ad_requests (snd (sweep_step cx ids dsc s g)) = ad_requests (snd s) \<and>
    ad_base (snd (sweep_step cx ids dsc s g)) = ad_base (snd s) \<and>
    ad_changes (snd (sweep_step cx ids dsc s g)) = ad_changes (snd s)"
    unfolding sweep_step_def by (auto split: sum.splits dest: create_alert_same)
  then show ?case using Cons.IH by simp
qed simp

lemma sweep_evolves: "sweep_gaps cx now ids dsc ad = Inr (n, ad') \<Longrightarrow> evolves B ad ad'"
  unfolding sweep_gaps_def using sweep_fold_same [of cx ids dsc "(0, ad)"]
  by (auto split: sum.splits intro!: evolves_same) (metis snd_conv)+

lemma ack_evolves: "acknowledge_alert cx t now i ad = Inr (u, ad') \<Longrightarrow> evolves B ad ad'"
  unfolding acknowledge_alert_def Let_def by (auto split: sum.splits if_splits intro!: evolves_same)

text \<open>\<open>B\<close> is the latest end of a term that a decision of the history can set.\<close>

fun op_by :: "nanos \<Rightarrow> admin_op \<Rightarrow> bool" where
  "op_by B (OpRespond cx clock now user rid decision dur) = (clock + max_grant_seconds * second \<le> B)"
| "op_by B _ = True"

lemma run_op_evolves:
  assumes "op_by B x"
  shows "evolves B ad (run_op x ad)"
proof (cases x)
  case (OpRequest now i cert why at)
  then show ?thesis
    by (cases "request_admin_access now i cert why at ad") (auto simp: or_old_def intro: request_access_evolves)
next
  case (OpReport now cert rp at)
  then show ?thesis
    by (cases "report_admin_access now cert rp at ad") (auto simp: or_old_def intro: report_access_evolves)
next
  case (OpSweep cx now ids dsc)
  then show ?thesis
    by (cases "sweep_gaps cx now ids dsc ad") (auto simp: or_old_def intro: sweep_evolves)
next
  case (OpAck cx t now i)
  then show ?thesis
    by (cases "acknowledge_alert cx t now i ad") (auto simp: or_old_def intro: ack_evolves)
qed (use assms in \<open>auto simp: or_old_def report_changes_cases respond_handler_evolves revoke_evolves expire_all_evolves\<close>)

lemma run_ops_evolves: "list_all (op_by B) ops \<Longrightarrow> evolves B ad (run_ops ops ad)"
  unfolding run_ops_def
proof (induction ops arbitrary: ad)
  case (Cons x xs)
  have "op_by B x" "evolves B (run_op x ad) (foldl (\<lambda>s x. run_op x s) (run_op x ad) xs)" using Cons by simp_all
  then show ?case using evolves_trans [OF run_op_evolves] by simp
qed simp

subsection \<open>Histories of requests\<close>

lemma evolves_row:
  assumes "evolves B ad ad'" and "k < length (ad_requests ad)"
  shows "k < length (ad_requests ad') \<and> row_step B (ad_requests ad ! k) (ad_requests ad' ! k)"
  using assms by (auto simp: evolves_def list_all2_conv_all_nth nth_append)

definition term_by :: "nanos \<Rightarrow> request_row \<Rightarrow> bool" where
  "term_by B r \<longleftrightarrow> (rq_status r = RqApproved \<longrightarrow> (\<exists>e. rq_expires r = Some e \<and> e \<le> B))"

lemma row_step_term: "row_step B r r' \<Longrightarrow> term_by B r \<Longrightarrow> term_by B r'"
  by (auto simp: row_step_def term_by_def split: if_splits)

lemma born_term: "born_row B r \<Longrightarrow> term_by B r"
  unfolding born_row_def using row_step_term by (auto simp: fresh_row_def term_by_def)

lemma evolves_terms:
  assumes "evolves B ad ad'" and "list_all (term_by B) (ad_requests ad)"
  shows "list_all (term_by B) (ad_requests ad')"
proof -
  obtain old new where o: "ad_requests ad' = old @ new" "list_all2 (row_step B) (ad_requests ad) old" "list_all (born_row B) new"
    using assms(1) by (auto simp: evolves_def)
  have "list_all (term_by B) old" using o(2) assms(2)
    by (induction rule: list_all2_induct) (auto intro: row_step_term)
  moreover have "list_all (term_by B) new" using o(3) born_term by (simp add: list_all_iff)
  ultimately show ?thesis by (simp add: o(1))
qed

text \<open>No history of calls, decisions and sweeps makes administrator rights permanent: when
  every decision is taken at least thirty days before \<open>B\<close>, each approved request has a term, and
  the term ends by \<open>B\<close>.\<close>

theorem grants_are_temporary:
  assumes "list_all (op_by B) ops" and "list_all (term_by B) (ad_requests ad)"
  shows "list_all (term_by B) (ad_requests (run_ops ops ad))"
  using evolves_terms [OF run_ops_evolves [OF assms(1)] assms(2)] .

text \<open>The life of a request: whatever calls, decisions and sweeps follow, a request keeps its
  identity and its device, and once it is rejected, expired or revoked it is never pending or approved again.\<close>

theorem closed_requests_stay_closed:
  assumes "k < length (ad_requests ad)" and "rq_status (ad_requests ad ! k) \<noteq> RqPending"
    and "rq_status (ad_requests ad ! k) \<noteq> RqApproved"
  shows "let r = ad_requests ad ! k; r' = ad_requests (run_ops ops ad) ! k
    in rq_id r' = rq_id r \<and> rq_device r' = rq_device r \<and> rq_status r' \<noteq> RqPending \<and> rq_status r' \<noteq> RqApproved"
proof -
  obtain B where B: "list_all (op_by B) ops"
  proof -
    have "\<exists>B. list_all (op_by B) ops"
    proof (induction ops)
      case (Cons x xs)
      then obtain B where B: "list_all (op_by B) xs" by blast
      obtain C where C: "op_by C x" by (cases x) auto
      have up: "op_by b y \<Longrightarrow> b \<le> c \<Longrightarrow> op_by c y" for b c y by (cases y) auto
      have "op_by (max B C) x" using up [OF C] by simp
      moreover have "list_all (op_by (max B C)) xs" unfolding list_all_iff
        using B up [of B _ "max B C"] by (simp add: list_all_iff)
      ultimately show ?case by (intro exI [of _ "max B C"]) simp
    qed simp
    then show thesis using that by blast
  qed
  have "row_step B (ad_requests ad ! k) (ad_requests (run_ops ops ad) ! k)"
    using evolves_row [OF run_ops_evolves [OF B] assms(1)] by simp
  then show ?thesis using assms(2,3) by (auto simp: row_step_def Let_def to_approved)
qed

text \<open>The evidence of administrator sessions never arrives.  The handler of
  \<open>ReportAdminSessionChanges\<close> hands the storage a context without tenant, so after every history the
  server answers \<open>Unavailable\<close> to each well-formed window of a known device, no change is ever stored,
  and no request gets its final window.  A window accepted in the scope of the device would be stored.\<close>

theorem evidence_never_accepted:
  assumes "device_id_by_fp (ad_base ad) cert \<noteq> []" and "pw_rid w \<noteq> []" and "length (pw_changes w) \<le> 1000"
    and "list_all (op_by B) ops" and "k < length (ad_requests ad)"
  shows "report_session_changes now why cert w (run_ops ops ad) = Inl (OtherCode 14) \<and>
    ad_changes (run_ops ops ad) = ad_changes ad \<and>
    rq_final (ad_requests (run_ops ops ad) ! k) = rq_final (ad_requests ad ! k)"
proof -
  have e: "evolves B ad (run_ops ops ad)" using run_ops_evolves [OF assms(4)] .
  then have "ad_base (run_ops ops ad) = ad_base ad" "ad_changes (run_ops ops ad) = ad_changes ad"
    by (auto simp: evolves_def)
  then show ?thesis using assms evolves_row [OF e assms(5)]
    by (auto simp: report_changes_cases max_session_changes_def row_step_def)
qed


lemma out_of_bounds_refused:
  "0 < dur \<Longrightarrow> dur < 60 \<or> 2592000 < dur \<Longrightarrow>
     respond_admin_request cx clock now user rid ''approved'' dur ad = (400, ad)"
  by (auto simp: respond_admin_request_def grant_seconds_def min_grant_seconds_def max_grant_seconds_def)

subsection \<open>Missing evidence\<close>

lemma take_sort_key_prefix:
  fixes f :: "'a \<Rightarrow> 'k :: linorder"
  assumes "n \<le> length (filter (\<lambda>q. f q < f r) xs)"
  shows "r \<notin> set (take n (sort_key f xs))"
proof
  assume "r \<in> set (take n (sort_key f xs))"
  then obtain i where i: "i < n" "i < length (sort_key f xs)" "sort_key f xs ! i = r"
    by (auto simp: in_set_conv_nth)
  let ?ys = "sort_key f xs"
  have srt: "sorted (map f ?ys)" by simp
  have "filter (\<lambda>q. f q < f r) (drop i ?ys) = []"
  proof -
    have "\<not> f q < f r" if q: "q \<in> set (drop i ?ys)" for q
    proof -
      obtain j where "j < length (drop i ?ys)" "drop i ?ys ! j = q" using q by (metis in_set_conv_nth)
      then have j: "i + j < length ?ys" "q = ?ys ! (i + j)" by simp_all
      have "f (?ys ! i) \<le> f (?ys ! (i + j))" using srt j(1) sorted_nth_mono [of "map f ?ys" i "i + j"] by simp
      then show ?thesis using i(3) j(2) by simp
    qed
    then show ?thesis by (simp add: filter_empty_conv)
  qed
  then have "length (filter (\<lambda>q. f q < f r) ?ys) = length (filter (\<lambda>q. f q < f r) (take i ?ys))"
    by (metis append_Nil2 append_take_drop_id filter_append)
  also have "\<dots> \<le> i" using length_filter_le [of "\<lambda>q. f q < f r" "take i ?ys"] by simp
  finally have "length (filter (\<lambda>q. f q < f r) ?ys) \<le> i" .
  moreover have "length (filter (\<lambda>q. f q < f r) ?ys) = length (filter (\<lambda>q. f q < f r) xs)"
    by (metis mset_sort mset_filter size_mset)
  ultimately show False using assms i(1) by simp
qed

definition visible_gap :: "scope_ctx \<Rightarrow> string \<Rightarrow> nanos \<Rightarrow> admin_db \<Rightarrow> request_row \<Rightarrow> bool" where
  "visible_gap cx tn now ad r \<longleftrightarrow> rq_tenant r = tn \<and> is_gap (now - evidence_grace) r \<and>
     scoped_device (ad_base ad) tn (rq_device r) \<noteq> None"

lemma list_gaps_eq: "scope_for cx [] = Inr tn \<Longrightarrow>
   list_gaps cx now evidence_grace ad = Inr (take 200 (sort_key closed_at (filter (visible_gap cx tn now ad) (ad_requests ad))))"
  by (simp add: list_gaps_def visible_gap_def [abs_def] evidence_grace_def)


definition open_alert :: "string \<Rightarrow> request_row \<Rightarrow> string \<Rightarrow> alert_row \<Rightarrow> bool" where
  "open_alert tn r details a \<longleftrightarrow> al_tenant a = tn \<and> al_device a = rq_device r \<and>
     al_type a = ''admin_session_evidence_gap'' \<and> al_details a = details \<and> al_acked a = None"

lemma create_alert_grows:
  "create_alert cx i dev ty dt rid ad = Inr (b, ad') \<Longrightarrow> set (ad_alerts ad) \<subseteq> set (ad_alerts ad')"
  unfolding create_alert_def Let_def by (auto split: sum.splits if_splits)

lemma sweep_step_grows: "set (ad_alerts (snd s)) \<subseteq> set (ad_alerts (snd (sweep_step cx ids dsc s r)))"
  unfolding sweep_step_def by (auto split: sum.splits dest: create_alert_grows)

lemma sweep_step_opens:
  "cx_tx cx = Some tn \<Longrightarrow> list_ex (open_alert tn r (dsc r)) (ad_alerts (snd (sweep_step cx ids dsc s r)))"
  by (auto simp: sweep_step_def create_alert_def bind_for_device_def Let_def open_alert_def [abs_def] list_ex_iff)

lemma sweep_fold_opens:
  "cx_tx cx = Some tn \<Longrightarrow> r \<in> set gaps \<or> list_ex (open_alert tn r (dsc r)) (ad_alerts (snd s)) \<Longrightarrow>
     list_ex (open_alert tn r (dsc r)) (ad_alerts (snd (foldl (sweep_step cx ids dsc) s gaps)))"
proof (induction gaps arbitrary: s)
  case (Cons g gs)
  have "r \<in> set gs \<or> list_ex (open_alert tn r (dsc r)) (ad_alerts (snd (sweep_step cx ids dsc s g)))"
    using Cons.prems sweep_step_opens [OF Cons.prems(1), of g dsc ids s] sweep_step_grows [of s cx ids dsc g]
    by (auto simp: list_ex_iff)
  then show ?case using Cons.IH Cons.prems(1) by simp
qed simp

text \<open>A session closed for two hours whose evidence was begun and never finished is noticed: after
  each sweep of its tenant there is an open alert for it, as long as the tenant has at most two hundred
  such sessions - and whatever was acknowledged before, so an acknowledged alert is raised again.\<close>

theorem listed_gap_is_alerted:
  assumes "cx_tx cx = Some tn" and "r \<in> set (ad_requests ad)" and "visible_gap cx tn now ad r"
    and "length (filter (visible_gap cx tn now ad) (ad_requests ad)) \<le> 200"
  shows "\<exists>n ad'. sweep_gaps cx now ids dsc ad = Inr (n, ad') \<and> list_ex (open_alert tn r (dsc r)) (ad_alerts ad')"
proof -
  let ?gs = "take 200 (sort_key closed_at (filter (visible_gap cx tn now ad) (ad_requests ad)))"
  have "scope_for cx [] = Inr tn" using assms(1) by (simp add: scope_for_def Let_def)
  then have "sweep_gaps cx now ids dsc ad = Inr (foldl (sweep_step cx ids dsc) (0, ad) ?gs)"
    by (simp add: sweep_gaps_def list_gaps_eq)
  moreover have "r \<in> set ?gs" using assms by simp
  ultimately show ?thesis using sweep_fold_opens [OF assms(1), of r ?gs]
    by (metis prod.collapse)
qed

text \<open>The sweep looks at the two hundred sessions that were closed first, and nothing takes a
  session off that list: with two hundred older ones, a session without evidence is not even looked at.\<close>

theorem gap_alerts_starve:
  assumes "scope_for cx [] = Inr tn"
    and "200 \<le> length (filter (\<lambda>q. closed_at q < closed_at r) (filter (visible_gap cx tn now ad) (ad_requests ad)))"
  shows "\<exists>gs. list_gaps cx now evidence_grace ad = Inr gs \<and> r \<notin> set gs"
  using take_sort_key_prefix [OF assms(2)] by (simp add: list_gaps_eq [OF assms(1)])

subsection \<open>Ownership, expiry and precedence of requests\<close>

lemma set_requests_nth:
  "k < length (ad_requests ad) \<Longrightarrow> ad_requests (set_requests P f ad) ! k =
     (if P (ad_requests ad ! k) then f (ad_requests ad ! k) else ad_requests ad ! k)"
  by (simp add: set_requests_def update_where_def)

lemma set_requests_length [simp]: "length (ad_requests (set_requests P f ad)) = length (ad_requests ad)"
  by (simp add: set_requests_def)

lemma update_report_other:
  "update_admin_report cx rid dev a t ad = Inr (u, ad') \<Longrightarrow> k < length (ad_requests ad) \<Longrightarrow>
   rq_device (ad_requests ad ! k) \<noteq> dev \<Longrightarrow>
     ad_requests ad' ! k = ad_requests ad ! k \<and> length (ad_requests ad') = length (ad_requests ad)"
  unfolding update_admin_report_def Let_def by (auto split: sum.splits if_splits simp: set_requests_nth)

lemma mark_baseline_other:
  "mark_baseline cx rid dev t ad = Inr (u, ad') \<Longrightarrow> k < length (ad_requests ad) \<Longrightarrow>
   rq_device (ad_requests ad ! k) \<noteq> dev \<Longrightarrow> ad_requests ad' ! k = ad_requests ad ! k"
  unfolding mark_baseline_def by (auto split: sum.splits simp: set_requests_nth)

text \<open>A device reports on its own requests only: whatever request its report names, the rows of
  every other device are what they were.\<close>

theorem reports_touch_own_requests:
  assumes "report_admin_access now cert rp at ad = Inr ad'" and "k < length (ad_requests ad)"
    and "rq_device (ad_requests ad ! k) \<noteq> device_id_by_fp (ad_base ad) cert"
  shows "ad_requests ad' ! k = ad_requests ad ! k"
proof -
  let ?cx = "scope_by_fp (ad_base ad) cert" and ?dev = "device_id_by_fp (ad_base ad) cert"
  let ?t = "clamp_agent_time now at" and ?a = "ar_status rp = StApproved"
  show ?thesis
  proof (cases "update_admin_report ?cx (ar_rid rp) ?dev ?a ?t ad")
    case (Inl e)
    then show ?thesis using assms by (cases e) (auto simp: report_admin_access_def Let_def split: if_splits)
  next
    case (Inr q)
    obtain u ad1 where q: "q = (u, ad1)" by (cases q)
    have 1: "ad_requests ad1 ! k = ad_requests ad ! k" "length (ad_requests ad1) = length (ad_requests ad)"
      using update_report_other [OF Inr [unfolded q] assms(2,3)] by simp_all
    have 2: "ad_requests ad2 ! k = ad_requests ad ! k" if "mark_baseline ?cx (ar_rid rp) ?dev ?t ad1 = Inr (v, ad2)" for v ad2
      using mark_baseline_other [OF that] 1 assms(2,3) by simp
    show ?thesis using assms(1) Inr q 1 2
      by (cases "mark_baseline ?cx (ar_rid rp) ?dev ?t ad1") (auto simp: report_admin_access_def Let_def split: if_splits)
  qed
qed

lemma expire_step:
  "\<exists>n. expire_stale \<lparr>cx_tx = Some tn, cx_tenant = tn\<rparr> now ad =
     Inr (n, set_requests (\<lambda>r. rq_tenant r = tn \<and> overdue now r) (\<lambda>r. r\<lparr>rq_status := RqExpired\<rparr>) ad)"
  by (simp add: expire_stale_def scope_for_def Let_def)

lemma not_overdue_expired [simp]: "\<not> overdue now (r\<lparr>rq_status := RqExpired\<rparr>)"
  by (simp add: overdue_def)

text \<open>After the sweep over a set of tenants none of their requests is overdue: no pending one past
  its deadline, no approved one past its term.\<close>

theorem sweep_closes_overdue:
  assumes "r \<in> set (ad_requests (expire_all now tenants ad))" and "rq_tenant r \<in> set tenants"
  shows "\<not> overdue now r"
proof -
  define settled where "settled = (\<lambda>(ts :: string set) (s :: admin_db). \<forall>r \<in> set (ad_requests s). rq_tenant r \<in> ts \<longrightarrow> \<not> overdue now r)"
  have "settled (ts0 \<union> set ts) (expire_all now ts s)" if "settled ts0 s" for ts0 ts s
    using that
  proof (induction ts arbitrary: ts0 s)
    case (Cons t ts)
    let ?s = "set_requests (\<lambda>r. rq_tenant r = t \<and> overdue now r) (\<lambda>r. r\<lparr>rq_status := RqExpired\<rparr>) s"
    have "settled (insert t ts0) ?s" unfolding settled_def
    proof (intro ballI impI)
      fix r assume r: "r \<in> set (ad_requests ?s)" "rq_tenant r \<in> insert t ts0"
      then obtain x where x: "x \<in> set (ad_requests s)"
        "r = (if rq_tenant x = t \<and> overdue now x then x\<lparr>rq_status := RqExpired\<rparr> else x)"
        by (auto simp: set_requests_def set_update_where)
      show "\<not> overdue now r"
      proof (cases "rq_tenant x = t \<and> overdue now x")
        case False
        then have "r = x" by (metis x(2))
        then show ?thesis using False x(1) r(2) Cons.prems by (auto simp: settled_def)
      qed (simp add: x(2))
    qed
    moreover have "expire_all now (t # ts) s = expire_all now ts ?s"
      using expire_step [of t now s] by (auto simp: expire_all_def)
    ultimately show ?case using Cons.IH [of "insert t ts0" ?s] by simp
  qed (simp add: expire_all_def)
  from this [of "{}" ad tenants] show ?thesis using assms by (simp add: settled_def)
qed

lemma newest_member: "foldl newer_row None xs = Some r \<Longrightarrow> r \<in> set xs"
proof -
  have "foldl newer_row b ys = Some r \<Longrightarrow> b = Some r \<or> r \<in> set ys" for b ys
  proof (induction ys arbitrary: b)
    case (Cons y ys)
    have "newer_row b y = Some r \<or> r \<in> set ys" using Cons.IH [of "newer_row b y"] Cons.prems by simp
    then show ?case by (auto simp: newer_row_def split: option.splits if_splits)
  qed simp
  then show "foldl newer_row None xs = Some r \<Longrightarrow> r \<in> set xs" by fastforce
qed

lemma newest_last: "(\<And>q. q \<in> set xs \<Longrightarrow> rq_requested q < rq_requested r) \<Longrightarrow> foldl newer_row None (xs @ [r]) = Some r"
proof -
  assume a: "\<And>q. q \<in> set xs \<Longrightarrow> rq_requested q < rq_requested r"
  have mem: "foldl newer_row b ys = b \<or> (\<exists>q \<in> set ys. foldl newer_row b ys = Some q)" for b ys
  proof (induction ys arbitrary: b)
    case (Cons y ys)
    show ?case using Cons [of "newer_row b y"] by (auto simp: newer_row_def split: option.splits)
  qed simp
  show ?thesis using mem [of None xs] a by (auto simp: newer_row_def)
qed

text \<open>A new request is the active one when it is newer than those that were active.\<close>

lemma new_request_is_active:
  assumes "request_admin_access now i cert why at ad = Inr (rid, ad')"
    and "\<And>q. q \<in> set (active_rows (tenant_for_fp (ad_base ad) cert) (device_id_by_fp (ad_base ad) cert) ad) \<Longrightarrow>
      rq_requested q < clamp_agent_time now at"
    and "keys_ok (ad_base ad)"
  shows "\<exists>r. fetch_admin_status cert ad' = Inr r \<and> rp_status r = StPending \<and> rp_rid r = i"
proof -
  let ?dev = "device_id_by_fp (ad_base ad) cert" and ?tn = "tenant_for_fp (ad_base ad) cert"
  let ?cx = "\<lparr>cx_tx = None, cx_tenant = ?tn\<rparr>" and ?at = "clamp_agent_time now at"
  obtain m q where dev: "?dev \<noteq> []" and c: "create_admin_request ?cx i ?dev why ?at m ad = Inr (q, ad')"
    using assms(1) by (auto simp: request_admin_access_def Let_def split: if_splits sum.splits)
  obtain tn d where b: "bind_for_device ?cx (ad_base ad) ?dev = Inr tn" and d: "scoped_device (ad_base ad) tn ?dev = Some d"
    and q: "q = (blank_request i ?dev (dv_tenant d))\<lparr>rq_reason := why, rq_requested := ?at, rq_pending_until := m\<rparr>"
    and ad': "ad' = ad\<lparr>ad_requests := ad_requests ad @ [q]\<rparr>"
    using c by (auto simp: create_admin_request_def Let_def split: sum.splits option.splits)
  have dt: "dv_tenant d = tn" "dv_id d = ?dev" "d \<in> set (db_devices (ad_base ad))"
    using d by (auto simp: scoped_device_def find_Some_iff in_set_conv_nth)
  obtain e where e: "device_by_fp (ad_base ad) cert = Some e"
    using dev by (auto simp: device_id_by_fp_def split: option.splits)
  have e2: "dv_id e = ?dev" using e by (simp add: device_id_by_fp_def)
  have e1: "e \<in> set (db_devices (ad_base ad))" using e by (auto simp: device_by_fp_def find_Some_iff in_set_conv_nth)
  have "d = e" using device_unique [OF assms(3) dt(3) e1] dt(2) e2 by simp
  then have tn: "?tn = tn" using e dt(1) device_named [OF assms(3) dt(3)] by (simp add: tenant_for_fp_def)
  have act: "active_rows tn ?dev ad' = active_rows tn ?dev ad @ [q]"
    by (simp add: active_rows_def ad' q blank_request_def dt)
  have "foldl newer_row None (active_rows tn ?dev ad') = Some q"
    unfolding act by (rule newest_last) (use assms(2) in \<open>simp add: tn q blank_request_def\<close>)
  then have "fetch_active ?cx ?dev ad' = Inr (Some q)" using b tn by (simp add: fetch_active_def ad')
  then show ?thesis using dev
    by (simp add: fetch_admin_status_def Let_def split_beta ad' q blank_request_def admin_status_to_proto_def)
qed

text \<open>The agent asks to be told of the term in seconds, rounded down: it never outlives the row's.\<close>

lemma unix_within: "unix_or_zero (Some e) * second \<le> e"
  by (simp add: unix_or_zero_def)

text \<open>A late "revoked" of the agent rewrites a request that was rejected or had expired - the row the
  comment calls closed is found, not dropped - and the report is taken although nothing was granted.\<close>

theorem rejected_request_becomes_revoked:
  assumes "device_by_fp (ad_base ad) cert = Some d" and "dv_tenant d \<noteq> []" and "dv_id d \<noteq> []"
    and "r \<in> set (ad_requests ad)" and "rq_tenant r = dv_tenant d" and "rq_device r = dv_id d"
    and "rq_status r = RqRejected \<or> rq_status r = RqExpired" and "ar_rid rp = rq_id r" and "ar_status rp = StRevoked"
  shows "\<exists>ad'. report_admin_access now cert rp at ad = Inr ad' \<and>
    r\<lparr>rq_status := RqRevoked, rq_revoked := Some (clamp_agent_time now at)\<rparr> \<in> set (ad_requests ad')"
proof -
  let ?P = "\<lambda>q. rq_tenant q = dv_tenant d \<and> rq_id q = rq_id r \<and> rq_device q = dv_id d"
  let ?f = "\<lambda>q. q\<lparr>rq_status := RqRevoked, rq_revoked := Some (clamp_agent_time now at)\<rparr>"
  have "list_ex ?P (ad_requests ad)" using assms by (auto simp: list_ex_iff)
  then have "report_admin_access now cert rp at ad = Inr (set_requests ?P ?f ad)"
    using assms by (simp add: report_admin_access_def update_admin_report_def Let_def scope_for_def scope_by_fp_def
        tenant_for_fp_def device_id_by_fp_def)
  moreover have "?f r \<in> set (ad_requests (set_requests ?P ?f ad))"
    using assms by (auto simp: set_requests_def set_update_where intro!: bexI [of _ r])
  ultimately show ?thesis by blast
qed

subsection \<open>Sending a window again\<close>

lemma insert_changes_keys:
  "insert_changes tn w cs st = Inr st' \<Longrightarrow> set (map row_key st) \<subseteq> set (map row_key st') \<and>
     (\<forall>c \<in> set cs. row_key (stored_change w c) \<in> set (map row_key st'))"
proof (induction cs arbitrary: st)
  case (Cons c cs)
  then show ?case using Cons.IH [of st] Cons.IH [of "st @ [stored_change w c]"]
    by (auto simp: Let_def split: if_splits)
qed simp

lemma insert_changes_tenant: "insert_changes tn w cs st = Inr st' \<Longrightarrow> cs = [] \<or> tn = default_tenant"
  by (cases cs) (auto simp: Let_def stored_change_def split: if_splits)

lemma insert_changes_known:
  "cs = [] \<or> tn = default_tenant \<Longrightarrow> \<forall>c \<in> set cs. row_key (stored_change w c) \<in> set (map row_key st) \<Longrightarrow>
     insert_changes tn w cs st = Inr st"
  by (induction cs) (auto simp: Let_def stored_change_def)

lemma summary_twice: "window_summary w (window_summary w r) = window_summary w r"
  by (auto simp: window_summary_def)

lemma int32_of_small: "- (2 ^ 31) \<le> i \<Longrightarrow> i < 2 ^ 31 \<Longrightarrow> int32_of i = i"
  by (simp add: int32_of_def sint_sbintrunc' signed_take_bit_int_eq_self)

lemma find_update_same:
  "(\<And>x. P (f x) = P x) \<Longrightarrow> find P (update_where P f xs) = map_option f (find P xs)"
  by (induction xs) (auto simp: update_where_def)

lemma update_where_twice:
  "(\<And>x. P (f x) = P x) \<Longrightarrow> (\<And>x. f (f x) = f x) \<Longrightarrow> update_where P f (update_where P f xs) = update_where P f xs"
  by (simp add: update_where_def)

text \<open>Sending a window again is safe: once a window was accepted, accepting it a second time, as after a
  lost answer, succeeds and leaves the whole database as it is - no row twice, no summary moved.\<close>

theorem resent_window_changes_nothing:
  assumes "accept_window cx w ad = Inr ad1" and "sn_seq w < 2 ^ 30"
    and "\<And>r. r \<in> set (ad_requests ad) \<Longrightarrow> 0 \<le> rq_last_seq r \<and> rq_last_seq r < 2 ^ 30"
  shows "accept_window cx w ad1 = Inr ad1"
proof -
  obtain tn where tn: "begin_scoped cx = Inr tn" and len: "\<not> max_session_changes < length (sn_changes w)"
    using assms(1) by (auto simp: accept_window_def split: if_splits sum.splits)
  let ?P = "\<lambda>r. rq_tenant r = tn \<and> rq_id r = sn_request w \<and> rq_device r = sn_device w"
  obtain r where r: "find ?P (ad_requests ad) = Some r"
    using assms(1) tn len by (auto simp: accept_window_def Let_def split: option.splits)
  obtain cs where cs: "insert_changes tn w (sn_changes w) (ad_changes ad) = Inr cs"
    and ad1: "ad1 = set_requests ?P (window_summary w) (ad\<lparr>ad_changes := cs\<rparr>)"
    using assms(1) tn len r by (auto simp: accept_window_def Let_def split: if_splits sum.splits)
  have P: "?P (window_summary w q) = ?P q" for q by (simp add: window_summary_def)
  have f1: "find ?P (ad_requests ad1) = Some (window_summary w r)"
    using find_update_same [of ?P "window_summary w", OF P] r by (simp add: ad1 set_requests_def)
  have "r \<in> set (ad_requests ad)" using r by (auto simp: find_Some_iff in_set_conv_nth)
  then have "0 \<le> rq_last_seq r" "rq_last_seq r < 2 ^ 30" using assms(3) by simp_all
  then have "int32_of (rq_last_seq (window_summary w r) + max_seq_jump) = rq_last_seq (window_summary w r) + max_seq_jump"
    using assms(2) by (intro int32_of_small) (simp_all add: window_summary_def max_seq_jump_def)
  then have jump: "\<not> int32_of (rq_last_seq (window_summary w r) + max_seq_jump) < sn_seq w"
    by (simp add: window_summary_def max_seq_jump_def)
  have "insert_changes tn w (sn_changes w) cs = Inr cs"
    using insert_changes_known insert_changes_keys [OF cs] insert_changes_tenant [OF cs] by blast
  then have "accept_window cx w ad1 = Inr (set_requests ?P (window_summary w) (ad1\<lparr>ad_changes := cs\<rparr>))"
    using tn len f1 jump by (simp add: accept_window_def ad1 set_requests_def Let_def)
  also have "set_requests ?P (window_summary w) (ad1\<lparr>ad_changes := cs\<rparr>) = ad1"
    using update_where_twice [of ?P "window_summary w", OF P summary_twice] by (simp add: ad1 set_requests_def)
  finally show ?thesis .
qed

subsection \<open>Concrete cases\<close>

text \<open>A device of the default tenant with a request, approved, whose rights were granted and revoked.\<close>

definition adm_device :: device_row where
  "adm_device = demo_device\<lparr>dv_tenant := default_tenant\<rparr>"

definition adm_row :: request_row where
  "adm_row = (blank_request ''r1'' ''d1'' default_tenant)\<lparr>rq_status := RqApproved, rq_requested := 1800000000 * second,
     rq_expires := Some (1800003600 * second), rq_granted := Some (1800000030 * second), rq_baseline := Some (1800000030 * second)\<rparr>"

definition adm_db :: admin_db where
  "adm_db = \<lparr>ad_base = (demo_db [])\<lparr>db_devices := [adm_device]\<rparr>, ad_requests = [adm_row], ad_changes = [], ad_settings = [], ad_alerts = []\<rparr>"

definition adm_closed :: "request_status \<Rightarrow> admin_db" where
  "adm_closed s = adm_db\<lparr>ad_requests := [adm_row\<lparr>rq_status := s\<rparr>]\<rparr>"

definition adm_window :: pb_window where
  "adm_window = \<lparr>pw_rid = ''r1'', pw_seq = 1, pw_start = 1800000030, pw_end = 1800001830, pw_changes = [], pw_final = True,
     pw_truncated = False, pw_total = 0, pw_rebooted = False, pw_lost = False, pw_sw_health = PbHealthOk,
     pw_sv_health = PbHealthOk, pw_completeness = Complete, pw_snapshot_at = 1800001830\<rparr>"

definition adm_cx :: scope_ctx where "adm_cx = \<lparr>cx_tx = Some default_tenant, cx_tenant = default_tenant\<rparr>"

definition adm_report :: admin_report where
  "adm_report = \<lparr>ar_rid = ''r1'', ar_status = StRevoked, ar_details = AppliedOn ''pc1'', ar_baseline = False\<rparr>"

definition adm_ops :: "admin_op list" where
  "adm_ops = [OpRespond adm_cx (1800000000 * second) (1800000000 * second) ''u1'' ''r1'' ''approved'' 3600, OpExpire (1800009000 * second) [default_tenant]]"

lemmas adm_defs = adm_db_def adm_row_def adm_device_def adm_closed_def blank_request_def demo_db_def demo_device_def

lemma adm_device_facts:
  "device_id_by_fp (ad_base (adm_closed s)) ''f1'' = ''d1''" "device_by_fp (ad_base (adm_closed s)) ''f1'' = Some adm_device"
  "device_id_by_fp (ad_base adm_db) ''f1'' = ''d1''" "dv_id adm_device = ''d1''" "dv_tenant adm_device = default_tenant"
  by (simp_all add: device_id_by_fp_def device_by_fp_def adm_defs)

lemma adm_in: "adm_row\<lparr>rq_status := s\<rparr> \<in> set (ad_requests (adm_closed s))"
  by (simp add: adm_closed_def)

theorem grants_are_temporary_witness:
  "list_all (term_by (1802592000 * second)) (ad_requests (run_ops adm_ops adm_db))"
  by (rule grants_are_temporary)
    (simp_all add: adm_ops_def max_grant_seconds_def term_by_def adm_defs)

theorem closed_requests_stay_closed_witness:
  "let r = ad_requests (adm_closed RqRejected) ! 0; r' = ad_requests (run_ops adm_ops (adm_closed RqRejected)) ! 0
    in rq_id r' = rq_id r \<and> rq_device r' = rq_device r \<and> rq_status r' \<noteq> RqPending \<and> rq_status r' \<noteq> RqApproved"
  by (rule closed_requests_stay_closed) (simp_all add: adm_defs)

theorem evidence_never_accepted_witness:
  "report_session_changes (1800002000 * second) (\<lambda>_. []) ''f1'' adm_window (run_ops adm_ops adm_db) = Inl (OtherCode 14) \<and>
    ad_changes (run_ops adm_ops adm_db) = ad_changes adm_db \<and>
    rq_final (ad_requests (run_ops adm_ops adm_db) ! 0) = rq_final (ad_requests adm_db ! 0)"
  by (rule evidence_never_accepted [where B = "1802592000 * second"])
    (simp_all add: adm_device_facts adm_window_def adm_ops_def max_grant_seconds_def, simp add: adm_db_def)

lemma adm_gap: "visible_gap adm_cx default_tenant (1900000000 * second) (adm_closed RqRevoked) (adm_row\<lparr>rq_status := RqRevoked\<rparr>)"
  by (simp add: visible_gap_def is_gap_def closed_at_def evidence_grace_def scoped_device_def adm_defs)

theorem listed_gap_is_alerted_witness:
  "\<exists>n ad'. sweep_gaps adm_cx (1900000000 * second) rq_id rq_id (adm_closed RqRevoked) = Inr (n, ad') \<and>
     list_ex (open_alert default_tenant (adm_row\<lparr>rq_status := RqRevoked\<rparr>) (rq_id (adm_row\<lparr>rq_status := RqRevoked\<rparr>))) (ad_alerts ad')"
proof (rule listed_gap_is_alerted)
  show "length (filter (visible_gap adm_cx default_tenant (1900000000 * second) (adm_closed RqRevoked)) (ad_requests (adm_closed RqRevoked))) \<le> 200"
    by (rule le_trans [OF length_filter_le]) (simp add: adm_closed_def)
  show "cx_tx adm_cx = Some default_tenant" by (simp add: adm_cx_def)
qed (rule adm_in, rule adm_gap)

definition adm_old :: "nat \<Rightarrow> request_row" where
  "adm_old n = adm_row\<lparr>rq_status := RqExpired, rq_expires := Some (int n)\<rparr>"

definition adm_many :: admin_db where "adm_many = adm_db\<lparr>ad_requests := map adm_old [0..<201]\<rparr>"

theorem gap_alerts_starve_witness:
  "\<exists>gs. list_gaps adm_cx (1900000000 * second) evidence_grace adm_many = Inr gs \<and> adm_old 200 \<notin> set gs"
proof (rule gap_alerts_starve)
  have vis: "visible_gap adm_cx default_tenant (1900000000 * second) adm_many (adm_old n)" if "n < 201" for n
    using that by (simp add: visible_gap_def is_gap_def closed_at_def evidence_grace_def scoped_device_def adm_many_def adm_old_def adm_defs)
  have "filter (visible_gap adm_cx default_tenant (1900000000 * second) adm_many) (ad_requests adm_many) = map adm_old [0..<201]"
    using vis by (simp add: adm_many_def filter_map comp_def)
  moreover have "[0..<201] = [0..<200] @ [200]" using upt_add_eq_append [of 0 200 1] by simp
  moreover have "filter (\<lambda>q. closed_at q < closed_at (adm_old 200)) (map adm_old [0..<200]) = map adm_old [0..<200]"
    by (simp add: filter_map comp_def closed_at_def adm_old_def adm_defs)
  ultimately show "200 \<le> length (filter (\<lambda>q. closed_at q < closed_at (adm_old 200))
      (filter (visible_gap adm_cx default_tenant (1900000000 * second) adm_many) (ad_requests adm_many)))"
    by (metis (no_types, lifting) diff_zero filter_append length_append length_map length_upt le_add1 map_append)
qed (simp add: scope_for_def adm_cx_def)

text \<open>Another device's certificate cannot revoke the request.\<close>

definition adm_two :: admin_db where
  "adm_two = adm_db\<lparr>ad_base := (demo_db [])\<lparr>db_devices := [adm_device, adm_device\<lparr>dv_id := ''d2'', dv_fp := ''f2''\<rparr>]\<rparr>,
     ad_requests := [adm_row, adm_row\<lparr>rq_id := ''r2'', rq_device := ''d2''\<rparr>]\<rparr>"

theorem reports_touch_own_requests_witness:
  "\<exists>ad'. report_admin_access (1800000100 * second) ''f2'' (adm_report\<lparr>ar_rid := ''r2''\<rparr>) 1800000100 adm_two = Inr ad' \<and>
     ad_requests ad' ! 0 = ad_requests adm_two ! 0"
proof -
  obtain ad' where a: "report_admin_access (1800000100 * second) ''f2'' (adm_report\<lparr>ar_rid := ''r2''\<rparr>) 1800000100 adm_two = Inr ad'"
    by (simp add: report_admin_access_def update_admin_report_def Let_def scope_by_fp_def scope_for_def
        adm_two_def adm_report_def device_id_by_fp_def tenant_for_fp_def device_by_fp_def adm_defs default_tenant_def)
  have "ad_requests ad' ! 0 = ad_requests adm_two ! 0"
    by (rule reports_touch_own_requests [OF a])
      (simp_all add: adm_two_def device_id_by_fp_def device_by_fp_def adm_defs)
  then show ?thesis using a by blast
qed

theorem sweep_closes_overdue_witness:
  "\<not> overdue (1900000000 * second) (adm_row\<lparr>rq_status := RqExpired\<rparr>)"
proof (rule sweep_closes_overdue [where ad = adm_db and tenants = "[default_tenant]"])
  have "overdue (1900000000 * second) adm_row" by (simp add: overdue_def adm_defs)
  then show "adm_row\<lparr>rq_status := RqExpired\<rparr> \<in> set (ad_requests (expire_all (1900000000 * second) [default_tenant] adm_db))"
    using expire_step [of default_tenant "1900000000 * second" adm_db]
    by (auto simp: expire_all_def set_requests_def set_update_where adm_db_def) (simp_all add: adm_row_def blank_request_def)
qed (simp add: adm_defs)

theorem rejected_request_becomes_revoked_witness:
  "\<exists>ad'. report_admin_access (1800000100 * second) ''f1'' adm_report 1800000100 (adm_closed RqRejected) = Inr ad' \<and>
    (adm_row\<lparr>rq_status := RqRejected\<rparr>)\<lparr>rq_status := RqRevoked, rq_revoked := Some (clamp_agent_time (1800000100 * second) 1800000100)\<rparr>
      \<in> set (ad_requests ad')"
  by (rule rejected_request_becomes_revoked [where d = adm_device])
    (simp_all add: adm_device_facts adm_in, simp_all add: adm_row_def blank_request_def adm_report_def default_tenant_def)

theorem resent_window_changes_nothing_witness:
  "\<exists>ad1. accept_window adm_cx (window_of_proto 0 ''d1'' (\<lambda>_. []) adm_window) adm_db = Inr ad1 \<and>
     accept_window adm_cx (window_of_proto 0 ''d1'' (\<lambda>_. []) adm_window) ad1 = Inr ad1"
proof -
  let ?w = "window_of_proto 0 ''d1'' (\<lambda>_. []) adm_window"
  have w: "sn_changes ?w = []" "sn_seq ?w = 1" "sn_request ?w = ''r1''" "sn_device ?w = ''d1''"
    by (simp_all add: window_of_proto_def adm_window_def)
  obtain ad1 where a: "accept_window adm_cx ?w adm_db = Inr ad1"
  proof -
    have j: "\<not> int32_of (rq_last_seq adm_row + max_seq_jump) < 1"
      using int32_of_small [of 64] by (simp add: max_seq_jump_def adm_row_def blank_request_def)
    have "find (\<lambda>r. rq_tenant r = default_tenant \<and> rq_id r = ''r1'' \<and> rq_device r = ''d1'') (ad_requests adm_db) = Some adm_row"
      by (simp add: adm_db_def adm_row_def blank_request_def)
    then show thesis using that j by (simp add: accept_window_def begin_scoped_def adm_cx_def w Let_def)
  qed
  have "accept_window adm_cx ?w ad1 = Inr ad1"
    by (rule resent_window_changes_nothing [OF a]) (auto simp: w, simp_all add: adm_defs)
  then show ?thesis using a by blast
qed

end
