(* ===== verification/Delivery.thy ===== *)
theory Delivery
  imports Outbox ServerAdmin ServerLock
begin

section \<open>Delivery of queued reports\<close>

text \<open>
  The dispatcher of the agent's queue (\<open>dispatchReport\<close>, \<open>reportErr\<close>, \<open>ackErr\<close> in
  \<open>cmd/agent/main.go\<close>), which sends one report with the call for its kind and says whether it leaves
  the queue, and the queue run against the server's calls.

  The protobuf library's decoding of a payload is the parameter \<open>decodes\<close>; \<open>answer\<close> is what the
  call returns.
\<close>

datatype answer = Received bool | RpcError rpc_code

text \<open>\<open>reportErr\<close>: does the error drop the report?  8 is \<open>ResourceExhausted\<close>.\<close>

definition report_err :: "rpc_code \<Rightarrow> bool" where
  "report_err c \<longleftrightarrow> (case c of NotFound \<Rightarrow> True | InvalidArgument \<Rightarrow> True | FailedPrecondition \<Rightarrow> True
     | OtherCode n \<Rightarrow> n = 8 | CodeOK \<Rightarrow> False)"

text \<open>\<open>True\<close>: the report leaves the queue, delivered or dropped.\<close>

definition dispatch_report :: "bool \<Rightarrow> (string \<Rightarrow> string \<Rightarrow> bool) \<Rightarrow> (string \<Rightarrow> string \<Rightarrow> answer) \<Rightarrow> string \<Rightarrow> string \<Rightarrow> bool" where
  "dispatch_report dialled decodes answer kind data =
     (if \<not> dialled then False
      else if kind \<notin> set all_kinds then True
      else if \<not> decodes kind data then True
      else (case answer kind data of RpcError c \<Rightarrow> report_err c | Received b \<Rightarrow> b))"

text \<open>
  The server's answers: \<open>decode_window\<close> reads the payload of a window, \<open>other\<close> answers the kinds
  that are not at issue.
\<close>

definition answer_with :: "nanos \<Rightarrow> (attr_reason \<Rightarrow> string) \<Rightarrow> string \<Rightarrow> (string \<Rightarrow> pb_window) \<Rightarrow> (string \<Rightarrow> string \<Rightarrow> answer) \<Rightarrow> admin_db
    \<Rightarrow> string \<Rightarrow> string \<Rightarrow> answer" where
  "answer_with now why cert decode_window other ad kind data =
     (if kind = KindAdminChanges then
        (case report_session_changes now why cert (decode_window data) ad of Inl c \<Rightarrow> RpcError c | Inr _ \<Rightarrow> Received True)
      else other kind data)"

text \<open>
  Rounds of the queue: before each one any operations run on the server, then the queue is flushed.
  The last argument collects the attempts.
\<close>

record flush_round =
  fr_ops :: "admin_op list"
  fr_env :: io
  fr_now :: nanos
  fr_ctx :: "nat \<Rightarrow> bool"
  fr_dialled :: "nat \<Rightarrow> bool"

fun rounds :: "(string \<Rightarrow> string \<Rightarrow> bool) \<Rightarrow> (attr_reason \<Rightarrow> string) \<Rightarrow> string \<Rightarrow> (string \<Rightarrow> pb_window) \<Rightarrow> (string \<Rightarrow> string \<Rightarrow> answer)
    \<Rightarrow> flush_round list \<Rightarrow> queue \<Rightarrow> admin_db \<Rightarrow> queue \<times> admin_db \<times> (string \<times> bool) list" where
  "rounds decodes why cert dw other [] q ad = (q, ad, [])"
| "rounds decodes why cert dw other (r # rs) q ad =
     (let ad1 = run_ops (fr_ops r) ad;
          (q1, tr) = flush (fr_ctx r)
            (\<lambda>i. dispatch_report (fr_dialled r i) decodes (answer_with (fr_now r) why cert dw other ad1)) (fr_env r) (fr_now r) q;
          (q2, ad2, tr2) = rounds decodes why cert dw other rs q1 ad1
      in (q2, ad2, tr @ tr2))"

lemma run_ops_base: "ad_base (run_ops ops ad) = ad_base ad"
proof (induction ops arbitrary: ad)
  case (Cons x xs)
  have "\<exists>B. op_by B x" by (cases x) auto
  then obtain B where "evolves B ad (run_op x ad)" using run_op_evolves by blast
  then have "ad_base (run_op x ad) = ad_base ad" by (auto simp: evolves_def)
  then show ?case using Cons.IH [of "run_op x ad"] by (simp add: run_ops_def)
qed (simp add: run_ops_def)

text \<open>A report that is refused for now stays at the head, and nothing behind it is tried.\<close>

lemma flush_head_refused:
  assumes "q_max_age q \<le> 0" and "list_names (q_dir q) = f # fs" and "read_entry (io_read env) f (q_dir q) = Some e"
    and "\<And>i. \<not> disp i (e_kind e) (e_data e)"
  shows "q_dir (fst (flush ctx disp env now q)) = q_dir q \<and> q_max_age (fst (flush ctx disp env now q)) = q_max_age q \<and>
    set (snd (flush ctx disp env now q)) \<subseteq> {(f, False)}"
  using assms by (auto simp: flush_def enforce_age_def note_io_failure_def note_io_success_def split_beta)

text \<open>One window of session evidence stops a device's reports for good.  A window of evidence at the head
  of the queue of a known device, with retention by age off as it is by default, is refused in every round
  with \<open>Unavailable\<close>, which the queue takes for a passing failure: however many rounds, whatever happens on
  the server between them, no report behind it is ever tried, and the directory stays as it is.\<close>

theorem evidence_blocks_the_queue:
  assumes "q_max_age q \<le> 0" and "list_names (q_dir q) = f # fs"
    and "\<And>r. r \<in> set rs \<Longrightarrow> read_entry (io_read (fr_env r)) f (q_dir q) = Some e"
    and "e_kind e = KindAdminChanges" and "decodes KindAdminChanges (e_data e)"
    and "device_id_by_fp (ad_base ad) cert \<noteq> []" and "pw_rid (dw (e_data e)) \<noteq> []"
    and "length (pw_changes (dw (e_data e))) \<le> 1000"
    and "rounds decodes why cert dw other rs q ad = (q', ad', tr)"
  shows "q_dir q' = q_dir q \<and> set tr \<subseteq> {(f, False)}"
  using assms
proof (induction rs arbitrary: q ad tr q' ad')
  case (Cons r rs)
  let ?ad1 = "run_ops (fr_ops r) ad"
  let ?disp = "\<lambda>i. dispatch_report (fr_dialled r i) decodes (answer_with (fr_now r) why cert dw other ?ad1)"
  have "\<not> ?disp i (e_kind e) (e_data e)" for i
    using Cons.prems(4-8) by (simp add: dispatch_report_def answer_with_def report_changes_cases run_ops_base
        report_err_def max_session_changes_def kind_defs all_kinds_def)
  note one = flush_head_refused [where disp = ?disp and ctx = "fr_ctx r" and now = "fr_now r",
      OF Cons.prems(1,2) Cons.prems(3) this]
  obtain q1 tr1 where f: "flush (fr_ctx r) ?disp (fr_env r) (fr_now r) q = (q1, tr1)" by fastforce
  have q1: "q_dir q1 = q_dir q" "q_max_age q1 = q_max_age q" "set tr1 \<subseteq> {(f, False)}"
    using one [of r] f by simp_all
  obtain q2 ad2 tr2 where rest: "rounds decodes why cert dw other rs q1 ?ad1 = (q2, ad2, tr2)" by (metis prod_cases3)
  have "q_dir q2 = q_dir q1 \<and> set tr2 \<subseteq> {(f, False)}"
    by (rule Cons.IH [OF _ _ _ Cons.prems(4,5) _ Cons.prems(7,8) rest])
      (use Cons.prems(1-3,6) q1 in \<open>simp_all add: run_ops_base\<close>)
  then show ?case using Cons.prems(9) f rest q1 by (auto simp: Let_def)
qed auto

text \<open>A queue with a window first and a lock report behind it.\<close>

definition ev_file :: string where "ev_file = ''1-1-admin_changes.json''"

definition ev_queue :: queue where
  "ev_queue = q_empty\<lparr>q_dir := [(ev_file, DFile (FEntry \<lparr>e_kind = KindAdminChanges, e_data = [], e_enqueued_at = 1\<rparr>)),
     (''2-2-lock.json'', DFile (FEntry \<lparr>e_kind = KindLock, e_data = [], e_enqueued_at = 2\<rparr>))]\<rparr>"

definition ev_round :: flush_round where
  "ev_round = \<lparr>fr_ops = adm_ops, fr_env = io_fine, fr_now = 1800002000 * second, fr_ctx = (\<lambda>_. False), fr_dialled = (\<lambda>_. True)\<rparr>"

theorem evidence_blocks_the_queue_witness:
  "\<exists>q' ad' tr. rounds (\<lambda>_ _. True) (\<lambda>_. []) ''f1'' (\<lambda>_. adm_window) (\<lambda>_ _. Received True) [ev_round, ev_round] ev_queue adm_db = (q', ad', tr) \<and>
     q_dir q' = q_dir ev_queue \<and> set tr \<subseteq> {(ev_file, False)}"
proof -
  obtain q' ad' tr where r: "rounds (\<lambda>_ _. True) (\<lambda>_. []) ''f1'' (\<lambda>_. adm_window) (\<lambda>_ _. Received True) [ev_round, ev_round] ev_queue adm_db
      = (q', ad', tr)" by (metis prod_cases3)
  have "list_names (q_dir ev_queue) = [ev_file, ''2-2-lock.json'']" by code_simp
  moreover have "read_entry (io_read (fr_env ev_round)) ev_file (q_dir ev_queue)
      = Some \<lparr>e_kind = KindAdminChanges, e_data = [], e_enqueued_at = 1\<rparr>" by code_simp
  ultimately have "q_dir q' = q_dir ev_queue \<and> set tr \<subseteq> {(ev_file, False)}"
    by (intro evidence_blocks_the_queue [OF _ _ _ _ _ _ _ _ r])
      (auto simp: ev_queue_def q_empty_def adm_device_facts adm_window_def)
  then show ?thesis using r by blast
qed

end
