(* ===== verification/AuditChain.thy ===== *)
theory AuditChain
  imports ServerStore Contracts
begin

section \<open>The journal of the server and its hash chain\<close>

text \<open>
  \<open>internal/server/storage/audit.go\<close>, the functions of migration 042 it calls, and
  \<open>CleanupOldData\<close> of \<open>storage/postgres.go\<close>: writing a record, the check of the chain, the
  anchors, the pages of the journal and its retention.

  \<open>sha\<close> is \<open>encode(sha256(...), 'hex')\<close> and \<open>stamp\<close> the rendering of an instant by
  \<open>to_char\<close>; both belong to the database.  \<open>details\<close> is the document as the column keeps it.
  \<open>now\<close> is the start of the transaction, as PostgreSQL defines it.  A number of the chain is a
  mathematical integer: the column is a \<open>bigint\<close> and counts administrative actions.
\<close>

subsection \<open>Rows\<close>

record journal_row =
  jr_id :: string
  jr_tenant :: string
  jr_seq :: "int option"
  jr_prev :: "string option"
  jr_hash :: "string option"
  jr_user :: "string option"
  jr_email :: string
  jr_action :: string
  jr_type :: string
  jr_target :: string
  jr_details :: "string option"
  jr_created :: nanos

record journal =
  jn_rows :: "journal_row list"
  jn_anchors :: "(string \<times> int \<times> string) list"

definition jr_num :: "journal_row \<Rightarrow> int" where
  "jr_num r = (case jr_seq r of None \<Rightarrow> 0 | Some n \<Rightarrow> n)"

subsection \<open>The hash of a record\<close>

text \<open>\<open>length\<close> of the database counts characters.\<close>

definition chain_field :: "string \<Rightarrow> string" where
  "chain_field p = dec (rune_count p) @ CHR '':'' # p"

definition unchain_field :: "string \<Rightarrow> (string \<times> string) option" where
  "unchain_field s = (case cut_at CHR '':'' s of None \<Rightarrow> None
     | Some (d, r) \<Rightarrow> Some (split_runes (dec_value d) r))"

definition or_empty :: "string option \<Rightarrow> string" where
  "or_empty x = (case x of None \<Rightarrow> [] | Some s \<Rightarrow> s)"

definition row_fields :: "(nanos \<Rightarrow> string) \<Rightarrow> journal_row \<Rightarrow> string list" where
  "row_fields stamp r = [or_empty (jr_prev r), (case jr_seq r of None \<Rightarrow> [] | Some n \<Rightarrow> dec_int n), or_empty (jr_user r),
     jr_email r, jr_action r, jr_type r, jr_target r, (case jr_details r of None \<Rightarrow> ''null'' | Some d \<Rightarrow> d), stamp (jr_created r)]"

definition row_text :: "(nanos \<Rightarrow> string) \<Rightarrow> journal_row \<Rightarrow> string" where
  "row_text stamp r = concat (map chain_field (row_fields stamp r))"

definition audit_row_hash :: "(string \<Rightarrow> string) \<Rightarrow> (nanos \<Rightarrow> string) \<Rightarrow> journal_row \<Rightarrow> string" where
  "audit_row_hash sha stamp r = sha (row_text stamp r)"

subsection \<open>Writing a record\<close>

text \<open>The chain of a tenant in the order of its numbers, and its head.\<close>

definition chain_rows :: "string \<Rightarrow> journal_row list \<Rightarrow> journal_row list" where
  "chain_rows tn rows = sort_key jr_num (filter (\<lambda>r. jr_tenant r = tn \<and> jr_seq r \<noteq> None) rows)"

definition head_row :: "string \<Rightarrow> journal_row list \<Rightarrow> journal_row option" where
  "head_row tn rows = (let c = chain_rows tn rows in if c = [] then None else Some (last c))"

record audit_event =
  ev_id :: string
  ev_user :: string
  ev_email :: string
  ev_action :: string
  ev_type :: string
  ev_target :: string
  ev_details :: string

definition next_row :: "(string \<Rightarrow> string) \<Rightarrow> (nanos \<Rightarrow> string) \<Rightarrow> string \<Rightarrow> audit_event \<Rightarrow> nanos \<Rightarrow> journal_row list \<Rightarrow> journal_row" where
  "next_row sha stamp tn e now rows =
     (let (n, h) = (case head_row tn rows of None \<Rightarrow> (0, []) | Some r \<Rightarrow> (jr_num r, or_empty (jr_hash r)));
          r = \<lparr>jr_id = ev_id e, jr_tenant = tn, jr_seq = Some (n + 1), jr_prev = Some h, jr_hash = None,
               jr_user = (if ev_user e = [] then None else Some (ev_user e)), jr_email = ev_email e,
               jr_action = ev_action e, jr_type = ev_type e, jr_target = ev_target e,
               jr_details = Some (ev_details e), jr_created = now\<rparr>
      in r\<lparr>jr_hash := Some (audit_row_hash sha stamp r)\<rparr>)"

definition write_audit_log :: "(string \<Rightarrow> string) \<Rightarrow> (nanos \<Rightarrow> string) \<Rightarrow> scope_ctx \<Rightarrow> audit_event \<Rightarrow> nanos \<Rightarrow> journal
    \<Rightarrow> store_error + journal" where
  "write_audit_log sha stamp cx e now j = (case begin_scoped cx of Inl err \<Rightarrow> Inl err
     | Inr _ \<Rightarrow>
        (let tn = (if cx_tenant cx = [] then default_tenant else cx_tenant cx)
         in Inr (j\<lparr>jn_rows := jn_rows j @ [next_row sha stamp tn e now (jn_rows j)]\<rparr>)))"

subsection \<open>The check of the chain\<close>

record chain_status =
  cs_chained :: nat
  cs_unchained :: nat
  cs_first :: int
  cs_last :: int
  cs_head :: string
  cs_ok :: bool
  cs_broken :: int
  cs_reason :: string
  cs_anchor :: bool

text \<open>The first row that breaks the chain, with the reason the query gives; \<open>p\<close> is the row before.\<close>

fun scan_chain :: "(string \<Rightarrow> string) \<Rightarrow> (nanos \<Rightarrow> string) \<Rightarrow> journal_row option \<Rightarrow> journal_row list \<Rightarrow> (int \<times> string) option" where
  "scan_chain sha stamp p [] = None"
| "scan_chain sha stamp p (r # rs) =
     (if jr_hash r \<noteq> Some (audit_row_hash sha stamp r) then Some (jr_num r, ''hash'')
      else if (case p of None \<Rightarrow> False | Some q \<Rightarrow> jr_num r \<noteq> jr_num q + 1) then Some (jr_num r, ''gap'')
      else if (case p of None \<Rightarrow> False | Some q \<Rightarrow> jr_hash q \<noteq> None \<and> jr_prev r \<noteq> jr_hash q) then Some (jr_num r, ''link'')
      else scan_chain sha stamp (Some r) rs)"

definition anchor_mismatches :: "string \<Rightarrow> journal \<Rightarrow> (string \<times> int \<times> string) list" where
  "anchor_mismatches tn j = filter (\<lambda>(t, n, h). t = tn \<and>
     list_ex (\<lambda>r. jr_num r = n \<and> jr_hash r \<noteq> Some h) (chain_rows tn (jn_rows j))) (jn_anchors j)"

definition verify_audit_chain :: "(string \<Rightarrow> string) \<Rightarrow> (nanos \<Rightarrow> string) \<Rightarrow> scope_ctx \<Rightarrow> string \<Rightarrow> journal
    \<Rightarrow> store_error + chain_status" where
  "verify_audit_chain sha stamp cx t j = (case bind_tenant cx t of Inl e \<Rightarrow> Inl e
     | Inr tn \<Rightarrow>
        (let c = chain_rows tn (jn_rows j);
             st = \<lparr>cs_chained = length c,
                   cs_unchained = length (filter (\<lambda>r. jr_tenant r = tn \<and> jr_seq r = None) (jn_rows j)),
                   cs_first = (if c = [] then 0 else jr_num (hd c)), cs_last = (if c = [] then 0 else jr_num (last c)),
                   cs_head = [], cs_ok = True, cs_broken = 0, cs_reason = [], cs_anchor = False\<rparr>
         in if c = [] then Inr st
            else (case jr_hash (last c) of None \<Rightarrow> Inl StatementFailed
              | Some h \<Rightarrow>
                 (let st = st\<lparr>cs_head := h\<rparr>
                  in case scan_chain sha stamp None c of
                       Some (n, why) \<Rightarrow> Inr (st\<lparr>cs_ok := False, cs_broken := n, cs_reason := why\<rparr>)
                     | None \<Rightarrow>
                        if anchor_mismatches tn j = [] then Inr st
                        else Inr (st\<lparr>cs_ok := False, cs_anchor := True, cs_reason := ''anchor''\<rparr>)))))"

definition verified :: "(string \<Rightarrow> string) \<Rightarrow> (nanos \<Rightarrow> string) \<Rightarrow> string \<Rightarrow> journal \<Rightarrow> bool" where
  "verified sha stamp tn j = (case verify_audit_chain sha stamp \<lparr>cx_tx = None, cx_tenant = []\<rparr> tn j of
     Inl _ \<Rightarrow> False | Inr st \<Rightarrow> cs_ok st)"

text \<open>\<open>WriteAuditAnchor\<close>: the number 0 stands for an empty chain.\<close>

definition write_audit_anchor :: "scope_ctx \<Rightarrow> journal \<Rightarrow> store_error + (int \<times> string \<times> journal)" where
  "write_audit_anchor cx j = (case scope_for cx [] of Inl e \<Rightarrow> Inl e
     | Inr tn \<Rightarrow>
        if cx_tenant cx = [] then Inl ScopeMissing
        else (case head_row (cx_tenant cx) (filter (\<lambda>r. jr_tenant r = tn) (jn_rows j)) of
            None \<Rightarrow> Inr (0, [], j)
          | Some r \<Rightarrow> (case jr_hash r of None \<Rightarrow> Inl StatementFailed
             | Some h \<Rightarrow>
                 if list_ex (\<lambda>(t, n, _). t = cx_tenant cx \<and> n = jr_num r) (jn_anchors j) then Inr (jr_num r, h, j)
                 else Inr (jr_num r, h, j\<lparr>jn_anchors := jn_anchors j @ [(cx_tenant cx, jr_num r, h)]\<rparr>))))"

subsection \<open>Pages of the journal\<close>

definition clamp_page :: "int \<Rightarrow> int \<Rightarrow> nat \<times> nat" where
  "clamp_page limit offset =
     (if limit \<le> 0 \<or> 500 < limit then 50 else nat limit, if offset < 0 then 0 else nat offset)"

record audit_filter =
  af_action :: string
  af_who :: string
  af_from :: "nanos option"
  af_to :: "nanos option"

definition audit_matches :: "audit_filter \<Rightarrow> journal_row \<Rightarrow> bool" where
  "audit_matches f r \<longleftrightarrow>
     (trim_space (af_action f) = [] \<or> jr_action r = trim_space (af_action f)) \<and>
     (trim_space (af_who f) = [] \<or> contains_str (to_lower (jr_email r)) (to_lower (trim_space (af_who f)))) \<and>
     (case af_from f of None \<Rightarrow> True | Some t \<Rightarrow> t \<le> jr_created r) \<and>
     (case af_to f of None \<Rightarrow> True | Some t \<Rightarrow> jr_created r \<le> t)"

definition matching_rows :: "string \<Rightarrow> audit_filter \<Rightarrow> journal \<Rightarrow> journal_row list" where
  "matching_rows tn f j = sort_key (\<lambda>r. - jr_created r) (sort_key jr_id
     (filter (\<lambda>r. jr_tenant r = tn \<and> audit_matches f r) (jn_rows j)))"

text \<open>The total rides on the rows of the page, so a page past the end says 0.\<close>

definition list_audit_log :: "scope_ctx \<Rightarrow> string \<Rightarrow> audit_filter \<Rightarrow> int \<Rightarrow> int \<Rightarrow> journal
    \<Rightarrow> store_error + (journal_row list \<times> nat)" where
  "list_audit_log cx t f limit offset j = (case require_tenant t of Inl e \<Rightarrow> Inl e
     | Inr t' \<Rightarrow> (case bind_tenant cx t' of Inl e \<Rightarrow> Inl e
        | Inr tn \<Rightarrow>
           (let (l, k) = clamp_page limit offset;
                rows = filter (\<lambda>r. jr_tenant r = tn) (matching_rows t' f j);
                page = take l (drop k rows)
            in Inr (page, if page = [] then 0 else length rows))))"

subsection \<open>Retention\<close>

text \<open>
  The other tables of the sweep are kept by the columns it reads.  \<open>clk\<close> gives the successive
  readings of \<open>time.Now\<close>, in the order of the code; \<open>AddDate\<close> takes whole days of 24 hours, as
  it does in UTC.  \<open>disk\<close> tells whether the directory and the file of the archive could be
  written; \<open>sv_files\<close> are the archives on disk, each with its tenant.
\<close>

record aged_row =
  ag_tenant :: string
  ag_created :: nanos
  ag_acked :: bool

record sweep_state =
  sv_journal :: journal
  sv_alerts :: "aged_row list"
  sv_results :: "aged_row list"
  sv_changes :: "aged_row list"
  sv_inputs :: "aged_row list"
  sv_files :: "(string \<times> journal_row list) list"

datatype cleanup_error = CeScope | CeNoArchiveDir | CeArchive

definition days_before :: "nat \<Rightarrow> nanos \<Rightarrow> nanos" where
  "days_before d t = t - int d * (24 * hour)"

definition purge :: "string \<Rightarrow> ('a \<Rightarrow> string) \<Rightarrow> ('a \<Rightarrow> nanos) \<Rightarrow> ('a \<Rightarrow> bool) \<Rightarrow> int \<Rightarrow> nanos \<Rightarrow> 'a list \<Rightarrow> 'a list" where
  "purge tn ten created extra days now rows =
     (if days \<le> 0 then rows
      else filter (\<lambda>r. \<not> (ten r = tn \<and> created r < days_before (nat days) now \<and> extra r)) rows)"

definition archive_order :: "journal_row list \<Rightarrow> journal_row list" where
  "archive_order rows = sort_key jr_created
     (filter (\<lambda>r. jr_seq r = None) rows @ sort_key jr_num (filter (\<lambda>r. jr_seq r \<noteq> None) rows))"

definition archive_audit_logs :: "bool \<times> bool \<Rightarrow> string \<Rightarrow> nanos \<Rightarrow> sweep_state \<Rightarrow> cleanup_error + sweep_state" where
  "archive_audit_logs disk tn cutoff s =
     (let old = archive_order (filter (\<lambda>r. jr_tenant r = tn \<and> jr_created r < cutoff) (jn_rows (sv_journal s)))
      in if \<not> fst disk then Inl CeArchive
         else if old = [] then Inr s
         else if \<not> snd disk then Inl CeArchive
         else Inr (s\<lparr>sv_files := sv_files s @ [(tn, old)]\<rparr>))"

definition purge_journal :: "string \<Rightarrow> int \<Rightarrow> nanos \<Rightarrow> journal \<Rightarrow> journal" where
  "purge_journal tn days now j = j\<lparr>jn_rows := purge tn jr_tenant jr_created (\<lambda>_. True) days now (jn_rows j)\<rparr>"

text \<open>The result with the state the transaction is left in.\<close>

definition cleanup_old_data :: "scope_ctx \<Rightarrow> int \<Rightarrow> int \<Rightarrow> string \<Rightarrow> bool \<times> bool \<Rightarrow> (nat \<Rightarrow> nanos) \<Rightarrow> sweep_state
    \<Rightarrow> (cleanup_error + unit) \<times> sweep_state" where
  "cleanup_old_data cx ddays adays dir disk clk s = (case scope_for cx [] of Inl _ \<Rightarrow> (Inl CeScope, s)
     | Inr tn \<Rightarrow>
        (let p = (\<lambda>extra days k. purge tn ag_tenant ag_created extra days (clk k));
             s1 = s\<lparr>sv_alerts := p ag_acked ddays 0 (sv_alerts s), sv_results := p (\<lambda>_. True) ddays 1 (sv_results s)\<rparr>;
             rest = (\<lambda>s. (Inr (), s\<lparr>sv_changes := p (\<lambda>_. True) adays 4 (sv_changes s),
                                    sv_inputs := p (\<lambda>_. True) adays 5 (sv_inputs s)\<rparr>))
         in if 0 < adays
            then if dir = [] then (Inl CeNoArchiveDir, s1)
                 else (case archive_audit_logs disk tn (days_before (nat adays) (clk 2)) s1 of
                     Inl e \<Rightarrow> (Inl e, s1)
                   | Inr s2 \<Rightarrow> rest (s2\<lparr>sv_journal := purge_journal tn adays (clk 3) (sv_journal s2)\<rparr>))
            else rest s1))"

text \<open>The body of \<open>ForEachTenant\<close> in the daily sweep: an error rolls the tenant's transaction back; files stay.\<close>

definition cleanup_tenant :: "string \<Rightarrow> int \<Rightarrow> int \<Rightarrow> string \<Rightarrow> bool \<times> bool \<Rightarrow> (nat \<Rightarrow> nanos) \<Rightarrow> sweep_state \<Rightarrow> sweep_state" where
  "cleanup_tenant tn ddays adays dir disk clk s =
     (case cleanup_old_data \<lparr>cx_tx = Some tn, cx_tenant = tn\<rparr> ddays adays dir disk clk s of
        (Inl _, s') \<Rightarrow> s\<lparr>sv_files := sv_files s'\<rparr>
      | (Inr _, s') \<Rightarrow> s')"

definition cleanup_all :: "string list \<Rightarrow> int \<Rightarrow> int \<Rightarrow> string \<Rightarrow> bool \<times> bool \<Rightarrow> (string \<Rightarrow> nat \<Rightarrow> nanos) \<Rightarrow> sweep_state \<Rightarrow> sweep_state" where
  "cleanup_all tns ddays adays dir disk clk s =
     fold (\<lambda>tn s. cleanup_tenant tn ddays adays dir disk (clk tn) s) (filter (\<lambda>t. t \<noteq> [] \<and> t \<noteq> nil_tenant) tns) s"

section \<open>What a hash binds\<close>

lemma unchain_chain: "r = [] \<or> starts_rune (hd r) \<Longrightarrow> unchain_field (chain_field s @ r) = Some (s, r)"
proof -
  assume r: "r = [] \<or> starts_rune (hd r)"
  have "CHR '':'' \<notin> set (dec (rune_count s))" by (rule digits_no_byte [OF dec_digits]) (simp add: is_digit_def)
  then show ?thesis using split_runes_append [OF r] by (simp add: unchain_field_def chain_field_def cut_at_append)
qed

lemma chain_field_starts: "starts_rune (hd (chain_field s @ r))"
proof -
  obtain c d where d: "dec (rune_count s) = c # d" using dec_nonempty [of "rune_count s"] by (cases "dec (rune_count s)") simp_all
  then have "is_digit c" using dec_digits [of "rune_count s"] by simp
  then show ?thesis using d digit_starts_rune by (simp add: chain_field_def)
qed

interpretation chain: framing chain_field unchain_field "\<lambda>_. True" "\<lambda>r. r = [] \<or> starts_rune (hd r)"
  by unfold_locales (simp_all add: unchain_chain chain_field_starts, simp add: chain_field_def)

lemma row_text_binds: "row_text stamp r = row_text stamp r' \<Longrightarrow> row_fields stamp r = row_fields stamp r'"
  using chain.frames_inj [of "row_fields stamp r" "row_fields stamp r'"] by (simp add: row_text_def list_all_iff)

section \<open>The chain of a tenant\<close>

lemma set_chain_rows: "set (chain_rows tn rows) = {r \<in> set rows. jr_tenant r = tn \<and> jr_seq r \<noteq> None}"
  by (auto simp: chain_rows_def)

lemma sorted_chain_rows: "sorted (map jr_num (chain_rows tn rows))"
  by (simp add: chain_rows_def)

text \<open>A chain of rows whose hashes are right, whose numbers are consecutive and whose links hold.\<close>

fun linked :: "(string \<Rightarrow> string) \<Rightarrow> (nanos \<Rightarrow> string) \<Rightarrow> journal_row list \<Rightarrow> bool" where
  "linked sha stamp [] = True"
| "linked sha stamp [r] = (jr_hash r = Some (audit_row_hash sha stamp r))"
| "linked sha stamp (r # q # rs) = (jr_hash r = Some (audit_row_hash sha stamp r) \<and> jr_num q = jr_num r + 1 \<and>
     jr_prev q = jr_hash r \<and> linked sha stamp (q # rs))"

lemma linked_hd: "linked sha stamp (r # rs) \<Longrightarrow> jr_hash r = Some (audit_row_hash sha stamp r)"
  by (cases rs) simp_all

lemma scan_some_linked:
  "jr_hash p = Some (audit_row_hash sha stamp p) \<Longrightarrow> scan_chain sha stamp (Some p) rs = None \<longleftrightarrow> linked sha stamp (p # rs)"
proof (induction rs arbitrary: p)
  case (Cons r rs)
  show ?case
  proof (cases "jr_hash r = Some (audit_row_hash sha stamp r)")
    case True
    from Cons.IH [OF this] show ?thesis using Cons.prems True by simp
  next
    case False
    then have "\<not> linked sha stamp (r # rs)" using linked_hd [of sha stamp r rs] by blast
    then show ?thesis using False by simp
  qed
qed simp

lemma scan_linked: "scan_chain sha stamp None rs = None \<longleftrightarrow> linked sha stamp rs"
proof (cases rs)
  case (Cons r rs')
  show ?thesis
  proof (cases "jr_hash r = Some (audit_row_hash sha stamp r)")
    case True
    from scan_some_linked [OF this, of rs'] show ?thesis using True Cons by simp
  next
    case False
    then have "\<not> linked sha stamp (r # rs')" using linked_hd [of sha stamp r rs'] by blast
    then show ?thesis using False Cons by simp
  qed
qed simp

lemma linked_drop: "linked sha stamp rs \<Longrightarrow> linked sha stamp (drop n rs)"
proof (induction sha stamp rs arbitrary: n rule: linked.induct)
  case (3 sha stamp r q rs)
  then show ?case by (cases n) auto
qed (simp_all add: drop_Cons split: nat.splits)

lemma linked_take: "linked sha stamp rs \<Longrightarrow> linked sha stamp (take n rs)"
proof (induction sha stamp rs arbitrary: n rule: linked.induct)
  case (3 sha stamp r q rs)
  then show ?case
  proof (cases n)
    case (Suc m)
    then show ?thesis using 3 "3.IH" [of "m"] by (cases m) auto
  qed simp
qed (simp_all add: take_Cons split: nat.splits)

lemma linked_nth:
  "linked sha stamp rs \<Longrightarrow> i < length rs \<Longrightarrow> jr_hash (rs ! i) = Some (audit_row_hash sha stamp (rs ! i)) \<and>
     jr_num (rs ! i) = jr_num (rs ! 0) + int i \<and> (\<forall>k. i = Suc k \<longrightarrow> jr_prev (rs ! i) = jr_hash (rs ! k))"
proof (induction sha stamp rs arbitrary: i rule: linked.induct)
  case (3 sha stamp r q rs)
  then show ?case
  proof (cases i)
    case (Suc m)
    then show ?thesis using 3 "3.IH" [of m] by (cases m) auto
  qed simp
qed simp_all

lemma linked_snoc:
  "linked sha stamp rs \<Longrightarrow> jr_hash r = Some (audit_row_hash sha stamp r) \<Longrightarrow>
     (rs \<noteq> [] \<Longrightarrow> jr_num r = jr_num (last rs) + 1 \<and> jr_prev r = jr_hash (last rs)) \<Longrightarrow> linked sha stamp (rs @ [r])"
proof (induction sha stamp rs rule: linked.induct)
  case (3 sha stamp a b rs)
  then show ?case by simp
qed simp_all

lemma linked_last: "linked sha stamp rs \<Longrightarrow> rs \<noteq> [] \<Longrightarrow> jr_hash (last rs) = Some (audit_row_hash sha stamp (last rs))"
  using linked_nth [of sha stamp rs "length rs - 1"] by (simp add: last_conv_nth)

lemma verified_iff: "verified sha stamp tn j \<longleftrightarrow> tn \<noteq> [] \<and> tn \<noteq> nil_tenant \<and>
    linked sha stamp (chain_rows tn (jn_rows j)) \<and> anchor_mismatches tn j = []"
proof (cases "tn = [] \<or> tn = nil_tenant")
  case True
  then show ?thesis by (auto simp: verified_def verify_audit_chain_def bind_tenant_def require_tenant_def)
next
  case False
  then have b: "bind_tenant \<lparr>cx_tx = None, cx_tenant = []\<rparr> tn = Inr tn" by (simp add: bind_tenant_def require_tenant_def)
  show ?thesis
  proof (cases "chain_rows tn (jn_rows j) = []")
    case True
    then show ?thesis using False b by (simp add: verified_def verify_audit_chain_def Let_def anchor_mismatches_def)
  next
    case ne: False
    show ?thesis
    proof (cases "linked sha stamp (chain_rows tn (jn_rows j))")
      case True
      then have "scan_chain sha stamp None (chain_rows tn (jn_rows j)) = None" by (simp add: scan_linked)
      then show ?thesis using False b ne True linked_last [OF True ne]
        by (simp add: verified_def verify_audit_chain_def Let_def)
    next
      case nl: False
      then obtain n w where "scan_chain sha stamp None (chain_rows tn (jn_rows j)) = Some (n, w)"
        by (metis scan_linked not_None_eq surj_pair)
      then show ?thesis using b ne nl
        by (simp add: verified_def verify_audit_chain_def Let_def split: option.splits)
    qed
  qed
qed

lemma verified_linked: "verified sha stamp tn j \<Longrightarrow> linked sha stamp (chain_rows tn (jn_rows j))"
  by (simp add: verified_iff)

lemma same_hash_same_fields:
  assumes "inj_on sha (row_text stamp ` S)" and "a \<in> S" and "b \<in> S"
    and "jr_hash a = Some (audit_row_hash sha stamp a)" and "jr_hash b = Some (audit_row_hash sha stamp b)" and "jr_hash a = jr_hash b"
  shows "row_fields stamp a = row_fields stamp b"
proof (rule row_text_binds)
  have "sha (row_text stamp a) = sha (row_text stamp b)" using assms(4-6) by (simp add: audit_row_hash_def)
  then show "row_text stamp a = row_text stamp b" using assms(1-3) by (auto dest: inj_onD)
qed

lemma linked_agree:
  assumes c: "linked sha stamp c" and d: "linked sha stamp d" and inj: "inj_on sha (row_text stamp ` (set c \<union> set d))"
    and i: "i < length c" and m: "m < length d" and h: "jr_hash (c ! i) = jr_hash (d ! m)"
  shows "t \<le> i \<Longrightarrow> t \<le> m \<Longrightarrow> jr_hash (c ! (i - t)) = jr_hash (d ! (m - t))"
proof (induction t)
  case (Suc t)
  let ?a = "c ! (i - t)" and ?b = "d ! (m - t)"
  have ia: "i - t = Suc (i - Suc t)" and mb: "m - t = Suc (m - Suc t)" using Suc.prems by simp_all
  have "jr_hash ?a = Some (audit_row_hash sha stamp ?a)" "jr_prev ?a = jr_hash (c ! (i - Suc t))"
    using linked_nth [OF c, of "i - t"] i ia by (simp_all add: less_imp_diff_less)
  moreover have "jr_hash ?b = Some (audit_row_hash sha stamp ?b)" "jr_prev ?b = jr_hash (d ! (m - Suc t))"
    using linked_nth [OF d, of "m - t"] m mb by (simp_all add: less_imp_diff_less)
  moreover have "?a \<in> set c \<union> set d" "?b \<in> set c \<union> set d" using i m by (simp_all add: less_imp_diff_less)
  moreover have "jr_hash ?a = jr_hash ?b" using Suc by simp
  ultimately have "or_empty (jr_hash (c ! (i - Suc t))) = or_empty (jr_hash (d ! (m - Suc t)))"
    using same_hash_same_fields [OF inj, of ?a ?b] by (simp add: row_fields_def)
  then show ?case using linked_nth [OF c, of "i - Suc t"] linked_nth [OF d, of "m - Suc t"] i m
    by (simp add: or_empty_def less_imp_diff_less)
qed (use h in simp)

text \<open>Claim C5. A verified journal cannot be rewritten below a hash that is kept outside: when two states of a tenant's
  journal both pass the check and agree on the hash of one number, they agree on every field of every record with that
  number or a smaller one that both still hold. The only assumption is that SHA-256 has no collision on the records
  themselves; that two records never give one text is part of the proof.\<close>

theorem sealed_history:
  assumes "verified sha stamp tn j" and "verified sha stamp tn k"
    and "inj_on sha (row_text stamp ` (set (jn_rows j) \<union> set (jn_rows k)))"
    and "a \<in> set (chain_rows tn (jn_rows j))" and "b \<in> set (chain_rows tn (jn_rows k))"
    and "jr_num a = jr_num b" and "jr_hash a = jr_hash b"
    and "a' \<in> set (chain_rows tn (jn_rows j))" and "b' \<in> set (chain_rows tn (jn_rows k))"
    and "jr_num a' = jr_num b'" and "jr_num a' \<le> jr_num a"
  shows "row_fields stamp a' = row_fields stamp b'"
proof -
  let ?c = "chain_rows tn (jn_rows j)" and ?d = "chain_rows tn (jn_rows k)"
  have c: "linked sha stamp ?c" and d: "linked sha stamp ?d" using assms(1,2) by (simp_all add: verified_linked)
  have inj: "inj_on sha (row_text stamp ` (set ?c \<union> set ?d))"
    by (rule inj_on_subset [OF assms(3)]) (auto simp: set_chain_rows)
  obtain i where i: "i < length ?c" "a = ?c ! i" using assms(4) by (auto simp: in_set_conv_nth)
  obtain m where m: "m < length ?d" "b = ?d ! m" using assms(5) by (auto simp: in_set_conv_nth)
  obtain i' where i': "i' < length ?c" "a' = ?c ! i'" using assms(8) by (auto simp: in_set_conv_nth)
  obtain m' where m': "m' < length ?d" "b' = ?d ! m'" using assms(9) by (auto simp: in_set_conv_nth)
  have nums: "jr_num a = jr_num (?c ! 0) + int i" "jr_num a' = jr_num (?c ! 0) + int i'"
    "jr_num b = jr_num (?d ! 0) + int m" "jr_num b' = jr_num (?d ! 0) + int m'"
    using linked_nth [OF c i(1)] linked_nth [OF c i'(1)] linked_nth [OF d m(1)] linked_nth [OF d m'(1)] i m i' m' by simp_all
  then have "i' \<le> i" "m' \<le> m" and same: "m - (i - i') = m'" and "i - i' \<le> m" using assms(6,10,11) by linarith+
  then have "jr_hash (?c ! (i - (i - i'))) = jr_hash (?d ! (m - (i - i')))"
    using linked_agree [OF c d inj i(1) m(1), of "i - i'"] assms(7) i m \<open>i - i' \<le> m\<close> by simp
  then have "jr_hash a' = jr_hash b'" using same \<open>i' \<le> i\<close> i'(2) m'(2) by simp
  then show ?thesis
    using same_hash_same_fields [OF inj, of a' b'] linked_nth [OF c i'(1)] linked_nth [OF d m'(1)] assms(8,9) i'(2) m'(2) by simp
qed

section \<open>Ordinary operation keeps the chain\<close>

lemma chain_rows_filter: "chain_rows tn (filter P rows) = filter P (chain_rows tn rows)"
  by (simp add: chain_rows_def filter_sort conj_commute cong: filter_cong)

lemma chain_rows_other: "jr_tenant r \<noteq> tn \<Longrightarrow> chain_rows tn (rows @ [r]) = chain_rows tn rows"
  by (simp add: chain_rows_def)

lemma sort_key_snoc:
  fixes f :: "'a \<Rightarrow> 'b::linorder"
  assumes "\<And>x. x \<in> set xs \<Longrightarrow> f x \<le> f y"
  shows "sort_key f (xs @ [y]) = sort_key f xs @ [y]"
proof (rule properties_for_sort_key)
  show "filter (\<lambda>x. f k = f x) (sort_key f xs @ [y]) = filter (\<lambda>x. f k = f x) (xs @ [y])" for k
    using sort_key_stable [of f "f k" xs] by (simp add: eq_commute [of "f k"])
qed (use assms in \<open>simp_all add: sorted_append\<close>)

lemma chain_rows_snoc:
  assumes "jr_tenant r = tn" and "jr_seq r \<noteq> None" and "\<And>q. q \<in> set (chain_rows tn rows) \<Longrightarrow> jr_num q \<le> jr_num r"
  shows "chain_rows tn (rows @ [r]) = chain_rows tn rows @ [r]"
  using assms sort_key_snoc [of "filter (\<lambda>r. jr_tenant r = tn \<and> jr_seq r \<noteq> None) rows" jr_num r]
  by (simp add: chain_rows_def)

text \<open>The row that is written.\<close>

lemma next_row_facts:
  assumes "r = next_row sha stamp tn e now rows"
  shows "jr_tenant r = tn" and "jr_seq r = Some (jr_num r)" and "jr_created r = now"
    and "jr_hash r = Some (audit_row_hash sha stamp r)"
    and "chain_rows tn rows = [] \<Longrightarrow> jr_num r = 1"
    and "chain_rows tn rows \<noteq> [] \<Longrightarrow> jr_num r = jr_num (last (chain_rows tn rows)) + 1
      \<and> jr_prev r = Some (or_empty (jr_hash (last (chain_rows tn rows))))"
  unfolding assms by (simp_all add: next_row_def head_row_def Let_def jr_num_def audit_row_hash_def row_text_def row_fields_def)

lemma chain_below_last: "q \<in> set (chain_rows tn rows) \<Longrightarrow> jr_num q \<le> jr_num (last (chain_rows tn rows))"
  using sorted_chain_rows [of tn rows] by (cases "chain_rows tn rows" rule: rev_cases) (auto simp: sorted_append)

lemma chain_rows_written:
  assumes "r = next_row sha stamp tn e now rows"
  shows "chain_rows tn (rows @ [r]) = chain_rows tn rows @ [r]"
proof (rule chain_rows_snoc)
  fix q assume q: "q \<in> set (chain_rows tn rows)"
  then have "chain_rows tn rows \<noteq> []" by auto
  then show "jr_num q \<le> jr_num r" using chain_below_last [OF q] next_row_facts(6) [OF assms] by simp
qed (simp_all add: next_row_facts(1,2) [OF assms])

text \<open>
  A sweep deletes by the time of a record, which is the start of its transaction; the numbers are given later, under a
  lock.  It is clean when it takes a beginning of the chain: of the records that it would keep none is followed by one
  that it deletes, and the newest is kept.  When the times run with the numbers every sweep that keeps the newest record
  is clean (\<open>ordered_sweep\<close>).
\<close>

definition clean_sweep :: "string \<Rightarrow> nanos \<Rightarrow> journal_row list \<Rightarrow> bool" where
  "clean_sweep t cutoff rows \<longleftrightarrow> (let c = chain_rows t rows
     in sorted_wrt (\<lambda>q r. cutoff \<le> jr_created q \<longrightarrow> cutoff \<le> jr_created r) c \<and> (c = [] \<or> cutoff \<le> jr_created (last c)))"

lemma ordered_sweep:
  assumes "sorted (map jr_created (chain_rows t rows))" and "\<And>h. head_row t rows = Some h \<Longrightarrow> cutoff \<le> jr_created h"
  shows "clean_sweep t cutoff rows"
proof -
  have "sorted_wrt (\<lambda>q r. cutoff \<le> jr_created q \<longrightarrow> cutoff \<le> jr_created r) (chain_rows t rows)"
    using assms(1) by (auto simp: sorted_map intro: sorted_wrt_mono_rel [rotated])
  then show ?thesis using assms(2) by (cases "chain_rows t rows = []") (simp_all add: clean_sweep_def head_row_def Let_def)
qed

text \<open>One step of the server on the journal: a record, whatever its time, an anchor, or a clean sweep.\<close>

inductive journal_step :: "(string \<Rightarrow> string) \<Rightarrow> (nanos \<Rightarrow> string) \<Rightarrow> journal \<Rightarrow> journal \<Rightarrow> bool"
  for sha stamp where
  written: "write_audit_log sha stamp cx e now j = Inr j' \<Longrightarrow> journal_step sha stamp j j'"
| anchored: "write_audit_anchor cx j = Inr (n, h, j') \<Longrightarrow> journal_step sha stamp j j'"
| purged: "clean_sweep t (days_before (nat days) now) (jn_rows j) \<Longrightarrow> journal_step sha stamp j (purge_journal t days now j)"

definition journal_ok :: "(string \<Rightarrow> string) \<Rightarrow> (nanos \<Rightarrow> string) \<Rightarrow> string \<Rightarrow> journal \<Rightarrow> bool" where
  "journal_ok sha stamp tn j \<longleftrightarrow>
     (let c = chain_rows tn (jn_rows j)
      in linked sha stamp c \<and>
         (\<forall>n h. (tn, n, h) \<in> set (jn_anchors j) \<longrightarrow> c \<noteq> [] \<and> n \<le> jr_num (last c) \<and>
            (\<forall>r \<in> set c. jr_num r = n \<longrightarrow> jr_hash r = Some h)))"

definition fresh_journal :: "journal \<Rightarrow> bool" where
  "fresh_journal j \<longleftrightarrow> list_all (\<lambda>r. jr_seq r = None) (jn_rows j) \<and> jn_anchors j = []"

lemma journal_ok_fresh: "fresh_journal j \<Longrightarrow> journal_ok sha stamp tn j"
  by (simp add: journal_ok_def fresh_journal_def chain_rows_def list_all_iff)

lemma journal_ok_verified: "journal_ok sha stamp tn j \<Longrightarrow> tn \<noteq> [] \<Longrightarrow> tn \<noteq> nil_tenant \<Longrightarrow> verified sha stamp tn j"
  by (fastforce simp: journal_ok_def verified_iff Let_def anchor_mismatches_def filter_empty_conv list_ex_iff)

lemma journal_ok_written:
  assumes "journal_ok sha stamp tn j" and "write_audit_log sha stamp cx e now j = Inr j'"
  shows "journal_ok sha stamp tn j'"
proof -
  let ?t = "if cx_tenant cx = [] then default_tenant else cx_tenant cx"
  define r where "r = next_row sha stamp ?t e now (jn_rows j)"
  have j': "j' = j\<lparr>jn_rows := jn_rows j @ [r]\<rparr>"
    using assms(2) by (auto simp: write_audit_log_def r_def Let_def split: sum.splits)
  note f = next_row_facts [OF r_def]
  let ?c = "chain_rows tn (jn_rows j)"
  have ok: "linked sha stamp ?c"
    "\<And>n h. (tn, n, h) \<in> set (jn_anchors j) \<Longrightarrow> ?c \<noteq> [] \<and> n \<le> jr_num (last ?c) \<and> (\<forall>r \<in> set ?c. jr_num r = n \<longrightarrow> jr_hash r = Some h)"
    using assms(1) by (simp_all add: journal_ok_def Let_def)
  show ?thesis
  proof (cases "?t = tn")
    case False
    then have "chain_rows tn (jn_rows j') = ?c" using f(1) chain_rows_other [of r tn] by (simp add: j')
    then show ?thesis using assms(1) by (simp add: journal_ok_def j')
  next
    case True
    have c': "chain_rows tn (jn_rows j') = ?c @ [r]" using chain_rows_written [OF r_def] True by (simp add: j')
    have last: "?c \<noteq> [] \<Longrightarrow> jr_num r = jr_num (last ?c) + 1 \<and> jr_prev r = jr_hash (last ?c)"
      using f(6) True linked_last [OF ok(1)] by (simp add: or_empty_def)
    have "linked sha stamp (?c @ [r])" by (rule linked_snoc [OF ok(1) f(4) last])
    moreover have "n \<le> jr_num r \<and> (\<forall>q \<in> set (?c @ [r]). jr_num q = n \<longrightarrow> jr_hash q = Some h)"
      if "(tn, n, h) \<in> set (jn_anchors j)" for n h
      using ok(2) [OF that] last by auto
    ultimately show ?thesis unfolding journal_ok_def Let_def c' by (auto simp: j')
  qed
qed

lemma head_row_scoped: "head_row t (filter (\<lambda>r. jr_tenant r = s) rows) = Some r \<Longrightarrow> t = s \<and> head_row t rows = Some r"
proof -
  assume a: "head_row t (filter (\<lambda>r. jr_tenant r = s) rows) = Some r"
  then have "filter (\<lambda>r. jr_tenant r = s) (chain_rows t rows) \<noteq> []"
    by (auto simp: head_row_def Let_def chain_rows_filter split: if_splits)
  then obtain q where "q \<in> set (chain_rows t rows)" "jr_tenant q = s" by (auto simp: filter_empty_conv)
  then have ts: "t = s" by (auto simp: set_chain_rows)
  then have "filter (\<lambda>r. jr_tenant r = s) (chain_rows t rows) = chain_rows t rows"
    by (auto simp: filter_id_conv set_chain_rows)
  then show ?thesis using a ts by (simp add: head_row_def chain_rows_filter)
qed

lemma anchor_added:
  assumes "write_audit_anchor cx j = Inr (n, h, j')"
  obtains "j' = j"
  | r where "head_row (cx_tenant cx) (jn_rows j) = Some r" "jr_hash r = Some h"
      "j' = j\<lparr>jn_anchors := jn_anchors j @ [(cx_tenant cx, jr_num r, h)]\<rparr>"
proof -
  obtain tn where tn: "scope_for cx [] = Inr tn" using assms by (auto simp: write_audit_anchor_def split: sum.splits)
  show thesis
  proof (cases "head_row (cx_tenant cx) (filter (\<lambda>r. jr_tenant r = tn) (jn_rows j))")
    case None
    then show thesis using assms tn that(1) by (auto simp: write_audit_anchor_def split: if_splits)
  next
    case (Some r)
    then show thesis using assms tn that head_row_scoped [OF Some]
      by (auto simp: write_audit_anchor_def split: if_splits option.splits)
  qed
qed

lemma journal_ok_anchored:
  assumes ok: "journal_ok sha stamp tn j" and "write_audit_anchor cx j = Inr (n, h, j')"
  shows "journal_ok sha stamp tn j'"
  using assms(2)
proof (cases rule: anchor_added)
  case (2 r)
  let ?c = "chain_rows tn (jn_rows j)"
  show ?thesis
  proof (cases "cx_tenant cx = tn")
    case True
    then have ne: "?c \<noteq> []" and r: "r = last ?c" using 2(1) by (auto simp: head_row_def Let_def split: if_splits)
    have lk: "linked sha stamp ?c" using ok by (simp add: journal_ok_def Let_def)
    have "jr_hash q = Some h" if "q \<in> set ?c" "jr_num q = jr_num r" for q
    proof -
      note q = that
      obtain i where i: "i < length ?c" "q = ?c ! i" using q(1) by (auto simp: in_set_conv_nth)
      have "jr_num r = jr_num (?c ! 0) + int (length ?c - 1)"
        using linked_nth [OF lk, of "length ?c - 1"] ne r by (simp add: last_conv_nth)
      then have "i = length ?c - 1" using linked_nth [OF lk i(1)] i q(2) by simp
      then show ?thesis using i(2) r ne 2(2) by (simp add: last_conv_nth)
    qed
    then show ?thesis using ok ne r 2(3) True by (auto simp: journal_ok_def Let_def)
  qed (use ok 2(3) in \<open>simp add: journal_ok_def\<close>)
qed (use ok in simp)

lemma filter_suffix_by:
  assumes "sorted_wrt (\<lambda>x y. P x \<longrightarrow> P y) xs"
  shows "filter P xs = drop (length (filter (\<lambda>x. \<not> P x) xs)) xs"
  using assms
proof (induction xs)
  case (Cons x xs)
  show ?case
  proof (cases "P x")
    case True
    then have "filter P xs = xs" "filter (\<lambda>x. \<not> P x) xs = []"
      using Cons.prems by (auto simp: filter_id_conv filter_empty_conv)
    then show ?thesis using True by simp
  qed (use Cons in auto)
qed simp

lemma journal_ok_purged:
  assumes ok: "journal_ok sha stamp tn j"
    and clean: "clean_sweep t (days_before (nat days) now) (jn_rows j)"
  shows "journal_ok sha stamp tn (purge_journal t days now j)"
proof (cases "days \<le> 0 \<or> t \<noteq> tn")
  case True
  then have "chain_rows tn (jn_rows (purge_journal t days now j)) = chain_rows tn (jn_rows j)"
    by (auto simp: purge_journal_def purge_def chain_rows_filter filter_id_conv set_chain_rows)
  then show ?thesis using ok by (simp add: journal_ok_def purge_journal_def)
next
  case False
  let ?c = "chain_rows tn (jn_rows j)" and ?d = "days_before (nat days) now"
  have lk: "linked sha stamp ?c" using ok by (simp add: journal_ok_def Let_def)
  have srt: "sorted_wrt (\<lambda>q r. ?d \<le> jr_created q \<longrightarrow> ?d \<le> jr_created r) ?c" and keep: "?c = [] \<or> ?d \<le> jr_created (last ?c)"
    using clean False by (simp_all add: clean_sweep_def Let_def)
  have "chain_rows tn (jn_rows (purge_journal t days now j)) = filter (\<lambda>r. ?d \<le> jr_created r) ?c"
    using False by (auto simp: purge_journal_def purge_def chain_rows_filter set_chain_rows not_less intro!: filter_cong)
  then obtain n where c': "chain_rows tn (jn_rows (purge_journal t days now j)) = drop n ?c"
    and f: "drop n ?c = filter (\<lambda>r. ?d \<le> jr_created r) ?c" using filter_suffix_by [OF srt] by simp
  have last: "drop n ?c \<noteq> [] \<and> last (drop n ?c) = last ?c" if "?c \<noteq> []"
  proof -
    have "?d \<le> jr_created (last ?c)" using keep that by simp
    then have "drop n ?c \<noteq> []" unfolding f using that by (auto simp: filter_empty_conv not_le intro!: bexI [of _ "last ?c"])
    then show ?thesis by simp
  qed
  have "drop n ?c \<noteq> [] \<and> m \<le> jr_num (last (drop n ?c)) \<and> (\<forall>r \<in> set (drop n ?c). jr_num r = m \<longrightarrow> jr_hash r = Some h)"
    if "(tn, m, h) \<in> set (jn_anchors j)" for m h
  proof -
    have "?c \<noteq> [] \<and> m \<le> jr_num (last ?c) \<and> (\<forall>r \<in> set ?c. jr_num r = m \<longrightarrow> jr_hash r = Some h)"
      using ok that by (simp add: journal_ok_def Let_def)
    then show ?thesis using last by (metis in_set_dropD)
  qed
  then show ?thesis unfolding journal_ok_def Let_def c' by (simp add: purge_journal_def linked_drop [OF lk])
qed

text \<open>Claim C15. Ordinary operation never raises a false alarm, as far as its sweeps are clean: from a journal that has only records
  older than the chain, through any sequence of records - with whatever times, since that of a record is the start of its
  transaction and need not run with its number -, anchors, and retention sweeps each of which takes away a beginning
  of the chain and keeps the newest record, the check of every tenant's chain passes.  A sweep that meets times out of
  order may cut a gap, on which the check fails (\<open>retention_makes_gap\<close>), and one that empties a chain with anchors
  lets the next numbers collide with them.\<close>

theorem journal_verifies:
  assumes "fresh_journal j" and "(journal_step sha stamp)\<^sup>*\<^sup>* j j'" and "tn \<noteq> []" and "tn \<noteq> nil_tenant"
  shows "verified sha stamp tn j'"
proof (rule journal_ok_verified [OF _ assms(3,4)])
  show "journal_ok sha stamp tn j'" using assms(2)
  proof (induction rule: rtranclp_induct)
    case base
    then show ?case by (rule journal_ok_fresh [OF assms(1)])
  next
    case (step j j')
    from step.hyps(2) show ?case
      by cases (use step.IH in \<open>blast intro: journal_ok_written journal_ok_anchored journal_ok_purged\<close>)+
  qed
qed

section \<open>What the check does not see, and what it sees wrongly\<close>

lemma filter_prefix_by:
  fixes f :: "'a \<Rightarrow> 'b::linorder"
  assumes "sorted (map f xs)"
  shows "filter (\<lambda>x. f x \<le> t) xs = take (length (filter (\<lambda>x. f x \<le> t) xs)) xs"
  using assms
proof (induction xs)
  case (Cons x xs)
  show ?case
  proof (cases "f x \<le> t")
    case False
    then have "filter (\<lambda>x. f x \<le> t) xs = []" using Cons.prems by (fastforce simp: filter_empty_conv)
    then show ?thesis using False by simp
  qed (use Cons in auto)
qed simp

text \<open>The rows of a tenant above a number removed.\<close>

definition cut_tail :: "string \<Rightarrow> int \<Rightarrow> journal \<Rightarrow> journal" where
  "cut_tail tn n j = j\<lparr>jn_rows := filter (\<lambda>r. jr_tenant r = tn \<and> jr_seq r \<noteq> None \<longrightarrow> jr_num r \<le> n) (jn_rows j)\<rparr>"

text \<open>Removing the newest records goes unnoticed: when the chain of a tenant passes the check, it still passes
  after every record above any number has been deleted - the whole chain included - although the anchors in the same
  database name records that are gone.\<close>

theorem cut_tail_unnoticed:
  assumes "verified sha stamp tn j"
  shows "verified sha stamp tn (cut_tail tn n j) \<and> jn_anchors (cut_tail tn n j) = jn_anchors j"
proof -
  let ?c = "chain_rows tn (jn_rows j)"
  have c': "chain_rows tn (jn_rows (cut_tail tn n j)) = filter (\<lambda>r. jr_num r \<le> n) ?c"
    by (auto simp: cut_tail_def chain_rows_filter set_chain_rows intro!: filter_cong)
  obtain m where m: "filter (\<lambda>r. jr_num r \<le> n) ?c = take m ?c" using filter_prefix_by [OF sorted_chain_rows] by blast
  have "linked sha stamp (filter (\<lambda>r. jr_num r \<le> n) ?c)"
    unfolding m by (rule linked_take [OF verified_linked [OF assms]])
  moreover have "anchor_mismatches tn (cut_tail tn n j) = []"
    using assms unfolding verified_iff anchor_mismatches_def c'
    by (auto simp: filter_empty_conv list_ex_iff cut_tail_def)
  ultimately show ?thesis using assms by (simp add: verified_iff c') (simp add: cut_tail_def)
qed

text \<open>A run of records of one tenant.\<close>

definition write_all :: "(string \<Rightarrow> string) \<Rightarrow> (nanos \<Rightarrow> string) \<Rightarrow> string \<Rightarrow> (audit_event \<times> nanos) list \<Rightarrow> journal \<Rightarrow> journal" where
  "write_all sha stamp tn es j = fold (\<lambda>(e, now) j.
     case write_audit_log sha stamp \<lparr>cx_tx = None, cx_tenant = tn\<rparr> e now j of Inl _ \<Rightarrow> j | Inr j' \<Rightarrow> j') es j"

lemma write_all_chain:
  assumes "tn \<noteq> []" and "linked sha stamp (chain_rows tn (jn_rows j))"
  shows "linked sha stamp (chain_rows tn (jn_rows (write_all sha stamp tn es j))) \<and>
    length (chain_rows tn (jn_rows (write_all sha stamp tn es j))) = length (chain_rows tn (jn_rows j)) + length es \<and>
    jn_anchors (write_all sha stamp tn es j) = jn_anchors j \<and>
    (chain_rows tn (jn_rows j) = [] \<and> es \<noteq> [] \<longrightarrow> jr_num (chain_rows tn (jn_rows (write_all sha stamp tn es j)) ! 0) = 1) \<and>
    (chain_rows tn (jn_rows j) \<noteq> [] \<longrightarrow>
       chain_rows tn (jn_rows (write_all sha stamp tn es j)) ! 0 = chain_rows tn (jn_rows j) ! 0)"
  using assms(2)
proof (induction es arbitrary: j)
  case Nil
  then show ?case by (simp add: write_all_def)
next
  case (Cons x es)
  obtain e now where x: "x = (e, now)" by force
  define r where "r = next_row sha stamp tn e now (jn_rows j)"
  let ?j = "j\<lparr>jn_rows := jn_rows j @ [r]\<rparr>" and ?c = "chain_rows tn (jn_rows j)"
  have w: "write_all sha stamp tn (x # es) j = write_all sha stamp tn es ?j"
    using assms(1) by (simp add: write_all_def x write_audit_log_def begin_scoped_def r_def)
  have c': "chain_rows tn (jn_rows ?j) = ?c @ [r]" using chain_rows_written [OF r_def] by simp
  note f = next_row_facts [OF r_def]
  have "linked sha stamp (?c @ [r])"
    using linked_snoc [OF Cons.prems f(4)] f(6) linked_last [OF Cons.prems] by (simp add: or_empty_def)
  then have l: "linked sha stamp (chain_rows tn (jn_rows ?j))" unfolding c' .
  show ?case using Cons.IH [OF l] f(5) unfolding w c' by (cases "?c = []") (auto simp: nth_append)
qed

lemma purged_chain_empty:
  assumes "0 < days" and "\<forall>r \<in> set (chain_rows tn (jn_rows j)). jr_created r < days_before (nat days) now"
  shows "chain_rows tn (jn_rows (purge_journal tn days now j)) = []"
  using assms by (auto simp: purge_journal_def purge_def chain_rows_filter filter_empty_conv set_chain_rows)

text \<open>Retention makes the journal look forged: when it removes the last record of a tenant's chain, the numbers
  start again at 1 while the anchors stay, and as soon as the new chain reaches the number of an old anchor the check
  reports a mismatch with it - the verdict meant for a chain that somebody has recomputed - unless the new record
  happens to have the very hash of the old one.\<close>

theorem emptied_chain_false_alarm:
  assumes "tn \<noteq> []" and "tn \<noteq> nil_tenant" and "0 < days"
    and "\<forall>r \<in> set (chain_rows tn (jn_rows j)). jr_created r < days_before (nat days) now"
    and "(tn, n, h) \<in> set (jn_anchors j)" and "1 \<le> n" and "nat n \<le> length es"
    and "j' = write_all sha stamp tn es (purge_journal tn days now j)"
    and "\<forall>r \<in> set (chain_rows tn (jn_rows j')). jr_num r = n \<longrightarrow> jr_hash r \<noteq> Some h"
  shows "\<exists>st. verify_audit_chain sha stamp \<lparr>cx_tx = None, cx_tenant = []\<rparr> tn j' = Inr st \<and> \<not> cs_ok st \<and> cs_anchor st"
proof -
  let ?p = "purge_journal tn days now j" and ?c = "chain_rows tn (jn_rows j')"
  have e: "chain_rows tn (jn_rows ?p) = []" by (rule purged_chain_empty [OF assms(3,4)])
  note w = write_all_chain [OF assms(1), of sha stamp ?p es, folded assms(8), unfolded e]
  have ne: "es \<noteq> []" using assms(6,7) by auto
  have l: "linked sha stamp ?c" and len: "length ?c = length es" and an: "jn_anchors j' = jn_anchors j" and z: "jr_num (?c ! 0) = 1"
    using w ne by (simp_all add: purge_journal_def)
  have i: "nat (n - 1) < length ?c" using len assms(6,7) by simp
  have "jr_num (?c ! nat (n - 1)) = n" using linked_nth [OF l i] z assms(6) by simp
  then have "(tn, n, h) \<in> set (anchor_mismatches tn j')"
    using assms(5,9) an i by (auto simp: anchor_mismatches_def list_ex_iff intro: nth_mem)
  then have m: "anchor_mismatches tn j' \<noteq> []" by auto
  have "?c \<noteq> []" using i by auto
  then show ?thesis using m l linked_last [OF l] assms(1,2)
    by (simp add: verify_audit_chain_def bind_tenant_def require_tenant_def Let_def scan_linked [THEN iffD2])
qed

text \<open>Retention makes a hole: the time of a record is the start of its transaction, so a record may carry an
  earlier time than the one numbered before it; when a sweep's cutoff falls between them, the check reports a record
  deleted from the middle of a journal that nobody has touched.\<close>

theorem retention_makes_gap:
  assumes "verified sha stamp tn j" and "0 < days"
    and "{a, b, d} \<subseteq> set (chain_rows tn (jn_rows j))" and "jr_num b = jr_num a + 1" and "jr_num b < jr_num d"
    and "jr_created b < days_before (nat days) now"
    and "days_before (nat days) now \<le> jr_created a" and "days_before (nat days) now \<le> jr_created d"
  shows "\<not> verified sha stamp tn (purge_journal tn days now j)"
proof
  let ?p = "purge_journal tn days now j"
  let ?c = "chain_rows tn (jn_rows j)" and ?q = "chain_rows tn (jn_rows ?p)"
  assume "verified sha stamp tn ?p"
  then have q: "linked sha stamp ?q" by (rule verified_linked)
  have c: "linked sha stamp ?c" by (rule verified_linked [OF assms(1)])
  have qc: "r \<in> set ?q \<longleftrightarrow> r \<in> set ?c \<and> days_before (nat days) now \<le> jr_created r" for r
    using assms(2) by (auto simp: purge_journal_def purge_def chain_rows_filter set_chain_rows not_less)
  have "a \<in> set ?q" "d \<in> set ?q" using assms(3,7,8) qc by auto
  then obtain i k where i: "i < length ?q" "a = ?q ! i" and k: "k < length ?q" "d = ?q ! k" by (auto simp: in_set_conv_nth)
  have "i < k" using linked_nth [OF q i(1)] linked_nth [OF q k(1)] i k assms(4,5) by simp
  then have s: "Suc i < length ?q" using k by simp
  let ?b = "?q ! Suc i"
  have "jr_num ?b = jr_num b" using linked_nth [OF q s] linked_nth [OF q i(1)] i assms(4) by simp
  moreover have "?b \<in> set ?c" and late: "days_before (nat days) now \<le> jr_created ?b" using qc [of ?b] s by simp_all
  ultimately have "?b = b"
  proof -
    assume n: "jr_num ?b = jr_num b" and bc: "?b \<in> set ?c"
    obtain x y where x: "x < length ?c" "?b = ?c ! x" and y: "y < length ?c" "b = ?c ! y"
      using bc assms(3) by (auto simp: in_set_conv_nth)
    have "x = y" using linked_nth [OF c x(1)] linked_nth [OF c y(1)] n x y by simp
    then show ?thesis using x y by simp
  qed
  then show False using late assms(6) by simp
qed

section \<open>Retention and the archive\<close>

lemma set_archive_order [simp]: "set (archive_order rows) = set rows"
  by (auto simp: archive_order_def)

lemma archive_cases:
  assumes "archive_audit_logs disk tn cutoff s = Inr s'"
  shows "sv_journal s' = sv_journal s \<and>
    (\<forall>r \<in> set (jn_rows (sv_journal s)). jr_tenant r = tn \<and> jr_created r < cutoff \<longrightarrow> (\<exists>f. (tn, f) \<in> set (sv_files s') \<and> r \<in> set f)) \<and>
    set (sv_files s) \<subseteq> set (sv_files s') \<and>
    (\<forall>x \<in> set (sv_files s') - set (sv_files s). \<forall>r \<in> set (snd x). jr_created r < cutoff)"
proof -
  let ?old = "archive_order (filter (\<lambda>r. jr_tenant r = tn \<and> jr_created r < cutoff) (jn_rows (sv_journal s)))"
  have m: "set ?old = {r \<in> set (jn_rows (sv_journal s)). jr_tenant r = tn \<and> jr_created r < cutoff}" by auto
  show ?thesis
  proof (cases "?old = []")
    case True
    then have "{r \<in> set (jn_rows (sv_journal s)). jr_tenant r = tn \<and> jr_created r < cutoff} = {}" using m by simp
    then show ?thesis using assms True by (auto simp: archive_audit_logs_def split: if_splits)
  next
    case False
    then have "s' = s\<lparr>sv_files := sv_files s @ [(tn, ?old)]\<rparr>"
      using assms by (auto simp: archive_audit_logs_def Let_def split: if_splits)
    then show ?thesis using m by auto
  qed
qed

lemma cleanup_journal:
  assumes "cleanup_tenant tn ddays adays dir disk clk s = s'"
  obtains "sv_journal s' = sv_journal s"
  | s1 s2 where "0 < adays" "dir \<noteq> []" "sv_journal s1 = sv_journal s" "sv_files s1 = sv_files s"
      "archive_audit_logs disk tn (days_before (nat adays) (clk 2)) s1 = Inr s2"
      "sv_journal s' = purge_journal tn adays (clk 3) (sv_journal s2)" "sv_files s' = sv_files s2"
proof -
  let ?p = "\<lambda>extra days k. purge tn ag_tenant ag_created extra days (clk k)"
  let ?s1 = "s\<lparr>sv_alerts := ?p ag_acked ddays 0 (sv_alerts s), sv_results := ?p (\<lambda>_. True) ddays 1 (sv_results s)\<rparr>"
  show thesis
  proof (cases "0 < adays \<and> dir \<noteq> []")
    case True
    show thesis
    proof (cases "archive_audit_logs disk tn (days_before (nat adays) (clk 2)) ?s1")
      case (Inl e)
      then show thesis using assms True that(1) by (auto simp: cleanup_tenant_def cleanup_old_data_def scope_for_def Let_def)
    next
      case (Inr s2)
      then show thesis using assms True that(2) [of ?s1 s2]
        by (auto simp: cleanup_tenant_def cleanup_old_data_def scope_for_def Let_def)
    qed
  next
    case False
    then show thesis using assms that(1) by (auto simp: cleanup_tenant_def cleanup_old_data_def scope_for_def Let_def)
  qed
qed

text \<open>Retention deletes no record it has not archived, up to the two clocks it reads: in a sweep of any tenant a
  record of the journal either stays, or is in an archive file of its tenant, or was created between the cutoff of the
  archive and the later cutoff of the deletion; without a directory for archives, or when the file could not be
  written, every record stays.\<close>

theorem retention_archives:
  assumes "cleanup_tenant tn ddays adays dir disk clk s = s'" and "r \<in> set (jn_rows (sv_journal s))"
  shows "r \<in> set (jn_rows (sv_journal s'))
    \<or> (\<exists>f. (tn, f) \<in> set (sv_files s') \<and> r \<in> set f) \<and> jr_tenant r = tn \<and> dir \<noteq> [] \<and> disk = (True, True)
    \<or> days_before (nat adays) (clk 2) \<le> jr_created r \<and> jr_created r < days_before (nat adays) (clk 3) \<and> dir \<noteq> []"
  using assms(1)
proof (cases rule: cleanup_journal)
  case (2 s1 s2)
  let ?c = "days_before (nat adays) (clk 2)"
  note a = archive_cases [OF 2(5)]
  show ?thesis
  proof (cases "jr_tenant r = tn \<and> jr_created r < ?c")
    case True
    then obtain f where "(tn, f) \<in> set (sv_files s')" "r \<in> set f" using a 2(3,7) assms(2) by auto
    moreover have "disk = (True, True)"
    proof -
      define old where "old = archive_order (filter (\<lambda>r. jr_tenant r = tn \<and> jr_created r < ?c) (jn_rows (sv_journal s1)))"
      have "r \<in> set old" using True assms(2) 2(3) by (simp add: old_def)
      then have "old \<noteq> []" by (metis empty_iff list.set(1))
      then show ?thesis using 2(5) unfolding archive_audit_logs_def Let_def old_def [symmetric]
        by (cases disk) (auto split: if_splits)
    qed
    ultimately show ?thesis using True 2(2) by blast
  next
    case False
    then show ?thesis using a 2 assms(2) by (auto simp: purge_journal_def purge_def)
  qed
qed (use assms(2) in simp)

text \<open>Evidence is destroyed: the archive is cut at one reading of the clock and the deletion at a later one, so a
  record whose term ends while the archive is being written is deleted and is in no file of the sweep.\<close>

theorem retention_loses_records:
  assumes "cleanup_tenant tn ddays adays dir (True, True) clk s = s'" and "0 < adays" and "dir \<noteq> []"
    and "r \<in> set (jn_rows (sv_journal s))" and "jr_tenant r = tn"
    and "days_before (nat adays) (clk 2) \<le> jr_created r" and "jr_created r < days_before (nat adays) (clk 3)"
  shows "r \<notin> set (jn_rows (sv_journal s')) \<and> (\<forall>x \<in> set (sv_files s') - set (sv_files s). r \<notin> set (snd x))"
proof -
  let ?p = "\<lambda>extra days k. purge tn ag_tenant ag_created extra days (clk k)"
  let ?s1 = "s\<lparr>sv_alerts := ?p ag_acked ddays 0 (sv_alerts s), sv_results := ?p (\<lambda>_. True) ddays 1 (sv_results s)\<rparr>"
  let ?c = "days_before (nat adays) (clk 2)"
  obtain s2 where s2: "archive_audit_logs (True, True) tn ?c ?s1 = Inr s2"
    by (cases "archive_audit_logs (True, True) tn ?c ?s1") (auto simp: archive_audit_logs_def Let_def split: if_splits)
  then have "sv_journal s' = purge_journal tn adays (clk 3) (sv_journal s2)" "sv_files s' = sv_files s2"
    using assms(1-3) by (auto simp: cleanup_tenant_def cleanup_old_data_def scope_for_def Let_def)
  moreover have "\<forall>x \<in> set (sv_files s2) - set (sv_files s). \<forall>r \<in> set (snd x). jr_created r < ?c"
    using archive_cases [OF s2] by simp
  ultimately show ?thesis using assms(2,5-7) by (auto simp: purge_journal_def purge_def not_less dest!: bspec)
qed

section \<open>Witnesses\<close>

definition jr_scope :: scope_ctx where "jr_scope = \<lparr>cx_tx = None, cx_tenant = ''t''\<rparr>"

definition jr_event :: "string \<Rightarrow> audit_event" where
  "jr_event a = \<lparr>ev_id = a, ev_user = ''u'', ev_email = ''a@b'', ev_action = a, ev_type = ''device'', ev_target = ''d1'', ev_details = ''null''\<rparr>"

text \<open>Instants rendered as their seconds, and a hash without collisions.\<close>

definition jr_stamp :: "nanos \<Rightarrow> string" where "jr_stamp t = dec_int t"

definition jr_none :: journal where "jr_none = \<lparr>jn_rows = [], jn_anchors = []\<rparr>"

lemma jr_write: "write_audit_log id jr_stamp jr_scope e t j = Inr (j\<lparr>jn_rows := jn_rows j @ [next_row id jr_stamp ''t'' e t (jn_rows j)]\<rparr>)"
  by (simp add: write_audit_log_def jr_scope_def begin_scoped_def)

definition jr_one :: journal where
  "jr_one = jr_none\<lparr>jn_rows := [next_row id jr_stamp ''t'' (jr_event ''x'') 7 []]\<rparr>"

definition jr_two :: journal where
  "jr_two = jr_one\<lparr>jn_rows := jn_rows jr_one @ [next_row id jr_stamp ''t'' (jr_event ''y'') 5 (jn_rows jr_one)]\<rparr>"

lemma jr_two_steps: "(journal_step id jr_stamp)\<^sup>*\<^sup>* jr_none jr_two"
proof -
  have "journal_step id jr_stamp jr_none jr_one"
    by (rule journal_step.written [of _ _ jr_scope "jr_event ''x''" 7]) (simp add: jr_write jr_one_def jr_none_def)
  moreover have "journal_step id jr_stamp jr_one jr_two"
    by (rule journal_step.written [of _ _ jr_scope "jr_event ''y''" 5]) (simp add: jr_write jr_two_def jr_one_def jr_none_def)
  ultimately show ?thesis by (meson rtranclp.rtrancl_refl rtranclp.rtrancl_into_rtrancl)
qed

lemma journal_verifies_witness: "verified id jr_stamp ''t'' jr_two"
  by (rule journal_verifies [OF _ jr_two_steps]) (simp_all add: fresh_journal_def jr_none_def nil_tenant_def)

text \<open>Journals of the tenant alone, by the events and times of their records.\<close>

definition jr_run :: "(string \<times> nanos) list \<Rightarrow> journal" where
  "jr_run es = write_all id jr_stamp ''t'' (map (\<lambda>(a, t). (jr_event a, t)) es) jr_none"

lemma jr_run_verified: "verified id jr_stamp ''t'' (jr_run es)"
  using write_all_chain [of "''t''" id jr_stamp jr_none "map (\<lambda>(a, t). (jr_event a, t)) es"]
  by (simp add: verified_iff jr_run_def jr_none_def chain_rows_def anchor_mismatches_def nil_tenant_def)

lemma jr_run_snoc: "jr_run (es @ [(a, t)]) = (jr_run es)\<lparr>jn_rows := jn_rows (jr_run es) @
    [next_row id jr_stamp ''t'' (jr_event a) t (jn_rows (jr_run es))]\<rparr>"
  by (simp add: jr_run_def write_all_def write_audit_log_def begin_scoped_def)

lemma jr_run_chain:
  "\<exists>r. chain_rows ''t'' (jn_rows (jr_run (es @ [(a, t)]))) = chain_rows ''t'' (jn_rows (jr_run es)) @ [r]
    \<and> jr_num r = int (length es) + 1 \<and> jr_created r = t \<and> jr_action r = a"
proof -
  let ?c = "chain_rows ''t'' (jn_rows (jr_run es))"
  define r where "r = next_row id jr_stamp ''t'' (jr_event a) t (jn_rows (jr_run es))"
  have "linked id jr_stamp ?c \<and> length ?c = length es \<and> (es \<noteq> [] \<longrightarrow> jr_num (?c ! 0) = 1)"
    using write_all_chain [of "''t''" id jr_stamp jr_none "map (\<lambda>(a, t). (jr_event a, t)) es"]
    by (simp add: jr_run_def jr_none_def chain_rows_def)
  then have "jr_num r = int (length es) + 1"
  proof (cases es rule: rev_cases)
    case (snoc us u)
    assume l: "linked id jr_stamp ?c \<and> length ?c = length es \<and> (es \<noteq> [] \<longrightarrow> jr_num (?c ! 0) = 1)"
    then have "?c \<noteq> []" using snoc by auto
    then show ?thesis using next_row_facts(6) [OF r_def] linked_nth [of id jr_stamp ?c "length us"] l snoc
      by (simp add: last_conv_nth)
  qed (use next_row_facts(5) [OF r_def] in simp)
  moreover have "jr_created r = t" "jr_action r = a" by (simp_all add: r_def next_row_def Let_def jr_event_def split: prod.splits)
  ultimately show ?thesis using chain_rows_written [OF r_def] jr_run_snoc [of es a t] by (auto simp: r_def)
qed

lemma sealed_history_witness: "\<exists>r. chain_rows ''t'' (jn_rows (jr_run [(''x'', 5)])) = [r] \<and> row_fields jr_stamp r = row_fields jr_stamp r"
proof -
  obtain r where r: "chain_rows ''t'' (jn_rows (jr_run [(''x'', 5)])) = [r]"
    using jr_run_chain [of "[]" "''x''" 5] by (auto simp: jr_run_def write_all_def jr_none_def chain_rows_def)
  have "row_fields jr_stamp r = row_fields jr_stamp r"
    by (rule sealed_history [OF jr_run_verified [of "[(''x'', 5)]"] jr_run_verified [of "[(''x'', 5)]"], of r r]) (simp_all add: r)
  then show ?thesis using r by blast
qed

lemma cut_tail_unnoticed_witness: "verified id jr_stamp ''t'' (cut_tail ''t'' 1 (jr_run [(''x'', 5), (''y'', 7)]))"
  by (rule cut_tail_unnoticed [OF jr_run_verified, THEN conjunct1])

definition jr_day :: nanos where "jr_day = 24 * hour"

lemma jr_cutoff: "days_before (nat 1) (t + jr_day) = t"
  by (simp add: days_before_def jr_day_def)

lemma jr_run_three:
  obtains a b d where "chain_rows ''t'' (jn_rows (jr_run [(''x'', 20), (''y'', 10), (''z'', 30)])) = [a, b, d]"
    "jr_num a = 1" "jr_num b = 2" "jr_num d = 3" "jr_created a = 20" "jr_created b = 10" "jr_created d = 30"
  using jr_run_chain [of "[]" "''x''" 20] jr_run_chain [of "[(''x'', 20)]" "''y''" 10]
    jr_run_chain [of "[(''x'', 20), (''y'', 10)]" "''z''" 30]
  by (auto simp: jr_run_def [of "[]"] write_all_def [of _ _ _ "[]"] jr_none_def chain_rows_def [of _ "[]"])

lemma retention_makes_gap_witness:
  "\<not> verified id jr_stamp ''t'' (purge_journal ''t'' 1 (15 + jr_day) (jr_run [(''x'', 20), (''y'', 10), (''z'', 30)]))"
proof -
  obtain a b d where c: "chain_rows ''t'' (jn_rows (jr_run [(''x'', 20), (''y'', 10), (''z'', 30)])) = [a, b, d]"
    "jr_num a = 1" "jr_num b = 2" "jr_num d = 3" "jr_created a = 20" "jr_created b = 10" "jr_created d = 30" by (rule jr_run_three)
  show ?thesis
    by (rule retention_makes_gap [OF jr_run_verified, of _ a b d]) (simp_all add: c jr_cutoff [simplified])
qed

text \<open>A journal whose only record, of action \<open>x\<close>, is anchored.\<close>

definition jr_anchored :: journal where
  "jr_anchored = (jr_run [(''x'', 5)])\<lparr>jn_anchors := [(''t'', 1, audit_row_hash id jr_stamp (last (chain_rows ''t'' (jn_rows (jr_run [(''x'', 5)])))))]\<rparr>"

lemma jr_actions_differ: "jr_action r \<noteq> jr_action q \<Longrightarrow> audit_row_hash id jr_stamp r \<noteq> audit_row_hash id jr_stamp q"
  using row_text_binds [of jr_stamp r q] by (auto simp: audit_row_hash_def row_fields_def)

lemma emptied_chain_false_alarm_witness:
  "\<exists>st. verify_audit_chain id jr_stamp \<lparr>cx_tx = None, cx_tenant = []\<rparr> ''t''
     (write_all id jr_stamp ''t'' [(jr_event ''y'', 8)] (purge_journal ''t'' 1 (6 + jr_day) jr_anchored)) = Inr st \<and> \<not> cs_ok st \<and> cs_anchor st"
proof -
  let ?p = "purge_journal ''t'' 1 (6 + jr_day) jr_anchored"
  obtain r where r: "chain_rows ''t'' (jn_rows jr_anchored) = [r]" "jr_created r = 5" "jr_action r = ''x''"
    and an: "jn_anchors jr_anchored = [(''t'', 1, audit_row_hash id jr_stamp r)]"
    using jr_run_chain [of "[]" "''x''" 5] by (auto simp: jr_anchored_def jr_run_def [of "[]"] write_all_def [of _ _ _ "[]"] jr_none_def chain_rows_def [of _ "[]"])
  have e: "chain_rows ''t'' (jn_rows ?p) = []" by (rule purged_chain_empty) (simp_all add: r jr_cutoff [simplified])
  define q where "q = next_row id jr_stamp ''t'' (jr_event ''y'') 8 (jn_rows ?p)"
  have w: "write_all id jr_stamp ''t'' [(jr_event ''y'', 8)] ?p = ?p\<lparr>jn_rows := jn_rows ?p @ [q]\<rparr>"
    by (simp add: write_all_def write_audit_log_def begin_scoped_def q_def)
  have "jr_action q = ''y''" by (simp add: q_def next_row_def Let_def jr_event_def split: prod.splits)
  then have d: "jr_hash q \<noteq> Some (audit_row_hash id jr_stamp r)"
    using next_row_facts(4) [OF q_def] jr_actions_differ [of q r] r(3) by simp
  show ?thesis
    by (rule emptied_chain_false_alarm [of "''t''" 1 jr_anchored "6 + jr_day" 1 "audit_row_hash id jr_stamp r" "[(jr_event ''y'', 8)]"])
      (simp_all add: r an w chain_rows_written [OF q_def] e d jr_cutoff [simplified] nil_tenant_def)
qed

definition jr_sweep :: sweep_state where
  "jr_sweep = \<lparr>sv_journal = jr_run [(''x'', 5)], sv_alerts = [], sv_results = [], sv_changes = [], sv_inputs = [], sv_files = []\<rparr>"

definition jr_clock :: "nat \<Rightarrow> nanos" where
  "jr_clock k = (if k < 3 then 5 + jr_day else 6 + jr_day)"

lemma jr_sweep_row:
  obtains r where "r \<in> set (jn_rows (sv_journal jr_sweep))" "jr_tenant r = ''t''" "jr_created r = 5"
proof -
  obtain r where "chain_rows ''t'' (jn_rows (jr_run [(''x'', 5)])) = [r]" "jr_created r = 5"
    using jr_run_chain [of "[]" "''x''" 5] by (auto simp: jr_run_def [of "[]"] write_all_def [of _ _ _ "[]"] jr_none_def chain_rows_def [of _ "[]"])
  moreover from this(1) have "r \<in> set (chain_rows ''t'' (jn_rows (jr_run [(''x'', 5)])))" by simp
  then have "r \<in> set (jn_rows (jr_run [(''x'', 5)])) \<and> jr_tenant r = ''t''" unfolding set_chain_rows by simp
  ultimately show thesis using that [of r] by (simp add: jr_sweep_def)
qed

lemma jr_cutoffs: "days_before (nat 1) (jr_clock 2) = 5" "days_before (nat 1) (jr_clock 3) = 6"
  using jr_cutoff [of 5] jr_cutoff [of 6] by (simp_all add: jr_clock_def)

lemma retention_loses_records_witness:
  "\<exists>r \<in> set (jn_rows (sv_journal jr_sweep)). r \<notin> set (jn_rows (sv_journal (cleanup_tenant ''t'' 0 1 ''/a'' (True, True) jr_clock jr_sweep)))"
proof -
  obtain r where r: "r \<in> set (jn_rows (sv_journal jr_sweep))" "jr_tenant r = ''t''" "jr_created r = 5" by (rule jr_sweep_row)
  then have "r \<notin> set (jn_rows (sv_journal (cleanup_tenant ''t'' 0 1 ''/a'' (True, True) jr_clock jr_sweep)))"
    by (rule_tac retention_loses_records [OF refl, THEN conjunct1]) (simp_all add: jr_cutoffs [simplified])
  then show ?thesis using r(1) by blast
qed

lemma retention_archives_witness:
  "\<exists>r. r \<in> set (jn_rows (sv_journal (cleanup_tenant ''t'' 0 1 [] (True, True) jr_clock jr_sweep)))"
proof -
  obtain r where r: "r \<in> set (jn_rows (sv_journal jr_sweep))" by (rule jr_sweep_row)
  then show ?thesis using retention_archives [OF refl r, of "''t''" 0 1 "[]" "(True, True)" jr_clock] by auto
qed

end
