(* ===== verification/Enrollment.thy ===== *)
theory Enrollment
  imports ServerStore
begin

section \<open>Enrolment and the life of a device\<close>

text \<open>
  \<open>internal/server/storage/enrollment.go\<close>, the operations of \<open>storage/postgres.go\<close> that
  change the status of a device (heartbeat, block, decommission, delete), their handlers in
  \<open>api/handler.go\<close>, and the admission of agents in \<open>gateway.go\<close>.

  A device is a row of \<open>ServerStore\<close> extended by the columns that only these operations write;
  an empty fingerprint stands for NULL, as does an empty device or group of a token.
  \<open>sha\<close> is the hash of enrolment tokens and \<open>sign\<close> the certificate authority: for a request and a
  common name it gives the serial and the fingerprint of the certificate, or refuses the request.
  An operation gives its result and the tables as its transaction leaves them: where the source
  returns an error of its own after a statement has succeeded, what is committed depends on who
  opened the transaction, and that is written out.
\<close>

subsection \<open>Rows\<close>

record enroll_row = device_row +
  er_hostname :: string
  er_serial :: "string option"
  er_enrolled :: "nanos option"
  er_ip :: string
  er_public :: string
  er_seen :: "nanos option"
  er_down :: bool
  er_detail :: string
  er_since :: "nanos option"

record token_row =
  et_id :: string
  et_tenant :: string
  et_device :: string
  et_group :: string
  et_hash :: string
  et_max :: "int option"
  et_uses :: int
  et_approval :: bool
  et_expires :: nanos
  et_used :: "nanos option"
  et_created :: nanos

record enroll_db =
  en_devices :: "enroll_row list"
  en_tokens :: "token_row list"
  en_members :: "member_row list"
  en_revoked :: "(string \<times> string) list"

datatype enroll_error = EnStore store_error | EnTokenUsed | EnNotEnrollable | EnNotReenrollable | EnHasEscrow

type_synonym 'a enrolled = "(enroll_error + 'a) \<times> enroll_db"

definition not_enrollable_statuses :: "string list" where
  "not_enrollable_statuses = [''pending_approval'', ''rejected'', ''decommissioned'', ''blocked'']"

definition blank_device :: "string \<Rightarrow> string \<Rightarrow> string \<Rightarrow> string \<Rightarrow> string \<Rightarrow> enroll_row" where
  "blank_device i tn host os st = \<lparr>dv_id = i, dv_tenant = tn, dv_cn = [], dv_fp = [], dv_os = os, dv_status = st,
     dv_version = [], dv_lock_status = ''unlocked'', dv_lock_hash = [], dv_lock_reason = [], dv_lock_mode = [],
     dv_lock_request = [], dv_lock_actual = [], er_hostname = host, er_serial = None, er_enrolled = None, er_ip = [],
     er_public = [], er_seen = None, er_down = False, er_detail = [], er_since = None\<rparr>"

definition blank_token :: "string \<Rightarrow> string \<Rightarrow> string \<Rightarrow> nanos \<Rightarrow> nanos \<Rightarrow> token_row" where
  "blank_token i tn h expires now = \<lparr>et_id = i, et_tenant = tn, et_device = [], et_group = [], et_hash = h, et_max = None,
     et_uses = 0, et_approval = True, et_expires = expires, et_used = None, et_created = now\<rparr>"

definition update_devices :: "(enroll_row \<Rightarrow> bool) \<Rightarrow> (enroll_row \<Rightarrow> enroll_row) \<Rightarrow> enroll_db \<Rightarrow> enroll_db" where
  "update_devices P f db = db\<lparr>en_devices := update_where P f (en_devices db)\<rparr>"

definition update_tokens :: "(token_row \<Rightarrow> bool) \<Rightarrow> (token_row \<Rightarrow> token_row) \<Rightarrow> enroll_db \<Rightarrow> enroll_db" where
  "update_tokens P f db = db\<lparr>en_tokens := update_where P f (en_tokens db)\<rparr>"

subsection \<open>Issuing tokens\<close>

definition create_pending_device :: "scope_ctx \<Rightarrow> string \<Rightarrow> string \<Rightarrow> string \<Rightarrow> string \<Rightarrow> enroll_db \<Rightarrow> unit enrolled" where
  "create_pending_device cx t i host os db = (case arg_scope cx t of Inl e \<Rightarrow> (Inl (EnStore e), db)
     | Inr (t', b) \<Rightarrow> if t' \<noteq> b then (Inl (EnStore RlsViolation), db)
        else (Inr (), db\<lparr>en_devices := en_devices db @ [blank_device i t' host os ''pending'']\<rparr>))"

text \<open>No row is inserted for a device of another tenant, and no error is given.\<close>

definition create_enrollment_token :: "(string \<Rightarrow> string) \<Rightarrow> scope_ctx \<Rightarrow> string \<Rightarrow> string \<Rightarrow> string \<Rightarrow> string \<Rightarrow> nanos \<Rightarrow> nanos
    \<Rightarrow> enroll_db \<Rightarrow> unit enrolled" where
  "create_enrollment_token sha cx t dev token i expires now db = (case arg_scope cx t of Inl e \<Rightarrow> (Inl (EnStore e), db)
     | Inr (t', b) \<Rightarrow>
        if \<not> list_ex (\<lambda>d. dv_tenant d = b \<and> dv_tenant d = t' \<and> dv_id d = dev) (en_devices db) then (Inr (), db)
        else (Inr (), db\<lparr>en_tokens := en_tokens db @ [(blank_token i t' (sha token) expires now)\<lparr>et_device := dev\<rparr>]\<rparr>))"

definition get_enrollment_token :: "(string \<Rightarrow> string) \<Rightarrow> string \<Rightarrow> enroll_db \<Rightarrow> token_row option" where
  "get_enrollment_token sha token db = find (\<lambda>t. et_hash t = sha token) (en_tokens db)"

definition create_bulk_token :: "(string \<Rightarrow> string) \<Rightarrow> scope_ctx \<Rightarrow> string \<Rightarrow> string \<Rightarrow> string \<Rightarrow> int option \<Rightarrow> bool \<Rightarrow> string
    \<Rightarrow> nanos \<Rightarrow> nanos \<Rightarrow> enroll_db \<Rightarrow> unit enrolled" where
  "create_bulk_token sha cx t token grp mx appr i expires now db = (case arg_scope cx t of Inl e \<Rightarrow> (Inl (EnStore e), db)
     | Inr (t', b) \<Rightarrow> if t' \<noteq> b then (Inl (EnStore RlsViolation), db)
        else if (case mx of None \<Rightarrow> False | Some m \<Rightarrow> m < - (2 ^ 31) \<or> 2 ^ 31 \<le> m) then (Inl (EnStore StatementFailed), db)
        else (Inr (), db\<lparr>en_tokens := en_tokens db @
          [(blank_token i t' (sha token) expires now)\<lparr>et_group := grp, et_max := mx, et_approval := appr\<rparr>]\<rparr>))"

definition revoke_enrollment_token :: "scope_ctx \<Rightarrow> string \<Rightarrow> string \<Rightarrow> nanos \<Rightarrow> enroll_db \<Rightarrow> bool enrolled" where
  "revoke_enrollment_token cx t i now db = (case arg_scope cx t of Inl e \<Rightarrow> (Inl (EnStore e), db)
     | Inr (t', b) \<Rightarrow>
        (let live = (\<lambda>k. et_tenant k = b \<and> et_tenant k = t' \<and> et_id k = i \<and> now < et_expires k)
         in (Inr (list_ex live (en_tokens db)), update_tokens live (\<lambda>k. k\<lparr>et_expires := now\<rparr>) db)))"

definition get_active_token :: "scope_ctx \<Rightarrow> string \<Rightarrow> string \<Rightarrow> nanos \<Rightarrow> enroll_db \<Rightarrow> store_error + token_row option" where
  "get_active_token cx t dev now db = (case bind_tenant cx t of Inl e \<Rightarrow> Inl e
     | Inr b \<Rightarrow>
        (let ts = sort_key (\<lambda>k. - et_created k)
                    (filter (\<lambda>k. et_tenant k = b \<and> et_device k = dev \<and> et_used k = None \<and> now < et_expires k) (en_tokens db))
         in Inr (if ts = [] then None else Some (hd ts))))"

subsection \<open>Redeeming tokens\<close>

definition begin_bulk_enroll :: "scope_ctx \<Rightarrow> string \<Rightarrow> string \<Rightarrow> string \<Rightarrow> string \<Rightarrow> string \<Rightarrow> nanos \<Rightarrow> enroll_db \<Rightarrow> (string \<times> bool) enrolled" where
  "begin_bulk_enroll cx t tok i host os now db = (case arg_scope cx t of Inl e \<Rightarrow> (Inl (EnStore e), db)
     | Inr (t', b) \<Rightarrow>
        (let host' = (if host = [] then ''unknown'' else host);
             os' = (if os = [] then ''unknown'' else os);
             usable = (\<lambda>k. et_tenant k = b \<and> et_tenant k = t' \<and> et_id k = tok \<and> et_device k = [] \<and>
                         (case et_max k of None \<Rightarrow> True | Some m \<Rightarrow> et_uses k < m) \<and> now < et_expires k)
         in case find usable (en_tokens db) of
              None \<Rightarrow> (Inl EnTokenUsed, db)
            | Some k \<Rightarrow>
                (let db1 = update_tokens usable (\<lambda>k. k\<lparr>et_uses := et_uses k + 1\<rparr>) db;
                     db2 = db1\<lparr>en_devices := en_devices db1 @ [blank_device i t' host' os' ''pending'']\<rparr>;
                     db3 = (if et_group k = [] then db2
                            else db2\<lparr>en_members := en_members db2 @ [\<lparr>gm_group = et_group k, gm_device = i, gm_tenant = t'\<rparr>]\<rparr>)
                 in (Inr (i, et_approval k), db3))))"

text \<open>A fingerprint that another device has breaks the unique index, and nothing changes.\<close>

definition fp_taken :: "string \<Rightarrow> string \<Rightarrow> enroll_db \<Rightarrow> bool" where
  "fp_taken fp i db \<longleftrightarrow> fp \<noteq> [] \<and> list_ex (\<lambda>d. dv_fp d = fp \<and> dv_id d \<noteq> i) (en_devices db)"

definition finalize_bulk_enroll :: "scope_ctx \<Rightarrow> string \<Rightarrow> string \<Rightarrow> string \<Rightarrow> string \<Rightarrow> bool \<Rightarrow> nanos \<Rightarrow> enroll_db \<Rightarrow> unit enrolled" where
  "finalize_bulk_enroll cx t i serial fp appr now db = (case arg_scope cx t of Inl e \<Rightarrow> (Inl (EnStore e), db)
     | Inr (t', b) \<Rightarrow>
        (let mine = (\<lambda>d. dv_tenant d = b \<and> dv_tenant d = t' \<and> dv_id d = i)
         in if fp_taken fp i db \<and> list_ex mine (en_devices db) then (Inl (EnStore StatementFailed), db)
            else (Inr (), update_devices mine (\<lambda>d. d\<lparr>dv_status := (if appr then ''pending_approval'' else ''enrolled''),
                     dv_fp := (if fp = [] then dv_fp d else fp), er_serial := Some serial, er_enrolled := Some now\<rparr>) db)))"

definition enroll_device :: "scope_ctx \<Rightarrow> string \<Rightarrow> string \<Rightarrow> string \<Rightarrow> string \<Rightarrow> nanos \<Rightarrow> enroll_db \<Rightarrow> unit enrolled" where
  "enroll_device cx tok dev serial fp now db = (case begin_scoped cx of Inl e \<Rightarrow> (Inl (EnStore e), db)
     | Inr tn \<Rightarrow>
        (let unused = (\<lambda>k. et_tenant k = tn \<and> et_id k = tok \<and> et_used k = None);
             mine = (\<lambda>d. dv_tenant d = tn \<and> dv_id d = dev \<and> dv_status d \<notin> set not_enrollable_statuses);
             db1 = update_tokens unused (\<lambda>k. k\<lparr>et_used := Some now\<rparr>) db
         in if \<not> list_ex unused (en_tokens db) then (Inl EnTokenUsed, db)
            else if \<not> list_ex mine (en_devices db1) then (Inl EnNotEnrollable, if cx_tx cx = None then db else db1)
            else if fp_taken fp dev db1 then (Inl (EnStore StatementFailed), db)
            else (Inr (), update_devices mine (\<lambda>d. d\<lparr>dv_status := ''enrolled'', dv_fp := (if fp = [] then dv_fp d else fp),
                     er_serial := Some serial, er_enrolled := Some now\<rparr>) db1)))"

definition update_pending_info :: "scope_ctx \<Rightarrow> string \<Rightarrow> string \<Rightarrow> string \<Rightarrow> enroll_db \<Rightarrow> unit enrolled" where
  "update_pending_info cx dev host os db = (case scope_for cx [] of Inl e \<Rightarrow> (Inl (EnStore e), db)
     | Inr tn \<Rightarrow> (Inr (), update_devices (\<lambda>d. dv_tenant d = tn \<and> dv_id d = dev \<and> dv_status d = ''pending'')
          (\<lambda>d. d\<lparr>er_hostname := (if host \<noteq> [] then host else er_hostname d), dv_os := (if os \<noteq> [] then os else dv_os d)\<rparr>) db))"

text \<open>\<open>ResetDeviceForReenroll\<close>: its own scope is committed on every return, and the new token takes the default tenant.\<close>

definition reset_for_reenroll :: "(string \<Rightarrow> string) \<Rightarrow> scope_ctx \<Rightarrow> string \<Rightarrow> string \<Rightarrow> string \<Rightarrow> string \<Rightarrow> nanos \<Rightarrow> nanos \<Rightarrow> enroll_db
    \<Rightarrow> unit enrolled" where
  "reset_for_reenroll sha cx t dev token i expires now db = (case bind_tenant cx t of Inl e \<Rightarrow> (Inl (EnStore e), db)
     | Inr tn \<Rightarrow>
        (let db1 = update_tokens (\<lambda>k. et_tenant k = tn \<and> et_device k = dev \<and> et_used k = None) (\<lambda>k. k\<lparr>et_used := Some now\<rparr>) db;
             mine = (\<lambda>d. dv_tenant d = tn \<and> dv_id d = dev \<and> dv_status d \<notin> set not_enrollable_statuses);
             db2 = update_devices mine (\<lambda>d. d\<lparr>dv_status := ''pending'', er_serial := None, er_enrolled := None\<rparr>) db1
         in if \<not> list_ex mine (en_devices db1) then (Inl EnNotReenrollable, db1)
            else if tn \<noteq> default_tenant then (Inl (EnStore RlsViolation), db)
            else (Inr (), db2\<lparr>en_tokens := en_tokens db2 @ [(blank_token i default_tenant (sha token) expires now)\<lparr>et_device := dev\<rparr>]\<rparr>)))"

subsection \<open>Decisions of the operator\<close>

definition decide_device :: "string \<Rightarrow> scope_ctx \<Rightarrow> string \<Rightarrow> string \<Rightarrow> enroll_db \<Rightarrow> bool enrolled" where
  "decide_device st cx t dev db = (case arg_scope cx t of Inl e \<Rightarrow> (Inl (EnStore e), db)
     | Inr (t', b) \<Rightarrow>
        (let queued = (\<lambda>d. dv_tenant d = b \<and> dv_tenant d = t' \<and> dv_id d = dev \<and> dv_status d = ''pending_approval'')
         in (Inr (list_ex queued (en_devices db)), update_devices queued (\<lambda>d. d\<lparr>dv_status := st\<rparr>) db)))"

definition approve_device :: "scope_ctx \<Rightarrow> string \<Rightarrow> string \<Rightarrow> enroll_db \<Rightarrow> bool enrolled" where
  "approve_device = decide_device ''active''"

definition reject_device :: "scope_ctx \<Rightarrow> string \<Rightarrow> string \<Rightarrow> enroll_db \<Rightarrow> bool enrolled" where
  "reject_device = decide_device ''rejected''"

definition decide_pending :: "string \<Rightarrow> scope_ctx \<Rightarrow> string \<Rightarrow> string \<Rightarrow> enroll_db \<Rightarrow> nat enrolled" where
  "decide_pending st cx t grp db = (case arg_scope cx t of Inl e \<Rightarrow> (Inl (EnStore e), db)
     | Inr (t', b) \<Rightarrow>
        (let queued = (\<lambda>d. dv_tenant d = b \<and> dv_tenant d = t' \<and> dv_status d = ''pending_approval'' \<and>
               (grp = [] \<or> list_ex (\<lambda>m. gm_tenant m = b \<and> gm_tenant m = t' \<and> gm_group m = grp \<and> gm_device m = dv_id d) (en_members db)))
         in (Inr (length (filter queued (en_devices db))), update_devices queued (\<lambda>d. d\<lparr>dv_status := st\<rparr>) db)))"

definition approve_pending_devices :: "scope_ctx \<Rightarrow> string \<Rightarrow> string \<Rightarrow> enroll_db \<Rightarrow> nat enrolled" where
  "approve_pending_devices = decide_pending ''active''"

definition reject_pending_devices :: "scope_ctx \<Rightarrow> string \<Rightarrow> string \<Rightarrow> enroll_db \<Rightarrow> nat enrolled" where
  "reject_pending_devices = decide_pending ''rejected''"

definition get_status_by_id :: "scope_ctx \<Rightarrow> string \<Rightarrow> string \<Rightarrow> enroll_db \<Rightarrow> store_error + string" where
  "get_status_by_id cx t dev db = (case arg_scope cx t of Inl e \<Rightarrow> Inl e
     | Inr (t', b) \<Rightarrow> Inr (case find (\<lambda>d. dv_tenant d = b \<and> dv_tenant d = t' \<and> dv_id d = dev) (en_devices db) of
          None \<Rightarrow> [] | Some d \<Rightarrow> dv_status d))"

definition update_device_status :: "scope_ctx \<Rightarrow> string \<Rightarrow> string \<Rightarrow> string \<Rightarrow> enroll_db \<Rightarrow> unit enrolled" where
  "update_device_status cx t dev st db = (case arg_scope cx t of Inl e \<Rightarrow> (Inl (EnStore e), db)
     | Inr (t', b) \<Rightarrow> (Inr (), update_devices (\<lambda>d. dv_tenant d = b \<and> dv_tenant d = t' \<and> dv_id d = dev) (\<lambda>d. d\<lparr>dv_status := st\<rparr>) db))"

text \<open>The handler of block and unblock, in the two transactions it makes: the look at the status, which refuses with a status code,
  and the update, which does not look again.\<close>

definition status_refusal :: "scope_ctx \<Rightarrow> string \<Rightarrow> string \<Rightarrow> string \<Rightarrow> enroll_db \<Rightarrow> nat option" where
  "status_refusal cx t dev st db =
     (if st \<noteq> ''active'' \<and> st \<noteq> ''blocked'' then Some 400
      else (case get_status_by_id cx t dev db of Inl _ \<Rightarrow> Some 500
        | Inr cur \<Rightarrow>
            if cur = [] then Some 404
            else if cur \<in> set [''pending_approval'', ''rejected'', ''decommissioned''] then Some 409 else None))"

definition write_device_status :: "scope_ctx \<Rightarrow> string \<Rightarrow> string \<Rightarrow> string \<Rightarrow> enroll_db \<Rightarrow> nat \<times> enroll_db" where
  "write_device_status cx t dev st db = (case update_device_status cx t dev st db of (Inl _, db') \<Rightarrow> (500, db') | (Inr _, db') \<Rightarrow> (200, db'))"

definition put_device_status :: "scope_ctx \<Rightarrow> string \<Rightarrow> string \<Rightarrow> string \<Rightarrow> enroll_db \<Rightarrow> nat \<times> enroll_db" where
  "put_device_status cx t dev st db = (case status_refusal cx t dev st db of Some c \<Rightarrow> (c, db) | None \<Rightarrow> write_device_status cx t dev st db)"

lemmas put_status_defs = put_device_status_def status_refusal_def write_device_status_def

definition mark_decommissioned :: "scope_ctx \<Rightarrow> string \<Rightarrow> enroll_db \<Rightarrow> unit enrolled" where
  "mark_decommissioned cx dev db = (case scope_for cx [] of Inl e \<Rightarrow> (Inl (EnStore e), db)
     | Inr tn \<Rightarrow> (Inr (), update_devices (\<lambda>d. dv_tenant d = tn \<and> dv_id d = dev) (\<lambda>d. d\<lparr>dv_status := ''decommissioned''\<rparr>) db))"

text \<open>
  The rows that refer to a deleted device go with it, as far as these tables hold them.
  \<open>escrow\<close> tells whether the device has escrowed keys, which keep the row.
\<close>

definition delete_device :: "scope_ctx \<Rightarrow> string \<Rightarrow> string \<Rightarrow> bool \<Rightarrow> enroll_db \<Rightarrow> bool enrolled" where
  "delete_device cx t dev escrow db = (case arg_scope cx t of Inl e \<Rightarrow> (Inl (EnStore e), db)
     | Inr (t', b) \<Rightarrow>
        (let mine = (\<lambda>d. dv_tenant d = b \<and> dv_tenant d = t' \<and> dv_id d = dev)
         in case find mine (en_devices db) of None \<Rightarrow> (Inr False, db)
            | Some d \<Rightarrow>
                if escrow then (Inl EnHasEscrow, db)
                else (Inr True, db\<lparr>en_devices := filter (\<lambda>d. \<not> mine d) (en_devices db),
                        en_tokens := filter (\<lambda>k. et_device k \<noteq> dev) (en_tokens db),
                        en_members := filter (\<lambda>m. gm_device m \<noteq> dev) (en_members db),
                        en_revoked := (if dv_fp d = [] \<or> dv_fp d \<in> fst ` set (en_revoked db) then en_revoked db
                                       else en_revoked db @ [(dv_fp d, dev)])\<rparr>)))"

definition is_fingerprint_revoked :: "string \<Rightarrow> enroll_db \<Rightarrow> bool" where
  "is_fingerprint_revoked fp db \<longleftrightarrow> list_ex (\<lambda>(f, _). f = fp) (en_revoked db)"

subsection \<open>Agents\<close>

definition enroll_by_fp :: "enroll_db \<Rightarrow> string \<Rightarrow> enroll_row option" where
  "enroll_by_fp db fp = find (\<lambda>d. dv_fp d = fp) (en_devices db)"

definition status_by_fp :: "enroll_db \<Rightarrow> string \<Rightarrow> string" where
  "status_by_fp db fp = (case enroll_by_fp db fp of None \<Rightarrow> [] | Some d \<Rightarrow> dv_status d)"

record heartbeat =
  hb_fp :: string
  hb_cn :: string
  hb_ip :: string
  hb_public :: string
  hb_down :: bool
  hb_detail :: string

definition touch_device :: "heartbeat \<Rightarrow> nanos \<Rightarrow> enroll_row \<Rightarrow> enroll_row" where
  "touch_device h now d = d\<lparr>er_ip := (if hb_ip h = [] then er_ip d else hb_ip h),
     er_public := (if hb_public h = [] then er_public d else hb_public h), er_seen := Some now, dv_cn := hb_cn h,
     dv_status := (if dv_status d \<in> set [''enrolled'', ''pending''] then ''active'' else dv_status d),
     er_down := hb_down h, er_detail := (if hb_down h then hb_detail h else []),
     er_since := (if hb_down h then (case er_since d of None \<Rightarrow> Some now | Some t \<Rightarrow> Some t) else None)\<rparr>"

definition new_device :: "heartbeat \<Rightarrow> string \<Rightarrow> string \<Rightarrow> nanos \<Rightarrow> enroll_row" where
  "new_device h i tn now = (blank_device i tn (hb_cn h) ''unknown'' ''active'')\<lparr>dv_fp := hb_fp h, dv_cn := hb_cn h,
     er_ip := hb_ip h, er_public := hb_public h, er_seen := Some now, er_down := hb_down h,
     er_detail := (if hb_down h then hb_detail h else []), er_since := (if hb_down h then Some now else None)\<rparr>"

text \<open>The scope is that of the device of the certificate, else the default tenant.\<close>

definition heartbeat_scope :: "scope_ctx \<Rightarrow> string \<Rightarrow> enroll_db \<Rightarrow> store_error + (string \<times> string)" where
  "heartbeat_scope cx fp db = (case cx_tx cx of
       Some b \<Rightarrow> Inr (b, if cx_tenant cx = [] then default_tenant else cx_tenant cx)
     | None \<Rightarrow>
        (let t = (case enroll_by_fp db fp of None \<Rightarrow> default_tenant
                  | Some d \<Rightarrow> if dv_tenant d = [] then default_tenant else dv_tenant d)
         in case bind_tenant cx t of Inl e \<Rightarrow> Inl e | Inr b \<Rightarrow> Inr (b, b)))"

definition upsert_heartbeat :: "scope_ctx \<Rightarrow> heartbeat \<Rightarrow> string \<Rightarrow> nanos \<Rightarrow> enroll_db \<Rightarrow> unit enrolled" where
  "upsert_heartbeat cx h i now db = (case heartbeat_scope cx (hb_fp h) db of Inl e \<Rightarrow> (Inl (EnStore e), db)
     | Inr (b, tn) \<Rightarrow> (case enroll_by_fp db (hb_fp h) of
          None \<Rightarrow> if tn \<noteq> b then (Inl (EnStore RlsViolation), db)
                  else (Inr (), db\<lparr>en_devices := en_devices db @ [new_device h i tn now]\<rparr>)
        | Some d \<Rightarrow> if dv_tenant d \<noteq> b then (Inl (EnStore RlsViolation), db)
                  else (Inr (), update_devices (\<lambda>e. dv_fp e = hb_fp h) (touch_device h now) db)))"

definition is_cut_off :: "string \<Rightarrow> bool" where
  "is_cut_off st \<longleftrightarrow> st \<in> set [''blocked'', ''decommissioned'', ''rejected'']"

datatype admission = Admitted | DeniedCutOff | DeniedDeleted

text \<open>The interceptors of every call, and the admission of \<open>Connect\<close>.\<close>

definition rpc_guard :: "string \<Rightarrow> enroll_db \<Rightarrow> admission" where
  "rpc_guard fp db = (if is_cut_off (status_by_fp db fp) then DeniedCutOff else Admitted)"

definition connect_guard :: "string \<Rightarrow> enroll_db \<Rightarrow> admission" where
  "connect_guard fp db =
     (if is_cut_off (status_by_fp db fp) then DeniedCutOff
      else if status_by_fp db fp = [] \<and> is_fingerprint_revoked fp db then DeniedDeleted else Admitted)"

text \<open>One frame of an open stream: the heartbeat, then the status; the result tells whether the stream goes on.\<close>

definition stream_frame :: "string \<Rightarrow> heartbeat \<Rightarrow> string \<Rightarrow> nanos \<Rightarrow> enroll_db \<Rightarrow> bool \<times> enroll_db" where
  "stream_frame tenant h i now db =
     (let db' = snd (upsert_heartbeat \<lparr>cx_tx = None, cx_tenant = tenant\<rparr> h i now db)
      in (\<not> is_cut_off (status_by_fp db' (hb_fp h)), db'))"

definition pending_approval :: "string \<Rightarrow> enroll_db \<Rightarrow> bool" where
  "pending_approval fp db \<longleftrightarrow> status_by_fp db fp = ''pending_approval''"

subsection \<open>The enrolment call\<close>

text \<open>The bulk branch takes the fresh identifier and two instants: each storage call is a transaction of its own.\<close>

definition enroll_bulk :: "(string \<Rightarrow> string \<Rightarrow> (string \<times> string) option) \<Rightarrow> token_row \<Rightarrow> string \<Rightarrow> string \<Rightarrow> string \<Rightarrow> string
    \<Rightarrow> nanos \<Rightarrow> nanos \<Rightarrow> enroll_db \<Rightarrow> nat \<times> enroll_db" where
  "enroll_bulk sign tok csr host os i now now' db =
     (let cx = \<lparr>cx_tx = None, cx_tenant = []\<rparr>
      in case begin_bulk_enroll cx (et_tenant tok) (et_id tok) i host os now db of
           (Inl EnTokenUsed, db1) \<Rightarrow> (401, db1)
         | (Inl _, db1) \<Rightarrow> (500, db1)
         | (Inr (dev, appr), db1) \<Rightarrow>
             (case sign csr dev of None \<Rightarrow> (400, db1)
              | Some (serial, fp) \<Rightarrow>
                 (case finalize_bulk_enroll cx (et_tenant tok) dev serial fp appr now' db1 of
                    (Inl _, db2) \<Rightarrow> (500, db2) | (Inr _, db2) \<Rightarrow> (200, db2))))"

text \<open>The rest of the call, for a token that is bound to a device; its error answers are those of the handler.\<close>

definition pending_info :: "token_row \<Rightarrow> string \<Rightarrow> string \<Rightarrow> enroll_db \<Rightarrow> enroll_db" where
  "pending_info tok host os db =
     (if host \<noteq> [] \<or> os \<noteq> []
      then snd (update_pending_info \<lparr>cx_tx = None, cx_tenant = et_tenant tok\<rparr> (et_device tok) host os db) else db)"

definition enroll_single :: "(string \<Rightarrow> string \<Rightarrow> (string \<times> string) option) \<Rightarrow> token_row \<Rightarrow> string \<Rightarrow> string \<Rightarrow> string
    \<Rightarrow> nanos \<Rightarrow> enroll_db \<Rightarrow> nat \<times> enroll_db" where
  "enroll_single sign tok csr host os now db =
     (let db1 = pending_info tok host os db
      in case sign csr (et_device tok) of None \<Rightarrow> (400, db1)
         | Some (serial, fp) \<Rightarrow>
            (case enroll_device \<lparr>cx_tx = None, cx_tenant = et_tenant tok\<rparr> (et_id tok) (et_device tok) serial fp now db1 of
               (Inl EnNotEnrollable, db2) \<Rightarrow> (403, db2)
             | (Inl _, db2) \<Rightarrow> (500, db2)
             | (Inr _, db2) \<Rightarrow> (200, db2)))"

definition enroll :: "(string \<Rightarrow> string) \<Rightarrow> (string \<Rightarrow> string \<Rightarrow> (string \<times> string) option) option \<Rightarrow> string \<Rightarrow> string \<Rightarrow> string
    \<Rightarrow> string \<Rightarrow> string \<Rightarrow> nanos \<Rightarrow> nanos \<Rightarrow> enroll_db \<Rightarrow> nat \<times> enroll_db" where
  "enroll sha ca token csr host os i now now' db = (case ca of None \<Rightarrow> (503, db)
     | Some sign \<Rightarrow>
        if token = [] \<or> csr = [] then (400, db)
        else (case get_enrollment_token sha token db of None \<Rightarrow> (401, db)
          | Some tok \<Rightarrow>
              if et_expires tok < now then (401, db)
              else if et_device tok = [] then enroll_bulk sign tok csr host os i now now' db
              else if et_used tok \<noteq> None then (401, db)
              else enroll_single sign tok csr host os now' db))"

text \<open>The handlers that issue tokens.  An absent approval flag means that approval is required.\<close>

definition create_pending_device_call :: "(string \<Rightarrow> string) \<Rightarrow> string \<Rightarrow> string \<Rightarrow> string \<Rightarrow> string \<Rightarrow> string \<Rightarrow> string \<Rightarrow> nanos \<Rightarrow> enroll_db
    \<Rightarrow> nat \<times> enroll_db" where
  "create_pending_device_call sha t i host os token k now db =
     (let cx = \<lparr>cx_tx = None, cx_tenant = t\<rparr>
      in if host = [] then (400, db)
         else (case create_pending_device cx t i host (if os = [] then ''unknown'' else os) db of
             (Inl _, db1) \<Rightarrow> (500, db1)
           | (Inr _, db1) \<Rightarrow>
               (case create_enrollment_token sha cx t i token k (now + 24 * hour) now db1 of
                  (Inl _, db2) \<Rightarrow> (500, db2) | (Inr _, db2) \<Rightarrow> (201, db2))))"

definition issue_bulk_token_call :: "(string \<Rightarrow> string) \<Rightarrow> string \<Rightarrow> string \<Rightarrow> int option \<Rightarrow> bool option \<Rightarrow> int \<Rightarrow> string \<Rightarrow> string \<Rightarrow> nanos
    \<Rightarrow> enroll_db \<Rightarrow> nat \<times> enroll_db" where
  "issue_bulk_token_call sha t grp mx appr ttl token k now db =
     (let cx = \<lparr>cx_tx = None, cx_tenant = t\<rparr>;
          approval = (case appr of None \<Rightarrow> True | Some b \<Rightarrow> b);
          life = sint (word_of_int ((if 0 < ttl then ttl else 168) * hour) :: 64 word)
      in if (case mx of None \<Rightarrow> False | Some m \<Rightarrow> m \<le> 0) then (400, db)
         else (case create_bulk_token sha cx t token grp mx approval k (now + life) now db of
             (Inl _, db1) \<Rightarrow> (500, db1) | (Inr _, db1) \<Rightarrow> (201, db1)))"

definition reenroll_call :: "(string \<Rightarrow> string) \<Rightarrow> string \<Rightarrow> string \<Rightarrow> string \<Rightarrow> string \<Rightarrow> nanos \<Rightarrow> enroll_db \<Rightarrow> nat \<times> enroll_db" where
  "reenroll_call sha t dev token k now db =
     (case reset_for_reenroll sha \<lparr>cx_tx = None, cx_tenant = t\<rparr> t dev token k (now + 24 * hour) now db of
        (Inl EnNotReenrollable, db') \<Rightarrow> (409, db') | (Inl _, db') \<Rightarrow> (500, db') | (Inr _, db') \<Rightarrow> (200, db'))"

section \<open>Histories\<close>

text \<open>
  One call on these tables, with who asks for it.  The identifiers of new rows are fresh, and the
  fingerprint of an agent is a SHA-256 and never empty.
\<close>

datatype enroll_actor = ByAgent | ByOperator | ByDecision | ByDecommission | ByDelete

definition fresh_id :: "string \<Rightarrow> enroll_db \<Rightarrow> bool" where
  "fresh_id i db \<longleftrightarrow> i \<notin> dv_id ` set (en_devices db)"

inductive enroll_step :: "(string \<Rightarrow> string) \<Rightarrow> enroll_actor \<Rightarrow> enroll_db \<Rightarrow> enroll_db \<Rightarrow> bool"
  for sha where
  es_enroll: "fresh_id i db \<Longrightarrow> enroll_step sha ByAgent db (snd (enroll sha ca token csr host os i now now' db))"
| es_frame: "fresh_id i db \<Longrightarrow> hb_fp h \<noteq> [] \<Longrightarrow> enroll_step sha ByAgent db (snd (stream_frame tenant h i now db))"
| es_create: "fresh_id i db \<Longrightarrow> enroll_step sha ByOperator db (snd (create_pending_device_call sha t i host os token k now db))"
| es_issue: "enroll_step sha ByOperator db (snd (issue_bulk_token_call sha t grp mx appr ttl token k now db))"
| es_revoke: "enroll_step sha ByOperator db (snd (revoke_enrollment_token \<lparr>cx_tx = None, cx_tenant = t\<rparr> t k now db))"
| es_reenroll: "enroll_step sha ByOperator db (snd (reenroll_call sha t dev token k now db))"
| es_status: "enroll_step sha ByOperator db (snd (put_device_status \<lparr>cx_tx = None, cx_tenant = t\<rparr> t dev st db))"
| es_approve: "enroll_step sha ByDecision db (snd (approve_device \<lparr>cx_tx = None, cx_tenant = t\<rparr> t dev db))"
| es_reject: "enroll_step sha ByDecision db (snd (reject_device \<lparr>cx_tx = None, cx_tenant = t\<rparr> t dev db))"
| es_approve_all: "enroll_step sha ByDecision db (snd (approve_pending_devices \<lparr>cx_tx = None, cx_tenant = t\<rparr> t grp db))"
| es_reject_all: "enroll_step sha ByDecision db (snd (reject_pending_devices \<lparr>cx_tx = None, cx_tenant = t\<rparr> t grp db))"
| es_decommission: "enroll_step sha ByDecommission db (snd (mark_decommissioned cx dev db))"
| es_delete: "enroll_step sha ByDelete db (snd (delete_device \<lparr>cx_tx = None, cx_tenant = t\<rparr> t dev escrow db))"

subsection \<open>Well-formed tables\<close>

definition device_statuses :: "string list" where
  "device_statuses = [''pending'', ''enrolled'', ''active'', ''blocked'', ''pending_approval'', ''rejected'', ''decommissioned'']"

definition token_ok :: "token_row \<Rightarrow> bool" where
  "token_ok k \<longleftrightarrow> (case et_max k of None \<Rightarrow> True | Some m \<Rightarrow> 0 < m \<and> et_uses k \<le> m)"

definition one_per_fp :: "enroll_row list \<Rightarrow> bool" where
  "one_per_fp ds \<longleftrightarrow> (\<forall>d \<in> set ds. \<forall>e \<in> set ds. dv_fp d = dv_fp e \<and> dv_fp d \<noteq> [] \<longrightarrow> dv_id d = dv_id e)"

lemma one_per_fpI:
  "(\<And>d e. d \<in> set ds \<Longrightarrow> e \<in> set ds \<Longrightarrow> dv_fp d = dv_fp e \<Longrightarrow> dv_fp d \<noteq> [] \<Longrightarrow> dv_id d = dv_id e) \<Longrightarrow> one_per_fp ds"
  unfolding one_per_fp_def by blast

lemma one_per_fpD:
  "one_per_fp ds \<Longrightarrow> d \<in> set ds \<Longrightarrow> e \<in> set ds \<Longrightarrow> dv_fp d = dv_fp e \<Longrightarrow> dv_fp d \<noteq> [] \<Longrightarrow> dv_id d = dv_id e"
  unfolding one_per_fp_def by blast

definition tables_ok :: "enroll_db \<Rightarrow> bool" where
  "tables_ok db \<longleftrightarrow> distinct (map dv_id (en_devices db)) \<and>
     one_per_fp (en_devices db) \<and>
     list_all (\<lambda>d. dv_status d \<in> set device_statuses) (en_devices db) \<and> list_all token_ok (en_tokens db)"

lemma update_devices_simps [simp]:
  "en_devices (update_devices P f db) = update_where P f (en_devices db)" "en_tokens (update_devices P f db) = en_tokens db"
  "en_members (update_devices P f db) = en_members db" "en_revoked (update_devices P f db) = en_revoked db"
  "en_devices (update_tokens Q g db) = en_devices db" "en_tokens (update_tokens Q g db) = update_where Q g (en_tokens db)"
  "en_members (update_tokens Q g db) = en_members db" "en_revoked (update_tokens Q g db) = en_revoked db"
  by (simp_all add: update_devices_def update_tokens_def)

lemma list_all_update_where: "list_all Q xs \<Longrightarrow> (\<And>x. Q x \<Longrightarrow> P x \<Longrightarrow> Q (f x)) \<Longrightarrow> list_all Q (update_where P f xs)"
  by (auto simp: list_all_iff set_update_where)

lemma tables_ok_tokens: "tables_ok db \<Longrightarrow> (\<And>k. token_ok k \<Longrightarrow> P k \<Longrightarrow> token_ok (f k)) \<Longrightarrow> tables_ok (update_tokens P f db)"
  by (simp add: tables_ok_def list_all_update_where)

lemma tables_ok_devices:
  assumes "tables_ok db" and "\<And>d. dv_id (f d) = dv_id d" and "\<And>d. dv_fp (f d) = dv_fp d"
    and "\<And>d. P d \<Longrightarrow> dv_status d \<in> set device_statuses \<Longrightarrow> dv_status (f d) \<in> set device_statuses"
  shows "tables_ok (update_devices P f db)"
proof -
  have "one_per_fp (update_where P f (en_devices db))"
  proof (rule one_per_fpI)
    fix x y assume xy: "x \<in> set (update_where P f (en_devices db))" "y \<in> set (update_where P f (en_devices db))"
      "dv_fp x = dv_fp y" "dv_fp x \<noteq> []"
    obtain d e where d: "d \<in> set (en_devices db)" "x = (if P d then f d else d)"
      and e: "e \<in> set (en_devices db)" "y = (if P e then f e else e)" using xy(1,2) unfolding set_update_where by blast
    have "dv_id d = dv_id e" using one_per_fpD [of "en_devices db" d e] assms(1,3) d e xy(3,4) by (simp add: tables_ok_def split: if_splits)
    then show "dv_id x = dv_id y" using d(2) e(2) assms(2) by simp
  qed
  then show ?thesis using assms by (simp add: tables_ok_def map_update_where list_all_update_where)
qed

text \<open>A new fingerprint for the device with one identifier.\<close>

lemma tables_ok_enrolled:
  assumes ok: "tables_ok db" and f: "\<And>d. dv_id (f d) = dv_id d" "\<And>d. dv_fp (f d) = (if fp = [] then dv_fp d else fp)"
    "\<And>d. dv_status (f d) \<in> set device_statuses"
    and P: "\<And>d. P d \<Longrightarrow> dv_id d = i" and new: "\<not> fp_taken fp i db"
  shows "tables_ok (update_devices P f db)"
proof (cases "fp = []")
  case True
  then show ?thesis using tables_ok_devices [OF ok] f by simp
next
  case False
  have other: "dv_id d = i" if "d \<in> set (en_devices db)" "dv_fp d = fp" for d
    using new False that by (auto simp: fp_taken_def list_ex_iff)
  have "one_per_fp (update_where P f (en_devices db))"
  proof (rule one_per_fpI)
    fix x y assume xy: "x \<in> set (update_where P f (en_devices db))" "y \<in> set (update_where P f (en_devices db))"
      "dv_fp x = dv_fp y" "dv_fp x \<noteq> []"
    obtain d e where d: "d \<in> set (en_devices db)" "x = (if P d then f d else d)"
      and e: "e \<in> set (en_devices db)" "y = (if P e then f e else e)" using xy(1,2) unfolding set_update_where by blast
    have one: "one_per_fp (en_devices db)" using ok by (simp add: tables_ok_def)
    have "dv_id d = dv_id e"
    proof (cases "dv_fp x = fp")
      case True
      have "dv_id d = i" using d True P other by (cases "P d") simp_all
      moreover have "dv_id e = i" using e True xy(3) P other by (cases "P e") simp_all
      ultimately show ?thesis by simp
    next
      case nf: False
      have "x = d" using d(2) f(2) False nf by (cases "P d") simp_all
      moreover have "y = e" using e(2) f(2) False nf xy(3) by (cases "P e") simp_all
      ultimately show ?thesis using one_per_fpD [OF one d(1) e(1)] xy(3,4) by simp
    qed
    then show "dv_id x = dv_id y" using d(2) e(2) f(1) by simp
  qed
  then show ?thesis using ok f by (simp add: tables_ok_def map_update_where list_all_update_where)
qed

lemma tables_ok_append:
  assumes "tables_ok db" and "fresh_id (dv_id d) db" and "dv_fp d = [] \<or> dv_fp d \<notin> dv_fp ` set (en_devices db)"
    and "dv_status d \<in> set device_statuses"
  shows "tables_ok (db\<lparr>en_devices := en_devices db @ [d]\<rparr>)"
proof -
  have "one_per_fp (en_devices db @ [d])"
  proof (rule one_per_fpI)
    fix x y assume xy: "x \<in> set (en_devices db @ [d])" "y \<in> set (en_devices db @ [d])" "dv_fp x = dv_fp y" "dv_fp x \<noteq> []"
    have "x \<in> set (en_devices db) \<and> y \<in> set (en_devices db) \<or> x = d \<and> y = d"
      using xy assms(3) imageI [of x "set (en_devices db)" dv_fp] imageI [of y "set (en_devices db)" dv_fp] by auto
    then show "dv_id x = dv_id y"
      using one_per_fpD [of "en_devices db" x y] xy assms(1) by (auto simp: tables_ok_def)
  qed
  then show ?thesis using assms by (auto simp: tables_ok_def fresh_id_def)
qed

lemma tables_ok_token: "tables_ok db \<Longrightarrow> token_ok k \<Longrightarrow> tables_ok (db\<lparr>en_tokens := en_tokens db @ [k]\<rparr>)"
  by (simp add: tables_ok_def)

lemma tables_ok_members [simp]: "tables_ok (db\<lparr>en_members := ms\<rparr>) = tables_ok db"
  by (simp add: tables_ok_def)

text \<open>Every operation keeps the tables well formed.\<close>

lemmas enroll_op_defs = arg_scope_def begin_scoped_def Let_def

lemma blank_fields [simp]:
  "dv_id (blank_device i tn host os st) = i" "dv_fp (blank_device i tn host os st) = []" "dv_status (blank_device i tn host os st) = st"
  "dv_tenant (blank_device i tn host os st) = tn"
  by (simp_all add: blank_device_def)

lemma token_ok_updates [simp]:
  "token_ok (k\<lparr>et_used := u\<rparr>) = token_ok k" "token_ok (k\<lparr>et_expires := x\<rparr>) = token_ok k" "token_ok (k\<lparr>et_device := dev\<rparr>) = token_ok k"
  by (simp_all add: token_ok_def split: option.split)

lemma token_ok_blank [simp]: "token_ok (blank_token i tn h x now)"
  by (simp add: token_ok_def blank_token_def)

lemma tables_ok_create_pending: "tables_ok db \<Longrightarrow> fresh_id i db \<Longrightarrow> tables_ok (snd (create_pending_device cx t i host os db))"
  by (auto simp: create_pending_device_def device_statuses_def intro!: tables_ok_append split: sum.splits prod.splits)

lemma tables_ok_create_token: "tables_ok db \<Longrightarrow> tables_ok (snd (create_enrollment_token sha cx t dev token k expires now db))"
  by (auto simp: create_enrollment_token_def intro!: tables_ok_token split: sum.splits prod.splits)

lemma tables_ok_bulk_token:
  "tables_ok db \<Longrightarrow> (\<And>m. mx = Some m \<Longrightarrow> 0 < m) \<Longrightarrow> tables_ok (snd (create_bulk_token sha cx t token grp mx appr k expires now db))"
  by (auto simp: create_bulk_token_def token_ok_def blank_token_def intro!: tables_ok_token split: sum.splits prod.splits option.splits)

lemma tables_ok_revoke: "tables_ok db \<Longrightarrow> tables_ok (snd (revoke_enrollment_token cx t k now db))"
  by (auto simp: revoke_enrollment_token_def Let_def intro!: tables_ok_tokens split: sum.splits prod.splits)

lemma begin_bulk_cases:
  obtains e where "begin_bulk_enroll cx t tok i host os now db = (Inl e, db)"
  | k P t' h o' ms where "k \<in> set (en_tokens db)" "P k" "\<And>k m. P k \<Longrightarrow> et_max k = Some m \<Longrightarrow> et_uses k < m"
      "\<And>k. P k \<Longrightarrow> et_id k = tok \<and> et_device k = [] \<and> now < et_expires k"
      "begin_bulk_enroll cx t tok i host os now db = (Inr (i, et_approval k), (update_tokens P (\<lambda>k. k\<lparr>et_uses := et_uses k + 1\<rparr>) db)
         \<lparr>en_devices := en_devices db @ [blank_device i t' h o' ''pending''], en_members := ms\<rparr>)"
proof (cases "arg_scope cx t")
  case (Inl e)
  then show thesis using that(1) by (simp add: begin_bulk_enroll_def)
next
  case (Inr tb)
  obtain t' b where tb: "tb = (t', b)" by force
  define P where "P = (\<lambda>k :: token_row. et_tenant k = b \<and> et_tenant k = t' \<and> et_id k = tok \<and> et_device k = [] \<and>
    (case et_max k of None \<Rightarrow> True | Some m \<Rightarrow> et_uses k < m) \<and> now < et_expires k)"
  show thesis
  proof (cases "find P (en_tokens db)")
    case None
    then show thesis using that(1) Inr tb by (simp add: begin_bulk_enroll_def Let_def P_def [symmetric])
  next
    case (Some k)
    then have k: "k \<in> set (en_tokens db)" "P k" by (auto simp: find_Some_iff)
    have P: "P k \<Longrightarrow> et_max k = Some m \<Longrightarrow> et_uses k < m" "P k \<Longrightarrow> et_id k = tok \<and> et_device k = [] \<and> now < et_expires k" for k m
      by (simp_all add: P_def)
    define ms where "ms = (if et_group k = [] then en_members db else en_members db @ [\<lparr>gm_group = et_group k, gm_device = i, gm_tenant = t'\<rparr>])"
    have "begin_bulk_enroll cx t tok i host os now db = (Inr (i, et_approval k), (update_tokens P (\<lambda>k. k\<lparr>et_uses := et_uses k + 1\<rparr>) db)
         \<lparr>en_devices := en_devices db @ [blank_device i t' (if host = [] then ''unknown'' else host) (if os = [] then ''unknown'' else os) ''pending''],
          en_members := ms\<rparr>)"
      using Inr tb Some by (simp add: begin_bulk_enroll_def Let_def P_def [symmetric] ms_def update_tokens_def)
    then show thesis using that(2) [of k P] k P by blast
  qed
qed

lemma tables_ok_begin:
  assumes ok: "tables_ok db" and "fresh_id i db"
  shows "tables_ok (snd (begin_bulk_enroll cx t tok i host os now db))"
proof (cases rule: begin_bulk_cases [of cx t tok i host os now db])
  case (2 k P t' h o' ms)
  have "tables_ok (update_tokens P (\<lambda>k. k\<lparr>et_uses := et_uses k + 1\<rparr>) db)"
  proof (rule tables_ok_tokens [OF ok])
    fix k assume k: "token_ok k" "P k"
    show "token_ok (k\<lparr>et_uses := et_uses k + 1\<rparr>)"
      using k 2(3) [OF k(2)] by (cases "et_max k") (simp_all add: token_ok_def)
  qed
  then show ?thesis
    using tables_ok_append [of "update_tokens P (\<lambda>k. k\<lparr>et_uses := et_uses k + 1\<rparr>) db" "blank_device i t' h o' ''pending''"] assms(2) 2(5)
    by (simp add: fresh_id_def device_statuses_def)
qed (use ok in simp)

lemma tables_ok_finalize: "tables_ok db \<Longrightarrow> tables_ok (snd (finalize_bulk_enroll cx t i serial fp appr now db))"
proof -
  assume ok: "tables_ok db"
  show ?thesis
  proof (cases "arg_scope cx t")
    case (Inr tb)
    obtain t' b where tb: "tb = (t', b)" by force
    let ?mine = "\<lambda>d. dv_tenant d = b \<and> dv_tenant d = t' \<and> dv_id d = i"
    show ?thesis
    proof (cases "fp_taken fp i db")
      case False
      then show ?thesis using Inr tb
        by (auto simp: finalize_bulk_enroll_def Let_def device_statuses_def intro!: tables_ok_enrolled [OF ok, where i = i])
    next
      case True
      show ?thesis
      proof (cases "list_ex ?mine (en_devices db)")
        case False
        then show ?thesis using Inr tb ok
          by (simp add: finalize_bulk_enroll_def Let_def update_devices_def update_where_none)
      qed (use Inr tb ok True in \<open>simp add: finalize_bulk_enroll_def Let_def\<close>)
    qed
  qed (use ok in \<open>simp add: finalize_bulk_enroll_def\<close>)
qed

lemma tables_ok_burn: "tables_ok db \<Longrightarrow> tables_ok (update_tokens P (\<lambda>k. k\<lparr>et_used := Some now\<rparr>) db)"
  by (rule tables_ok_tokens) simp_all

lemma tables_ok_enroll_device: "tables_ok db \<Longrightarrow> tables_ok (snd (enroll_device cx tok dev serial fp now db))"
  by (auto simp: enroll_device_def Let_def device_statuses_def tables_ok_burn
      intro!: tables_ok_enrolled [where i = dev] split: sum.splits)

lemma tables_ok_info: "tables_ok db \<Longrightarrow> tables_ok (snd (update_pending_info cx dev host os db))"
  by (auto simp: update_pending_info_def intro!: tables_ok_devices split: sum.splits)

lemma tables_ok_reset:
  assumes "tables_ok db"
  shows "tables_ok (snd (reset_for_reenroll sha cx t dev token k expires now db))"
proof (cases "bind_tenant cx t")
  case (Inr tn)
  let ?b = "update_tokens (\<lambda>k. et_tenant k = tn \<and> et_device k = dev \<and> et_used k = None) (\<lambda>k. k\<lparr>et_used := Some now\<rparr>) db"
  let ?r = "update_devices (\<lambda>d. dv_tenant d = tn \<and> dv_id d = dev \<and> dv_status d \<notin> set not_enrollable_statuses)
    (\<lambda>d. d\<lparr>dv_status := ''pending'', er_serial := None, er_enrolled := None\<rparr>) ?b"
  have b: "tables_ok ?b" by (rule tables_ok_burn [OF assms])
  have "tables_ok ?r" by (rule tables_ok_devices [OF b]) (simp_all add: device_statuses_def)
  from tables_ok_token [OF this, of "(blank_token k default_tenant (sha token) expires now)\<lparr>et_device := dev\<rparr>"]
  show ?thesis using Inr assms b by (cases "tn = default_tenant") (simp_all add: reset_for_reenroll_def Let_def)
qed (use assms in \<open>simp add: reset_for_reenroll_def\<close>)

lemma tables_ok_decide: "tables_ok db \<Longrightarrow> st \<in> set device_statuses \<Longrightarrow> tables_ok (snd (decide_device st cx t dev db))"
  by (auto simp: decide_device_def Let_def intro!: tables_ok_devices split: sum.splits prod.splits)

lemma tables_ok_decide_all: "tables_ok db \<Longrightarrow> st \<in> set device_statuses \<Longrightarrow> tables_ok (snd (decide_pending st cx t grp db))"
  by (auto simp: decide_pending_def Let_def intro!: tables_ok_devices split: sum.splits prod.splits)

lemma tables_ok_status: "tables_ok db \<Longrightarrow> st \<in> set device_statuses \<Longrightarrow> tables_ok (snd (update_device_status cx t dev st db))"
  by (auto simp: update_device_status_def intro!: tables_ok_devices split: sum.splits prod.splits)

lemma tables_ok_decommission: "tables_ok db \<Longrightarrow> tables_ok (snd (mark_decommissioned cx dev db))"
  by (auto simp: mark_decommissioned_def device_statuses_def intro!: tables_ok_devices split: sum.splits)

lemma tables_ok_delete: "tables_ok db \<Longrightarrow> tables_ok (snd (delete_device cx t dev escrow db))"
  by (auto simp: delete_device_def Let_def tables_ok_def list_all_iff distinct_map_filter intro!: one_per_fpI dest: one_per_fpD
      split: sum.splits prod.splits option.splits)

lemma enroll_by_fp_None: "enroll_by_fp db fp = None \<longleftrightarrow> fp \<notin> dv_fp ` set (en_devices db)"
  by (auto simp: enroll_by_fp_def find_None_iff)

lemma tables_ok_heartbeat: "tables_ok db \<Longrightarrow> fresh_id i db \<Longrightarrow> tables_ok (snd (upsert_heartbeat cx h i now db))"
  by (auto simp: upsert_heartbeat_def enroll_by_fp_None new_device_def touch_device_def device_statuses_def
      intro!: tables_ok_append tables_ok_devices split: sum.splits prod.splits option.splits)

lemma fresh_tokens [simp]: "fresh_id i (update_tokens P f db) = fresh_id i db"
  by (simp add: fresh_id_def)

lemma fresh_devices: "(\<And>d. dv_id (f d) = dv_id d) \<Longrightarrow> fresh_id i (update_devices P f db) = fresh_id i db"
  by (simp add: fresh_id_def map_update_where flip: set_map)

lemma fresh_info [simp]: "fresh_id i (snd (update_pending_info cx dev host os db)) = fresh_id i db"
  by (simp add: update_pending_info_def fresh_devices split: sum.splits)

text \<open>What a call leaves behind is what one of its storage calls left behind.\<close>

lemma enroll_bulk_cases:
  obtains "snd (enroll_bulk sign tok csr host os i now now' db) = snd (begin_bulk_enroll \<lparr>cx_tx = None, cx_tenant = []\<rparr> (et_tenant tok) (et_id tok) i host os now db)"
  | dev appr serial fp where "sign csr dev = Some (serial, fp)"
      "begin_bulk_enroll \<lparr>cx_tx = None, cx_tenant = []\<rparr> (et_tenant tok) (et_id tok) i host os now db
         = (Inr (dev, appr), snd (begin_bulk_enroll \<lparr>cx_tx = None, cx_tenant = []\<rparr> (et_tenant tok) (et_id tok) i host os now db))"
      "snd (enroll_bulk sign tok csr host os i now now' db) = snd (finalize_bulk_enroll \<lparr>cx_tx = None, cx_tenant = []\<rparr> (et_tenant tok) dev serial fp appr now'
         (snd (begin_bulk_enroll \<lparr>cx_tx = None, cx_tenant = []\<rparr> (et_tenant tok) (et_id tok) i host os now db)))"
proof -
  let ?cx = "\<lparr>cx_tx = None, cx_tenant = []\<rparr>"
  obtain r db1 where b: "begin_bulk_enroll ?cx (et_tenant tok) (et_id tok) i host os now db = (r, db1)" by force
  show thesis
  proof (cases r)
    case (Inl e)
    then show thesis using b that(1) by (cases e) (simp_all add: enroll_bulk_def Let_def)
  next
    case (Inr x)
    obtain dev appr where x: "x = (dev, appr)" by force
    show thesis
    proof (cases "sign csr dev")
      case None
      then show thesis using b Inr x that(1) by (simp add: enroll_bulk_def Let_def)
    next
      case (Some y)
      obtain serial fp where y: "y = (serial, fp)" by force
      obtain r2 db2 where f: "finalize_bulk_enroll ?cx (et_tenant tok) dev serial fp appr now' db1 = (r2, db2)" by force
      then have "snd (enroll_bulk sign tok csr host os i now now' db) = db2"
        using b Inr x Some y by (cases r2) (simp_all add: enroll_bulk_def Let_def)
      then show thesis using b Inr x Some y f that(2) [of dev serial fp appr] by simp
    qed
  qed
qed

lemma enroll_single_cases:
  obtains "snd (enroll_single sign tok csr host os now db) = pending_info tok host os db"
  | serial fp where "sign csr (et_device tok) = Some (serial, fp)"
      "snd (enroll_single sign tok csr host os now db) =
         snd (enroll_device \<lparr>cx_tx = None, cx_tenant = et_tenant tok\<rparr> (et_id tok) (et_device tok) serial fp now (pending_info tok host os db))"
proof (cases "sign csr (et_device tok)")
  case None
  then show thesis using that(1) by (simp add: enroll_single_def)
next
  case (Some y)
  obtain serial fp where y: "y = (serial, fp)" by force
  obtain r db2 where r: "enroll_device \<lparr>cx_tx = None, cx_tenant = et_tenant tok\<rparr> (et_id tok) (et_device tok) serial fp now (pending_info tok host os db) = (r, db2)"
    by force
  then have "snd (enroll_single sign tok csr host os now db) = db2"
    using Some y by (cases r) (simp_all add: enroll_single_def split: enroll_error.split)
  then show thesis using that(2) [of serial fp] Some y r by simp
qed

lemma enroll_cases:
  obtains "snd (enroll sha ca token csr host os i now now' db) = db"
  | sign tok where "ca = Some sign" "snd (enroll sha ca token csr host os i now now' db) = snd (enroll_bulk sign tok csr host os i now now' db)"
  | sign tok where "ca = Some sign" "snd (enroll sha ca token csr host os i now now' db) = snd (enroll_single sign tok csr host os now' db)"
proof (cases ca)
  case (Some sign)
  show thesis
  proof (cases "get_enrollment_token sha token db")
    case (Some tok)
    consider "token = [] \<or> csr = [] \<or> et_expires tok < now"
      | "\<not> (token = [] \<or> csr = [] \<or> et_expires tok < now)" "et_device tok = []"
      | "\<not> (token = [] \<or> csr = [] \<or> et_expires tok < now)" "et_device tok \<noteq> []" "et_used tok \<noteq> None"
      | "\<not> (token = [] \<or> csr = [] \<or> et_expires tok < now)" "et_device tok \<noteq> []" "et_used tok = None" by blast
    then show thesis
    proof cases
      case 1
      then show thesis using \<open>ca = Some sign\<close> Some by (intro that(1)) (auto simp: enroll_def)
    next
      case 2
      then show thesis using \<open>ca = Some sign\<close> Some by (intro that(2) [of sign tok]) (simp_all add: enroll_def)
    next
      case 3
      then show thesis using \<open>ca = Some sign\<close> Some by (intro that(1)) (simp add: enroll_def)
    next
      case 4
      then show thesis using \<open>ca = Some sign\<close> Some by (intro that(3) [of sign tok]) (simp_all add: enroll_def)
    qed
  qed (use Some that(1) in \<open>simp add: enroll_def\<close>)
qed (use that(1) in \<open>simp add: enroll_def\<close>)

lemma tables_ok_pending_info: "tables_ok db \<Longrightarrow> tables_ok (pending_info tok host os db)"
  by (simp add: pending_info_def tables_ok_info)

lemma tables_ok_enroll:
  assumes "tables_ok db" and "fresh_id i db"
  shows "tables_ok (snd (enroll sha ca token csr host os i now now' db))"
proof (cases rule: enroll_cases [of sha ca token csr host os i now now' db])
  case (2 sign tok)
  show ?thesis unfolding 2(2)
    by (cases rule: enroll_bulk_cases [of sign tok csr host os i now now' db])
      (simp_all add: assms tables_ok_begin tables_ok_finalize)
next
  case (3 sign tok)
  show ?thesis unfolding 3(2)
    by (cases rule: enroll_single_cases [of sign tok csr host os now' db])
      (simp_all add: assms tables_ok_pending_info tables_ok_enroll_device)
qed (use assms in simp)

lemma tables_ok_create_call:
  assumes "tables_ok db" and "fresh_id i db"
  shows "tables_ok (snd (create_pending_device_call sha t i host os token k now db))"
proof -
  let ?cx = "\<lparr>cx_tx = None, cx_tenant = t\<rparr>" and ?o = "if os = [] then ''unknown'' else os"
  obtain r db1 where 1: "create_pending_device ?cx t i host ?o db = (r, db1)" by force
  obtain q db2 where 2: "create_enrollment_token sha ?cx t i token k (now + 24 * hour) now db1 = (q, db2)" by force
  have "tables_ok db1" using tables_ok_create_pending [OF assms, of ?cx t host ?o] 1 by simp
  moreover from this have "tables_ok db2" using tables_ok_create_token [of db1 sha ?cx t i token k "now + 24 * hour" now] 2 by simp
  ultimately show ?thesis using 1 2 assms(1) by (cases r; cases q) (simp_all add: create_pending_device_call_def Let_def)
qed

lemma tables_ok_issue_call: "tables_ok db \<Longrightarrow> tables_ok (snd (issue_bulk_token_call sha t grp mx appr ttl token k now db))"
proof -
  assume ok: "tables_ok db"
  show ?thesis
  proof (cases "case mx of None \<Rightarrow> False | Some m \<Rightarrow> m \<le> 0")
    case False
    define life where "life = sint (word_of_int ((if 0 < ttl then ttl else 168) * hour) :: 64 word)"
    let ?cx = "\<lparr>cx_tx = None, cx_tenant = t\<rparr>" and ?a = "case appr of None \<Rightarrow> True | Some b \<Rightarrow> b"
    obtain r db1 where 1: "create_bulk_token sha ?cx t token grp mx ?a k (now + life) now db = (r, db1)" by force
    have "tables_ok db1"
      using tables_ok_bulk_token [OF ok, of mx sha ?cx t token grp ?a k "now + life" now] 1 False by (simp split: option.splits)
    then show ?thesis using 1 False by (cases r) (simp_all add: issue_bulk_token_call_def Let_def life_def)
  qed (use ok in \<open>simp add: issue_bulk_token_call_def Let_def\<close>)
qed

lemma reenroll_call_snd: "snd (reenroll_call sha t dev token k now db) =
    snd (reset_for_reenroll sha \<lparr>cx_tx = None, cx_tenant = t\<rparr> t dev token k (now + 24 * hour) now db)"
proof -
  obtain r db1 where 1: "reset_for_reenroll sha \<lparr>cx_tx = None, cx_tenant = t\<rparr> t dev token k (now + 24 * hour) now db = (r, db1)" by force
  show ?thesis unfolding reenroll_call_def 1 by (cases r) (simp_all split: enroll_error.split)
qed

lemma put_status_cases:
  obtains "snd (put_device_status cx t dev st db) = db"
  | cur where "st = ''active'' \<or> st = ''blocked''" "get_status_by_id cx t dev db = Inr cur"
      "cur \<notin> {[], ''pending_approval'', ''rejected'', ''decommissioned''}"
      "snd (put_device_status cx t dev st db) = snd (update_device_status cx t dev st db)"
proof (cases "get_status_by_id cx t dev db")
  case (Inr cur)
  obtain r db1 where 1: "update_device_status cx t dev st db = (r, db1)" by force
  show thesis
  proof (cases "(st = ''active'' \<or> st = ''blocked'') \<and> cur \<notin> {[], ''pending_approval'', ''rejected'', ''decommissioned''}")
    case True
    then have "snd (put_device_status cx t dev st db) = db1" using Inr 1 by (cases r) (auto simp: put_status_defs)
    then show thesis using that(2) [of cur] Inr 1 True by simp
  qed (use Inr that(1) in \<open>auto simp: put_status_defs split: if_splits\<close>)
qed (use that(1) in \<open>simp add: put_status_defs\<close>)

lemma tables_ok_step:
  assumes "tables_ok db" and "enroll_step sha who db db'"
  shows "tables_ok db'"
  using assms(2)
proof cases
  case (es_frame i h tenant now)
  then show ?thesis using assms(1) by (simp add: stream_frame_def Let_def tables_ok_heartbeat)
next
  case (es_status t dev st)
  then show ?thesis using assms(1)
    by (cases rule: put_status_cases [of "\<lparr>cx_tx = None, cx_tenant = t\<rparr>" t dev st db])
      (auto simp: device_statuses_def intro!: tables_ok_status)
qed (use assms(1) in \<open>simp_all add: tables_ok_enroll tables_ok_create_call tables_ok_issue_call tables_ok_revoke
  reenroll_call_snd tables_ok_reset approve_device_def reject_device_def approve_pending_devices_def reject_pending_devices_def
  tables_ok_decide tables_ok_decide_all tables_ok_decommission tables_ok_delete device_statuses_def\<close>)

text \<open>Claim C25. The tables of the enrolment stay well formed through every call of agents and operators: identifiers are
  distinct, no two devices share a certificate, every status is one of the seven the code knows, and no bulk token is
  used more often than it was issued for.\<close>

theorem enrollment_types:
  assumes "tables_ok db" and "(\<lambda>a b. \<exists>who. enroll_step sha who a b)\<^sup>*\<^sup>* db db'"
  shows "tables_ok db'"
  using assms(2)
proof (induction rule: rtranclp_induct)
  case (step a b)
  then show ?case by (auto intro: tables_ok_step)
qed (rule assms(1))

subsection \<open>Statuses that only a decision ends\<close>

definition held :: "enroll_row \<Rightarrow> bool" where
  "held d \<longleftrightarrow> dv_status d \<in> {''pending_approval'', ''rejected'', ''decommissioned''}"

text \<open>Every held device is still there, with its tenant, its certificate and its status.\<close>

definition keeps_held :: "enroll_db \<Rightarrow> enroll_db \<Rightarrow> bool" where
  "keeps_held db db' \<longleftrightarrow> (\<forall>d \<in> set (en_devices db). held d \<longrightarrow> (\<exists>e \<in> set (en_devices db').
     dv_id e = dv_id d \<and> dv_tenant e = dv_tenant d \<and> dv_fp e = dv_fp d \<and> dv_status e = dv_status d))"

lemma row_keeps_refl [simp]: "keeps_held db db"
  by (auto simp: keeps_held_def)

lemma keeps_trans: "keeps_held a b \<Longrightarrow> keeps_held b c \<Longrightarrow> keeps_held a c"
  unfolding keeps_held_def held_def by (metis (no_types, lifting))

lemma row_keeps_update:
  assumes "\<And>d. d \<in> set (en_devices db) \<Longrightarrow> held d \<Longrightarrow> P d \<Longrightarrow>
    dv_id (f d) = dv_id d \<and> dv_tenant (f d) = dv_tenant d \<and> dv_fp (f d) = dv_fp d \<and> dv_status (f d) = dv_status d"
  shows "keeps_held db (update_devices P f db)"
  unfolding keeps_held_def
proof (intro ballI impI)
  fix d assume d: "d \<in> set (en_devices db)" "held d"
  then have "(if P d then f d else d) \<in> set (en_devices (update_devices P f db))" by (auto simp: set_update_where)
  then show "\<exists>e \<in> set (en_devices (update_devices P f db)).
      dv_id e = dv_id d \<and> dv_tenant e = dv_tenant d \<and> dv_fp e = dv_fp d \<and> dv_status e = dv_status d"
    using assms [OF d] by (intro bexI [of _ "if P d then f d else d"]) simp_all
qed

lemma keeps_more: "set (en_devices db) \<subseteq> set (en_devices db') \<Longrightarrow> keeps_held db db'"
  by (auto simp: keeps_held_def)

lemma keeps_more_left: "keeps_held db db' \<Longrightarrow> en_devices db0 = en_devices db \<Longrightarrow> keeps_held db0 db'"
  by (simp add: keeps_held_def)

lemma keeps_info: "keeps_held db (snd (update_pending_info cx dev host os db))"
  by (auto simp: update_pending_info_def held_def intro!: row_keeps_update split: sum.splits)

lemma keeps_begin: "keeps_held db (snd (begin_bulk_enroll cx t tok i host os now db))"
  by (cases rule: begin_bulk_cases [of cx t tok i host os now db]) (auto intro!: keeps_more)

lemma keeps_finalize:
  "(\<And>d. d \<in> set (en_devices db) \<Longrightarrow> dv_id d = i \<Longrightarrow> \<not> held d) \<Longrightarrow> keeps_held db (snd (finalize_bulk_enroll cx t i serial fp appr now db))"
  by (auto simp: finalize_bulk_enroll_def Let_def intro!: row_keeps_update split: sum.splits prod.splits)

lemma keeps_enroll_device: "keeps_held db (snd (enroll_device cx tok dev serial fp now db))"
proof -
  have "keeps_held db (update_devices (\<lambda>d. dv_tenant d = tn \<and> dv_id d = dev \<and> dv_status d \<notin> set not_enrollable_statuses) f (update_tokens Q g db))" for tn f Q g
    by (rule keeps_more_left [of "update_tokens Q g db"], rule row_keeps_update) (simp_all add: held_def not_enrollable_statuses_def)
  then show ?thesis by (auto simp: enroll_device_def Let_def intro!: keeps_more split: sum.splits)
qed

lemma keeps_reset: "keeps_held db (snd (reset_for_reenroll sha cx t dev token k expires now db))"
proof -
  have "keeps_held db (db2\<lparr>en_tokens := ts\<rparr>)"
    if "db2 = update_devices (\<lambda>d. dv_tenant d = tn \<and> dv_id d = dev \<and> dv_status d \<notin> set not_enrollable_statuses) f (update_tokens Q g db)" for db2 ts tn f Q g
  proof -
    have "keeps_held db db2" unfolding that
      by (rule keeps_more_left [of "update_tokens Q g db"], rule row_keeps_update) (simp_all add: held_def not_enrollable_statuses_def)
    then show ?thesis by (simp add: keeps_held_def)
  qed
  then show ?thesis by (auto simp: reset_for_reenroll_def Let_def intro!: keeps_more split: sum.splits)
qed

lemma keeps_heartbeat: "keeps_held db (snd (upsert_heartbeat cx h i now db))"
  by (auto simp: upsert_heartbeat_def touch_device_def held_def intro!: keeps_more row_keeps_update split: sum.splits prod.splits option.splits)

lemma keeps_status:
  assumes "tables_ok db"
  shows "keeps_held db (snd (put_device_status cx t dev st db))"
proof (cases rule: put_status_cases [of cx t dev st db])
  case (2 cur)
  obtain t' b where s: "arg_scope cx t = Inr (t', b)" using 2(2) by (auto simp: get_status_by_id_def split: sum.splits)
  let ?P = "\<lambda>d :: enroll_row. dv_tenant d = b \<and> dv_tenant d = t' \<and> dv_id d = dev"
  obtain e where e: "find ?P (en_devices db) = Some e" "cur = dv_status e"
    using 2(2,3) s by (auto simp: get_status_by_id_def split: option.splits)
  then have "e \<in> set (en_devices db)" "dv_id e = dev" "\<not> held e" using 2(3) by (auto simp: find_Some_iff held_def)
  then have "d \<in> set (en_devices db) \<Longrightarrow> dv_id d = dev \<Longrightarrow> \<not> held d" for d
    using assms by (auto simp: tables_ok_def distinct_map dest: inj_onD)
  then have "keeps_held db (update_devices ?P (\<lambda>d. d\<lparr>dv_status := st\<rparr>) db)" by (intro row_keeps_update) auto
  then show ?thesis unfolding 2(4) by (simp add: update_device_status_def s)
qed simp

lemma keeps_enroll:
  assumes "fresh_id i db"
  shows "keeps_held db (snd (enroll sha ca token csr host os i now now' db))"
proof (cases rule: enroll_cases [of sha ca token csr host os i now now' db])
  case (2 sign tok)
  let ?cx = "\<lparr>cx_tx = None, cx_tenant = []\<rparr>"
  let ?db1 = "snd (begin_bulk_enroll ?cx (et_tenant tok) (et_id tok) i host os now db)"
  show ?thesis unfolding 2(2)
  proof (cases rule: enroll_bulk_cases [of sign tok csr host os i now now' db])
    case 1
    then show "keeps_held db (snd (enroll_bulk sign tok csr host os i now now' db))" by (simp add: keeps_begin)
  next
    case (2 dev appr serial fp)
    have new: "dev = i \<and> (d \<in> set (en_devices ?db1) \<longrightarrow> dv_id d = i \<longrightarrow> \<not> held d)" for d
      by (cases rule: begin_bulk_cases [of ?cx "et_tenant tok" "et_id tok" i host os now db])
        (use 2(2) assms in \<open>auto simp: fresh_id_def held_def\<close>)
    have "keeps_held ?db1 (snd (finalize_bulk_enroll ?cx (et_tenant tok) dev serial fp appr now' ?db1))"
      by (rule keeps_finalize) (use new in blast)
    then show "keeps_held db (snd (enroll_bulk sign tok csr host os i now now' db))"
      unfolding 2(3) by (rule keeps_trans [OF keeps_begin])
  qed
next
  case (3 sign tok)
  have p: "keeps_held db (pending_info tok host os db)" by (simp add: pending_info_def keeps_info)
  show ?thesis unfolding 3(2)
    by (cases rule: enroll_single_cases [of sign tok csr host os now' db])
      (use p keeps_trans [OF p keeps_enroll_device] in simp_all)
qed simp

lemma keeps_calls:
  "keeps_held db (snd (create_pending_device_call sha t i host os token k now db))"
  "keeps_held db (snd (issue_bulk_token_call sha t grp mx appr ttl token k now db))"
  "keeps_held db (snd (revoke_enrollment_token cx t k now db))"
proof -
  let ?cx = "\<lparr>cx_tx = None, cx_tenant = t\<rparr>"
  have c: "set (en_devices db) \<subseteq> set (en_devices (snd (create_pending_device ?cx t i host o' db)))" for o'
    by (auto simp: create_pending_device_def split: sum.splits prod.splits)
  have k: "en_devices (snd (create_enrollment_token sha ?cx t i token k e now db1)) = en_devices db1" for e db1
    by (auto simp: create_enrollment_token_def split: sum.splits prod.splits)
  have b: "en_devices (snd (create_bulk_token sha ?cx t token grp mx a k e now db)) = en_devices db" for a e
    by (auto simp: create_bulk_token_def split: sum.splits prod.splits)
  obtain r db1 where 1: "create_pending_device ?cx t i host (if os = [] then ''unknown'' else os) db = (r, db1)" by force
  obtain q db2 where 2: "create_enrollment_token sha ?cx t i token k (now + 24 * hour) now db1 = (q, db2)" by force
  have "set (en_devices db) \<subseteq> set (en_devices db1)" using c [of "if os = [] then ''unknown'' else os"] 1 by simp
  moreover have "en_devices db2 = en_devices db1" using k [of "now + 24 * hour" db1] 2 by simp
  ultimately show "keeps_held db (snd (create_pending_device_call sha t i host os token k now db))"
    using 1 2 by (cases r; cases q) (simp_all add: create_pending_device_call_def Let_def keeps_more)
  define life where "life = sint (word_of_int ((if 0 < ttl then ttl else 168) * hour) :: 64 word)"
  obtain r3 db3 where 3: "create_bulk_token sha ?cx t token grp mx (case appr of None \<Rightarrow> True | Some b \<Rightarrow> b) k (now + life) now db = (r3, db3)" by force
  have "en_devices db3 = en_devices db" using b 3 by (metis snd_conv)
  then show "keeps_held db (snd (issue_bulk_token_call sha t grp mx appr ttl token k now db))"
    using 3 by (cases r3) (simp_all add: issue_bulk_token_call_def Let_def life_def keeps_more)
  show "keeps_held db (snd (revoke_enrollment_token cx t k now db))"
    by (auto simp: revoke_enrollment_token_def Let_def intro!: keeps_more split: sum.splits prod.splits)
qed

lemma keeps_held_step:
  assumes ok: "tables_ok db" and st: "enroll_step sha who db db'" and who: "who = ByAgent \<or> who = ByOperator"
  shows "keeps_held db db'"
  using st
proof cases
  case (es_frame i h tenant now)
  then show ?thesis by (simp add: stream_frame_def Let_def keeps_heartbeat)
qed (use who ok in \<open>simp_all add: keeps_enroll keeps_calls keeps_status reenroll_call_snd keeps_reset\<close>)

definition routine :: "(string \<Rightarrow> string) \<Rightarrow> enroll_db \<Rightarrow> enroll_db \<Rightarrow> bool" where
  "routine sha db db' \<longleftrightarrow> enroll_step sha ByAgent db db' \<or> enroll_step sha ByOperator db db'"

text \<open>Claim C3. Nothing but a decision takes a device out of the queue: a device that waits for approval, was rejected or is
  decommissioned keeps its status, tenant and certificate through any sequence of enrolments, heartbeats, issued and
  revoked tokens, re-enrolments, blocks and unblocks - whichever device, token or tenant they name.  The two transactions of a
  block or unblock are taken as one step: what the update does to a decision that comes between them is \<open>stale_status_write\<close>.  Those
  of a bulk enrolment, which touch the new device only, are one step too.\<close>

theorem held_until_decided:
  assumes "tables_ok db" and "(routine sha)\<^sup>*\<^sup>* db db'" and "d \<in> set (en_devices db)"
    and "dv_status d \<in> {''pending_approval'', ''rejected'', ''decommissioned''}"
  shows "\<exists>e \<in> set (en_devices db'). dv_id e = dv_id d \<and> dv_tenant e = dv_tenant d \<and> dv_fp e = dv_fp d \<and> dv_status e = dv_status d"
proof -
  have "tables_ok db' \<and> keeps_held db db'" using assms(2)
  proof (induction rule: rtranclp_induct)
    case base
    then show ?case using assms(1) by simp
  next
    case (step a b)
    have "tables_ok b"
      using step by (auto simp: routine_def intro: tables_ok_step)
    moreover have "keeps_held a b" using step by (auto simp: routine_def intro: keeps_held_step)
    ultimately show ?case using step keeps_trans by blast
  qed
  then show ?thesis using assms(3,4) by (auto simp: keeps_held_def held_def)
qed

section \<open>Tokens\<close>

lemma update_where_consumed: "(\<And>x. P x \<Longrightarrow> \<not> P (f x)) \<Longrightarrow> \<not> list_ex P (update_where P f xs)"
  by (induction xs) (auto simp: update_where_def)

text \<open>A token that is bound to a device works once, also for two calls that both found it unused.\<close>

lemma token_redeemed_once:
  assumes "enroll_device cx tok dev serial fp now db = (Inr (), db')" and "begin_scoped cx = Inr tn" and "begin_scoped cx' = Inr tn"
  shows "enroll_device cx' tok dev' serial' fp' now' db' = (Inl EnTokenUsed, db')"
proof -
  have "en_tokens db' = update_where (\<lambda>k. et_tenant k = tn \<and> et_id k = tok \<and> et_used k = None) (\<lambda>k. k\<lparr>et_used := Some now\<rparr>) (en_tokens db)"
    using assms(1,2) by (auto simp: enroll_device_def Let_def split: if_splits)
  then have "\<not> list_ex (\<lambda>k. et_tenant k = tn \<and> et_id k = tok \<and> et_used k = None) (en_tokens db')"
    by (simp add: update_where_consumed)
  then show ?thesis using assms(3) by (simp add: enroll_device_def Let_def)
qed

text \<open>The agent's call rolls a refused redemption back, as its comment says.\<close>

lemma refused_enroll_keeps_token:
  "cx_tx cx = None \<Longrightarrow> fst (enroll_device cx tok dev serial fp now db) \<noteq> Inr () \<Longrightarrow> snd (enroll_device cx tok dev serial fp now db) = db"
  by (auto simp: enroll_device_def Let_def split: sum.splits)

text \<open>A refused re-enrolment burns the tokens: when the status of a device forbids to enrol it again, the operator's
  call is answered with a conflict, and yet every unused enrolment token of the device is marked used, so that the token
  its agent holds is dead when the device is unblocked or approved.\<close>

theorem refused_reenroll_burns_tokens:
  assumes "tables_ok db" and "t \<noteq> []" and "t \<noteq> nil_tenant"
    and "d \<in> set (en_devices db)" and "dv_status d \<in> set not_enrollable_statuses"
    and "k \<in> set (en_tokens db)" and "et_device k = dv_id d" and "et_tenant k = t" and "et_used k = None"
  shows "fst (reenroll_call sha t (dv_id d) token i now db) = 409 \<and>
    k\<lparr>et_used := Some now\<rparr> \<in> set (en_tokens (snd (reenroll_call sha t (dv_id d) token i now db)))"
proof -
  let ?cx = "\<lparr>cx_tx = None, cx_tenant = t\<rparr>"
  let ?P = "\<lambda>k. et_tenant k = t \<and> et_device k = dv_id d \<and> et_used k = None"
  let ?db1 = "update_tokens ?P (\<lambda>k. k\<lparr>et_used := Some now\<rparr>) db"
  have "bind_tenant ?cx t = Inr t" using assms(2,3) by (simp add: bind_tenant_def require_tenant_def)
  moreover have "\<not> list_ex (\<lambda>e. dv_tenant e = t \<and> dv_id e = dv_id d \<and> dv_status e \<notin> set not_enrollable_statuses) (en_devices db)"
    using assms(1,4,5) by (auto simp: list_ex_iff tables_ok_def distinct_map dest: inj_onD)
  ultimately have r: "reset_for_reenroll sha ?cx t (dv_id d) token i (now + 24 * hour) now db = (Inl EnNotReenrollable, ?db1)"
    by (simp add: reset_for_reenroll_def Let_def)
  have "k\<lparr>et_used := Some now\<rparr> \<in> set (en_tokens ?db1)" using assms(6-9) by (auto simp: set_update_where)
  then show ?thesis unfolding reenroll_call_def r by simp
qed

text \<open>Re-enrolment works in the default tenant only: for a device of any other tenant the new token would be
  inserted with the default tenant, which row-level security refuses, so the operator's call always ends with an
  internal error and changes nothing.\<close>

theorem reenroll_only_in_default_tenant:
  assumes "t \<noteq> []" and "t \<noteq> nil_tenant" and "t \<noteq> default_tenant"
    and "d \<in> set (en_devices db)" and "dv_tenant d = t" and "dv_status d \<notin> set not_enrollable_statuses"
  shows "reenroll_call sha t (dv_id d) token i now db = (500, db)"
proof -
  have "bind_tenant \<lparr>cx_tx = None, cx_tenant = t\<rparr> t = Inr t" using assms(1,2) by (simp add: bind_tenant_def require_tenant_def)
  moreover have "list_ex (\<lambda>e. dv_tenant e = t \<and> dv_id e = dv_id d \<and> dv_status e \<notin> set not_enrollable_statuses) (en_devices db)"
    using assms(4-6) by (auto simp: list_ex_iff)
  ultimately show ?thesis using assms(3) by (simp add: reenroll_call_def reset_for_reenroll_def Let_def)
qed

section \<open>Deleted devices\<close>

lemma find_snoc: "find P xs = None \<Longrightarrow> find P (xs @ [y]) = (if P y then Some y else None)"
  by (induction xs) (auto split: if_splits)

lemma update_where_hit: "d \<in> set xs \<Longrightarrow> P d \<Longrightarrow> Q (f d) \<Longrightarrow> \<exists>e \<in> set (update_where P f xs). Q e"
  by (intro bexI [of _ "f d"]) (auto simp: set_update_where)

lemma deleted_gone:
  assumes "tables_ok db" and "d \<in> set (en_devices db)" and "dv_fp d \<noteq> []" and "dv_tenant d = t" and "t \<noteq> []" and "t \<noteq> nil_tenant"
  shows "fst (delete_device \<lparr>cx_tx = None, cx_tenant = t\<rparr> t (dv_id d) False db) = Inr True"
    and "enroll_by_fp (snd (delete_device \<lparr>cx_tx = None, cx_tenant = t\<rparr> t (dv_id d) False db)) (dv_fp d) = None"
    and "is_fingerprint_revoked (dv_fp d) (snd (delete_device \<lparr>cx_tx = None, cx_tenant = t\<rparr> t (dv_id d) False db))"
proof -
  let ?cx = "\<lparr>cx_tx = None, cx_tenant = t\<rparr>"
  let ?m = "\<lambda>e. dv_tenant e = t \<and> dv_tenant e = t \<and> dv_id e = dv_id d"
  have s: "arg_scope ?cx t = Inr (t, t)" using assms(5,6) by (simp add: arg_scope_def bind_tenant_def require_tenant_def)
  have uniq: "e = d" if "e \<in> set (en_devices db)" "dv_id e = dv_id d" for e
    using assms(1,2) that by (auto simp: tables_ok_def distinct_map dest: inj_onD)
  have f: "find ?m (en_devices db) = Some d"
  proof (cases "find ?m (en_devices db)")
    case None
    then show ?thesis using assms(2,4) by (auto simp: find_None_iff)
  next
    case (Some e)
    then have "e \<in> set (en_devices db) \<and> dv_id e = dv_id d" by (auto simp: find_Some_iff)
    then show ?thesis using Some uniq [of e] by simp
  qed
  have one: "one_per_fp (en_devices db)" using assms(1) by (simp add: tables_ok_def)
  have same: "e = d" if "e \<in> set (en_devices db)" "dv_fp e = dv_fp d" for e
    using one_per_fpD [OF one that(1) assms(2)] that assms(3) uniq by simp
  have "\<not> (\<exists>e \<in> set (en_devices db). \<not> (dv_tenant e = t \<and> dv_id e = dv_id d) \<and> dv_fp e = dv_fp d)"
    using same assms(4) by blast
  then show "enroll_by_fp (snd (delete_device ?cx t (dv_id d) False db)) (dv_fp d) = None"
    using s f by (auto simp: delete_device_def Let_def enroll_by_fp_None image_iff)
  show "fst (delete_device ?cx t (dv_id d) False db) = Inr True" using s f by (simp add: delete_device_def Let_def)
  show "is_fingerprint_revoked (dv_fp d) (snd (delete_device ?cx t (dv_id d) False db))"
    using s f assms(3) by (auto simp: delete_device_def Let_def is_fingerprint_revoked_def list_ex_iff)
qed

text \<open>A device that was deleted while no stream was open stays out: its certificate is refused at the door.\<close>

lemma deleted_device_refused:
  assumes "tables_ok db" and "d \<in> set (en_devices db)" and "dv_fp d \<noteq> []" and "dv_tenant d = t" and "t \<noteq> []" and "t \<noteq> nil_tenant"
  shows "connect_guard (dv_fp d) (snd (delete_device \<lparr>cx_tx = None, cx_tenant = t\<rparr> t (dv_id d) False db)) = DeniedDeleted"
  using deleted_gone [OF assms] by (simp add: connect_guard_def status_by_fp_def is_cut_off_def)

text \<open>Claim C27. Deletion can admit a device: when the operator deletes a device whose stream is open - also one that waits for
  approval - the next heartbeat on the stream creates it anew as an active device of the default tenant, the stream goes
  on, and from then on every call and every new connection with the certificate that was revoked is admitted.\<close>

theorem deleted_device_returns_active:
  assumes "tables_ok db" and "d \<in> set (en_devices db)" and "dv_fp d \<noteq> []" and "dv_tenant d = t" and "t \<noteq> []" and "t \<noteq> nil_tenant"
    and "delete_device \<lparr>cx_tx = None, cx_tenant = t\<rparr> t (dv_id d) False db = (r, db1)"
    and "hb_fp h = dv_fp d" and "stream_frame tenant h i now db1 = (open, db2)"
  shows "open \<and> is_fingerprint_revoked (dv_fp d) db2 \<and> status_by_fp db2 (dv_fp d) = ''active'' \<and>
    map_option dv_tenant (enroll_by_fp db2 (dv_fp d)) = Some default_tenant \<and>
    rpc_guard (dv_fp d) db2 = Admitted \<and> connect_guard (dv_fp d) db2 = Admitted"
proof -
  have none: "enroll_by_fp db1 (dv_fp d) = None" and rev: "is_fingerprint_revoked (dv_fp d) db1"
    using deleted_gone [OF assms(1-6)] assms(7) by simp_all
  have nt: "default_tenant \<noteq> [] \<and> default_tenant \<noteq> nil_tenant" by (simp add: default_tenant_def nil_tenant_def)
  have u: "upsert_heartbeat \<lparr>cx_tx = None, cx_tenant = tenant\<rparr> h i now db1 =
      (Inr (), db1\<lparr>en_devices := en_devices db1 @ [new_device h i default_tenant now]\<rparr>)"
    using none nt assms(8) by (simp add: upsert_heartbeat_def heartbeat_scope_def bind_tenant_def require_tenant_def)
  let ?db2 = "db1\<lparr>en_devices := en_devices db1 @ [new_device h i default_tenant now]\<rparr>"
  have n: "dv_fp (new_device h i default_tenant now) = dv_fp d" "dv_status (new_device h i default_tenant now) = ''active''"
    "dv_tenant (new_device h i default_tenant now) = default_tenant"
    using assms(8) by (simp_all add: new_device_def)
  have e: "enroll_by_fp ?db2 (dv_fp d) = Some (new_device h i default_tenant now)"
    using none n by (simp add: enroll_by_fp_def find_snoc)
  then have st: "status_by_fp ?db2 (dv_fp d) = ''active''" using n by (simp add: status_by_fp_def)
  have "stream_frame tenant h i now db1 = (\<not> is_cut_off (status_by_fp ?db2 (hb_fp h)), ?db2)"
    unfolding stream_frame_def u Let_def by simp
  then have "db2 = ?db2" "open = (\<not> is_cut_off (status_by_fp ?db2 (hb_fp h)))" using assms(9) by (metis prod.inject)+
  then show ?thesis using e st n rev assms(8)
    by (simp add: rpc_guard_def connect_guard_def is_cut_off_def is_fingerprint_revoked_def)
qed

text \<open>Between the two calls of a bulk enrolment the operator's block is undone.\<close>

lemma finalize_undoes_block:
  assumes "arg_scope cx t = Inr (t, t)" and "d \<in> set (en_devices db)" and "dv_tenant d = t" and "dv_status d = ''blocked''"
    and "\<not> fp_taken fp (dv_id d) db"
  shows "\<exists>e \<in> set (en_devices (snd (finalize_bulk_enroll cx t (dv_id d) serial fp False now db))). dv_id e = dv_id d \<and> dv_status e = ''enrolled''"
  using assms(1,5) by (simp add: finalize_bulk_enroll_def Let_def update_where_hit [OF assms(2)] assms(3))

text \<open>Between the two transactions of a block or unblock the device may get a status that the handler would have refused; the update
  overwrites it, so that a device which is queued, rejected or decommissioned by then becomes active without a decision.\<close>

lemma status_of_row:
  assumes "tables_ok db" and "d \<in> set (en_devices db)" and "dv_tenant d = t" and "t \<noteq> []" and "t \<noteq> nil_tenant"
  shows "get_status_by_id \<lparr>cx_tx = None, cx_tenant = t\<rparr> t (dv_id d) db = Inr (dv_status d)"
proof -
  let ?m = "\<lambda>e. dv_tenant e = t \<and> dv_id e = dv_id d"
  have uniq: "e = d" if "e \<in> set (en_devices db)" "dv_id e = dv_id d" for e
    using assms(1,2) that by (auto simp: tables_ok_def distinct_map dest: inj_onD)
  have "find ?m (en_devices db) = Some d"
  proof (cases "find ?m (en_devices db)")
    case None
    then show ?thesis using assms(2,3) by (auto simp: find_None_iff)
  next
    case (Some e)
    then have "e \<in> set (en_devices db) \<and> dv_id e = dv_id d" by (auto simp: find_Some_iff)
    then show ?thesis using Some uniq [of e] by simp
  qed
  then show ?thesis using assms(4,5) by (simp add: get_status_by_id_def arg_scope_def bind_tenant_def require_tenant_def)
qed

lemma stale_status_write:
  assumes t: "t \<noteq> []" "t \<noteq> nil_tenant"
    and before: "tables_ok db0" "d0 \<in> set (en_devices db0)" "dv_tenant d0 = t" "dv_status d0 = ''active''"
    and after: "tables_ok db" "d \<in> set (en_devices db)" "dv_tenant d = t" "dv_id d = dv_id d0" "dv_status d = ''decommissioned''"
  defines "cx \<equiv> \<lparr>cx_tx = None, cx_tenant = t\<rparr>"
  shows "status_refusal cx t (dv_id d0) ''active'' db0 = None \<and> status_refusal cx t (dv_id d0) ''active'' db = Some 409 \<and>
    (\<exists>e \<in> set (en_devices (snd (write_device_status cx t (dv_id d0) ''active'' db))). dv_id e = dv_id d \<and> dv_status e = ''active'')"
proof (intro conjI)
  show "status_refusal cx t (dv_id d0) ''active'' db0 = None"
    using status_of_row [OF before(1-3) t] before(4) by (simp add: status_refusal_def cx_def)
  show "status_refusal cx t (dv_id d0) ''active'' db = Some 409"
    using status_of_row [OF after(1-3) t] after(4,5) by (simp add: status_refusal_def cx_def)
  have s: "arg_scope cx t = Inr (t, t)" using t by (simp add: cx_def arg_scope_def bind_tenant_def require_tenant_def)
  show "\<exists>e \<in> set (en_devices (snd (write_device_status cx t (dv_id d0) ''active'' db))). dv_id e = dv_id d \<and> dv_status e = ''active''"
    by (simp add: write_device_status_def update_device_status_def s) (rule update_where_hit [OF after(2)], use after(3,4) in simp_all)
qed

section \<open>The kill switch\<close>

text \<open>A device that is cut off gets no call through and no connection, and a frame ends its stream.\<close>

lemma cut_off_everywhere:
  assumes "is_cut_off (status_by_fp db fp)"
  shows "rpc_guard fp db = DeniedCutOff \<and> connect_guard fp db = DeniedCutOff"
  using assms by (simp add: rpc_guard_def connect_guard_def)

section \<open>Witnesses\<close>

definition en_queued :: enroll_row where
  "en_queued = (blank_device ''d1'' default_tenant ''host'' ''Linux'' ''pending_approval'')\<lparr>dv_fp := ''f1''\<rparr>"

definition en_token :: token_row where
  "en_token = (blank_token ''k1'' default_tenant ''h1'' 100 0)\<lparr>et_device := ''d1''\<rparr>"

definition en_db :: enroll_db where
  "en_db = \<lparr>en_devices = [en_queued], en_tokens = [en_token], en_members = [], en_revoked = []\<rparr>"

definition en_beat :: heartbeat where
  "en_beat = \<lparr>hb_fp = ''f1'', hb_cn = ''d1'', hb_ip = [], hb_public = [], hb_down = False, hb_detail = []\<rparr>"

lemma en_facts: "tables_ok en_db" "en_queued \<in> set (en_devices en_db)" "en_token \<in> set (en_tokens en_db)"
  "dv_id en_queued = ''d1''" "dv_fp en_queued = ''f1''" "dv_tenant en_queued = default_tenant" "dv_status en_queued = ''pending_approval''"
  "default_tenant \<noteq> []" "default_tenant \<noteq> nil_tenant"
  by (simp_all add: en_db_def en_queued_def en_token_def tables_ok_def one_per_fp_def device_statuses_def default_tenant_def nil_tenant_def)

lemma en_frame: "enroll_step id ByAgent en_db (snd (stream_frame [] en_beat ''d9'' 7 en_db))"
  by (rule es_frame) (simp_all add: fresh_id_def en_db_def en_facts en_beat_def)

lemma enrollment_types_witness: "tables_ok (snd (stream_frame [] en_beat ''d9'' 7 en_db))"
  by (rule enrollment_types [OF en_facts(1), of id]) (use en_frame in blast)

lemma held_until_decided_witness:
  "\<exists>e \<in> set (en_devices (snd (stream_frame [] en_beat ''d9'' 7 en_db))). dv_id e = ''d1'' \<and> dv_status e = ''pending_approval''"
proof -
  have "(routine id)\<^sup>*\<^sup>* en_db (snd (stream_frame [] en_beat ''d9'' 7 en_db))" using en_frame by (auto simp: routine_def)
  from held_until_decided [OF en_facts(1) this en_facts(2)] show ?thesis by (auto simp: en_facts)
qed

lemma refused_reenroll_burns_tokens_witness:
  "fst (reenroll_call id default_tenant ''d1'' ''new'' ''k2'' 5 en_db) = 409"
  using refused_reenroll_burns_tokens [OF en_facts(1,8,9) en_facts(2) _ en_facts(3), of id "''new''" "''k2''" 5]
  by (simp add: en_facts(4,7) not_enrollable_statuses_def en_token_def blank_token_def)

lemma reenroll_only_in_default_tenant_witness:
  "reenroll_call id ''t2'' ''d2'' ''new'' ''k2'' 5 \<lparr>en_devices = [blank_device ''d2'' ''t2'' ''h'' ''Linux'' ''active''], en_tokens = [], en_members = [], en_revoked = []\<rparr>
     = (500, \<lparr>en_devices = [blank_device ''d2'' ''t2'' ''h'' ''Linux'' ''active''], en_tokens = [], en_members = [], en_revoked = []\<rparr>)"
  using reenroll_only_in_default_tenant [of "''t2''" "blank_device ''d2'' ''t2'' ''h'' ''Linux'' ''active''"
      "\<lparr>en_devices = [blank_device ''d2'' ''t2'' ''h'' ''Linux'' ''active''], en_tokens = [], en_members = [], en_revoked = []\<rparr>" id "''new''" "''k2''" 5]
  by (simp add: default_tenant_def nil_tenant_def not_enrollable_statuses_def)

lemma deleted_device_returns_active_witness:
  "status_by_fp (snd (stream_frame [] en_beat ''d9'' 7
     (snd (delete_device \<lparr>cx_tx = None, cx_tenant = default_tenant\<rparr> default_tenant ''d1'' False en_db)))) ''f1'' = ''active''"
proof -
  obtain r db1 where 1: "delete_device \<lparr>cx_tx = None, cx_tenant = default_tenant\<rparr> default_tenant ''d1'' False en_db = (r, db1)" by force
  obtain b db2 where 2: "stream_frame [] en_beat ''d9'' 7 db1 = (b, db2)" by force
  show ?thesis
    using deleted_device_returns_active [OF en_facts(1,2) _ en_facts(6,8,9), of r db1 en_beat "[]" "''d9''" 7 b db2] 1 2
    by (simp add: en_facts(4,5) en_beat_def)
qed

end
