(* ===== verification/PolicyStore.thy ===== *)
theory PolicyStore
  imports ServerTasks ScriptOutput
begin

section \<open>Scripts, policies and groups on the server\<close>

text \<open>
  Model of the tables \<open>scripts\<close>, \<open>policies\<close>, \<open>device_groups\<close>, \<open>device_group_members\<close>,
  \<open>policy_assignments\<close> and \<open>software_policy_rules\<close>, of the operations of
  \<open>internal/server/storage/postgres.go\<close> on them and of the handlers of the panel that call these
  (\<open>internal/server/api/handler.go\<close>, \<open>scripts_handler.go\<close>, \<open>script_policies_handler.go\<close>).

  The constraints of the schema are part of the operations: the unique names (migration 045 on
  \<open>lower(btrim(name))\<close> of a tenant), the names that must not be blank (026, 033), the references
  with their cascades, the row-level security of 046.  A configuration in JSON is kept as the
  document that matters: none, one that is no object of the expected shape, or an object with the
  one field that is read.
\<close>

subsection \<open>Rows\<close>

datatype cfg_doc = NoDoc | NotObject | Obj "string option"

record script_row =
  sc_id :: string
  sc_tenant :: string
  sc_name :: string
  sc_platform :: string
  sc_content :: string
  sc_created :: nanos
  sc_updated :: nanos

record policy_row =
  pl_id :: string
  pl_tenant :: string
  pl_name :: string
  pl_script :: string
  pl_trigger :: string
  pl_schedule :: cfg_doc
  pl_event :: cfg_doc
  pl_active :: bool
  pl_created :: nanos
  pl_updated :: nanos

record group_row =
  gr_id :: string
  gr_tenant :: string
  gr_name :: string
  gr_color :: string
  gr_channel :: string
  gr_created :: nanos

record assign_row =
  as_policy :: string
  as_group :: string
  as_tenant :: string

record rule_row =
  ru_id :: string
  ru_tenant :: string
  ru_name :: string
  ru_type :: string
  ru_device :: "string option"
  ru_group :: "string option"
  ru_platforms :: "string list"
  ru_updated :: nanos

record policy_db =
  pd_base :: server_db
  pd_scripts :: "script_row list"
  pd_policies :: "policy_row list"
  pd_groups :: "group_row list"
  pd_assigns :: "assign_row list"
  pd_rules :: "rule_row list"

datatype policy_error = PoStore store_error | PoDuplicate | PoForeignKey | PoInUse | PoBadChannel

type_synonym 'a kept = "policy_error + ('a \<times> policy_db)"

text \<open>\<open>btrim\<close> removes blanks only.\<close>

definition btrim :: "string \<Rightarrow> string" where
  "btrim s = rev (dropWhile (\<lambda>c. c = CHR '' '') (rev (dropWhile (\<lambda>c. c = CHR '' '') s)))"

definition name_key :: "string \<Rightarrow> string" where
  "name_key n = to_lower (btrim n)"

definition visible :: "string \<times> string \<Rightarrow> string \<Rightarrow> bool" where
  "visible sp tn \<longleftrightarrow> tn = fst sp \<and> tn = snd sp"

text \<open>The frame of an operation that takes its tenant as an argument, and an insertion under row-level security.\<close>

definition scoped_op :: "scope_ctx \<Rightarrow> string \<Rightarrow> (string \<times> string \<Rightarrow> 'a kept) \<Rightarrow> 'a kept" where
  "scoped_op cx t op = (case arg_scope cx t of Inl e \<Rightarrow> Inl (PoStore e) | Inr sp \<Rightarrow> op sp)"

definition named_insert :: "string \<times> string \<Rightarrow> string \<Rightarrow> (string \<times> string) list \<Rightarrow> 'a kept \<Rightarrow> 'a kept" where
  "named_insert sp n taken ins =
     (if fst sp \<noteq> snd sp then Inl (PoStore RlsViolation)
      else if btrim n = [] then Inl (PoStore StatementFailed)
      else if (fst sp, name_key n) \<in> set taken then Inl PoDuplicate else ins)"

definition script_names :: "script_row list \<Rightarrow> (string \<times> string) list" where
  "script_names rs = map (\<lambda>r. (sc_tenant r, name_key (sc_name r))) rs"

definition policy_names :: "policy_row list \<Rightarrow> (string \<times> string) list" where
  "policy_names rs = map (\<lambda>r. (pl_tenant r, name_key (pl_name r))) rs"

definition group_names :: "group_row list \<Rightarrow> (string \<times> string) list" where
  "group_names rs = map (\<lambda>r. (gr_tenant r, name_key (gr_name r))) rs"

subsection \<open>Scripts\<close>

definition list_scripts :: "scope_ctx \<Rightarrow> string \<Rightarrow> policy_db \<Rightarrow> script_row list kept" where
  "list_scripts cx t db = scoped_op cx t (\<lambda>sp.
     Inr (sort_key (\<lambda>r. - sc_created r) (filter (\<lambda>r. visible sp (sc_tenant r)) (pd_scripts db)), db))"

definition create_script :: "scope_ctx \<Rightarrow> string \<Rightarrow> string \<Rightarrow> nanos \<Rightarrow> string \<Rightarrow> string \<Rightarrow> string \<Rightarrow> policy_db \<Rightarrow> script_row kept" where
  "create_script cx t i now n plat content db = scoped_op cx t (\<lambda>sp.
     let r = \<lparr>sc_id = i, sc_tenant = fst sp, sc_name = n, sc_platform = plat, sc_content = content,
              sc_created = now, sc_updated = now\<rparr>
     in named_insert sp n (script_names (pd_scripts db)) (Inr (r, db\<lparr>pd_scripts := pd_scripts db @ [r]\<rparr>)))"

definition script_of :: "string \<times> string \<Rightarrow> string \<Rightarrow> policy_db \<Rightarrow> script_row option" where
  "script_of sp i db = find (\<lambda>r. visible sp (sc_tenant r) \<and> sc_id r = i) (pd_scripts db)"

definition get_script :: "scope_ctx \<Rightarrow> string \<Rightarrow> string \<Rightarrow> policy_db \<Rightarrow> script_row option kept" where
  "get_script cx t i db = scoped_op cx t (\<lambda>sp. Inr (script_of sp i db, db))"

definition update_script :: "scope_ctx \<Rightarrow> string \<Rightarrow> string \<Rightarrow> nanos \<Rightarrow> string \<Rightarrow> string \<Rightarrow> string \<Rightarrow> policy_db
    \<Rightarrow> script_row option kept" where
  "update_script cx t i now n plat content db = scoped_op cx t (\<lambda>sp.
     case script_of sp i db of None \<Rightarrow> Inr (None, db)
     | Some r0 \<Rightarrow>
         (let r = r0\<lparr>sc_name := n, sc_platform := plat, sc_content := content, sc_updated := now\<rparr>;
              others = filter (\<lambda>x. sc_id x \<noteq> i) (pd_scripts db)
          in named_insert sp n (script_names others)
               (Inr (Some r, db\<lparr>pd_scripts := update_where (\<lambda>x. visible sp (sc_tenant x) \<and> sc_id x = i) (\<lambda>_. r) (pd_scripts db)\<rparr>))))"

text \<open>A policy that names the script keeps it: the reference has no cascade.\<close>

definition delete_script :: "scope_ctx \<Rightarrow> string \<Rightarrow> string \<Rightarrow> policy_db \<Rightarrow> unit kept" where
  "delete_script cx t i db = scoped_op cx t (\<lambda>sp.
     case script_of sp i db of None \<Rightarrow> Inr ((), db)
     | Some r \<Rightarrow> if list_ex (\<lambda>p. pl_script p = i) (pd_policies db) then Inl PoInUse
         else Inr ((), db\<lparr>pd_scripts := filter (\<lambda>x. \<not> (visible sp (sc_tenant x) \<and> sc_id x = i)) (pd_scripts db)\<rparr>))"

subsection \<open>Script policies\<close>

text \<open>\<open>nullableJSON\<close> keeps an absent document as NULL, which is \<open>NoDoc\<close> here.\<close>

definition list_script_policies :: "scope_ctx \<Rightarrow> string \<Rightarrow> policy_db \<Rightarrow> (policy_row \<times> string \<times> string list) list kept" where
  "list_script_policies cx t db = scoped_op cx t (\<lambda>sp.
     Inr (map (\<lambda>p. (p,
            (case script_of sp (pl_script p) db of None \<Rightarrow> [] | Some s \<Rightarrow> sc_name s),
            sort (concat (map (\<lambda>a. map gr_name (filter (\<lambda>g. gr_tenant g = snd sp \<and> gr_id g = as_group a) (pd_groups db)))
                (filter (\<lambda>a. visible sp (as_tenant a) \<and> as_policy a = pl_id p) (pd_assigns db))))))
          (sort_key (\<lambda>p. - pl_created p) (filter (\<lambda>p. visible sp (pl_tenant p)) (pd_policies db))), db))"

definition create_script_policy :: "scope_ctx \<Rightarrow> string \<Rightarrow> string \<Rightarrow> nanos \<Rightarrow> string \<Rightarrow> string \<Rightarrow> string \<Rightarrow> cfg_doc \<Rightarrow> cfg_doc
    \<Rightarrow> policy_db \<Rightarrow> policy_row option kept" where
  "create_script_policy cx t i now n sid trig sched ev db = scoped_op cx t (\<lambda>sp.
     case script_of sp sid db of None \<Rightarrow> Inr (None, db)
     | Some s \<Rightarrow>
         (let p = \<lparr>pl_id = i, pl_tenant = fst sp, pl_name = n, pl_script = sid, pl_trigger = trig, pl_schedule = sched,
                   pl_event = ev, pl_active = True, pl_created = now, pl_updated = now\<rparr>
          in named_insert sp n (policy_names (pd_policies db)) (Inr (Some p, db\<lparr>pd_policies := pd_policies db @ [p]\<rparr>))))"

definition policy_of :: "string \<times> string \<Rightarrow> string \<Rightarrow> policy_db \<Rightarrow> policy_row option" where
  "policy_of sp i db = find (\<lambda>r. visible sp (pl_tenant r) \<and> pl_id r = i) (pd_policies db)"

text \<open>The statement leaves \<open>updated_at\<close> as it was; no trigger sets it.\<close>

definition update_script_policy :: "scope_ctx \<Rightarrow> string \<Rightarrow> string \<Rightarrow> string \<Rightarrow> string \<Rightarrow> string \<Rightarrow> cfg_doc \<Rightarrow> cfg_doc
    \<Rightarrow> policy_db \<Rightarrow> policy_row option kept" where
  "update_script_policy cx t i n sid trig sched ev db = scoped_op cx t (\<lambda>sp.
     case (policy_of sp i db, script_of sp sid db) of
       (Some p0, Some s) \<Rightarrow>
         (let p = p0\<lparr>pl_name := n, pl_script := sid, pl_trigger := trig, pl_schedule := sched, pl_event := ev\<rparr>;
              others = filter (\<lambda>x. pl_id x \<noteq> i) (pd_policies db)
          in named_insert sp n (policy_names others)
               (Inr (Some p, db\<lparr>pd_policies := update_where (\<lambda>x. visible sp (pl_tenant x) \<and> pl_id x = i) (\<lambda>_. p) (pd_policies db)\<rparr>)))
     | _ \<Rightarrow> Inr (None, db))"

definition toggle_script_policy :: "scope_ctx \<Rightarrow> string \<Rightarrow> string \<Rightarrow> bool \<Rightarrow> policy_db \<Rightarrow> unit kept" where
  "toggle_script_policy cx t i act db = scoped_op cx t (\<lambda>sp.
     Inr ((), db\<lparr>pd_policies := update_where (\<lambda>x. visible sp (pl_tenant x) \<and> pl_id x = i) (\<lambda>x. x\<lparr>pl_active := act\<rparr>) (pd_policies db)\<rparr>))"

definition delete_script_policy :: "scope_ctx \<Rightarrow> string \<Rightarrow> string \<Rightarrow> policy_db \<Rightarrow> unit kept" where
  "delete_script_policy cx t i db = scoped_op cx t (\<lambda>sp.
     case policy_of sp i db of None \<Rightarrow> Inr ((), db)
     | Some p \<Rightarrow> Inr ((), db\<lparr>pd_policies := filter (\<lambda>x. \<not> (visible sp (pl_tenant x) \<and> pl_id x = i)) (pd_policies db),
                              pd_assigns := filter (\<lambda>a. as_policy a \<noteq> i) (pd_assigns db)\<rparr>))"

subsection \<open>Groups\<close>

definition channel_stable :: string where "channel_stable = ''stable''"
definition channel_beta :: string where "channel_beta = ''beta''"

definition valid_channel :: "string \<Rightarrow> bool" where
  "valid_channel c \<longleftrightarrow> c = channel_stable \<or> c = channel_beta"

definition default_group_color :: string where "default_group_color = ''#3b82f6''"

definition or_else :: "string \<Rightarrow> string \<Rightarrow> string" where
  "or_else a b = (if a = [] then b else a)"

definition create_device_group :: "scope_ctx \<Rightarrow> string \<Rightarrow> string \<Rightarrow> nanos \<Rightarrow> string \<Rightarrow> string \<Rightarrow> string \<Rightarrow> policy_db \<Rightarrow> group_row kept" where
  "create_device_group cx t i now n color ch db =
     (if ch \<noteq> [] \<and> \<not> valid_channel ch then Inl PoBadChannel
      else scoped_op cx t (\<lambda>sp.
        let g = \<lparr>gr_id = i, gr_tenant = fst sp, gr_name = n, gr_color = or_else color default_group_color,
                 gr_channel = or_else ch channel_stable, gr_created = now\<rparr>
        in named_insert sp n (group_names (pd_groups db)) (Inr (g, db\<lparr>pd_groups := pd_groups db @ [g]\<rparr>))))"

definition group_of :: "string \<times> string \<Rightarrow> string \<Rightarrow> policy_db \<Rightarrow> group_row option" where
  "group_of sp i db = find (\<lambda>r. visible sp (gr_tenant r) \<and> gr_id r = i) (pd_groups db)"

definition update_device_group :: "scope_ctx \<Rightarrow> string \<Rightarrow> string \<Rightarrow> string \<Rightarrow> string \<Rightarrow> string \<Rightarrow> policy_db \<Rightarrow> group_row option kept" where
  "update_device_group cx t i n color ch db =
     (if ch \<noteq> [] \<and> \<not> valid_channel ch then Inl PoBadChannel
      else scoped_op cx t (\<lambda>sp.
        case group_of sp i db of None \<Rightarrow> Inr (None, db)
        | Some g0 \<Rightarrow>
            (let g = g0\<lparr>gr_name := or_else n (gr_name g0), gr_color := or_else color (gr_color g0),
                        gr_channel := or_else ch (gr_channel g0)\<rparr>;
                 others = filter (\<lambda>x. gr_id x \<noteq> i) (pd_groups db)
             in named_insert sp (gr_name g) (group_names others)
                  (Inr (Some g, db\<lparr>pd_groups := update_where (\<lambda>x. visible sp (gr_tenant x) \<and> gr_id x = i) (\<lambda>_. g) (pd_groups db)\<rparr>)))))"

definition device_group_exists :: "scope_ctx \<Rightarrow> string \<Rightarrow> string \<Rightarrow> policy_db \<Rightarrow> bool kept" where
  "device_group_exists cx t i db = scoped_op cx t (\<lambda>sp. Inr (group_of sp i db \<noteq> None, db))"

definition update_members :: "(member_row list \<Rightarrow> member_row list) \<Rightarrow> policy_db \<Rightarrow> policy_db" where
  "update_members f db = db\<lparr>pd_base := (pd_base db)\<lparr>db_members := f (db_members (pd_base db))\<rparr>\<rparr>"

definition delete_device_group :: "scope_ctx \<Rightarrow> string \<Rightarrow> string \<Rightarrow> policy_db \<Rightarrow> unit kept" where
  "delete_device_group cx t i db = scoped_op cx t (\<lambda>sp.
     case group_of sp i db of None \<Rightarrow> Inr ((), db)
     | Some g \<Rightarrow> Inr ((), update_members (filter (\<lambda>m. gm_group m \<noteq> i))
         (db\<lparr>pd_groups := filter (\<lambda>x. \<not> (visible sp (gr_tenant x) \<and> gr_id x = i)) (pd_groups db),
             pd_assigns := filter (\<lambda>a. as_group a \<noteq> i) (pd_assigns db),
             pd_rules := filter (\<lambda>r. ru_group r \<noteq> Some i) (pd_rules db)\<rparr>)))"

definition add_device_to_group :: "scope_ctx \<Rightarrow> string \<Rightarrow> string \<Rightarrow> string \<Rightarrow> policy_db \<Rightarrow> unit kept" where
  "add_device_to_group cx t dev g db = scoped_op cx t (\<lambda>sp.
     if \<not> (list_ex (\<lambda>d. visible sp (dv_tenant d) \<and> dv_id d = dev) (db_devices (pd_base db)) \<and> group_of sp g db \<noteq> None)
     then Inl PoForeignKey
     else if list_ex (\<lambda>m. gm_device m = dev \<and> gm_group m = g) (db_members (pd_base db)) then Inr ((), db)
     else Inr ((), update_members (\<lambda>ms. ms @ [\<lparr>gm_group = g, gm_device = dev, gm_tenant = fst sp\<rparr>]) db))"

definition remove_device_from_group :: "scope_ctx \<Rightarrow> string \<Rightarrow> string \<Rightarrow> string \<Rightarrow> policy_db \<Rightarrow> unit kept" where
  "remove_device_from_group cx t dev g db = scoped_op cx t (\<lambda>sp.
     Inr ((), update_members (filter (\<lambda>m. \<not> (visible sp (gm_tenant m) \<and> gm_device m = dev \<and> gm_group m = g))) db))"

text \<open>The table of assignments has no key on the pair, so that \<open>ON CONFLICT DO NOTHING\<close> never applies.\<close>

definition assign_policy_to_group :: "scope_ctx \<Rightarrow> string \<Rightarrow> string \<Rightarrow> string \<Rightarrow> policy_db \<Rightarrow> unit kept" where
  "assign_policy_to_group cx t p g db = scoped_op cx t (\<lambda>sp.
     if policy_of sp p db = None \<or> group_of sp g db = None then Inl PoForeignKey
     else Inr ((), db\<lparr>pd_assigns := pd_assigns db @ [\<lparr>as_policy = p, as_group = g, as_tenant = fst sp\<rparr>]\<rparr>))"

definition unassign_policy_from_group :: "scope_ctx \<Rightarrow> string \<Rightarrow> string \<Rightarrow> string \<Rightarrow> policy_db \<Rightarrow> unit kept" where
  "unassign_policy_from_group cx t p g db = scoped_op cx t (\<lambda>sp.
     Inr ((), db\<lparr>pd_assigns := filter (\<lambda>a. \<not> (visible sp (as_tenant a) \<and> as_policy a = p \<and> as_group a = g)) (pd_assigns db)\<rparr>))"

definition list_device_groups :: "scope_ctx \<Rightarrow> string \<Rightarrow> policy_db
    \<Rightarrow> (group_row \<times> string list \<times> string list \<times> (string \<times> string \<times> string) list) list kept" where
  "list_device_groups cx t db = scoped_op cx t (\<lambda>sp.
     Inr (map (\<lambda>g. (g,
            map gm_device (filter (\<lambda>m. visible sp (gm_tenant m) \<and> gm_group m = gr_id g) (db_members (pd_base db))),
            map as_policy (filter (\<lambda>a. visible sp (as_tenant a) \<and> as_group a = gr_id g) (pd_assigns db)),
            map (\<lambda>r. (ru_id r, ru_name r, ru_type r))
              (filter (\<lambda>r. visible sp (ru_tenant r) \<and> ru_group r = Some (gr_id g)) (pd_rules db))))
          (sort_key (\<lambda>g. - gr_created g) (filter (\<lambda>g. visible sp (gr_tenant g)) (pd_groups db))), db))"

text \<open>The update channel of a device is the newest of its groups; the scope is that of the device.\<close>

definition resolve_device_channel :: "scope_ctx \<Rightarrow> string \<Rightarrow> policy_db \<Rightarrow> store_error + string" where
  "resolve_device_channel cx dev db = (case bind_for_device cx (pd_base db) dev of Inl e \<Rightarrow> Inl e
     | Inr b \<Rightarrow> Inr (if list_ex (\<lambda>m. gm_tenant m = b \<and> gm_device m = dev \<and>
            list_ex (\<lambda>g. gr_tenant g = b \<and> gr_id g = gm_group m \<and> gr_channel g = channel_beta) (pd_groups db))
          (db_members (pd_base db)) then channel_beta else channel_stable))"

subsection \<open>Rules on software\<close>

text \<open>A NULL array of platforms and an empty one are the empty list.  A device rule needs an existing device
  of any tenant: the check of a reference is not subject to row-level security.\<close>

definition create_policy_rule :: "scope_ctx \<Rightarrow> string \<Rightarrow> string \<Rightarrow> nanos \<Rightarrow> string \<Rightarrow> string \<Rightarrow> string option \<Rightarrow> string list
    \<Rightarrow> policy_db \<Rightarrow> rule_row kept" where
  "create_policy_rule cx t i now n ty dev plats db = scoped_op cx t (\<lambda>sp.
     let r = \<lparr>ru_id = i, ru_tenant = fst sp, ru_name = n, ru_type = ty, ru_device = dev, ru_group = None,
              ru_platforms = plats, ru_updated = now\<rparr>
     in if fst sp \<noteq> snd sp then Inl (PoStore RlsViolation)
        else if dev \<noteq> None \<and> \<not> list_ex (\<lambda>d. Some (dv_id d) = dev) (db_devices (pd_base db)) then Inl (PoStore StatementFailed)
        else Inr (r, db\<lparr>pd_rules := pd_rules db @ [r]\<rparr>))"

definition list_policy_rules :: "scope_ctx \<Rightarrow> string \<Rightarrow> policy_db \<Rightarrow> rule_row list kept" where
  "list_policy_rules cx t db = scoped_op cx t (\<lambda>sp.
     Inr (sort_key (\<lambda>r. - ru_updated r) (filter (\<lambda>r. visible sp (ru_tenant r)) (pd_rules db)), db))"

definition delete_policy_rule :: "scope_ctx \<Rightarrow> string \<Rightarrow> string \<Rightarrow> policy_db \<Rightarrow> unit kept" where
  "delete_policy_rule cx t i db = scoped_op cx t (\<lambda>sp.
     Inr ((), db\<lparr>pd_rules := filter (\<lambda>r. \<not> (visible sp (ru_tenant r) \<and> ru_id r = i)) (pd_rules db)\<rparr>))"

definition assign_software_to_group :: "scope_ctx \<Rightarrow> string \<Rightarrow> string \<Rightarrow> nanos \<Rightarrow> string \<Rightarrow> string \<Rightarrow> string \<Rightarrow> policy_db \<Rightarrow> rule_row kept" where
  "assign_software_to_group cx t i now g n ty db = scoped_op cx t (\<lambda>sp.
     if group_of sp g db = None then Inl PoForeignKey
     else let r = \<lparr>ru_id = i, ru_tenant = fst sp, ru_name = n, ru_type = ty, ru_device = None, ru_group = Some g,
                   ru_platforms = [], ru_updated = now\<rparr>
          in Inr (r, db\<lparr>pd_rules := pd_rules db @ [r]\<rparr>))"

definition unassign_software_from_group :: "scope_ctx \<Rightarrow> string \<Rightarrow> string \<Rightarrow> string \<Rightarrow> policy_db \<Rightarrow> unit kept" where
  "unassign_software_from_group cx t g i db = scoped_op cx t (\<lambda>sp.
     Inr ((), db\<lparr>pd_rules := filter (\<lambda>r. \<not> (visible sp (ru_tenant r) \<and> ru_id r = i \<and> ru_group r = Some g)) (pd_rules db)\<rparr>))"

subsection \<open>Checks of the panel\<close>

text \<open>A control character is one rune of one byte, so that the loop over runes is one over bytes here.\<close>

definition sanitize_software_name :: "string \<Rightarrow> string option" where
  "sanitize_software_name s0 =
     (let s = trim_space s0
      in if s = [] \<or> prefix ''#'' s then None
         else if list_ex (\<lambda>c. (of_char c :: nat) < 32 \<or> (of_char c :: nat) = 127) s then None else Some s)"

definition canonical_platform :: "string \<Rightarrow> string option" where
  "canonical_platform p =
     (let l = to_lower (trim_space p)
      in if l = ''macos'' then Some ''macOS'' else if l = ''windows'' then Some ''Windows''
         else if l = ''linux'' then Some ''Linux'' else None)"

fun collect_platforms :: "string list \<Rightarrow> string list \<Rightarrow> string list option" where
  "collect_platforms acc [] = Some acc"
| "collect_platforms acc (x # xs) = (case canonical_platform x of None \<Rightarrow> None
     | Some p \<Rightarrow> collect_platforms (if p \<in> set acc then acc else acc @ [p]) xs)"

definition max_group_name_len :: nat where "max_group_name_len = 128"

definition normalize_update_channel :: "string \<Rightarrow> string option" where
  "normalize_update_channel c0 =
     (let c = trim_space c0 in if c = [] then Some [] else if valid_channel c then Some c else None)"

definition is_hex :: "char \<Rightarrow> bool" where
  "is_hex c \<longleftrightarrow> (let n = (of_char c :: nat) in (48 \<le> n \<and> n \<le> 57) \<or> (97 \<le> n \<and> n \<le> 102) \<or> (65 \<le> n \<and> n \<le> 70))"

definition hex_color :: "string \<Rightarrow> bool" where
  "hex_color c \<longleftrightarrow> (case c of [] \<Rightarrow> False | h # ds \<Rightarrow> h = CHR ''#'' \<and> length ds = 6 \<and> list_all is_hex ds)"

definition normalize_group_color :: "string \<Rightarrow> string option" where
  "normalize_group_color c0 =
     (let c = trim_space c0 in if c = [] then Some [] else if hex_color c then Some (to_lower c) else None)"

text \<open>\<open>utf8.RuneCountInString\<close>: a byte that starts no rune counts as one.\<close>

function rune_count :: "string \<Rightarrow> nat" where
  "rune_count [] = 0"
| "rune_count (c # s) = Suc (rune_count (drop (rune_len (c # s) - 1) s))"
  by pat_completeness auto
termination by (relation "measure length") (auto simp del: rune_len.simps)

text \<open>\<open>cron_ok\<close> is the parser of the cron library that the agent uses as well.\<close>

definition validate_schedule_config :: "(string \<Rightarrow> bool) \<Rightarrow> string \<Rightarrow> cfg_doc \<Rightarrow> bool" where
  "validate_schedule_config cron_ok trig doc =
     (if trig \<noteq> ''schedule'' then True
      else (case doc of NotObject \<Rightarrow> False
        | NoDoc \<Rightarrow> False
        | Obj f \<Rightarrow> (let c = trim_space (case f of None \<Rightarrow> [] | Some c \<Rightarrow> c) in c \<noteq> [] \<and> cron_ok c)))"

subsection \<open>The calls of the panel\<close>

text \<open>
  A call of the panel runs in the tenant of its session; its result is the status code and the
  database.  A code of 500 is also what the recovering middleware answers to a panic.  \<open>who\<close> is the
  operator named in the journal.
\<close>

definition panel :: "string \<Rightarrow> scope_ctx" where "panel t = \<lparr>cx_tx = None, cx_tenant = t\<rparr>"

definition audited :: "string \<Rightarrow> string \<Rightarrow> string \<Rightarrow> string \<Rightarrow> policy_db \<Rightarrow> policy_db" where
  "audited t who action obj db = db\<lparr>pd_base := write_audit t who action obj (pd_base db)\<rparr>"

definition error_code :: "policy_error \<Rightarrow> nat" where
  "error_code e = (case e of PoDuplicate \<Rightarrow> 409 | PoForeignKey \<Rightarrow> 400 | PoInUse \<Rightarrow> 409 | _ \<Rightarrow> 500)"

definition create_policy_call :: "string \<Rightarrow> string \<Rightarrow> string \<Rightarrow> nanos \<Rightarrow> string \<Rightarrow> string \<Rightarrow> string option \<Rightarrow> string list
    \<Rightarrow> policy_db \<Rightarrow> nat \<times> policy_db" where
  "create_policy_call t who i now n0 ty dev plats0 db = (case sanitize_software_name n0 of None \<Rightarrow> (400, db)
     | Some n \<Rightarrow>
         if ty \<noteq> ''allowed'' \<and> ty \<noteq> ''forbidden'' then (400, db)
         else (case collect_platforms [] plats0 of None \<Rightarrow> (400, db)
           | Some plats \<Rightarrow>
               (case create_policy_rule (panel t) t i now n ty dev (if 3 \<le> length plats then [] else plats) db of
                  Inl e \<Rightarrow> (500, db)
                | Inr (r, db1) \<Rightarrow> (201, audited t who ''create_policy'' (ru_id r) db1))))"

definition delete_policy_call :: "string \<Rightarrow> string \<Rightarrow> string \<Rightarrow> policy_db \<Rightarrow> nat \<times> policy_db" where
  "delete_policy_call t who i db = (case delete_policy_rule (panel t) t i db of
     Inl e \<Rightarrow> (500, db) | Inr (_, db1) \<Rightarrow> (204, audited t who ''delete_policy'' i db1))"

definition assign_software_call :: "string \<Rightarrow> string \<Rightarrow> string \<Rightarrow> nanos \<Rightarrow> string \<Rightarrow> string \<Rightarrow> string \<Rightarrow> policy_db \<Rightarrow> nat \<times> policy_db" where
  "assign_software_call t who i now g n0 ty db = (case sanitize_software_name n0 of None \<Rightarrow> (400, db)
     | Some n \<Rightarrow>
         if ty \<noteq> ''allowed'' \<and> ty \<noteq> ''forbidden'' then (400, db)
         else (case assign_software_to_group (panel t) t i now g n ty db of
             Inl e \<Rightarrow> (error_code e, db)
           | Inr (r, db1) \<Rightarrow> (201, audited t who ''assign_software_policy_to_group'' g db1)))"

definition unassign_software_call :: "string \<Rightarrow> string \<Rightarrow> string \<Rightarrow> string \<Rightarrow> policy_db \<Rightarrow> nat \<times> policy_db" where
  "unassign_software_call t who g i db = (case unassign_software_from_group (panel t) t g i db of
     Inl e \<Rightarrow> (500, db) | Inr (_, db1) \<Rightarrow> (204, audited t who ''unassign_software_policy_from_group'' g db1))"

definition create_script_call :: "string \<Rightarrow> string \<Rightarrow> string \<Rightarrow> nanos \<Rightarrow> string \<Rightarrow> string \<Rightarrow> string \<Rightarrow> policy_db \<Rightarrow> nat \<times> policy_db" where
  "create_script_call t who i now n plat content db =
     (if n = [] \<or> plat = [] \<or> content = [] then (400, db)
      else (case canonical_platform plat of None \<Rightarrow> (400, db)
        | Some p \<Rightarrow> (case create_script (panel t) t i now n p content db of
              Inl e \<Rightarrow> (if e = PoDuplicate then 409 else 500, db)
            | Inr (r, db1) \<Rightarrow> (201, audited t who ''create_script'' (sc_id r) db1))))"

definition get_script_call :: "string \<Rightarrow> string \<Rightarrow> policy_db \<Rightarrow> nat \<times> script_row option" where
  "get_script_call t i db = (case get_script (panel t) t i db of
     Inl e \<Rightarrow> (500, None) | Inr (None, _) \<Rightarrow> (404, None) | Inr (Some r, _) \<Rightarrow> (200, Some r))"

definition update_script_call :: "string \<Rightarrow> string \<Rightarrow> string \<Rightarrow> nanos \<Rightarrow> string \<Rightarrow> string \<Rightarrow> string \<Rightarrow> policy_db \<Rightarrow> nat \<times> policy_db" where
  "update_script_call t who i now n plat content db =
     (if n = [] \<or> plat = [] \<or> content = [] then (400, db)
      else (case canonical_platform plat of None \<Rightarrow> (400, db)
        | Some p \<Rightarrow> (case update_script (panel t) t i now n p content db of
              Inl e \<Rightarrow> (if e = PoDuplicate then 409 else 500, db)
            | Inr (None, _) \<Rightarrow> (404, db)
            | Inr (Some r, db1) \<Rightarrow> (200, audited t who ''update_script'' (sc_id r) db1))))"

definition delete_script_call :: "string \<Rightarrow> string \<Rightarrow> string \<Rightarrow> policy_db \<Rightarrow> nat \<times> policy_db" where
  "delete_script_call t who i db = (case delete_script (panel t) t i db of
     Inl e \<Rightarrow> (if e = PoInUse then 409 else 500, db)
   | Inr (_, db1) \<Rightarrow> (204, audited t who ''delete_script'' i db1))"

definition known_trigger :: "string \<Rightarrow> bool" where
  "known_trigger t \<longleftrightarrow> t = ''schedule'' \<or> t = ''event_trigger'' \<or> t = ''on_connect''"

text \<open>The handler of creation uses the policy without asking whether there is one: with no such script
  in the tenant the pointer is nil, and the panic becomes a 500.\<close>

definition create_script_policy_call :: "(string \<Rightarrow> bool) \<Rightarrow> string \<Rightarrow> string \<Rightarrow> string \<Rightarrow> nanos \<Rightarrow> string \<Rightarrow> string \<Rightarrow> string
    \<Rightarrow> cfg_doc \<Rightarrow> cfg_doc \<Rightarrow> policy_db \<Rightarrow> nat \<times> policy_db" where
  "create_script_policy_call cron_ok t who i now n sid trig sched ev db =
     (if n = [] \<or> sid = [] \<or> trig = [] then (400, db)
      else if \<not> known_trigger trig then (400, db)
      else if \<not> validate_schedule_config cron_ok trig sched then (400, db)
      else (case create_script_policy (panel t) t i now n sid trig sched ev db of
          Inl e \<Rightarrow> (error_code e, db)
        | Inr (None, _) \<Rightarrow> (500, db)
        | Inr (Some p, db1) \<Rightarrow> (201, audited t who ''create_script_policy'' (pl_id p) db1)))"

definition update_script_policy_call :: "(string \<Rightarrow> bool) \<Rightarrow> string \<Rightarrow> string \<Rightarrow> string \<Rightarrow> string \<Rightarrow> string \<Rightarrow> string
    \<Rightarrow> cfg_doc \<Rightarrow> cfg_doc \<Rightarrow> policy_db \<Rightarrow> nat \<times> policy_db" where
  "update_script_policy_call cron_ok t who i n sid trig sched ev db =
     (if n = [] \<or> sid = [] \<or> trig = [] then (400, db)
      else if \<not> known_trigger trig then (400, db)
      else if \<not> validate_schedule_config cron_ok trig sched then (400, db)
      else (case update_script_policy (panel t) t i n sid trig sched ev db of
          Inl e \<Rightarrow> (error_code e, db)
        | Inr (None, _) \<Rightarrow> (404, db)
        | Inr (Some p, db1) \<Rightarrow> (200, audited t who ''update_script_policy'' (pl_id p) db1)))"

definition delete_script_policy_call :: "string \<Rightarrow> string \<Rightarrow> string \<Rightarrow> policy_db \<Rightarrow> nat \<times> policy_db" where
  "delete_script_policy_call t who i db = (case delete_script_policy (panel t) t i db of
     Inl e \<Rightarrow> (500, db) | Inr (_, db1) \<Rightarrow> (204, audited t who ''delete_script_policy'' i db1))"

definition toggle_script_policy_call :: "string \<Rightarrow> string \<Rightarrow> string \<Rightarrow> bool \<Rightarrow> policy_db \<Rightarrow> nat \<times> policy_db" where
  "toggle_script_policy_call t who i act db = (case toggle_script_policy (panel t) t i act db of
     Inl e \<Rightarrow> (500, db)
   | Inr (_, db1) \<Rightarrow> (200, audited t who (if act then ''enable_script_policy'' else ''disable_script_policy'') i db1))"

definition create_group_call :: "string \<Rightarrow> string \<Rightarrow> string \<Rightarrow> nanos \<Rightarrow> string \<Rightarrow> string \<Rightarrow> string \<Rightarrow> policy_db \<Rightarrow> nat \<times> policy_db" where
  "create_group_call t who i now n0 color0 ch0 db =
     (let n = trim_space n0
      in if n = [] then (400, db)
         else if max_group_name_len < rune_count n then (400, db)
         else (case normalize_group_color color0 of None \<Rightarrow> (400, db)
           | Some color \<Rightarrow> (case normalize_update_channel ch0 of None \<Rightarrow> (400, db)
             | Some ch \<Rightarrow> (case create_device_group (panel t) t i now n color ch db of
                   Inl e \<Rightarrow> (if e = PoDuplicate then 409 else 500, db)
                 | Inr (g, db1) \<Rightarrow> (201, audited t who ''create_device_group'' (gr_id g) db1)))))"

definition update_group_call :: "string \<Rightarrow> string \<Rightarrow> string \<Rightarrow> string \<Rightarrow> string \<Rightarrow> string \<Rightarrow> policy_db \<Rightarrow> nat \<times> policy_db" where
  "update_group_call t who i n0 color0 ch0 db =
     (let n = trim_space n0
      in if max_group_name_len < rune_count n then (400, db)
         else (case normalize_group_color color0 of None \<Rightarrow> (400, db)
           | Some color \<Rightarrow> (case normalize_update_channel ch0 of None \<Rightarrow> (400, db)
             | Some ch \<Rightarrow>
                 if n = [] \<and> color = [] \<and> ch = [] then (400, db)
                 else (case update_device_group (panel t) t i n color ch db of
                     Inl e \<Rightarrow> (if e = PoDuplicate then 409 else 500, db)
                   | Inr (None, _) \<Rightarrow> (404, db)
                   | Inr (Some g, db1) \<Rightarrow> (200, audited t who ''update_device_group'' (gr_id g) db1)))))"

definition delete_group_call :: "string \<Rightarrow> string \<Rightarrow> string \<Rightarrow> policy_db \<Rightarrow> nat \<times> policy_db" where
  "delete_group_call t who i db = (case delete_device_group (panel t) t i db of
     Inl e \<Rightarrow> (500, db) | Inr (_, db1) \<Rightarrow> (204, audited t who ''delete_device_group'' i db1))"

definition add_member_call :: "string \<Rightarrow> string \<Rightarrow> string \<Rightarrow> string \<Rightarrow> policy_db \<Rightarrow> nat \<times> policy_db" where
  "add_member_call t who g dev db =
     (if dev = [] then (400, db)
      else (case add_device_to_group (panel t) t dev g db of
          Inl e \<Rightarrow> (error_code e, db)
        | Inr (_, db1) \<Rightarrow> (204, audited t who ''add_device_to_group'' g db1)))"

definition remove_member_call :: "string \<Rightarrow> string \<Rightarrow> string \<Rightarrow> string \<Rightarrow> policy_db \<Rightarrow> nat \<times> policy_db" where
  "remove_member_call t who g dev db = (case remove_device_from_group (panel t) t dev g db of
     Inl e \<Rightarrow> (500, db) | Inr (_, db1) \<Rightarrow> (204, audited t who ''remove_device_from_group'' g db1))"

definition assign_policy_call :: "string \<Rightarrow> string \<Rightarrow> string \<Rightarrow> string \<Rightarrow> policy_db \<Rightarrow> nat \<times> policy_db" where
  "assign_policy_call t who g p db =
     (if p = [] then (400, db)
      else (case assign_policy_to_group (panel t) t p g db of
          Inl e \<Rightarrow> (error_code e, db)
        | Inr (_, db1) \<Rightarrow> (204, audited t who ''assign_policy_to_group'' g db1)))"

definition unassign_policy_call :: "string \<Rightarrow> string \<Rightarrow> string \<Rightarrow> string \<Rightarrow> policy_db \<Rightarrow> nat \<times> policy_db" where
  "unassign_policy_call t who g p db = (case unassign_policy_from_group (panel t) t p g db of
     Inl e \<Rightarrow> (500, db) | Inr (_, db1) \<Rightarrow> (204, audited t who ''unassign_policy_from_group'' g db1))"

section \<open>The invariant of the tables\<close>

definition script_keys :: "policy_db \<Rightarrow> (string \<times> string) set" where
  "script_keys db = (\<lambda>s. (sc_tenant s, sc_id s)) ` set (pd_scripts db)"

definition policy_keys :: "policy_db \<Rightarrow> (string \<times> string) set" where
  "policy_keys db = (\<lambda>p. (pl_tenant p, pl_id p)) ` set (pd_policies db)"

definition group_keys :: "policy_db \<Rightarrow> (string \<times> string) set" where
  "group_keys db = (\<lambda>g. (gr_tenant g, gr_id g)) ` set (pd_groups db)"

definition device_keys :: "policy_db \<Rightarrow> (string \<times> string) set" where
  "device_keys db = (\<lambda>d. (dv_tenant d, dv_id d)) ` set (db_devices (pd_base db))"

definition platform_names :: "string list" where "platform_names = [''macOS'', ''Windows'', ''Linux'']"

definition rule_ok :: "rule_row \<Rightarrow> bool" where
  "rule_ok r \<longleftrightarrow> sanitize_software_name (ru_name r) = Some (ru_name r) \<and> ru_type r \<in> {''allowed'', ''forbidden''} \<and>
     set (ru_platforms r) \<subseteq> set platform_names \<and> distinct (ru_platforms r) \<and> length (ru_platforms r) < 3"

text \<open>Keys and names are unique.  Every reference points to a row of the same tenant, but that of a rule to a device: the check of a
  foreign key is not subject to row-level security, so that the device exists, in some tenant.\<close>

definition names_ok :: "policy_db \<Rightarrow> bool" where
  "names_ok db \<longleftrightarrow> distinct (map sc_id (pd_scripts db)) \<and> distinct (map pl_id (pd_policies db)) \<and> distinct (map gr_id (pd_groups db)) \<and>
     distinct (script_names (pd_scripts db)) \<and> distinct (policy_names (pd_policies db)) \<and> distinct (group_names (pd_groups db))"

definition refs_ok :: "policy_db \<Rightarrow> bool" where
  "refs_ok db \<longleftrightarrow>
     (\<forall>p \<in> set (pd_policies db). (pl_tenant p, pl_script p) \<in> script_keys db) \<and>
     (\<forall>a \<in> set (pd_assigns db). (as_tenant a, as_policy a) \<in> policy_keys db \<and> (as_tenant a, as_group a) \<in> group_keys db) \<and>
     (\<forall>m \<in> set (db_members (pd_base db)). (gm_tenant m, gm_group m) \<in> group_keys db \<and> (gm_tenant m, gm_device m) \<in> device_keys db) \<and>
     (\<forall>r \<in> set (pd_rules db). \<forall>g. ru_group r = Some g \<longrightarrow> (ru_tenant r, g) \<in> group_keys db) \<and>
     (\<forall>r \<in> set (pd_rules db). \<forall>d. ru_device r = Some d \<longrightarrow> d \<in> snd ` device_keys db)"

definition values_ok :: "policy_db \<Rightarrow> bool" where
  "values_ok db \<longleftrightarrow>
     (\<forall>s \<in> set (pd_scripts db). sc_platform s \<in> set platform_names) \<and> (\<forall>p \<in> set (pd_policies db). known_trigger (pl_trigger p)) \<and>
     (\<forall>g \<in> set (pd_groups db). valid_channel (gr_channel g)) \<and> (\<forall>r \<in> set (pd_rules db). rule_ok r)"

definition tables_ok :: "policy_db \<Rightarrow> bool" where
  "tables_ok db \<longleftrightarrow> names_ok db \<and> refs_ok db \<and> values_ok db"

lemmas tables_defs = tables_ok_def names_ok_def refs_ok_def values_ok_def

lemma update_one_absent: "i \<notin> f ` set xs \<Longrightarrow> update_where (\<lambda>x. P x \<and> f x = i) h xs = xs"
  by (induction xs) (auto simp: update_where_def)

lemma distinct_update_one:
  "distinct (map f xs) \<Longrightarrow> distinct (map g xs) \<Longrightarrow> \<forall>x \<in> set xs. f x \<noteq> i \<longrightarrow> g x \<noteq> g r \<Longrightarrow>
   distinct (map g (update_where (\<lambda>x. P x \<and> f x = i) (\<lambda>_. r) xs))"
proof (induction xs)
  case (Cons a xs)
  let ?u = "update_where (\<lambda>x. P x \<and> f x = i) (\<lambda>_. r)"
  have IH: "distinct (map g (?u xs))" using Cons by simp
  have u: "?u (a # xs) = (if P a \<and> f a = i then r else a) # ?u xs" by (simp add: update_where_def)
  show ?case
  proof (cases "f a = i")
    case True
    then have "?u xs = xs" using Cons.prems(1) by (intro update_one_absent) auto
    moreover have "g r \<notin> g ` set xs"
    proof
      assume "g r \<in> g ` set xs"
      then obtain x where x: "x \<in> set xs" "g r = g x" by auto
      then have "f x \<in> f ` set xs" by blast
      then have "f x \<noteq> i" using Cons.prems(1) True by auto
      then show False using Cons.prems(3) x by (metis list.set_intros(2))
    qed
    ultimately show ?thesis using Cons.prems(2) by (simp add: u)
  next
    case False
    then have "g a \<noteq> g r" using Cons.prems(3) by simp
    then have "g a \<notin> g ` set (?u xs)" using Cons.prems(2) by (auto simp: set_update_where split: if_splits)
    then show ?thesis using IH False by (simp add: u)
  qed
qed (simp add: update_where_def)

lemma distinct_rename:
  assumes "distinct (map f xs)" and "distinct (map g xs)" and "g r \<notin> set (map g (filter (\<lambda>x. f x \<noteq> i) xs))"
  shows "distinct (map g (update_where (\<lambda>x. P x \<and> f x = i) (\<lambda>_. r) xs))"
proof (rule distinct_update_one [OF assms(1,2)], intro ballI impI)
  fix x assume "x \<in> set xs" and "f x \<noteq> i"
  then have "g x \<in> set (map g (filter (\<lambda>x. f x \<noteq> i) xs))" by simp
  then show "g x \<noteq> g r" using assms(3) by metis
qed

lemma distinct_filter_map: "distinct (map f xs) \<Longrightarrow> distinct (map f (filter P xs))"
  by (induction xs) auto

lemma update_one_same: "f r = i \<Longrightarrow> map f (update_where (\<lambda>x. P x \<and> f x = i) (\<lambda>_. r) xs) = map f xs"
  by (auto simp: update_where_def)

lemma scoped_opE:
  assumes "scoped_op cx t op = Inr x"
  obtains sp where "arg_scope cx t = Inr sp" and "op sp = Inr x"
  using assms by (auto simp: scoped_op_def split: sum.splits)

lemma scoped_op_in: "arg_scope cx t = Inr sp \<Longrightarrow> scoped_op cx t op = op sp"
  by (simp add: scoped_op_def)

lemma scoped_op_scope: "scoped_op cx t op = Inr x \<Longrightarrow> \<exists>sp. arg_scope cx t = Inr sp"
  by (auto simp: scoped_op_def split: sum.splits)

lemma named_insertE:
  assumes "named_insert sp n taken ins = Inr x"
  shows "snd sp = fst sp \<and> btrim n \<noteq> [] \<and> (fst sp, name_key n) \<notin> set taken \<and> ins = Inr x"
  using assms by (auto simp: named_insert_def split: if_splits)

lemma script_of_Some: "script_of sp i db = Some s \<Longrightarrow> s \<in> set (pd_scripts db) \<and> visible sp (sc_tenant s) \<and> sc_id s = i"
  by (auto simp: script_of_def find_Some_iff)

lemma policy_of_Some: "policy_of sp i db = Some s \<Longrightarrow> s \<in> set (pd_policies db) \<and> visible sp (pl_tenant s) \<and> pl_id s = i"
  by (auto simp: policy_of_def find_Some_iff)

lemma group_of_Some: "group_of sp i db = Some s \<Longrightarrow> s \<in> set (pd_groups db) \<and> visible sp (gr_tenant s) \<and> gr_id s = i"
  by (auto simp: group_of_def find_Some_iff)

lemma in_tenant: "f x = tn \<Longrightarrow> k x = i \<Longrightarrow> x \<in> A \<Longrightarrow> (tn, i) \<in> (\<lambda>x. (f x, k x)) ` A"
  by blast

lemma script_of_key: "script_of sp i db = Some s \<Longrightarrow> (fst sp, i) \<in> script_keys db"
  using script_of_Some [of sp i db s] unfolding script_keys_def visible_def by (intro in_tenant [where x = s]) simp_all

lemma policy_of_key: "policy_of sp i db = Some s \<Longrightarrow> (fst sp, i) \<in> policy_keys db"
  using policy_of_Some [of sp i db s] unfolding policy_keys_def visible_def by (intro in_tenant [where x = s]) simp_all

lemma group_of_key: "group_of sp i db = Some s \<Longrightarrow> (fst sp, i) \<in> group_keys db"
  using group_of_Some [of sp i db s] unfolding group_keys_def visible_def by (intro in_tenant [where x = s]) simp_all

lemma platforms_named: "canonical_platform p = Some q \<Longrightarrow> q \<in> set platform_names"
  by (auto simp: canonical_platform_def Let_def platform_names_def split: if_splits)

lemma collect_platforms_ok:
  "collect_platforms acc xs = Some ps \<Longrightarrow> set acc \<subseteq> set platform_names \<Longrightarrow> distinct acc \<Longrightarrow>
   set ps \<subseteq> set platform_names \<and> distinct ps"
  by (induction acc xs rule: collect_platforms.induct) (auto split: option.splits if_splits dest: platforms_named)

lemma sanitize_idem: "sanitize_software_name s = Some n \<Longrightarrow> sanitize_software_name n = Some n"
  by (auto simp: sanitize_software_name_def Let_def split: if_splits)

subsection \<open>Each operation keeps it\<close>

lemma create_script_ok:
  assumes r: "create_script cx t i now n plat c db = Inr (s, db')" and ok: "tables_ok db"
    and fresh: "i \<notin> sc_id ` set (pd_scripts db)" and plat: "plat \<in> set platform_names"
  shows "tables_ok db'"
proof -
  from r obtain sp where op: "snd sp = fst sp" "(fst sp, name_key n) \<notin> set (script_names (pd_scripts db))"
    and db': "db' = db\<lparr>pd_scripts := pd_scripts db @ [s]\<rparr>"
    and s: "s = \<lparr>sc_id = i, sc_tenant = fst sp, sc_name = n, sc_platform = plat, sc_content = c, sc_created = now, sc_updated = now\<rparr>"
    unfolding create_script_def Let_def by (elim scoped_opE) (fastforce dest: named_insertE)
  have keys: "script_keys db' = insert (fst sp, i) (script_keys db)" "policy_keys db' = policy_keys db"
    "group_keys db' = group_keys db" "device_keys db' = device_keys db"
    by (auto simp: db' s script_keys_def policy_keys_def group_keys_def device_keys_def)
  have "names_ok db'" using ok fresh op by (auto simp: db' s tables_ok_def names_ok_def script_names_def)
  moreover have "refs_ok db'" using ok by (auto simp: tables_ok_def refs_ok_def keys) (auto simp: db')
  moreover have "values_ok db'" using ok plat by (auto simp: db' s tables_ok_def values_ok_def)
  ultimately show ?thesis by (simp add: tables_ok_def)
qed

text \<open>Keys are sets of the tables alone.\<close>

lemmas key_defs = script_keys_def policy_keys_def group_keys_def device_keys_def

lemma update_script_ok:
  assumes r: "update_script cx t i now n plat c db = Inr (s, db')" and ok: "tables_ok db" and plat: "plat \<in> set platform_names"
  shows "tables_ok db'"
proof (cases s)
  case None
  then have "db' = db" using r by (auto simp: update_script_def Let_def named_insert_def elim!: scoped_opE split: option.splits if_splits)
  then show ?thesis using ok by simp
next
  case (Some s1)
  let ?v = "\<lambda>sp x. visible sp (sc_tenant x)"
  from r Some obtain sp r0 where r0: "script_of sp i db = Some r0"
    and op: "(fst sp, name_key n) \<notin> set (script_names (filter (\<lambda>x. sc_id x \<noteq> i) (pd_scripts db)))"
    and s1: "s1 = r0\<lparr>sc_name := n, sc_platform := plat, sc_content := c, sc_updated := now\<rparr>"
    and db': "db' = db\<lparr>pd_scripts := update_where (\<lambda>x. ?v sp x \<and> sc_id x = i) (\<lambda>_. s1) (pd_scripts db)\<rparr>"
    unfolding update_script_def Let_def by (elim scoped_opE) (auto split: option.splits dest!: named_insertE)
  note m = script_of_Some [OF r0]
  have d: "distinct (map sc_id (pd_scripts db))" using ok by (simp add: tables_defs)
  have keys: "script_keys db' = script_keys db" "policy_keys db' = policy_keys db"
    "group_keys db' = group_keys db" "device_keys db' = device_keys db"
  proof -
    have "(sc_tenant x, sc_id x) = (sc_tenant s1, sc_id s1)" if "x \<in> set (pd_scripts db)" "?v sp x" "sc_id x = i" for x
      using that m s1 by (simp add: visible_def)
    then have "map (\<lambda>s. (sc_tenant s, sc_id s)) (pd_scripts db') = map (\<lambda>s. (sc_tenant s, sc_id s)) (pd_scripts db)"
      by (auto simp: db' update_where_def)
    then show "script_keys db' = script_keys db" unfolding script_keys_def by (metis list.set_map)
  qed (auto simp: db' key_defs)
  have rows: "pd_scripts db' = update_where (\<lambda>x. ?v sp x \<and> sc_id x = i) (\<lambda>_. s1) (pd_scripts db)" by (simp add: db')
  have "distinct (script_names (pd_scripts db'))" unfolding rows script_names_def
    by (rule distinct_rename) (use op ok s1 m d in \<open>simp_all add: tables_defs script_names_def visible_def\<close>)
  moreover have "map sc_id (pd_scripts db') = map sc_id (pd_scripts db)"
    unfolding rows using m s1 by (intro update_one_same) simp
  ultimately have "names_ok db'" using ok by (auto simp: db' tables_ok_def names_ok_def)
  moreover have "refs_ok db'" using ok by (auto simp: tables_ok_def refs_ok_def keys) (auto simp: db')
  moreover have "values_ok db'" using ok plat s1 by (auto simp: db' tables_ok_def values_ok_def set_update_where)
  ultimately show ?thesis by (simp add: tables_ok_def)
qed

lemma delete_script_ok:
  assumes r: "delete_script cx t i db = Inr (u, db')" and ok: "tables_ok db"
  shows "tables_ok db'"
proof -
  obtain sp where sp: "arg_scope cx t = Inr sp" using r [unfolded delete_script_def] scoped_op_scope by blast
  let ?kept = "db\<lparr>pd_scripts := filter (\<lambda>x. \<not> (visible sp (sc_tenant x) \<and> sc_id x = i)) (pd_scripts db)\<rparr>"
  consider "db' = db" | "\<not> list_ex (\<lambda>p. pl_script p = i) (pd_policies db)" "db' = ?kept"
    using r by (cases "script_of sp i db"; cases "list_ex (\<lambda>p. pl_script p = i) (pd_policies db)")
      (simp_all add: delete_script_def scoped_op_in [OF sp])
  then show ?thesis
  proof cases
    case 2
    have keys: "policy_keys db' = policy_keys db" "group_keys db' = group_keys db" "device_keys db' = device_keys db"
      by (auto simp: 2 key_defs)
    have "(pl_tenant p, pl_script p) \<in> script_keys db'" if "p \<in> set (pd_policies db)" for p
    proof -
      have "(pl_tenant p, pl_script p) \<in> script_keys db" "pl_script p \<noteq> i" using that ok 2(1) by (auto simp: tables_defs list_ex_iff)
      then show ?thesis by (auto simp: 2 script_keys_def)
    qed
    then have "refs_ok db'" using ok by (auto simp: tables_ok_def refs_ok_def keys) (auto simp: 2)
    moreover have "names_ok db'" using ok by (auto simp: 2 tables_ok_def names_ok_def script_names_def distinct_filter_map)
    moreover have "values_ok db'" using ok by (auto simp: 2 tables_ok_def values_ok_def)
    ultimately show ?thesis by (simp add: tables_ok_def)
  qed (use ok in simp)
qed

lemma create_script_policy_ok:
  assumes r: "create_script_policy cx t i now n sid trig sched ev db = Inr (p, db')" and ok: "tables_ok db"
    and fresh: "i \<notin> pl_id ` set (pd_policies db)" and trig: "known_trigger trig"
  shows "tables_ok db'"
proof (cases p)
  case None
  then have "db' = db" using r by (auto simp: create_script_policy_def Let_def named_insert_def elim!: scoped_opE split: option.splits if_splits)
  then show ?thesis using ok by simp
next
  case (Some p1)
  from r Some obtain sp s0 where s0: "script_of sp sid db = Some s0"
    and op: "(fst sp, name_key n) \<notin> set (policy_names (pd_policies db))" "snd sp = fst sp"
    and p1: "p1 = \<lparr>pl_id = i, pl_tenant = fst sp, pl_name = n, pl_script = sid, pl_trigger = trig, pl_schedule = sched,
                   pl_event = ev, pl_active = True, pl_created = now, pl_updated = now\<rparr>"
    and db': "db' = db\<lparr>pd_policies := pd_policies db @ [p1]\<rparr>"
    unfolding create_script_policy_def Let_def by (elim scoped_opE) (fastforce split: option.splits dest!: named_insertE)
  have keys: "policy_keys db' = insert (fst sp, i) (policy_keys db)" "script_keys db' = script_keys db"
    "group_keys db' = group_keys db" "device_keys db' = device_keys db"
    by (auto simp: db' p1 key_defs)
  have s: "(fst sp, sid) \<in> script_keys db" using s0 by (rule script_of_key)
  have "names_ok db'" using ok fresh op by (auto simp: db' p1 tables_ok_def names_ok_def policy_names_def)
  moreover have "refs_ok db'" using ok s by (auto simp: tables_ok_def refs_ok_def keys) (auto simp: db' p1)
  moreover have "values_ok db'" using ok trig by (auto simp: db' p1 tables_ok_def values_ok_def)
  ultimately show ?thesis by (simp add: tables_ok_def)
qed

lemma keyed_update:
  assumes "\<And>x. x \<in> set xs \<Longrightarrow> P x \<Longrightarrow> f x = i \<Longrightarrow> k x = k r"
  shows "k ` set (update_where (\<lambda>x. P x \<and> f x = i) (\<lambda>_. r) xs) = k ` set xs"
proof -
  have "map k (update_where (\<lambda>x. P x \<and> f x = i) (\<lambda>_. r) xs) = map k xs" using assms by (auto simp: update_where_def)
  then show ?thesis by (metis list.set_map)
qed

lemma update_script_policy_ok:
  assumes r: "update_script_policy cx t i n sid trig sched ev db = Inr (p, db')" and ok: "tables_ok db" and trig: "known_trigger trig"
  shows "tables_ok db'"
proof (cases p)
  case None
  then have "db' = db" using r by (auto simp: update_script_policy_def Let_def named_insert_def elim!: scoped_opE split: option.splits if_splits)
  then show ?thesis using ok by simp
next
  case (Some p1)
  from r Some obtain sp p0 s0 where p0: "policy_of sp i db = Some p0" and s0: "script_of sp sid db = Some s0"
    and op: "(fst sp, name_key n) \<notin> set (policy_names (filter (\<lambda>x. pl_id x \<noteq> i) (pd_policies db)))"
    and p1: "p1 = p0\<lparr>pl_name := n, pl_script := sid, pl_trigger := trig, pl_schedule := sched, pl_event := ev\<rparr>"
    and db': "db' = db\<lparr>pd_policies := update_where (\<lambda>x. visible sp (pl_tenant x) \<and> pl_id x = i) (\<lambda>_. p1) (pd_policies db)\<rparr>"
    unfolding update_script_policy_def Let_def by (elim scoped_opE) (auto split: option.splits dest!: named_insertE)
  note m = policy_of_Some [OF p0]
  have rows: "pd_policies db' = update_where (\<lambda>x. visible sp (pl_tenant x) \<and> pl_id x = i) (\<lambda>_. p1) (pd_policies db)" by (simp add: db')
  have d: "distinct (map pl_id (pd_policies db))" using ok by (simp add: tables_defs)
  have "policy_keys db' = policy_keys db" unfolding policy_keys_def rows
    by (rule keyed_update) (use m p1 in \<open>simp add: visible_def\<close>)
  note keys = this
  have keys2: "script_keys db' = script_keys db" "group_keys db' = group_keys db" "device_keys db' = device_keys db"
    by (auto simp: db' key_defs)
  have s: "(pl_tenant p1, sid) \<in> script_keys db" using script_of_key [OF s0] m p1 by (simp add: visible_def)
  have "distinct (policy_names (pd_policies db'))" unfolding rows policy_names_def
    by (rule distinct_rename) (use op ok p1 m d in \<open>simp_all add: tables_defs policy_names_def visible_def\<close>)
  moreover have "map pl_id (pd_policies db') = map pl_id (pd_policies db)"
    unfolding rows using m p1 by (intro update_one_same) simp
  ultimately have "names_ok db'" using ok by (auto simp: db' tables_ok_def names_ok_def)
  moreover have "(pl_tenant x, pl_script x) \<in> script_keys db" if "x \<in> set (pd_policies db')" for x
    using that ok s p1 by (auto simp: rows set_update_where tables_defs)
  then have "refs_ok db'" using ok by (auto simp: tables_ok_def refs_ok_def keys keys2) (auto simp: db')
  moreover have "values_ok db'" using ok trig p1 by (auto simp: db' tables_ok_def values_ok_def set_update_where)
  ultimately show ?thesis by (simp add: tables_ok_def)
qed

lemma toggle_script_policy_ok:
  assumes r: "toggle_script_policy cx t i act db = Inr (u, db')" and ok: "tables_ok db"
  shows "tables_ok db'"
proof -
  obtain sp where sp: "arg_scope cx t = Inr sp" using r [unfolded toggle_script_policy_def] scoped_op_scope by blast
  have db': "db' = db\<lparr>pd_policies := update_where (\<lambda>x. visible sp (pl_tenant x) \<and> pl_id x = i) (\<lambda>x. x\<lparr>pl_active := act\<rparr>) (pd_policies db)\<rparr>"
    using r by (simp add: toggle_script_policy_def scoped_op_in [OF sp])
  have m: "map (\<lambda>p. (pl_tenant p, pl_id p)) (pd_policies db') = map (\<lambda>p. (pl_tenant p, pl_id p)) (pd_policies db)"
    "map pl_id (pd_policies db') = map pl_id (pd_policies db)" "policy_names (pd_policies db') = policy_names (pd_policies db)"
    by (simp_all add: db' map_update_where policy_names_def)
  have "policy_keys db' = policy_keys db" unfolding policy_keys_def using m(1) by (metis list.set_map)
  moreover have "script_keys db' = script_keys db" "group_keys db' = group_keys db" "device_keys db' = device_keys db"
    by (auto simp: db' key_defs)
  ultimately have "refs_ok db'" using ok by (auto simp: tables_ok_def refs_ok_def) (auto simp: db' set_update_where)
  moreover have "names_ok db'" using ok m(2,3) by (simp add: tables_ok_def names_ok_def) (simp add: db')
  moreover have "values_ok db'" using ok by (auto simp: db' tables_ok_def values_ok_def set_update_where)
  ultimately show ?thesis by (simp add: tables_ok_def)
qed

lemma delete_script_policy_ok:
  assumes r: "delete_script_policy cx t i db = Inr (u, db')" and ok: "tables_ok db"
  shows "tables_ok db'"
proof -
  obtain sp where sp: "arg_scope cx t = Inr sp" using r [unfolded delete_script_policy_def] scoped_op_scope by blast
  let ?kept = "db\<lparr>pd_policies := filter (\<lambda>x. \<not> (visible sp (pl_tenant x) \<and> pl_id x = i)) (pd_policies db),
                        pd_assigns := filter (\<lambda>a. as_policy a \<noteq> i) (pd_assigns db)\<rparr>"
  consider "db' = db" | "db' = ?kept"
    using r by (cases "policy_of sp i db") (simp_all add: delete_script_policy_def scoped_op_in [OF sp])
  then show ?thesis
  proof cases
    case 2
    have keys: "script_keys db' = script_keys db" "group_keys db' = group_keys db" "device_keys db' = device_keys db"
      by (auto simp: 2 key_defs)
    have "(as_tenant a, as_policy a) \<in> policy_keys db'" if "a \<in> set (pd_assigns db')" for a
      using that ok by (force simp: 2 tables_defs policy_keys_def)
    then have "refs_ok db'" using ok by (auto simp: tables_ok_def refs_ok_def keys) (auto simp: 2)
    moreover have "names_ok db'" using ok by (auto simp: 2 tables_ok_def names_ok_def policy_names_def distinct_filter_map)
    moreover have "values_ok db'" using ok by (auto simp: 2 tables_ok_def values_ok_def)
    ultimately show ?thesis by (simp add: tables_ok_def)
  qed (use ok in simp)
qed

lemma create_device_group_ok:
  assumes r: "create_device_group cx t i now n color ch db = Inr (g, db')" and ok: "tables_ok db"
    and fresh: "i \<notin> gr_id ` set (pd_groups db)"
  shows "tables_ok db'"
proof -
  have ch: "ch = [] \<or> valid_channel ch" using r by (auto simp: create_device_group_def split: if_splits)
  let ?new = "\<lambda>sp. \<lparr>gr_id = i, gr_tenant = fst sp, gr_name = n, gr_color = or_else color default_group_color,
                 gr_channel = or_else ch channel_stable, gr_created = now\<rparr>"
  from ch have r2: "scoped_op cx t (\<lambda>sp. named_insert sp n (group_names (pd_groups db))
      (Inr (?new sp, db\<lparr>pd_groups := pd_groups db @ [?new sp]\<rparr>))) = Inr (g, db')"
    using r by (auto simp: create_device_group_def Let_def)
  obtain sp where sp: "arg_scope cx t = Inr sp" using r2 scoped_op_scope by blast
  from named_insertE [OF r2 [unfolded scoped_op_in [OF sp]]] have op: "(fst sp, name_key n) \<notin> set (group_names (pd_groups db))"
    and e: "(?new sp, db\<lparr>pd_groups := pd_groups db @ [?new sp]\<rparr>) = (g, db')" by (auto simp only: sum.inject)
  have ge: "g = ?new sp" using e by (simp only: prod.inject)
  have g: "gr_id g = i" "gr_tenant g = fst sp" "gr_name g = n" "gr_channel g = or_else ch channel_stable"
    unfolding ge by simp_all
  have db': "db' = db\<lparr>pd_groups := pd_groups db @ [g]\<rparr>" using e ge by (simp only: prod.inject)
  have keys: "group_keys db' = insert (fst sp, i) (group_keys db)" "script_keys db' = script_keys db"
    "policy_keys db' = policy_keys db" "device_keys db' = device_keys db"
    by (auto simp: db' g key_defs)
  have "names_ok db'" using ok fresh op by (auto simp: db' g tables_ok_def names_ok_def group_names_def)
  moreover have "refs_ok db'" using ok by (auto simp: tables_ok_def refs_ok_def keys) (auto simp: db')
  moreover have "values_ok db'" using ok ch by (auto simp: db' g tables_ok_def values_ok_def or_else_def valid_channel_def)
  ultimately show ?thesis by (simp add: tables_ok_def)
qed

lemma update_device_group_ok:
  assumes r: "update_device_group cx t i n color ch db = Inr (g, db')" and ok: "tables_ok db"
  shows "tables_ok db'"
proof -
  have ch: "ch = [] \<or> valid_channel ch" using r by (auto simp: update_device_group_def split: if_splits)
  obtain sp where sp: "arg_scope cx t = Inr sp"
    using r by (cases "arg_scope cx t") (auto simp: update_device_group_def scoped_op_def split: if_splits)
  show ?thesis
  proof (cases "group_of sp i db")
    case None
    then have "db' = db" using r ch by (auto simp: update_device_group_def scoped_op_in [OF sp])
    then show ?thesis using ok by simp
  next
    case (Some g0)
    let ?g = "g0\<lparr>gr_name := or_else n (gr_name g0), gr_color := or_else color (gr_color g0), gr_channel := or_else ch (gr_channel g0)\<rparr>"
    let ?P = "\<lambda>x. visible sp (gr_tenant x)"
    have r2: "named_insert sp (gr_name ?g) (group_names (filter (\<lambda>x. gr_id x \<noteq> i) (pd_groups db)))
        (Inr (Some ?g, db\<lparr>pd_groups := update_where (\<lambda>x. ?P x \<and> gr_id x = i) (\<lambda>_. ?g) (pd_groups db)\<rparr>)) = Inr (g, db')"
      using r ch Some by (auto simp: update_device_group_def scoped_op_in [OF sp] Let_def)
    note op = named_insertE [OF r2]
    have db': "db' = db\<lparr>pd_groups := update_where (\<lambda>x. ?P x \<and> gr_id x = i) (\<lambda>_. ?g) (pd_groups db)\<rparr>" using op by simp
    note m = group_of_Some [OF Some]
    have rows: "pd_groups db' = update_where (\<lambda>x. ?P x \<and> gr_id x = i) (\<lambda>_. ?g) (pd_groups db)" by (simp add: db')
    have "group_keys db' = group_keys db" unfolding group_keys_def rows
      by (rule keyed_update) (use m in \<open>simp add: visible_def\<close>)
    note keys = this
    have keys2: "script_keys db' = script_keys db" "policy_keys db' = policy_keys db" "device_keys db' = device_keys db"
      by (auto simp: db' key_defs)
    have d: "distinct (map gr_id (pd_groups db))" "distinct (group_names (pd_groups db))" using ok by (simp_all add: tables_defs)
    have "(gr_tenant ?g, name_key (gr_name ?g)) \<notin> set (group_names (filter (\<lambda>x. gr_id x \<noteq> i) (pd_groups db)))"
      using op m by (simp add: visible_def)
    then have "distinct (group_names (pd_groups db'))" using d unfolding rows group_names_def by (intro distinct_rename)
    moreover have "map gr_id (pd_groups db') = map gr_id (pd_groups db)" unfolding rows using m by (intro update_one_same) simp
    ultimately have "names_ok db'" using ok by (auto simp: db' tables_ok_def names_ok_def)
    moreover have "refs_ok db'" using ok by (auto simp: tables_ok_def refs_ok_def keys keys2) (auto simp: db')
    moreover have "valid_channel (gr_channel ?g)" using ok ch m by (auto simp: tables_defs or_else_def)
    then have "values_ok db'" using ok by (auto simp: db' tables_ok_def values_ok_def set_update_where)
    ultimately show ?thesis by (simp add: tables_ok_def)
  qed
qed

lemma members_updated [simp]:
  "db_members (pd_base (update_members f db)) = f (db_members (pd_base db))"
  "db_devices (pd_base (update_members f db)) = db_devices (pd_base db)"
  "pd_scripts (update_members f db) = pd_scripts db" "pd_policies (update_members f db) = pd_policies db"
  "pd_groups (update_members f db) = pd_groups db" "pd_assigns (update_members f db) = pd_assigns db"
  "pd_rules (update_members f db) = pd_rules db"
  by (simp_all add: update_members_def)

lemma delete_device_group_ok:
  assumes r: "delete_device_group cx t i db = Inr (u, db')" and ok: "tables_ok db"
  shows "tables_ok db'"
proof -
  obtain sp where sp: "arg_scope cx t = Inr sp" using r [unfolded delete_device_group_def] scoped_op_scope by blast
  let ?kept = "update_members (filter (\<lambda>m. gm_group m \<noteq> i))
         (db\<lparr>pd_groups := filter (\<lambda>x. \<not> (visible sp (gr_tenant x) \<and> gr_id x = i)) (pd_groups db),
             pd_assigns := filter (\<lambda>a. as_group a \<noteq> i) (pd_assigns db),
             pd_rules := filter (\<lambda>r. ru_group r \<noteq> Some i) (pd_rules db)\<rparr>)"
  consider "db' = db" | "db' = ?kept"
    using r by (cases "group_of sp i db") (simp_all add: delete_device_group_def scoped_op_in [OF sp])
  then show ?thesis
  proof cases
    case 2
    have keys: "script_keys db' = script_keys db" "policy_keys db' = policy_keys db" "device_keys db' = device_keys db"
      by (auto simp: 2 key_defs)
    have gk: "(tn, g) \<in> group_keys db'" if "(tn, g) \<in> group_keys db" "g \<noteq> i" for tn g
      using that by (auto simp: 2 group_keys_def)
    have "refs_ok db'" using ok gk by (auto simp: tables_ok_def refs_ok_def keys) (auto simp: 2)
    moreover have "names_ok db'" using ok by (auto simp: 2 tables_ok_def names_ok_def group_names_def distinct_filter_map)
    moreover have "values_ok db'" using ok by (auto simp: 2 tables_ok_def values_ok_def)
    ultimately show ?thesis by (simp add: tables_ok_def)
  qed (use ok in simp)
qed

lemma add_device_ok:
  assumes r: "add_device_to_group cx t dev g db = Inr (u, db')" and ok: "tables_ok db"
  shows "tables_ok db'"
proof -
  obtain sp where sp: "arg_scope cx t = Inr sp" using r [unfolded add_device_to_group_def] scoped_op_scope by blast
  let ?new = "update_members (\<lambda>ms. ms @ [\<lparr>gm_group = g, gm_device = dev, gm_tenant = fst sp\<rparr>]) db"
  consider "db' = db" | "list_ex (\<lambda>d. visible sp (dv_tenant d) \<and> dv_id d = dev) (db_devices (pd_base db))" "group_of sp g db \<noteq> None" "db' = ?new"
    using r by (cases "group_of sp g db = None"; cases "list_ex (\<lambda>d. visible sp (dv_tenant d) \<and> dv_id d = dev) (db_devices (pd_base db))";
      cases "list_ex (\<lambda>m. gm_device m = dev \<and> gm_group m = g) (db_members (pd_base db))")
      (simp_all add: add_device_to_group_def scoped_op_in [OF sp])
  then show ?thesis
  proof cases
    case 2
    obtain g0 where "group_of sp g db = Some g0" using 2(2) by auto
    then have gk: "(fst sp, g) \<in> group_keys db" by (rule group_of_key)
    have dk: "(fst sp, dev) \<in> device_keys db" using 2(1) unfolding device_keys_def list_ex_iff visible_def by (elim bexE conjE) (rule in_tenant, simp_all)
    have keys: "script_keys db' = script_keys db" "policy_keys db' = policy_keys db" "group_keys db' = group_keys db" "device_keys db' = device_keys db"
      by (auto simp: 2(3) key_defs)
    have "refs_ok db'" using ok gk dk by (auto simp: tables_ok_def refs_ok_def keys) (auto simp: 2(3))
    moreover have "names_ok db'" "values_ok db'" using ok by (auto simp: 2(3) tables_ok_def names_ok_def values_ok_def)
    ultimately show ?thesis by (simp add: tables_ok_def)
  qed (use ok in simp)
qed

lemma remove_device_ok:
  assumes r: "remove_device_from_group cx t dev g db = Inr (u, db')" and ok: "tables_ok db"
  shows "tables_ok db'"
proof -
  obtain sp where sp: "arg_scope cx t = Inr sp" using r [unfolded remove_device_from_group_def] scoped_op_scope by blast
  have db': "db' = update_members (filter (\<lambda>m. \<not> (visible sp (gm_tenant m) \<and> gm_device m = dev \<and> gm_group m = g))) db"
    using r by (simp add: remove_device_from_group_def scoped_op_in [OF sp])
  have keys: "script_keys db' = script_keys db" "policy_keys db' = policy_keys db" "group_keys db' = group_keys db" "device_keys db' = device_keys db"
    by (auto simp: db' key_defs)
  have "refs_ok db'" using ok by (auto simp: tables_ok_def refs_ok_def keys) (auto simp: db')
  then show ?thesis using ok by (simp add: tables_ok_def names_ok_def values_ok_def) (simp add: db')
qed

text \<open>A change of the assignments or the rules only.\<close>

lemma assigns_ok:
  assumes "tables_ok db" and "\<forall>a \<in> set as. a \<in> set (pd_assigns db) \<or> ((as_tenant a, as_policy a) \<in> policy_keys db \<and> (as_tenant a, as_group a) \<in> group_keys db)"
  shows "tables_ok (db\<lparr>pd_assigns := as\<rparr>)"
  using assms by (fastforce simp: tables_ok_def names_ok_def refs_ok_def values_ok_def key_defs)

lemma rules_ok:
  assumes "tables_ok db" and "\<forall>r \<in> set rs. r \<in> set (pd_rules db) \<or> (rule_ok r \<and> (\<forall>g. ru_group r = Some g \<longrightarrow> (ru_tenant r, g) \<in> group_keys db) \<and>
      (\<forall>d. ru_device r = Some d \<longrightarrow> d \<in> snd ` device_keys db))"
  shows "tables_ok (db\<lparr>pd_rules := rs\<rparr>)"
  using assms by (fastforce simp: tables_ok_def names_ok_def refs_ok_def values_ok_def key_defs)

lemma assign_policy_ok:
  assumes r: "assign_policy_to_group cx t p g db = Inr (u, db')" and ok: "tables_ok db"
  shows "tables_ok db'"
proof -
  obtain sp where sp: "arg_scope cx t = Inr sp" using r [unfolded assign_policy_to_group_def] scoped_op_scope by blast
  have e: "policy_of sp p db \<noteq> None" "group_of sp g db \<noteq> None"
      "db' = db\<lparr>pd_assigns := pd_assigns db @ [\<lparr>as_policy = p, as_group = g, as_tenant = fst sp\<rparr>]\<rparr>"
    using r by (auto simp: assign_policy_to_group_def scoped_op_in [OF sp] split: if_splits)
  then obtain p0 g0 where "policy_of sp p db = Some p0" "group_of sp g db = Some g0" by auto
  then have "(fst sp, p) \<in> policy_keys db" "(fst sp, g) \<in> group_keys db"
    by (auto dest: policy_of_key group_of_key)
  then show ?thesis unfolding e(3) by (intro assigns_ok [OF ok]) auto
qed

lemma unassign_policy_ok:
  assumes r: "unassign_policy_from_group cx t p g db = Inr (u, db')" and ok: "tables_ok db"
  shows "tables_ok db'"
proof -
  obtain sp where sp: "arg_scope cx t = Inr sp" using r [unfolded unassign_policy_from_group_def] scoped_op_scope by blast
  have "db' = db\<lparr>pd_assigns := filter (\<lambda>a. \<not> (visible sp (as_tenant a) \<and> as_policy a = p \<and> as_group a = g)) (pd_assigns db)\<rparr>"
    using r by (simp add: unassign_policy_from_group_def scoped_op_in [OF sp])
  then show ?thesis using assigns_ok [OF ok] by simp
qed

lemma create_rule_ok:
  assumes r: "create_policy_rule cx t i now n ty dev plats db = Inr (x, db')" and ok: "tables_ok db"
    and row: "sanitize_software_name n = Some n" "ty \<in> {''allowed'', ''forbidden''}"
      "set plats \<subseteq> set platform_names" "distinct plats" "length plats < 3"
  shows "tables_ok db'"
proof -
  obtain sp where sp: "arg_scope cx t = Inr sp" using r [unfolded create_policy_rule_def] scoped_op_scope by blast
  let ?r = "\<lparr>ru_id = i, ru_tenant = fst sp, ru_name = n, ru_type = ty, ru_device = dev, ru_group = None, ru_platforms = plats, ru_updated = now\<rparr>"
  have "db' = db\<lparr>pd_rules := pd_rules db @ [?r]\<rparr>"
    using r by (auto simp: create_policy_rule_def scoped_op_in [OF sp] Let_def split: if_splits)
  moreover have "x \<in> snd ` device_keys db" if "dev = Some x" for x
    using r that by (auto simp: create_policy_rule_def scoped_op_in [OF sp] Let_def list_ex_iff device_keys_def image_iff split: if_splits)
  moreover have "rule_ok ?r" using row by (simp add: rule_ok_def)
  ultimately show ?thesis using rules_ok [OF ok, of "pd_rules db @ [?r]"] by auto
qed

lemma assign_software_ok:
  assumes r: "assign_software_to_group cx t i now g n ty db = Inr (x, db')" and ok: "tables_ok db"
    and row: "sanitize_software_name n = Some n" "ty \<in> {''allowed'', ''forbidden''}"
  shows "tables_ok db'"
proof -
  obtain sp where sp: "arg_scope cx t = Inr sp" using r [unfolded assign_software_to_group_def] scoped_op_scope by blast
  let ?r = "\<lparr>ru_id = i, ru_tenant = fst sp, ru_name = n, ru_type = ty, ru_device = None, ru_group = Some g, ru_platforms = [], ru_updated = now\<rparr>"
  have e: "group_of sp g db \<noteq> None" "db' = db\<lparr>pd_rules := pd_rules db @ [?r]\<rparr>"
    using r by (auto simp: assign_software_to_group_def scoped_op_in [OF sp] Let_def split: if_splits)
  then obtain g0 where "group_of sp g db = Some g0" by auto
  then have "(fst sp, g) \<in> group_keys db" by (rule group_of_key)
  moreover have "rule_ok ?r" using row by (simp add: rule_ok_def)
  ultimately show ?thesis unfolding e(2) by (intro rules_ok [OF ok]) auto
qed

lemma delete_rule_ok:
  assumes "delete_policy_rule cx t i db = Inr (u, db')" and "tables_ok db"
  shows "tables_ok db'"
  using assms rules_ok [OF assms(2)] by (auto simp: delete_policy_rule_def scoped_op_def split: sum.splits)

lemma unassign_software_ok:
  assumes "unassign_software_from_group cx t g i db = Inr (u, db')" and "tables_ok db"
  shows "tables_ok db'"
  using assms rules_ok [OF assms(2)] by (auto simp: unassign_software_from_group_def scoped_op_def split: sum.splits)

subsection \<open>Every call of the panel\<close>

lemma audited_ok [simp]: "tables_ok (audited t who act obj db) = tables_ok db"
  by (simp add: tables_ok_def names_ok_def refs_ok_def values_ok_def key_defs audited_def write_audit_def)

text \<open>The calls on the tables, with the identifiers that the database draws for new rows.\<close>

datatype panel_call =
    CreatePolicy string nanos string string "string option" "string list" | DeletePolicy string
  | AssignSoftware string nanos string string string | UnassignSoftware string string
  | CreateScript string nanos string string string | UpdateScript string nanos string string string | DeleteScript string
  | CreateScriptPolicy string nanos string string string cfg_doc cfg_doc
  | UpdateScriptPolicy string string string string cfg_doc cfg_doc
  | ToggleScriptPolicy string bool | DeleteScriptPolicy string
  | CreateGroup string nanos string string string | UpdateGroup string string string string | DeleteGroup string
  | AddMember string string | RemoveMember string string | AssignPolicy string string | UnassignPolicy string string

fun panel_answer :: "(string \<Rightarrow> bool) \<Rightarrow> string \<Rightarrow> string \<Rightarrow> panel_call \<Rightarrow> policy_db \<Rightarrow> nat \<times> policy_db" where
  "panel_answer cron_ok t who (CreatePolicy i now n ty dev plats) db = create_policy_call t who i now n ty dev plats db"
| "panel_answer cron_ok t who (DeletePolicy i) db = delete_policy_call t who i db"
| "panel_answer cron_ok t who (AssignSoftware i now g n ty) db = assign_software_call t who i now g n ty db"
| "panel_answer cron_ok t who (UnassignSoftware g i) db = unassign_software_call t who g i db"
| "panel_answer cron_ok t who (CreateScript i now n plat c) db = create_script_call t who i now n plat c db"
| "panel_answer cron_ok t who (UpdateScript i now n plat c) db = update_script_call t who i now n plat c db"
| "panel_answer cron_ok t who (DeleteScript i) db = delete_script_call t who i db"
| "panel_answer cron_ok t who (CreateScriptPolicy i now n sid trig sched ev) db =
     create_script_policy_call cron_ok t who i now n sid trig sched ev db"
| "panel_answer cron_ok t who (UpdateScriptPolicy i n sid trig sched ev) db =
     update_script_policy_call cron_ok t who i n sid trig sched ev db"
| "panel_answer cron_ok t who (ToggleScriptPolicy i act) db = toggle_script_policy_call t who i act db"
| "panel_answer cron_ok t who (DeleteScriptPolicy i) db = delete_script_policy_call t who i db"
| "panel_answer cron_ok t who (CreateGroup i now n color ch) db = create_group_call t who i now n color ch db"
| "panel_answer cron_ok t who (UpdateGroup i n color ch) db = update_group_call t who i n color ch db"
| "panel_answer cron_ok t who (DeleteGroup i) db = delete_group_call t who i db"
| "panel_answer cron_ok t who (AddMember g dev) db = add_member_call t who g dev db"
| "panel_answer cron_ok t who (RemoveMember g dev) db = remove_member_call t who g dev db"
| "panel_answer cron_ok t who (AssignPolicy g p) db = assign_policy_call t who g p db"
| "panel_answer cron_ok t who (UnassignPolicy g p) db = unassign_policy_call t who g p db"

text \<open>The identifier of a new row is a fresh uuid.\<close>

fun fresh_call :: "panel_call \<Rightarrow> policy_db \<Rightarrow> bool" where
  "fresh_call (CreateScript i now n plat c) db = (i \<notin> sc_id ` set (pd_scripts db))"
| "fresh_call (CreateScriptPolicy i now n sid trig sched ev) db = (i \<notin> pl_id ` set (pd_policies db))"
| "fresh_call (CreateGroup i now n color ch) db = (i \<notin> gr_id ` set (pd_groups db))"
| "fresh_call _ db = True"

lemma create_policy_call_ok: "tables_ok db \<Longrightarrow> tables_ok (snd (create_policy_call t who i now n ty dev plats db))"
proof -
  assume ok: "tables_ok db"
  show ?thesis
  proof (cases "\<exists>n1 ps r db1. sanitize_software_name n = Some n1 \<and> ty \<in> {''allowed'', ''forbidden''} \<and> collect_platforms [] plats = Some ps \<and>
      create_policy_rule (panel t) t i now n1 ty dev (if 3 \<le> length ps then [] else ps) db = Inr (r, db1)")
    case True
    then obtain n1 ps r db1 where c: "sanitize_software_name n = Some n1" "ty \<in> {''allowed'', ''forbidden''}" "collect_platforms [] plats = Some ps"
      "create_policy_rule (panel t) t i now n1 ty dev (if 3 \<le> length ps then [] else ps) db = Inr (r, db1)" by blast
    have "tables_ok db1"
      by (rule create_rule_ok [OF c(4) ok]) (use c sanitize_idem [OF c(1)] collect_platforms_ok [OF c(3)] in auto)
    then show ?thesis using c by (auto simp: create_policy_call_def)
  next
    case False
    then show ?thesis using ok by (auto simp: create_policy_call_def split: option.splits sum.splits)
  qed
qed

lemma assign_software_call_ok: "tables_ok db \<Longrightarrow> tables_ok (snd (assign_software_call t who i now g n ty db))"
proof -
  assume ok: "tables_ok db"
  show ?thesis
  proof (cases "\<exists>n1 r db1. sanitize_software_name n = Some n1 \<and> ty \<in> {''allowed'', ''forbidden''} \<and>
      assign_software_to_group (panel t) t i now g n1 ty db = Inr (r, db1)")
    case True
    then obtain n1 r db1 where c: "sanitize_software_name n = Some n1" "ty \<in> {''allowed'', ''forbidden''}"
      "assign_software_to_group (panel t) t i now g n1 ty db = Inr (r, db1)" by blast
    have "tables_ok db1" by (rule assign_software_ok [OF c(3) ok]) (use c sanitize_idem [OF c(1)] in auto)
    then show ?thesis using c by (auto simp: assign_software_call_def)
  next
    case False
    then show ?thesis using ok by (auto simp: assign_software_call_def split: option.splits sum.splits)
  qed
qed

lemma panel_answer_ok:
  assumes ok: "tables_ok db" and fresh: "fresh_call c db"
  shows "tables_ok (snd (panel_answer cron_ok t who c db))"
proof (cases c)
  case CreatePolicy
  then show ?thesis using create_policy_call_ok [OF ok] by simp
next
  case AssignSoftware
  then show ?thesis using assign_software_call_ok [OF ok] by simp
next
  case DeletePolicy
  then show ?thesis using ok by (auto simp: delete_policy_call_def split: sum.split dest: delete_rule_ok)
next
  case UnassignSoftware
  then show ?thesis using ok by (auto simp: unassign_software_call_def split: sum.split dest: unassign_software_ok)
next
  case CreateScript
  then show ?thesis using ok fresh
    by (auto simp: create_script_call_def split: sum.split option.split dest: create_script_ok platforms_named)
next
  case UpdateScript
  then show ?thesis using ok
    by (auto simp: update_script_call_def split: sum.split option.split dest: update_script_ok platforms_named)
next
  case DeleteScript
  then show ?thesis using ok by (auto simp: delete_script_call_def split: sum.split dest: delete_script_ok)
next
  case CreateScriptPolicy
  then show ?thesis using ok fresh
    by (auto simp: create_script_policy_call_def split: sum.split option.split dest: create_script_policy_ok)
next
  case UpdateScriptPolicy
  then show ?thesis using ok
    by (auto simp: update_script_policy_call_def split: sum.split option.split dest: update_script_policy_ok)
next
  case ToggleScriptPolicy
  then show ?thesis using ok by (auto simp: toggle_script_policy_call_def split: sum.split dest: toggle_script_policy_ok)
next
  case DeleteScriptPolicy
  then show ?thesis using ok by (auto simp: delete_script_policy_call_def split: sum.split dest: delete_script_policy_ok)
next
  case CreateGroup
  then show ?thesis using ok fresh
    by (auto simp: create_group_call_def Let_def split: sum.split option.split dest: create_device_group_ok)
next
  case UpdateGroup
  then show ?thesis using ok
    by (auto simp: update_group_call_def Let_def split: sum.split option.split dest: update_device_group_ok)
next
  case DeleteGroup
  then show ?thesis using ok by (auto simp: delete_group_call_def split: sum.split dest: delete_device_group_ok)
next
  case AddMember
  then show ?thesis using ok by (auto simp: add_member_call_def split: sum.split dest: add_device_ok)
next
  case RemoveMember
  then show ?thesis using ok by (auto simp: remove_member_call_def split: sum.split dest: remove_device_ok)
next
  case AssignPolicy
  then show ?thesis using ok by (auto simp: assign_policy_call_def split: sum.split dest: assign_policy_ok)
next
  case UnassignPolicy
  then show ?thesis using ok by (auto simp: unassign_policy_call_def split: sum.split dest: unassign_policy_ok)
qed

text \<open>A history of calls of any operators of any tenants.\<close>

inductive panel_run :: "(string \<Rightarrow> bool) \<Rightarrow> policy_db \<Rightarrow> policy_db \<Rightarrow> bool" for cron_ok where
  panel_start: "panel_run cron_ok db db"
| panel_next: "panel_run cron_ok db db1 \<Longrightarrow> fresh_call c db1 \<Longrightarrow> panel_run cron_ok db (snd (panel_answer cron_ok t who c db1))"

lemma panel_run_ok: "panel_run cron_ok db db' \<Longrightarrow> tables_ok db \<Longrightarrow> tables_ok db'"
  by (induction rule: panel_run.induct) (simp_all add: panel_answer_ok)

section \<open>Tenants do not meet\<close>

lemma arg_scope_panel: "arg_scope (panel t) t = (if t = [] \<or> t = nil_tenant then Inl ScopeMissing else Inr (t, t))"
  by (simp add: arg_scope_def panel_def require_tenant_def bind_tenant_def)

lemma panel_op: "scoped_op (panel t) t op = (if t = [] \<or> t = nil_tenant then Inl (PoStore ScopeMissing) else op (t, t))"
  by (simp add: scoped_op_def arg_scope_panel)

lemma visible_same [simp]: "visible (t, t) tn \<longleftrightarrow> tn = t"
  by (auto simp: visible_def)

text \<open>What a tenant owns.\<close>

definition tenant_view :: "string \<Rightarrow> policy_db \<Rightarrow> script_row list \<times> policy_row list \<times> group_row list \<times> assign_row list \<times> member_row list \<times> rule_row list" where
  "tenant_view u db = (filter (\<lambda>r. sc_tenant r = u) (pd_scripts db), filter (\<lambda>r. pl_tenant r = u) (pd_policies db),
     filter (\<lambda>r. gr_tenant r = u) (pd_groups db), filter (\<lambda>r. as_tenant r = u) (pd_assigns db),
     filter (\<lambda>r. gm_tenant r = u) (db_members (pd_base db)), filter (\<lambda>r. ru_tenant r = u) (pd_rules db))"

lemma view_audited [simp]: "tenant_view u (audited t who act obj db) = tenant_view u db"
  by (simp add: tenant_view_def audited_def write_audit_def)

lemma filter_other: "(\<And>x. x \<in> set xs \<Longrightarrow> P x \<Longrightarrow> Q x) \<Longrightarrow> filter P (filter Q xs) = filter P xs"
  by (induction xs) auto

lemma keyed_unique: "distinct (map f xs) \<Longrightarrow> (tn, i) \<in> (\<lambda>x. (g x, f x)) ` set xs \<Longrightarrow> x \<in> set xs \<Longrightarrow> f x = i \<Longrightarrow> g x = tn"
  by (auto simp: distinct_map dest: inj_onD)

lemma group_tenant: "tables_ok db \<Longrightarrow> group_of (t, t) i db = Some g \<Longrightarrow> (tn, i) \<in> group_keys db \<Longrightarrow> tn = t"
  using keyed_unique [of gr_id "pd_groups db" tn i gr_tenant g] group_of_Some [of "(t, t)" i db g]
  by (simp add: tables_defs group_keys_def)

lemma policy_tenant: "tables_ok db \<Longrightarrow> policy_of (t, t) i db = Some p \<Longrightarrow> (tn, i) \<in> policy_keys db \<Longrightarrow> tn = t"
  using keyed_unique [of pl_id "pd_policies db" tn i pl_tenant p] policy_of_Some [of "(t, t)" i db p]
  by (simp add: tables_defs policy_keys_def)

lemma script_ops_view:
  assumes "u \<noteq> t"
  shows "create_script (panel t) t i now n plat c db = Inr (s, db') \<Longrightarrow> tenant_view u db' = tenant_view u db"
    and "update_script (panel t) t i now n plat c db = Inr (so, db') \<Longrightarrow> tenant_view u db' = tenant_view u db"
    and "delete_script (panel t) t i db = Inr (x, db') \<Longrightarrow> tenant_view u db' = tenant_view u db"
  subgoal using assms by (auto simp: create_script_def panel_op Let_def tenant_view_def split: if_splits dest!: named_insertE)
  subgoal using assms
    by (auto simp: update_script_def panel_op Let_def tenant_view_def split: if_splits option.splits
        dest!: named_insertE script_of_Some intro!: filter_update_where_other)
  subgoal using assms
    by (auto simp: delete_script_def panel_op tenant_view_def simp del: filter_filter split: if_splits option.splits intro!: filter_other)
  done

lemma policy_ops_view:
  assumes "u \<noteq> t"
  shows "create_script_policy (panel t) t i now n sid trig sched ev db = Inr (p, db') \<Longrightarrow> tenant_view u db' = tenant_view u db"
    and "update_script_policy (panel t) t i n sid trig sched ev db = Inr (po, db') \<Longrightarrow> tenant_view u db' = tenant_view u db"
    and "toggle_script_policy (panel t) t i act db = Inr (x, db') \<Longrightarrow> tenant_view u db' = tenant_view u db"
  subgoal using assms
    by (auto simp: create_script_policy_def panel_op Let_def tenant_view_def split: if_splits option.splits dest!: named_insertE)
  subgoal using assms
    by (auto simp: update_script_policy_def panel_op Let_def tenant_view_def split: if_splits option.splits
        dest!: named_insertE policy_of_Some intro!: filter_update_where_other)
  subgoal using assms
    by (auto simp: toggle_script_policy_def panel_op tenant_view_def split: if_splits intro!: filter_update_where_other)
  done

lemma delete_script_policy_view:
  assumes "u \<noteq> t" and ok: "tables_ok db" and r: "delete_script_policy (panel t) t i db = Inr (x, db')"
  shows "tenant_view u db' = tenant_view u db"
proof (cases "policy_of (t, t) i db")
  case (Some p)
  have "as_tenant a = t" if "a \<in> set (pd_assigns db)" "as_policy a = i" for a
    using that ok policy_tenant [OF ok Some, of "as_tenant a"] by (auto simp: tables_defs)
  then show ?thesis using r Some \<open>u \<noteq> t\<close>
    by (auto simp: delete_script_policy_def panel_op tenant_view_def simp del: filter_filter split: if_splits intro!: filter_other)
qed (use r in \<open>auto simp: delete_script_policy_def panel_op split: if_splits\<close>)

lemma group_ops_view:
  assumes "u \<noteq> t"
  shows "create_device_group (panel t) t i now n color ch db = Inr (g, db') \<Longrightarrow> tenant_view u db' = tenant_view u db"
    and "update_device_group (panel t) t i n color ch db = Inr (go, db') \<Longrightarrow> tenant_view u db' = tenant_view u db"
  subgoal using assms
    by (auto simp: create_device_group_def panel_op Let_def tenant_view_def split: if_splits dest!: named_insertE)
  subgoal using assms
    by (auto simp: update_device_group_def panel_op Let_def tenant_view_def split: if_splits option.splits
        dest!: named_insertE group_of_Some intro!: filter_update_where_other)
  done

lemma delete_group_view:
  assumes "u \<noteq> t" and ok: "tables_ok db" and r: "delete_device_group (panel t) t i db = Inr (x, db')"
  shows "tenant_view u db' = tenant_view u db"
proof (cases "group_of (t, t) i db")
  case (Some g)
  note gt = group_tenant [OF ok Some]
  have "as_tenant a = t" if "a \<in> set (pd_assigns db)" "as_group a = i" for a using that ok gt [of "as_tenant a"] by (auto simp: tables_defs)
  moreover have "gm_tenant m = t" if "m \<in> set (db_members (pd_base db))" "gm_group m = i" for m
    using that ok gt [of "gm_tenant m"] by (auto simp: tables_defs)
  moreover have "ru_tenant r = t" if "r \<in> set (pd_rules db)" "ru_group r = Some i" for r
    using that ok gt [of "ru_tenant r"] by (auto simp: tables_defs)
  ultimately show ?thesis using r Some \<open>u \<noteq> t\<close>
    by (auto simp: delete_device_group_def panel_op tenant_view_def simp del: filter_filter split: if_splits intro!: filter_other)
qed (use r in \<open>auto simp: delete_device_group_def panel_op split: if_splits\<close>)

lemma member_ops_view:
  assumes "u \<noteq> t"
  shows "add_device_to_group (panel t) t dev g db = Inr (x, db') \<Longrightarrow> tenant_view u db' = tenant_view u db"
    and "remove_device_from_group (panel t) t dev g db = Inr (x, db') \<Longrightarrow> tenant_view u db' = tenant_view u db"
    and "assign_policy_to_group (panel t) t p g db = Inr (x, db') \<Longrightarrow> tenant_view u db' = tenant_view u db"
    and "unassign_policy_from_group (panel t) t p g db = Inr (x, db') \<Longrightarrow> tenant_view u db' = tenant_view u db"
  subgoal using assms by (auto simp: add_device_to_group_def panel_op tenant_view_def split: if_splits)
  subgoal using assms by (auto simp: remove_device_from_group_def panel_op tenant_view_def simp del: filter_filter split: if_splits intro!: filter_other)
  subgoal using assms by (auto simp: assign_policy_to_group_def panel_op tenant_view_def split: if_splits)
  subgoal using assms by (auto simp: unassign_policy_from_group_def panel_op tenant_view_def simp del: filter_filter split: if_splits intro!: filter_other)
  done

lemma rule_ops_view:
  assumes "u \<noteq> t"
  shows "create_policy_rule (panel t) t i now n ty dev plats db = Inr (r, db') \<Longrightarrow> tenant_view u db' = tenant_view u db"
    and "delete_policy_rule (panel t) t i db = Inr (x, db') \<Longrightarrow> tenant_view u db' = tenant_view u db"
    and "assign_software_to_group (panel t) t i now g n ty db = Inr (r, db') \<Longrightarrow> tenant_view u db' = tenant_view u db"
    and "unassign_software_from_group (panel t) t g i db = Inr (x, db') \<Longrightarrow> tenant_view u db' = tenant_view u db"
  subgoal using assms by (auto simp: create_policy_rule_def panel_op Let_def tenant_view_def split: if_splits)
  subgoal using assms by (auto simp: delete_policy_rule_def panel_op tenant_view_def simp del: filter_filter split: if_splits intro!: filter_other)
  subgoal using assms by (auto simp: assign_software_to_group_def panel_op Let_def tenant_view_def split: if_splits)
  subgoal using assms by (auto simp: unassign_software_from_group_def panel_op tenant_view_def simp del: filter_filter split: if_splits intro!: filter_other)
  done

lemma panel_answer_view:
  assumes ok: "tables_ok db" and other: "u \<noteq> t"
  shows "tenant_view u (snd (panel_answer cron_ok t who c db)) = tenant_view u db"
proof (cases c)
  case CreatePolicy
  then show ?thesis by (auto simp: create_policy_call_def Let_def split: sum.split option.split dest: rule_ops_view(1) [OF other])
next
  case DeletePolicy
  then show ?thesis by (auto simp: delete_policy_call_def Let_def split: sum.split  dest: rule_ops_view(2) [OF other])
next
  case AssignSoftware
  then show ?thesis by (auto simp: assign_software_call_def Let_def split: sum.split option.split dest: rule_ops_view(3) [OF other])
next
  case UnassignSoftware
  then show ?thesis by (auto simp: unassign_software_call_def Let_def split: sum.split  dest: rule_ops_view(4) [OF other])
next
  case CreateScript
  then show ?thesis by (auto simp: create_script_call_def Let_def split: sum.split option.split dest: script_ops_view(1) [OF other])
next
  case UpdateScript
  then show ?thesis by (auto simp: update_script_call_def Let_def split: sum.split option.split dest: script_ops_view(2) [OF other])
next
  case DeleteScript
  then show ?thesis by (auto simp: delete_script_call_def Let_def split: sum.split  dest: script_ops_view(3) [OF other])
next
  case CreateScriptPolicy
  then show ?thesis by (auto simp: create_script_policy_call_def Let_def split: sum.split option.split dest: policy_ops_view(1) [OF other])
next
  case UpdateScriptPolicy
  then show ?thesis by (auto simp: update_script_policy_call_def Let_def split: sum.split option.split dest: policy_ops_view(2) [OF other])
next
  case ToggleScriptPolicy
  then show ?thesis by (auto simp: toggle_script_policy_call_def Let_def split: sum.split  dest: policy_ops_view(3) [OF other])
next
  case DeleteScriptPolicy
  then show ?thesis by (auto simp: delete_script_policy_call_def Let_def split: sum.split  dest: delete_script_policy_view [OF other ok])
next
  case CreateGroup
  then show ?thesis by (auto simp: create_group_call_def Let_def split: sum.split option.split dest: group_ops_view(1) [OF other])
next
  case UpdateGroup
  then show ?thesis by (auto simp: update_group_call_def Let_def split: sum.split option.split dest: group_ops_view(2) [OF other])
next
  case DeleteGroup
  then show ?thesis by (auto simp: delete_group_call_def Let_def split: sum.split  dest: delete_group_view [OF other ok])
next
  case AddMember
  then show ?thesis by (auto simp: add_member_call_def Let_def split: sum.split  dest: member_ops_view(1) [OF other])
next
  case RemoveMember
  then show ?thesis by (auto simp: remove_member_call_def Let_def split: sum.split  dest: member_ops_view(2) [OF other])
next
  case AssignPolicy
  then show ?thesis by (auto simp: assign_policy_call_def Let_def split: sum.split  dest: member_ops_view(3) [OF other])
next
  case UnassignPolicy
  then show ?thesis by (auto simp: unassign_policy_call_def Let_def split: sum.split  dest: member_ops_view(4) [OF other])
qed

section \<open>What the operations promise\<close>


text \<open>A small database: the device \<open>d1\<close> of the tenant \<open>t2\<close> in the group \<open>g\<close>, with a policy and a rule.\<close>

definition demo_script :: "string \<Rightarrow> nanos \<Rightarrow> script_row" where
  "demo_script i at = \<lparr>sc_id = i, sc_tenant = ''t2'', sc_name = i, sc_platform = ''macOS'', sc_content = ''id'', sc_created = at, sc_updated = at\<rparr>"

definition demo_policy :: policy_row where
  "demo_policy = \<lparr>pl_id = ''p1'', pl_tenant = ''t2'', pl_name = ''Hello'', pl_script = ''s1'', pl_trigger = ''on_connect'',
     pl_schedule = NoDoc, pl_event = NoDoc, pl_active = True, pl_created = 9000000000, pl_updated = 9000000000\<rparr>"

definition demo_group :: group_row where
  "demo_group = \<lparr>gr_id = ''g'', gr_tenant = ''t2'', gr_name = ''Accounts'', gr_color = default_group_color, gr_channel = channel_stable, gr_created = 1\<rparr>"

definition demo_rule :: "string \<Rightarrow> rule_row" where
  "demo_rule n = \<lparr>ru_id = ''r1'', ru_tenant = ''t2'', ru_name = n, ru_type = ''forbidden'', ru_device = None, ru_group = None,
     ru_platforms = [], ru_updated = 1\<rparr>"

definition demo_policy_db :: policy_db where
  "demo_policy_db = \<lparr>pd_base = demo_db [], pd_scripts = [demo_script ''s1'' 2000000000, demo_script ''s2'' 3000000000],
     pd_policies = [demo_policy], pd_groups = [demo_group], pd_assigns = [\<lparr>as_policy = ''p1'', as_group = ''g'', as_tenant = ''t2''\<rparr>],
     pd_rules = [demo_rule ''BitTorrent'']\<rparr>"

lemmas demo_policy_defs = demo_policy_db_def demo_db_def demo_device_def demo_script_def demo_policy_def demo_group_def demo_rule_def

lemma demo_tables: "tables_ok demo_policy_db"
proof -
  have "rule_ok (demo_rule ''BitTorrent'')" by code_simp
  moreover have "names_ok demo_policy_db" by code_simp
  ultimately show ?thesis
    by (simp add: demo_policy_defs tables_ok_def refs_ok_def values_ok_def key_defs platform_names_def known_trigger_def
        valid_channel_def channel_stable_def)
qed


text \<open>Claim C21. A call of an operator of one tenant changes nothing that another tenant owns, cascades of
  deletions included.\<close>

theorem panel_calls_isolated:
  assumes "tables_ok db" and "u \<noteq> t"
  shows "tenant_view u (snd (panel_answer cron_ok t who c db)) = tenant_view u db"
  using assms by (rule panel_answer_view)

theorem panel_calls_isolated_witness:
  "tenant_view ''t9'' (snd (panel_answer (\<lambda>_. True) ''t2'' ''admin'' (DeleteGroup ''g'') demo_policy_db)) = tenant_view ''t9'' demo_policy_db"
  by (rule panel_calls_isolated [OF demo_tables]) simp

text \<open>A new script policy that names a script its tenant does not have is answered with an internal
  error: the storage returns no policy and no error, and the handler dereferences the missing policy.  The same
  request to update a policy is answered \<open>not found\<close>.  Nothing is stored.\<close>

theorem unknown_script_panics:
  assumes "t \<noteq> []" and "t \<noteq> nil_tenant" and "n \<noteq> []" and "sid \<noteq> []" and "known_trigger trig"
    and "validate_schedule_config cron_ok trig sched" and "script_of (t, t) sid db = None"
  shows "create_script_policy_call cron_ok t who i now n sid trig sched ev db = (500, db) \<and>
    update_script_policy_call cron_ok t who i n sid trig sched ev db = (404, db)"
proof -
  have "trig \<noteq> []" using assms(5) by (auto simp: known_trigger_def)
  then show ?thesis
    using assms by (simp add: create_script_policy_call_def update_script_policy_call_def create_script_policy_def
        update_script_policy_def panel_op split: option.split)
qed

theorem unknown_script_panics_witness:
  "create_script_policy_call (\<lambda>_. True) ''t2'' ''admin'' ''p1'' 5 ''Nightly'' ''s9'' ''on_connect'' NoDoc NoDoc demo_policy_db
     = (500, demo_policy_db)"
proof -
  have "script_of (''t2'', ''t2'') ''s9'' demo_policy_db = None" by (simp add: script_of_def demo_policy_db_def demo_script_def)
  then show ?thesis
    using unknown_script_panics [of "''t2''" "''Nightly''" "''s9''" "''on_connect''" "\<lambda>_. True" NoDoc demo_policy_db "''admin''" "''p1''" 5 NoDoc]
    by (simp add: nil_tenant_def known_trigger_def validate_schedule_config_def)
qed

text \<open>The same assignment made twice is stored twice.\<close>

lemma repeated_assignment_duplicates:
  assumes "t \<noteq> []" and "t \<noteq> nil_tenant" and "p \<noteq> []" and "policy_of (t, t) p db \<noteq> None" and "group_of (t, t) g db \<noteq> None"
  shows "\<exists>db'. assign_policy_call t who g p db = (204, db') \<and>
    pd_assigns db' = pd_assigns db @ [\<lparr>as_policy = p, as_group = g, as_tenant = t\<rparr>]"
  using assms by (auto simp: assign_policy_call_def assign_policy_to_group_def panel_op audited_def split: sum.split)

end
