(* ===== verification/PolicySets.thy ===== *)
theory PolicySets
  imports PolicyStore Scripts Contracts
begin

section \<open>The sets of rules and policies that a device is given\<close>

text \<open>
  Model of the resolution of the effective rules and script policies of a device
  (\<open>FetchPolicyRules\<close>, \<open>GetEffectiveScriptPoliciesForDevice\<close> in
  \<open>internal/server/storage/postgres.go\<close>), of the fingerprint of such a set that the agent compares
  (\<open>policySetVersion\<close>, \<open>policySetItem\<close>) and of the two calls of the gateway that answer them
  (\<open>FetchPolicy\<close>, \<open>FetchScriptPolicies\<close> in \<open>internal/server/gateway/gateway.go\<close>).  The script side ends
  in the manager of the agent (theory \<open>Scripts\<close>), the side of software in theory \<open>SoftwareWatch\<close>.
\<close>

subsection \<open>The fingerprint of a set\<close>

text \<open>\<open>binary.BigEndian.PutUint64\<close>, and a text behind its length.\<close>

definition be64 :: "nat \<Rightarrow> string" where
  "be64 n = map (\<lambda>k. char_of (n div 256 ^ k)) [7, 6, 5, 4, 3, 2, 1, 0]"

definition frame :: "string \<Rightarrow> string" where
  "frame s = be64 (length s) @ s"

definition policy_set_item :: "string list \<Rightarrow> string" where
  "policy_set_item fs = concat (map frame fs)"

text \<open>The text that is hashed, and the 64-bit FNV-1a hash of it as a signed number.\<close>

definition set_text :: "string list \<Rightarrow> string" where
  "set_text items = concat (map frame (sort items))"

definition fnv_byte :: "64 word \<Rightarrow> char \<Rightarrow> 64 word" where
  "fnv_byte h c = xor h (word_of_nat (of_char c)) * 1099511628211"

definition fnv64a :: "string \<Rightarrow> 64 word" where
  "fnv64a s = foldl fnv_byte 14695981039346656037 s"

definition policy_set_version :: "string list \<Rightarrow> int" where
  "policy_set_version items = sint (fnv64a (set_text items))"

subsection \<open>Rules on software\<close>

definition platform_matches :: "string list \<Rightarrow> string \<Rightarrow> bool" where
  "platform_matches plats p \<longleftrightarrow> plats = [] \<or> p \<in> set plats"

definition os_known :: "string \<Rightarrow> bool" where
  "os_known os \<longleftrightarrow> os \<noteq> [] \<and> \<not> equal_fold os ''unknown''"

text \<open>
  The rules in the scope of the device: the global ones, its own, and those of its groups; only the
  global ones when the certificate is of no device.  In the latter case the scope is that of the
  default tenant.
\<close>

definition rule_applies :: "string \<Rightarrow> string option \<Rightarrow> policy_db \<Rightarrow> rule_row \<Rightarrow> bool" where
  "rule_applies tn dev db r \<longleftrightarrow> ru_tenant r = tn \<and>
     ((ru_device r = None \<and> ru_group r = None) \<or>
      (case dev of None \<Rightarrow> False
       | Some d \<Rightarrow> ru_device r = Some d \<or>
           list_ex (\<lambda>m. gm_tenant m = tn \<and> gm_device m = d \<and> ru_group r = Some (gm_group m)) (db_members (pd_base db))))"

definition fetch_policy_rules :: "scope_ctx \<Rightarrow> string \<Rightarrow> policy_db \<Rightarrow> store_error + ((string \<times> string) list \<times> int)" where
  "fetch_policy_rules cx fp db =
     (let row = device_by_fp (pd_base db) fp
      in case bind_tenant cx (case row of None \<Rightarrow> default_tenant | Some d \<Rightarrow> dv_tenant d) of
           Inl e \<Rightarrow> Inl e
         | Inr tn \<Rightarrow>
             (let seen = (case row of None \<Rightarrow> None | Some d \<Rightarrow> scoped_device (pd_base db) tn (dv_id d));
                  os = (case seen of None \<Rightarrow> [] | Some d \<Rightarrow> dv_os d);
                  rows = filter (rule_applies tn (map_option dv_id seen) db) (pd_rules db);
                  kept = filter (\<lambda>r. \<not> (os_known os \<and> \<not> platform_matches (ru_platforms r) (platform_of_os os))) rows;
                  rules = map (\<lambda>r. (ru_name r, ru_type r)) kept
              in Inr (rules, policy_set_version (map (\<lambda>(n, ty). policy_set_item [n, ty]) rules))))"

record policy_answer =
  pa_unchanged :: bool
  pa_version :: int
  pa_rules :: "(string \<times> bool) list"

text \<open>\<open>FetchPolicy\<close>.  A device that waits for approval is told that there are no rules; a failed
  statement is an error of the call, and the faults of the connection are left to the caller.\<close>

definition fetch_policy :: "string \<Rightarrow> int \<Rightarrow> policy_db \<Rightarrow> policy_answer option" where
  "fetch_policy fp known db =
     (if device_status_by_fp (pd_base db) fp = ''pending_approval''
      then Some \<lparr>pa_unchanged = False, pa_version = 0, pa_rules = []\<rparr>
      else (case fetch_policy_rules (scope_by_fp (pd_base db) fp) fp db of
          Inl e \<Rightarrow> None
        | Inr (rules, v) \<Rightarrow> Some
            (if v \<noteq> 0 \<and> known = v then \<lparr>pa_unchanged = True, pa_version = v, pa_rules = []\<rparr>
             else \<lparr>pa_unchanged = False, pa_version = v, pa_rules = map (\<lambda>(n, ty). (n, ty = ''forbidden'')) rules\<rparr>)))"

subsection \<open>Script policies\<close>

text \<open>\<open>effective_updated_at\<close> is in nanoseconds.\<close>

record effective_policy =
  ep_id :: string
  ep_name :: string
  ep_content :: string
  ep_platform :: string
  ep_trigger :: string
  ep_cron :: string
  ep_event :: string
  ep_updated :: nanos

definition cfg_field :: "cfg_doc \<Rightarrow> string" where
  "cfg_field d = (case d of Obj (Some c) \<Rightarrow> c | _ \<Rightarrow> [])"

text \<open>Whether the policy is assigned to a group of the device with this certificate, all within the tenant.\<close>

definition assigned_to :: "string \<Rightarrow> string \<Rightarrow> policy_db \<Rightarrow> policy_row \<Rightarrow> bool" where
  "assigned_to tn fp db p \<longleftrightarrow>
     list_ex (\<lambda>a. as_tenant a = tn \<and> as_policy a = pl_id p \<and>
       list_ex (\<lambda>m. gm_tenant m = tn \<and> gm_group m = as_group a \<and>
         list_ex (\<lambda>d. dv_tenant d = tn \<and> dv_id d = gm_device m \<and> dv_fp d = fp) (db_devices (pd_base db)))
       (db_members (pd_base db))) (pd_assigns db)"

text \<open>Keys are unique, so that \<open>DISTINCT ON (p.id)\<close> leaves one row for each policy.\<close>

definition effective_of :: "string \<Rightarrow> policy_db \<Rightarrow> policy_row \<Rightarrow> effective_policy list" where
  "effective_of tn db p = (case find (\<lambda>s. sc_tenant s = tn \<and> sc_id s = pl_script p) (pd_scripts db) of
     None \<Rightarrow> []
   | Some s \<Rightarrow> [\<lparr>ep_id = pl_id p, ep_name = pl_name p, ep_content = sc_content s, ep_platform = sc_platform s,
       ep_trigger = pl_trigger p, ep_cron = cfg_field (pl_schedule p), ep_event = cfg_field (pl_event p),
       ep_updated = max (pl_updated p) (sc_updated s)\<rparr>])"

definition effective_item :: "effective_policy \<Rightarrow> string" where
  "effective_item e = policy_set_item [ep_id e, ep_name e, ep_platform e, ep_trigger e, ep_cron e, ep_event e,
     dec_int (ep_updated e), ep_content e]"

definition effective_script_policies :: "scope_ctx \<Rightarrow> string \<Rightarrow> policy_db \<Rightarrow> store_error + (effective_policy list \<times> int)" where
  "effective_script_policies cx fp db = (case device_by_fp (pd_base db) fp of
     None \<Rightarrow> Inr ([], 0)
   | Some d \<Rightarrow> (case bind_tenant cx (dv_tenant d) of
       Inl e \<Rightarrow> Inl e
     | Inr tn \<Rightarrow>
         (let ps = sort_key pl_id (filter (\<lambda>p. pl_tenant p = tn \<and> pl_active p \<and> assigned_to tn fp db p) (pd_policies db));
              es = concat (map (effective_of tn db) ps)
          in Inr (es, policy_set_version (map effective_item es)))))"

definition platform_to_interpreter :: "string \<Rightarrow> string" where
  "platform_to_interpreter p = (if p = ''Windows'' then ''powershell'' else ''shell'')"

definition trigger_to_proto :: "string \<Rightarrow> trigger" where
  "trigger_to_proto t = (if t = ''schedule'' then Schedule else if t = ''event_trigger'' then OnEvent
     else if t = ''on_connect'' then OnConnect else NoTrigger)"

definition event_to_proto :: "string \<Rightarrow> os_event" where
  "event_to_proto n = (if n = ''login'' then Login else if n = ''logout'' then Logout
     else if n = ''network_change'' then NetworkChange else NoEvent)"

definition proto_policy :: "effective_policy \<Rightarrow> script_policy" where
  "proto_policy e = \<lparr>sp_id = ep_id e, sp_name = ep_name e, sp_interp = platform_to_interpreter (ep_platform e),
     sp_content = ep_content e, sp_trigger = trigger_to_proto (ep_trigger e), sp_event = event_to_proto (ep_event e),
     sp_cron = ep_cron e, sp_timeout = 0, sp_updated = ep_updated e div second\<rparr>"

definition fetch_script_policies :: "string \<Rightarrow> policy_db \<Rightarrow> int \<Rightarrow> policies_resp option" where
  "fetch_script_policies fp db known =
     (if device_status_by_fp (pd_base db) fp = ''pending_approval''
      then Some \<lparr>pr_unchanged = False, pr_version = 0, pr_policies = []\<rparr>
      else (case effective_script_policies (scope_by_fp (pd_base db) fp) fp db of
          Inl e \<Rightarrow> None
        | Inr (es, v) \<Rightarrow> Some
            (if v \<noteq> 0 \<and> known = v then \<lparr>pr_unchanged = True, pr_version = v, pr_policies = []\<rparr>
             else \<lparr>pr_unchanged = False, pr_version = v, pr_policies = map proto_policy es\<rparr>)))"

section \<open>What the fingerprint tells apart\<close>

definition be64_value :: "string \<Rightarrow> nat" where
  "be64_value s = foldl (\<lambda>a c. 256 * a + of_char c) 0 s"

definition unframe :: "string \<Rightarrow> (string \<times> string) option" where
  "unframe s = (let n = be64_value (take 8 s); r = drop 8 s in if length s < 8 \<or> length r < n then None else Some (take n r, drop n r))"

text \<open>No string of a Go program is longer.\<close>

definition fits64 :: "string \<Rightarrow> bool" where "fits64 s \<longleftrightarrow> length s < 2 ^ 64"

lemma length_be64 [simp]: "length (be64 n) = 8"
  by (simp add: be64_def)

lemma horner: "foldl (\<lambda>a c. 256 * a + of_char c) (n div 256 ^ j) (map (\<lambda>k. char_of (n div 256 ^ k)) (rev [0..<j])) = (n :: nat)"
proof (induction j)
  case (Suc j)
  have "n div 256 ^ Suc j = n div 256 ^ j div 256" by (metis div_mult2_eq power_Suc2)
  then have "256 * (n div 256 ^ Suc j) + n div 256 ^ j mod 256 = n div 256 ^ j" by simp
  then show ?case using Suc by (simp del: power_Suc)
qed simp

lemma be64_value_be64:
  assumes "n < 2 ^ 64"
  shows "be64_value (be64 n) = n"
proof -
  have "rev [0..<8] = [7, 6, 5, 4, 3, 2, 1, 0::nat]" by (simp add: upt_rec)
  moreover have "n div 256 ^ 8 = 0" using assms by simp
  ultimately show ?thesis using horner [of n 8] by (simp only: be64_value_def be64_def)
qed

interpretation item: framing frame unframe fits64 "\<lambda>_. True"
proof unfold_locales
  fix s r assume "fits64 s"
  then show "unframe (frame s @ r) = Some (s, r)" by (simp add: fits64_def frame_def unframe_def be64_value_be64)
next
  fix s
  have "length (frame s) \<noteq> 0" by (simp add: frame_def)
  then show "frame s \<noteq> []" by auto
qed simp_all

lemma sort_mset: "sort xs = sort ys \<longleftrightarrow> mset xs = mset ys" for xs :: "'a :: linorder list"
  by (metis mset_sort properties_for_sort sorted_sort)

lemma set_text_mset: "list_all fits64 xs \<Longrightarrow> list_all fits64 ys \<Longrightarrow> set_text xs = set_text ys \<longleftrightarrow> mset xs = mset ys"
proof -
  assume "list_all fits64 xs" and "list_all fits64 ys"
  then have "list_all fits64 (sort xs)" "list_all fits64 (sort ys)" by (simp_all add: list_all_iff)
  then have "set_text xs = set_text ys \<longleftrightarrow> sort xs = sort ys" unfolding set_text_def
    using item.frames_inj [of "sort xs" "sort ys"] by auto
  then show ?thesis by (simp add: sort_mset)
qed

lemma set_item_inj: "list_all fits64 fs \<Longrightarrow> list_all fits64 gs \<Longrightarrow> policy_set_item fs = policy_set_item gs \<longleftrightarrow> fs = gs"
  using item.frames_inj [of fs gs] by (auto simp: policy_set_item_def)

lemma mset_map_inj:
  assumes inj: "inj_on f (set xs \<union> set ys)"
  shows "mset (map f xs) = mset (map f ys) \<longleftrightarrow> mset xs = mset ys"
proof
  assume e: "mset (map f xs) = mset (map f ys)"
  let ?g = "inv_into (set xs \<union> set ys) f"
  have "map ?g (map f xs) = xs" "map ?g (map f ys) = ys" using inj by (auto simp: comp_def intro!: map_idI)
  moreover have "mset (map ?g (map f xs)) = mset (map ?g (map f ys))" using e by (metis mset_map)
  ultimately show "mset xs = mset ys" by simp
qed auto

text \<open>A set of which every field and every item has a length that a Go string can have.\<close>

definition measured :: "('a \<Rightarrow> string list) \<Rightarrow> 'a list \<Rightarrow> bool" where
  "measured fs xs \<longleftrightarrow> (\<forall>x \<in> set xs. list_all fits64 (fs x) \<and> fits64 (policy_set_item (fs x)))"

lemma set_text_binds_fields:
  assumes "measured fs xs" and "measured fs ys" and "inj_on fs (set xs \<union> set ys)"
  shows "set_text (map (\<lambda>x. policy_set_item (fs x)) xs) = set_text (map (\<lambda>x. policy_set_item (fs x)) ys) \<longleftrightarrow> mset xs = mset ys"
proof -
  have "inj_on (\<lambda>x. policy_set_item (fs x)) (set xs \<union> set ys)"
  proof (rule inj_onI)
    fix x y assume xy: "x \<in> set xs \<union> set ys" "y \<in> set xs \<union> set ys" and e: "policy_set_item (fs x) = policy_set_item (fs y)"
    have "list_all fits64 (fs x)" "list_all fits64 (fs y)" using xy assms(1,2) unfolding measured_def by blast+
    then have "fs x = fs y" using e set_item_inj by blast
    then show "x = y" using xy assms(3) by (meson inj_onD)
  qed
  moreover have "list_all fits64 (map (\<lambda>x. policy_set_item (fs x)) xs)" "list_all fits64 (map (\<lambda>x. policy_set_item (fs x)) ys)"
    using assms(1,2) by (auto simp: measured_def list_all_iff)
  ultimately show ?thesis using set_text_mset mset_map_inj by blast
qed

section \<open>What a device is given\<close>

lemma find_key: "distinct (map f xs) \<Longrightarrow> x \<in> set xs \<Longrightarrow> f x = k \<Longrightarrow> find (\<lambda>y. f y = k) xs = Some x"
  by (induction xs) auto

lemma find_second: "distinct (map f xs) \<Longrightarrow> x \<in> set xs \<Longrightarrow> P x \<Longrightarrow> f x = k \<Longrightarrow> find (\<lambda>y. P y \<and> f y = k) xs = Some x"
  by (induction xs) auto

lemma device_by_fp_found: "keys_ok b \<Longrightarrow> d \<in> set (db_devices b) \<Longrightarrow> device_by_fp b (dv_fp d) = Some d"
  unfolding device_by_fp_def by (rule find_key) (simp_all add: keys_ok_def)

definition device_ok :: "policy_db \<Rightarrow> device_row \<Rightarrow> bool" where
  "device_ok db d \<longleftrightarrow> tables_ok db \<and> keys_ok (pd_base db) \<and> d \<in> set (db_devices (pd_base db)) \<and>
     dv_tenant d \<noteq> [] \<and> dv_tenant d \<noteq> nil_tenant"

lemma device_okD:
  assumes "device_ok db d"
  shows "tables_ok db" "keys_ok (pd_base db)" "d \<in> set (db_devices (pd_base db))"
  using assms by (simp_all add: device_ok_def)

lemma device_scope:
  assumes "device_ok db d"
  shows "device_by_fp (pd_base db) (dv_fp d) = Some d" "bind_tenant (scope_by_fp (pd_base db) (dv_fp d)) (dv_tenant d) = Inr (dv_tenant d)"
    "device_status_by_fp (pd_base db) (dv_fp d) = dv_status d" "scoped_device (pd_base db) (dv_tenant d) (dv_id d) = Some d"
proof -
  show f: "device_by_fp (pd_base db) (dv_fp d) = Some d" using assms device_by_fp_found by (auto simp: device_ok_def)
  show "bind_tenant (scope_by_fp (pd_base db) (dv_fp d)) (dv_tenant d) = Inr (dv_tenant d)"
    using assms f by (simp add: device_ok_def bind_tenant_def require_tenant_def scope_by_fp_def tenant_for_fp_def)
  show "device_status_by_fp (pd_base db) (dv_fp d) = dv_status d" using f by (simp add: device_status_by_fp_def)
  show "scoped_device (pd_base db) (dv_tenant d) (dv_id d) = Some d" unfolding scoped_device_def
    by (rule find_second) (use assms in \<open>simp_all add: device_ok_def keys_ok_def\<close>)
qed

text \<open>The policies that reach a device: assigned to one of its groups.\<close>

definition targets :: "policy_db \<Rightarrow> device_row \<Rightarrow> policy_row \<Rightarrow> bool" where
  "targets db d p \<longleftrightarrow> (\<exists>a \<in> set (pd_assigns db). \<exists>m \<in> set (db_members (pd_base db)).
     as_policy a = pl_id p \<and> gm_group m = as_group a \<and> gm_device m = dv_id d)"

lemma keyed_row: "(tn, i) \<in> (\<lambda>x. (g x, f x)) ` A \<Longrightarrow> \<exists>x \<in> A. g x = tn \<and> f x = i"
  by auto

lemma member_tenant:
  assumes ok: "device_ok db d" and m: "m \<in> set (db_members (pd_base db))" "gm_device m = dv_id d"
  shows "gm_tenant m = dv_tenant d"
proof -
  have "(gm_tenant m, gm_device m) \<in> device_keys db" using device_okD(1) [OF ok] m(1) unfolding tables_ok_def refs_ok_def by blast
  from keyed_row [OF this [unfolded device_keys_def]]
  obtain e where e: "e \<in> set (db_devices (pd_base db))" "dv_tenant e = gm_tenant m" "dv_id e = gm_device m" by (elim bexE conjE)
  have "dv_id e = dv_id d" using e(3) m(2) by (rule trans)
  from device_unique [OF device_okD(2) [OF ok] e(1) device_okD(3) [OF ok] this] have "e = d" .
  then show ?thesis using e(2) by simp
qed

lemma assign_tenant:
  assumes ok: "tables_ok db" and a: "a \<in> set (pd_assigns db)" "as_policy a = pl_id p" and p: "p \<in> set (pd_policies db)"
  shows "as_tenant a = pl_tenant p"
proof -
  have k: "(as_tenant a, pl_id p) \<in> (\<lambda>p. (pl_tenant p, pl_id p)) ` set (pd_policies db)"
    using ok a unfolding tables_ok_def refs_ok_def policy_keys_def by metis
  have "distinct (map pl_id (pd_policies db))" using ok unfolding tables_ok_def names_ok_def by blast
  from keyed_unique [OF this k p refl] show ?thesis by simp
qed

lemma assigned_to_targets:
  assumes ok: "device_ok db d" and p: "p \<in> set (pd_policies db)" "pl_tenant p = dv_tenant d"
  shows "assigned_to (dv_tenant d) (dv_fp d) db p \<longleftrightarrow> targets db d p"
proof
  assume "assigned_to (dv_tenant d) (dv_fp d) db p"
  then obtain a m e where a: "a \<in> set (pd_assigns db)" "as_policy a = pl_id p" and m: "m \<in> set (db_members (pd_base db))" "gm_group m = as_group a"
    and e: "e \<in> set (db_devices (pd_base db))" "dv_id e = gm_device m" "dv_fp e = dv_fp d"
    unfolding assigned_to_def list_ex_iff by blast
  have "device_by_fp (pd_base db) (dv_fp e) = Some e" by (rule device_by_fp_found [OF device_okD(2) [OF ok] e(1)])
  then have "e = d" using device_scope(1) [OF ok] e(3) by (metis option.inject)
  then show "targets db d p" using a m e by (auto simp: targets_def)
next
  assume "targets db d p"
  then obtain a m where a: "a \<in> set (pd_assigns db)" "as_policy a = pl_id p" and m: "m \<in> set (db_members (pd_base db))" "gm_group m = as_group a"
    "gm_device m = dv_id d" by (auto simp: targets_def)
  moreover have "as_tenant a = dv_tenant d" using assign_tenant [OF device_okD(1) [OF ok] a p(1)] p(2) by (rule trans)
  moreover have "gm_tenant m = dv_tenant d" using member_tenant [OF ok m(1,3)] .
  ultimately show "assigned_to (dv_tenant d) (dv_fp d) db p"
    using device_okD(3) [OF ok] unfolding assigned_to_def list_ex_iff by metis
qed

definition effective_row :: "policy_row \<Rightarrow> script_row \<Rightarrow> effective_policy" where
  "effective_row p s = \<lparr>ep_id = pl_id p, ep_name = pl_name p, ep_content = sc_content s, ep_platform = sc_platform s,
     ep_trigger = pl_trigger p, ep_cron = cfg_field (pl_schedule p), ep_event = cfg_field (pl_event p),
     ep_updated = max (pl_updated p) (sc_updated s)\<rparr>"

lemma find_script: "distinct (map sc_id ss) \<Longrightarrow> s \<in> set ss \<Longrightarrow> sc_tenant s = tn \<Longrightarrow> sc_id s = i \<Longrightarrow>
  find (\<lambda>s. sc_tenant s = tn \<and> sc_id s = i) ss = Some s"
  by (induction ss) auto

lemma effective_of_script:
  assumes ok: "tables_ok db" and s: "s \<in> set (pd_scripts db)" "sc_tenant s = tn" "sc_id s = pl_script p"
  shows "effective_of tn db p = [effective_row p s]"
proof -
  have "distinct (map sc_id (pd_scripts db))" using ok by (simp add: tables_defs)
  then show ?thesis using find_script [of "pd_scripts db" s tn "pl_script p"] s by (simp add: effective_of_def effective_row_def)
qed

lemma policy_script:
  assumes "tables_ok db" and "p \<in> set (pd_policies db)"
  obtains s where "s \<in> set (pd_scripts db)" and "sc_tenant s = pl_tenant p" and "sc_id s = pl_script p"
proof -
  have "(pl_tenant p, pl_script p) \<in> script_keys db" using assms unfolding tables_ok_def refs_ok_def by blast
  from keyed_row [OF this [unfolded script_keys_def]] show ?thesis using that by blast
qed

definition script_set :: "string \<Rightarrow> string \<Rightarrow> policy_db \<Rightarrow> effective_policy list" where
  "script_set tn fp db = concat (map (effective_of tn db)
     (sort_key pl_id (filter (\<lambda>p. pl_tenant p = tn \<and> pl_active p \<and> assigned_to tn fp db p) (pd_policies db))))"

lemma effective_script_set:
  "device_ok db d \<Longrightarrow> effective_script_policies (scope_by_fp (pd_base db) (dv_fp d)) (dv_fp d) db =
     Inr (script_set (dv_tenant d) (dv_fp d) db, policy_set_version (map effective_item (script_set (dv_tenant d) (dv_fp d) db)))"
  by (simp add: effective_script_policies_def device_scope script_set_def Let_def)

lemma in_script_set:
  assumes ok: "device_ok db d"
  shows "e \<in> set (script_set (dv_tenant d) (dv_fp d) db) \<longleftrightarrow>
    (\<exists>p \<in> set (pd_policies db). \<exists>s \<in> set (pd_scripts db). pl_active p \<and> targets db d p \<and> pl_tenant p = dv_tenant d \<and>
       sc_tenant s = dv_tenant d \<and> sc_id s = pl_script p \<and> e = effective_row p s)" (is "?l = ?r")
proof -
  have t: "tables_ok db" using ok by (simp add: device_ok_def)
  show ?thesis
  proof
    assume ?l
    then obtain p where p: "p \<in> set (pd_policies db)" "pl_tenant p = dv_tenant d" "pl_active p" "assigned_to (dv_tenant d) (dv_fp d) db p"
      and e: "e \<in> set (effective_of (dv_tenant d) db p)" by (auto simp: script_set_def)
    obtain s where s: "s \<in> set (pd_scripts db)" "sc_tenant s = pl_tenant p" "sc_id s = pl_script p" using policy_script [OF t p(1)] .
    have "e = effective_row p s" using e effective_of_script [OF t s(1), of "dv_tenant d" p] s p(2) by simp
    then show ?r using p s assigned_to_targets [OF ok p(1,2)] by auto
  next
    assume ?r
    then obtain p s where p: "p \<in> set (pd_policies db)" "pl_active p" "targets db d p" "pl_tenant p = dv_tenant d"
      and s: "s \<in> set (pd_scripts db)" "sc_tenant s = dv_tenant d" "sc_id s = pl_script p" "e = effective_row p s" by blast
    have "effective_of (dv_tenant d) db p = [e]" using effective_of_script [OF t s(1,2,3)] s(4) by simp
    moreover have "assigned_to (dv_tenant d) (dv_fp d) db p" using assigned_to_targets [OF ok p(1,4)] p(3) by simp
    ultimately show ?l using p by (auto simp: script_set_def intro!: exI [of _ p])
  qed
qed

text \<open>The rules of a device, without the detour over scopes.\<close>

definition rule_targets :: "policy_db \<Rightarrow> device_row \<Rightarrow> rule_row \<Rightarrow> bool" where
  "rule_targets db d r \<longleftrightarrow> ru_tenant r = dv_tenant d \<and>
     ((ru_device r = None \<and> ru_group r = None) \<or> ru_device r = Some (dv_id d) \<or>
      (\<exists>m \<in> set (db_members (pd_base db)). gm_device m = dv_id d \<and> ru_group r = Some (gm_group m))) \<and>
     (os_known (dv_os d) \<longrightarrow> platform_matches (ru_platforms r) (platform_of_os (dv_os d)))"

definition rule_set :: "device_row \<Rightarrow> policy_db \<Rightarrow> (string \<times> string) list" where
  "rule_set d db = map (\<lambda>r. (ru_name r, ru_type r)) (filter (rule_targets db d) (pd_rules db))"

definition rule_fields :: "string \<times> string \<Rightarrow> string list" where
  "rule_fields r = [fst r, snd r]"

definition rules_version :: "(string \<times> string) list \<Rightarrow> int" where
  "rules_version rs = policy_set_version (map (\<lambda>r. policy_set_item (rule_fields r)) rs)"

lemma rule_applies_targets:
  assumes ok: "device_ok db d"
  shows "rule_applies (dv_tenant d) (Some (dv_id d)) db r \<and>
      \<not> (os_known (dv_os d) \<and> \<not> platform_matches (ru_platforms r) (platform_of_os (dv_os d))) \<longleftrightarrow> rule_targets db d r"
proof -
  have "list_ex (\<lambda>m. gm_tenant m = dv_tenant d \<and> gm_device m = dv_id d \<and> ru_group r = Some (gm_group m)) (db_members (pd_base db)) \<longleftrightarrow>
      (\<exists>m \<in> set (db_members (pd_base db)). gm_device m = dv_id d \<and> ru_group r = Some (gm_group m))"
    unfolding list_ex_iff using member_tenant [OF ok] by blast
  then show ?thesis unfolding rule_applies_def rule_targets_def by simp
qed

lemma fetched_rules:
  assumes ok: "device_ok db d"
  shows "fetch_policy_rules (scope_by_fp (pd_base db) (dv_fp d)) (dv_fp d) db = Inr (rule_set d db, rules_version (rule_set d db))"
proof -
  have "filter (\<lambda>r. \<not> (os_known (dv_os d) \<and> \<not> platform_matches (ru_platforms r) (platform_of_os (dv_os d))))
      (filter (rule_applies (dv_tenant d) (Some (dv_id d)) db) (pd_rules db)) = filter (rule_targets db d) (pd_rules db)"
    unfolding filter_filter by (rule filter_cong [OF refl]) (use rule_applies_targets [OF ok] in blast)
  then have rs: "map (\<lambda>r. (ru_name r, ru_type r)) (filter (\<lambda>r. \<not> (os_known (dv_os d) \<and> \<not> platform_matches (ru_platforms r) (platform_of_os (dv_os d))))
      (filter (rule_applies (dv_tenant d) (Some (dv_id d)) db) (pd_rules db))) = rule_set d db"
    unfolding rule_set_def by (rule arg_cong)
  have v: "rules_version rs = policy_set_version (map (\<lambda>(n, ty). policy_set_item [n, ty]) rs)" for rs
    unfolding rules_version_def rule_fields_def by (simp add: case_prod_unfold)
  show ?thesis unfolding v using rs by (simp add: fetch_policy_rules_def device_scope [OF ok] Let_def del: map_map filter_filter)
qed

lemma fetch_policy_device:
  assumes ok: "device_ok db d" and st: "dv_status d \<noteq> ''pending_approval''"
  shows "fetch_policy (dv_fp d) known db = Some
     (if rules_version (rule_set d db) \<noteq> 0 \<and> known = rules_version (rule_set d db)
      then \<lparr>pa_unchanged = True, pa_version = rules_version (rule_set d db), pa_rules = []\<rparr>
      else \<lparr>pa_unchanged = False, pa_version = rules_version (rule_set d db),
            pa_rules = map (\<lambda>(n, ty). (n, ty = ''forbidden'')) (rule_set d db)\<rparr>)"
  using st by (simp add: fetch_policy_def device_scope [OF ok] fetched_rules [OF ok])

text \<open>Two different sets with one fingerprint.\<close>

definition same_hash :: "string list \<Rightarrow> string list \<Rightarrow> bool" where
  "same_hash a b \<longleftrightarrow> set_text a \<noteq> set_text b \<and> fnv64a (set_text a) = fnv64a (set_text b)"

lemma version_eq: "policy_set_version a = policy_set_version b \<longleftrightarrow> set_text a = set_text b \<or> same_hash a b"
proof -
  have "policy_set_version a = policy_set_version b \<longleftrightarrow> fnv64a (set_text a) = fnv64a (set_text b)"
    unfolding policy_set_version_def by (rule word_eq_iff_signed [symmetric])
  then show ?thesis by (auto simp: same_hash_def)
qed

definition rule_items :: "(string \<times> string) list \<Rightarrow> string list" where
  "rule_items rs = map (\<lambda>r. policy_set_item (rule_fields r)) rs"

lemma rules_version_eq:
  assumes "measured rule_fields rs" and "measured rule_fields rs'"
  shows "rules_version rs = rules_version rs' \<longleftrightarrow> mset rs = mset rs' \<or> same_hash (rule_items rs) (rule_items rs')"
proof -
  have "inj_on rule_fields (set rs \<union> set rs')" by (auto simp: rule_fields_def intro!: inj_onI prod_eqI)
  note t = set_text_binds_fields [OF assms this]
  show ?thesis unfolding rules_version_def version_eq rule_items_def t by simp
qed

text \<open>The fingerprint of a set of script policies.\<close>

definition effective_fields :: "effective_policy \<Rightarrow> string list" where
  "effective_fields e = [ep_id e, ep_name e, ep_platform e, ep_trigger e, ep_cron e, ep_event e, dec_int (ep_updated e), ep_content e]"

lemma dec_int_inj: "dec_int i = dec_int j \<Longrightarrow> i = j"
proof -
  assume e: "dec_int i = dec_int j"
  have no: "CHR ''-'' # s \<noteq> dec n" for s n using digits_not_minus [OF dec_digits, of n] by (metis list.set_intros(1))
  show "i = j" using e no no [THEN not_sym] dec_inj by (auto simp: dec_int_def split: if_splits dest!: dec_inj)
qed

lemma effective_fields_inj: "inj_on effective_fields A"
  by (rule inj_onI) (auto simp: effective_fields_def dest: dec_int_inj)

definition script_items :: "effective_policy list \<Rightarrow> string list" where
  "script_items es = map effective_item es"

lemma script_version_eq:
  assumes "measured effective_fields es" and "measured effective_fields es'"
  shows "policy_set_version (script_items es) = policy_set_version (script_items es') \<longleftrightarrow>
    mset es = mset es' \<or> same_hash (script_items es) (script_items es')"
proof -
  have i: "effective_item = (\<lambda>e. policy_set_item (effective_fields e))" by (simp add: effective_item_def effective_fields_def fun_eq_iff)
  note t = set_text_binds_fields [OF assms effective_fields_inj]
  show ?thesis unfolding version_eq script_items_def i t by simp
qed

subsection \<open>The script manager of the agent over the server\<close>

lemma fetch_scripts_device:
  assumes ok: "device_ok db d" and st: "dv_status d \<noteq> ''pending_approval''"
  shows "fetch_script_policies (dv_fp d) db known =
    (let es = script_set (dv_tenant d) (dv_fp d) db; v = policy_set_version (script_items es)
     in Some (if v \<noteq> 0 \<and> known = v then \<lparr>pr_unchanged = True, pr_version = v, pr_policies = []\<rparr>
        else \<lparr>pr_unchanged = False, pr_version = v, pr_policies = map proto_policy es\<rparr>))"
  using st by (simp add: fetch_script_policies_def device_scope [OF ok] effective_script_set [OF ok] script_items_def Let_def)

text \<open>The manager holds the set it fetched last, or nothing yet.\<close>

definition holds_set :: "effective_policy list \<Rightarrow> sm \<Rightarrow> bool" where
  "holds_set es m \<longleftrightarrow> sm_policies m = map proto_policy es \<and> sm_version m = policy_set_version (script_items es)"

lemma poll_keeps_keys [simp]: "sm_dedup (poll_policies cron_ok fetch m) = sm_dedup m"
  "sm_launched (poll_policies cron_ok fetch m) = sm_launched m" "sm_ready (poll_policies cron_ok fetch m) = sm_ready m"
  by (auto simp: poll_policies_def apply_policies_def split: option.splits)

lemma poll_takes_set:
  assumes ok: "device_ok db d" and st: "dv_status d \<noteq> ''pending_approval''"
    and m: "holds_set old m \<or> (sm_version m = 0 \<and> sm_policies m = [])"
    and es: "es = script_set (dv_tenant d) (dv_fp d) db" and size: "measured effective_fields es" "measured effective_fields old"
    and luck: "\<not> same_hash (script_items old) (script_items es)" "policy_set_version (script_items es) \<noteq> 0"
  shows "mset (sm_policies (poll_policies cron_ok (fetch_script_policies (dv_fp d) db) m)) = mset (map proto_policy es) \<and>
    sm_version (poll_policies cron_ok (fetch_script_policies (dv_fp d) db) m) = policy_set_version (script_items es)"
proof (cases "sm_version m = policy_set_version (script_items es)")
  case True
  then have h: "holds_set old m" using m luck(2) by auto
  then have "policy_set_version (script_items old) = policy_set_version (script_items es)" using True by (simp add: holds_set_def)
  then have "mset old = mset es" using script_version_eq [OF size(2,1)] luck(1) by blast
  moreover have "poll_policies cron_ok (fetch_script_policies (dv_fp d) db) m = m"
    using True luck(2) by (simp add: poll_policies_def fetch_scripts_device [OF ok st] es Let_def)
  ultimately show ?thesis using h True by (simp add: holds_set_def)
next
  case False
  then show ?thesis by (simp add: poll_policies_def fetch_scripts_device [OF ok st] es Let_def apply_policies_def)
qed

section \<open>What the sets promise\<close>

text \<open>Claim C34. The fingerprint of the rules of a device is that of another set of rules if and only if the two sets have the same
  rules, whatever their order and whatever bytes the names contain, or the 64-bit hash of two different texts
  coincides: no boundary between names, types or rules is lost.\<close>

theorem fingerprint_tells_rules_apart:
  assumes "measured rule_fields rs" and "measured rule_fields rs'"
  shows "rules_version rs = rules_version rs' \<longleftrightarrow> mset rs = mset rs' \<or> same_hash (rule_items rs) (rule_items rs')"
  using assms by (rule rules_version_eq)

theorem fingerprint_tells_rules_apart_witness:
  "rules_version [(''ab'', ''c''), (''x'', ''allowed'')] = rules_version [(''x'', ''allowed''), (''ab'', ''c'')]"
proof -
  have "measured rule_fields [(''ab'', ''c''), (''x'', ''allowed'')]" "measured rule_fields [(''x'', ''allowed''), (''ab'', ''c'')]"
    by (simp_all add: measured_def rule_fields_def fits64_def policy_set_item_def frame_def)
  from fingerprint_tells_rules_apart [OF this] show ?thesis by simp
qed

text \<open>Claim C9. A device that is not held for approval is sent exactly the active script policies that its own
  tenant assigned to one of its groups, each with the script of the same tenant, unless its set is the one it
  reports to know; a device that waits for approval is sent none.\<close>

theorem device_gets_its_policies:
  assumes "device_ok db d" and "fetch_script_policies (dv_fp d) db known = Some r"
  shows "(dv_status d = ''pending_approval'' \<longrightarrow> pr_policies r = []) \<and>
    (dv_status d \<noteq> ''pending_approval'' \<and> \<not> pr_unchanged r \<longrightarrow>
      (\<forall>q. q \<in> set (pr_policies r) \<longleftrightarrow>
        (\<exists>p \<in> set (pd_policies db). \<exists>s \<in> set (pd_scripts db). pl_active p \<and> targets db d p \<and> pl_tenant p = dv_tenant d \<and>
           sc_tenant s = dv_tenant d \<and> sc_id s = pl_script p \<and> q = proto_policy (effective_row p s))))"
proof (cases "dv_status d = ''pending_approval''")
  case True
  then show ?thesis using assms by (auto simp: fetch_script_policies_def device_scope)
next
  case False
  have "set (pr_policies r) = proto_policy ` set (script_set (dv_tenant d) (dv_fp d) db)" if "\<not> pr_unchanged r"
    using assms that fetch_scripts_device [OF assms(1) False, of known] by (auto simp: Let_def split: if_splits)
  moreover have "q \<in> proto_policy ` set (script_set (dv_tenant d) (dv_fp d) db) \<longleftrightarrow>
      (\<exists>p \<in> set (pd_policies db). \<exists>s \<in> set (pd_scripts db). pl_active p \<and> targets db d p \<and> pl_tenant p = dv_tenant d \<and>
         sc_tenant s = dv_tenant d \<and> sc_id s = pl_script p \<and> q = proto_policy (effective_row p s))" for q
    unfolding image_iff Bex_def in_script_set [OF assms(1)] by (rule iffI; elim exE conjE; metis)
  ultimately show ?thesis using False by simp
qed

lemma demo_device_ok: "device_ok demo_policy_db demo_device"
  using demo_tables by (simp add: device_ok_def) (simp add: demo_policy_db_def demo_db_def demo_device_def keys_ok_def nil_tenant_def)

theorem device_gets_its_policies_witness:
  "\<exists>r. fetch_script_policies (dv_fp demo_device) demo_policy_db 0 = Some r \<and>
     proto_policy (effective_row demo_policy (demo_script ''s1'' 2000000000)) \<in> set (pr_policies r)"
proof -
  have st: "dv_status demo_device \<noteq> ''pending_approval''" by (simp add: demo_device_def)
  obtain r where r: "fetch_script_policies (dv_fp demo_device) demo_policy_db 0 = Some r" "\<not> pr_unchanged r"
    using fetch_scripts_device [OF demo_device_ok st, of 0] by (auto simp: Let_def)
  have t: "targets demo_policy_db demo_device demo_policy" by (simp add: targets_def demo_policy_defs)
  have "demo_policy \<in> set (pd_policies demo_policy_db)" "demo_script ''s1'' 2000000000 \<in> set (pd_scripts demo_policy_db)"
    by (simp_all add: demo_policy_db_def)
  moreover have "pl_active demo_policy" "pl_tenant demo_policy = dv_tenant demo_device" "sc_tenant (demo_script ''s1'' 2000000000) = dv_tenant demo_device"
    "sc_id (demo_script ''s1'' 2000000000) = pl_script demo_policy" by (simp_all add: demo_policy_def demo_script_def demo_device_def)
  moreover note t
  ultimately have "proto_policy (effective_row demo_policy (demo_script ''s1'' 2000000000)) \<in> set (pr_policies r)"
    using device_gets_its_policies [OF demo_device_ok r(1)] st r(2) by blast
  then show ?thesis using r(1) by blast
qed

text \<open>Claim C24. After a poll that reaches the server the script manager of the agent holds the current set of its
  device, whatever was assigned, withdrawn, switched off or edited since the poll before, as long as the two
  sets have no common 64-bit fingerprint and that of the new one is not zero.\<close>

theorem poll_follows_the_server:
  assumes "device_ok db d" and "dv_status d \<noteq> ''pending_approval''"
    and "holds_set old m \<or> (sm_version m = 0 \<and> sm_policies m = [])"
    and "measured effective_fields (script_set (dv_tenant d) (dv_fp d) db)" and "measured effective_fields old"
    and "\<not> same_hash (script_items old) (script_items (script_set (dv_tenant d) (dv_fp d) db))"
    and "policy_set_version (script_items (script_set (dv_tenant d) (dv_fp d) db)) \<noteq> 0"
  shows "mset (sm_policies (poll_policies cron_ok (fetch_script_policies (dv_fp d) db) m)) =
    mset (map proto_policy (script_set (dv_tenant d) (dv_fp d) db))"
  using poll_takes_set [OF assms(1,2,3) refl assms(4,5,6,7)] by (rule conjunct1)

lemma demo_script_set:
  "script_set (dv_tenant demo_device) (dv_fp demo_device) demo_policy_db = [effective_row demo_policy (demo_script ''s1'' 2000000000)]"
  by (simp add: script_set_def demo_policy_defs assigned_to_def effective_of_def effective_row_def)

lemma demo_measured: "measured effective_fields [effective_row demo_policy (demo_script ''s1'' 2000000000)]"
proof -
  have "length (dec_int 9000000000) \<le> 10" by (rule length_dec_int) simp_all
  then show ?thesis
    by (simp add: measured_def effective_fields_def effective_row_def demo_policy_def demo_script_def cfg_field_def fits64_def
        policy_set_item_def frame_def)
qed

text \<open>The hash on integers, for concrete texts.\<close>

definition fnv_int :: "int \<Rightarrow> char \<Rightarrow> int" where
  "fnv_int h c = (xor h (of_char c) * 1099511628211) mod 18446744073709551616"

lemma fnv_byte_int: "fnv_byte (word_of_int h) c = word_of_int (fnv_int h c)"
proof -
  have "(word_of_nat (of_char c) :: 64 word) = word_of_int (of_char c)" by (metis of_int_of_nat_eq of_nat_of_char)
  then have "fnv_byte (word_of_int h) c = word_of_int (xor h (of_char c) * 1099511628211)"
    by (simp add: fnv_byte_def word_wi_log_defs)
  also have "\<dots> = word_of_int (fnv_int h c)"
    unfolding word_of_int_eq_iff by (simp add: fnv_int_def take_bit_eq_mod)
  finally show ?thesis .
qed

lemma fnv64a_int: "fnv64a s = word_of_int (foldl fnv_int 14695981039346656037 s)"
proof -
  have "foldl fnv_byte (word_of_int h) s = word_of_int (foldl fnv_int h s)" for h
    by (induction s arbitrary: h) (simp_all add: fnv_byte_int)
  from this [of 14695981039346656037] show ?thesis by (simp add: fnv64a_def)
qed

definition demo_text :: string where
  "demo_text = set_text (script_items [effective_row demo_policy (demo_script ''s1'' 2000000000)])"

lemma demo_text_bytes: "demo_text = concat (map (\<lambda>t. map char_of [0, 0, 0, 0, 0, 0, 0, length t :: nat] @ t)
    [concat (map (\<lambda>t. map char_of [0, 0, 0, 0, 0, 0, 0, length t :: nat] @ t)
      [''p1'', ''Hello'', ''macOS'', ''on_connect'', [], [], ''9000000000'', ''id''])])"
  by (simp add: demo_text_def set_text_def script_items_def effective_item_def policy_set_item_def frame_def be64_def
      effective_row_def demo_policy_def demo_script_def cfg_field_def dec_int_def dec.simps digit_def) (simp add: char_of_def bit_0)

lemma demo_hash: "foldl fnv_int 14695981039346656037 demo_text \<noteq> 0" "foldl fnv_int 14695981039346656037 demo_text \<noteq> 14695981039346656037"
  unfolding demo_text_bytes by code_simp+

lemma fnv_int_range: "s \<noteq> [] \<Longrightarrow> 0 \<le> foldl fnv_int h s \<and> foldl fnv_int h s < 18446744073709551616"
  by (induction s rule: rev_induct) (auto simp: fnv_int_def)

lemma demo_text_nonempty: "demo_text \<noteq> []"
  by (simp add: demo_text_def set_text_def script_items_def frame_def be64_def)

lemma demo_word: "uint (fnv64a demo_text) = foldl fnv_int 14695981039346656037 demo_text"
  using fnv_int_range [OF demo_text_nonempty, of 14695981039346656037] by (simp add: fnv64a_int uint_word_of_int)

lemma demo_version: "policy_set_version (script_items [effective_row demo_policy (demo_script ''s1'' 2000000000)]) \<noteq> 0"
proof -
  have "fnv64a demo_text \<noteq> 0" using demo_word demo_hash(1) by auto
  then have "sint (fnv64a demo_text) \<noteq> 0" by (metis signed_0 word_eq_iff_signed)
  then show ?thesis by (simp add: policy_set_version_def flip: demo_text_def)
qed

lemma demo_no_collision: "\<not> same_hash (script_items []) (script_items [effective_row demo_policy (demo_script ''s1'' 2000000000)])"
proof -
  have "fnv64a (set_text (script_items [])) = 14695981039346656037" by (simp add: script_items_def set_text_def fnv64a_def)
  moreover have "uint (14695981039346656037 :: 64 word) = 14695981039346656037" by simp
  ultimately have "fnv64a (set_text (script_items [])) \<noteq> fnv64a demo_text" using demo_word demo_hash(2) by metis
  then show ?thesis by (simp add: same_hash_def flip: demo_text_def)
qed

theorem poll_follows_the_server_witness:
  "mset (sm_policies (poll_policies (\<lambda>_. True) (fetch_script_policies (dv_fp demo_device) demo_policy_db) (new_scripts no_keys))) =
     mset (map proto_policy (script_set (dv_tenant demo_device) (dv_fp demo_device) demo_policy_db))"
proof (rule poll_follows_the_server [where old = "[]"])
  show "dv_status demo_device \<noteq> ''pending_approval''" by (simp add: demo_device_def)
  show "measured effective_fields []" by (simp add: measured_def)
  show "\<not> same_hash (script_items []) (script_items (script_set (dv_tenant demo_device) (dv_fp demo_device) demo_policy_db))"
    unfolding demo_script_set by (rule demo_no_collision)
  show "policy_set_version (script_items (script_set (dv_tenant demo_device) (dv_fp demo_device) demo_policy_db)) \<noteq> 0"
    unfolding demo_script_set by (rule demo_version)
qed (simp_all add: demo_device_ok new_scripts_def demo_script_set demo_measured)

subsection \<open>An edited policy that never runs\<close>

lemma update_policy_call_row:
  assumes "update_script_policy_call cron_ok t who i n sid trig sched ev db = (200, db')" and "p \<in> set (pd_policies db)"
    and "pl_id p = i" and "distinct (map pl_id (pd_policies db))"
  shows "pl_tenant p = t \<and> script_of (t, t) sid db \<noteq> None \<and> pd_scripts db' = pd_scripts db \<and>
    pd_policies db' = update_where (\<lambda>x. pl_tenant x = t \<and> pl_id x = i)
      (\<lambda>_. p\<lparr>pl_name := n, pl_script := sid, pl_trigger := trig, pl_schedule := sched, pl_event := ev\<rparr>) (pd_policies db)"
proof -
  let ?p1 = "\<lambda>p0. p0\<lparr>pl_name := n, pl_script := sid, pl_trigger := trig, pl_schedule := sched, pl_event := ev\<rparr>"
  from assms(1) obtain p1 db1 where u: "update_script_policy (panel t) t i n sid trig sched ev db = Inr (Some p1, db1)"
    and db': "db' = audited t who ''update_script_policy'' (pl_id p1) db1"
    by (auto simp: update_script_policy_call_def error_code_def split: if_splits sum.splits option.splits policy_error.splits)
  then obtain p0 s0 where f: "policy_of (t, t) i db = Some p0" "script_of (t, t) sid db = Some s0"
    by (auto simp: update_script_policy_def panel_op split: if_splits option.splits)
  have p0: "p0 = p" using policy_of_Some [OF f(1)] assms(2-4) by (auto simp: distinct_map dest: inj_onD)
  have "p1 = ?p1 p0 \<and> db1 = db\<lparr>pd_policies := update_where (\<lambda>x. visible (t, t) (pl_tenant x) \<and> pl_id x = i) (\<lambda>_. ?p1 p0) (pd_policies db)\<rparr>"
    using u f by (auto simp: update_script_policy_def panel_op Let_def split: if_splits dest!: named_insertE)
  then show ?thesis using policy_of_Some [OF f(1)] f(2) p0 by (simp add: db' audited_def)
qed

lemma run_key_effective: "run_key (proto_policy (effective_row p s)) = pl_id p @ ''@'' @ dec_int (max (pl_updated p) (sc_updated s) div second)"
  by (simp add: run_key_def proto_policy_def effective_row_def)

text \<open>A policy that is run on connect and is edited to name another script, not changed since the policy was created, is not
  run again by a device that ran it before: the edit leaves the time stamp of the policy as it was, the agent
  finds the version among those it has handled, and the new script is never launched by a connect.\<close>

theorem repointed_policy_never_runs:
  assumes "device_ok db' d" and "dv_status d \<noteq> ''pending_approval''" and "p \<in> set (pd_policies db)" and "distinct (map pl_id (pd_policies db))"
    and "s1 \<in> set (pd_scripts db)" and "sc_updated s1 \<le> pl_updated p"
    and "\<forall>s \<in> set (pd_scripts db). sc_id s = sid \<longrightarrow> sc_updated s \<le> pl_updated p"
    and "update_script_policy_call cron_ok t who (pl_id p) n sid trig sched ev db = (200, db')"
    and "has_key (sm_dedup m) (run_key (proto_policy (effective_row p s1)))"
    and "\<forall>q \<in> set (sm_policies m). sp_id q = pl_id p \<longrightarrow> q = proto_policy (effective_row p s1)"
    and "sp_id q = pl_id p" and "(q, tr) \<in> set (sm_launched (on_connect ok (poll_policies cron2 (fetch_script_policies (dv_fp d) db') m)))"
  shows "(q, tr) \<in> set (sm_launched m)"
proof (rule ccontr)
  assume new: "(q, tr) \<notin> set (sm_launched m)"
  let ?m1 = "poll_policies cron2 (fetch_script_policies (dv_fp d) db') m"
  have "(q, tr) \<in> set (sm_launched (connect_loop ok (policies_for OnConnect NoEvent ?m1) ?m1))"
    using assms(12) new by (auto simp: on_connect_def split: if_splits)
  from connect_loop_launched [OF this] have q: "q \<in> set (sm_policies ?m1)" "\<not> has_key (sm_dedup m) (run_key q)"
    using new by (auto simp: policies_for_def)
  have "q \<in> set (sm_policies m) \<or> q \<in> proto_policy ` set (script_set (dv_tenant d) (dv_fp d) db')"
    using q(1) by (auto simp: poll_policies_def fetch_scripts_device [OF assms(1,2)] Let_def apply_policies_def split: if_splits)
  then show False
  proof
    assume "q \<in> set (sm_policies m)"
    then show False using assms(9,10,11) q(2) by auto
  next
    assume "q \<in> proto_policy ` set (script_set (dv_tenant d) (dv_fp d) db')"
    then obtain e where e: "e \<in> set (script_set (dv_tenant d) (dv_fp d) db')" "q = proto_policy e" by blast
    from e(1) [unfolded in_script_set [OF assms(1)]] obtain x s where x: "x \<in> set (pd_policies db')" "s \<in> set (pd_scripts db')"
      "sc_id s = pl_script x" "e = effective_row x s" by blast
    note row = update_policy_call_row [OF assms(8,3) refl assms(4)]
    have id: "pl_id x = pl_id p" using assms(11) e(2) x(4) by (simp add: proto_policy_def effective_row_def)
    obtain x0 where x0: "x0 \<in> set (pd_policies db)" "x = (if pl_tenant x0 = t \<and> pl_id x0 = pl_id p
        then p\<lparr>pl_name := n, pl_script := sid, pl_trigger := trig, pl_schedule := sched, pl_event := ev\<rparr> else x0)"
      using x(1) row by (auto simp: set_update_where)
    then have "x0 = p" using id assms(3,4) by (auto simp: distinct_map dest: inj_onD split: if_splits)
    then have xp: "pl_script x = sid" "pl_updated x = pl_updated p" using x0(2) row by simp_all
    then have "sc_updated s \<le> pl_updated p" using x(2,3) row assms(7) by simp
    then have "run_key q = run_key (proto_policy (effective_row p s1))"
      using assms(6) xp(2) id by (simp add: e(2) x(4) run_key_effective max_absorb1)
    then show False using assms(9) q(2) by simp
  qed
qed

definition demo_edited :: policy_db where
  "demo_edited = snd (update_script_policy_call (\<lambda>_. True) ''t2'' ''admin'' ''p1'' ''Hello'' ''s2'' ''on_connect'' NoDoc NoDoc demo_policy_db)"

lemma demo_edit: "update_script_policy_call (\<lambda>_. True) ''t2'' ''admin'' (pl_id demo_policy) ''Hello'' ''s2'' ''on_connect'' NoDoc NoDoc demo_policy_db
    = (200, demo_edited)"
proof -
  have "fst (update_script_policy_call (\<lambda>_. True) ''t2'' ''admin'' ''p1'' ''Hello'' ''s2'' ''on_connect'' NoDoc NoDoc demo_policy_db) = 200"
    by (simp add: update_script_policy_call_def update_script_policy_def panel_op nil_tenant_def known_trigger_def validate_schedule_config_def
        policy_of_def script_of_def demo_policy_defs named_insert_def policy_names_def Let_def btrim_def)
  then show ?thesis unfolding demo_edited_def by (simp add: demo_policy_def prod_eq_iff)
qed

lemma demo_edited_ok: "device_ok demo_edited demo_device"
proof -
  have "tables_ok demo_edited" using panel_answer_ok [OF demo_tables, of "UpdateScriptPolicy ''p1'' ''Hello'' ''s2'' ''on_connect'' NoDoc NoDoc" "\<lambda>_. True" "''t2''" "''admin''"]
    by (simp add: demo_edited_def)
  moreover have "db_devices (pd_base demo_edited) = db_devices (pd_base demo_policy_db)" "db_tasks (pd_base demo_edited) = db_tasks (pd_base demo_policy_db)"
    by (auto simp: demo_edited_def update_script_policy_call_def update_script_policy_def panel_op Let_def named_insert_def audited_def write_audit_def
        split: sum.split option.split)
  ultimately show ?thesis using demo_device_ok by (simp add: device_ok_def keys_ok_def)
qed

definition demo_manager :: sm where
  "demo_manager = (new_scripts \<lparr>s_mem = [''p1@9''], s_file = None, s_path = False\<rparr>)\<lparr>sm_ready := True\<rparr>"

theorem repointed_policy_never_runs_witness:
  "(proto_policy (effective_row (demo_policy\<lparr>pl_script := ''s2''\<rparr>) (demo_script ''s2'' 3000000000)), OnConnect) \<notin>
     set (sm_launched (on_connect True (poll_policies (\<lambda>_. True) (fetch_script_policies (dv_fp demo_device) demo_edited) demo_manager)))"
  (is "(?q, _) \<notin> ?l")
proof
  assume l: "(?q, OnConnect) \<in> ?l"
  have st: "dv_status demo_device \<noteq> ''pending_approval''" by (simp add: demo_device_def)
  have p: "demo_policy \<in> set (pd_policies demo_policy_db)" "demo_script ''s1'' 2000000000 \<in> set (pd_scripts demo_policy_db)"
    "distinct (map pl_id (pd_policies demo_policy_db))" by (simp_all add: demo_policy_db_def)
  have u: "sc_updated (demo_script ''s1'' 2000000000) \<le> pl_updated demo_policy"
    "\<forall>s \<in> set (pd_scripts demo_policy_db). sc_id s = ''s2'' \<longrightarrow> sc_updated s \<le> pl_updated demo_policy" by (simp_all add: demo_policy_defs)
  have key: "has_key (sm_dedup demo_manager) (run_key (proto_policy (effective_row demo_policy (demo_script ''s1'' 2000000000))))"
    by (simp add: run_key_effective demo_policy_def demo_script_def demo_manager_def new_scripts_def has_key_def dec_int_def dec.simps digit_def)
      (simp add: char_of_def bit_0)
  have none: "\<forall>q \<in> set (sm_policies demo_manager). sp_id q = pl_id demo_policy \<longrightarrow> q = proto_policy (effective_row demo_policy (demo_script ''s1'' 2000000000))"
    by (simp add: demo_manager_def new_scripts_def)
  have "(?q, OnConnect) \<in> set (sm_launched demo_manager)"
    by (rule repointed_policy_never_runs [OF demo_edited_ok st p(1,3,2) u(1,2) demo_edit key none _ l])
      (simp add: proto_policy_def effective_row_def demo_policy_def)
  then show False by (simp add: demo_manager_def new_scripts_def)
qed

text \<open>A schedule with a blank before \<open>@daily\<close> passes the check of the panel, which trims it, and is refused by the
  same parser on the agent, which does not.\<close>

lemma padded_schedule_never_runs:
  assumes "cron_ok (trim_space c)" and "trim_space c \<noteq> []" and "\<not> cron_ok c" and "e \<in> set es" and "ep_cron e = c"
    and "\<forall>x \<in> set es. ep_id x = ep_id e \<longrightarrow> x = e"
  shows "validate_schedule_config cron_ok ''schedule'' (Obj (Some c)) \<and>
    ep_id e \<notin> set (sm_cron (apply_policies cron_ok (map proto_policy es) v m))"
  using assms by (auto simp: validate_schedule_config_def apply_policies_def proto_policy_def Let_def)

text \<open>The panel accepts a rule for a device of another tenant, since the check of the reference sees every tenant, and the rule then
  reaches no device at all.\<close>

lemma foreign_device_rule:
  fixes i :: string and now :: nanos
  assumes k: "keys_ok (pd_base db)" and d: "d \<in> set (db_devices (pd_base db))" and t: "dv_tenant d \<noteq> t" "t \<noteq> []" "t \<noteq> nil_tenant"
    and n: "sanitize_software_name n = Some n" and ty: "ty \<in> {''allowed'', ''forbidden''}"
  defines "r \<equiv> \<lparr>ru_id = i, ru_tenant = t, ru_name = n, ru_type = ty, ru_device = Some (dv_id d), ru_group = None, ru_platforms = [], ru_updated = now\<rparr>"
  shows "create_policy_call t who i now n ty (Some (dv_id d)) [] db = (201, audited t who ''create_policy'' i (db\<lparr>pd_rules := pd_rules db @ [r]\<rparr>))"
    "\<forall>e \<in> set (db_devices (pd_base db)). \<not> rule_targets db e r"
proof -
  have "list_ex (\<lambda>e. dv_id e = dv_id d) (db_devices (pd_base db))" using d by (auto simp: list_ex_iff)
  then have "create_policy_rule (panel t) t i now n ty (Some (dv_id d)) [] db = Inr (r, db\<lparr>pd_rules := pd_rules db @ [r]\<rparr>)"
    using t by (simp add: create_policy_rule_def panel_op r_def Let_def)
  then show "create_policy_call t who i now n ty (Some (dv_id d)) [] db = (201, audited t who ''create_policy'' i (db\<lparr>pd_rules := pd_rules db @ [r]\<rparr>))"
    using n ty by (auto simp: create_policy_call_def r_def)
  have "e = d" if "e \<in> set (db_devices (pd_base db))" "dv_id e = dv_id d" for e
    using k d that by (auto simp: keys_ok_def distinct_map dest: inj_onD)
  then show "\<forall>e \<in> set (db_devices (pd_base db)). \<not> rule_targets db e r" using t(1) by (auto simp: rule_targets_def r_def)
qed

end
