(* ===== verification/SoftwareWatch.thy ===== *)
theory SoftwareWatch
  imports PolicySets SeenSet
begin

section \<open>Forbidden software on the device\<close>

text \<open>
  Model of \<open>internal/agent/policy/sync.go\<close> (the rules of the server become a file), of
  \<open>internal/agent/security/list.go\<close> (the file becomes a list of patterns), of the enumeration of processes
  (\<open>procfs.go\<close>, \<open>proc_unix.go\<close>; the one of Windows is not modelled) and of the monitor \<open>internal/agent/security/monitor.go\<close>, which puts one event
  in the queue for each episode of forbidden software.  A file is the list of its lines, as in theory
  \<open>SeenSet\<close>, or absent; whether it can be opened, written and queued is an argument.
\<close>

subsection \<open>The file of rules\<close>

definition version_prefix :: string where "version_prefix = ''# version: ''"

definition sync_note :: string where
  "sync_note = utf8_text [35, 32, 209, 129, 208, 184, 208, 189, 209, 133, 209, 128, 208, 190, 208, 189, 208, 184, 208, 183, 208, 184,
     209, 128, 208, 190, 208, 178, 208, 176, 208, 189, 208, 190, 32, 209, 129, 32, 209, 129, 208, 181, 209, 128, 208, 178, 208, 181,
     209, 128, 208, 176, 32, 40, 70, 101, 116, 99, 104, 80, 111, 108, 105, 99, 121, 41, 32, 226, 128, 148, 32, 208, 189, 208, 181, 32,
     209, 128, 208, 181, 208, 180, 208, 176, 208, 186, 209, 130, 208, 184, 209, 128, 208, 190, 208, 178, 208, 176, 209, 130, 209, 140,
     32, 208, 178, 209, 128, 209, 131, 209, 135, 208, 189, 209, 131, 209, 142]"

definition version_line :: "string \<Rightarrow> int option" where
  "version_line l = (let t = trim_space l in
     if prefix version_prefix t then parse_int (trim_space (drop (length version_prefix) t)) else None)"

definition read_version :: "bool \<Rightarrow> string list option \<Rightarrow> int" where
  "read_version open_ok f = (if \<not> open_ok then 0 else (case f of None \<Rightarrow> 0
     | Some ls \<Rightarrow> (case find (\<lambda>l. version_line l \<noteq> None) (scan_lines ls) of
         None \<Rightarrow> 0 | Some l \<Rightarrow> (case version_line l of None \<Rightarrow> 0 | Some n \<Rightarrow> n))))"

text \<open>What is written: a name with a line feed in it would become several lines.  The file is replaced by a
  rename, so that a failure leaves it as it was.\<close>

definition list_lines :: "int \<Rightarrow> string list \<Rightarrow> string list" where
  "list_lines v names = (version_prefix @ dec_int v) # sync_note # concat (map (split_on newline) names)"

definition write_list :: "bool \<Rightarrow> int \<Rightarrow> string list \<Rightarrow> string list option \<Rightarrow> string list option" where
  "write_list write_ok v names f = (if write_ok then Some (list_lines v names) else f)"

definition sync_once :: "bool \<Rightarrow> bool \<Rightarrow> (int \<Rightarrow> policy_answer option) \<Rightarrow> string list option \<Rightarrow> string list option" where
  "sync_once open_ok write_ok fetch f = (case fetch (read_version open_ok f) of
     None \<Rightarrow> f
   | Some r \<Rightarrow> if pa_unchanged r then f
       else write_list write_ok (pa_version r) (map fst (filter (\<lambda>(n, forbidden). forbidden \<and> n \<noteq> []) (pa_rules r))) f)"

text \<open>\<open>loadForbidden\<close>: no file is an empty list; a line that does not fit the scanner is an error.\<close>

definition pattern_lines :: "string list \<Rightarrow> string list" where
  "pattern_lines ls = map to_lower (filter (\<lambda>l. l \<noteq> [] \<and> \<not> prefix ''#'' l) (map trim_space ls))"

definition load_forbidden :: "bool \<Rightarrow> string list option \<Rightarrow> string list option" where
  "load_forbidden open_ok f = (case f of None \<Rightarrow> Some []
     | Some ls \<Rightarrow> if \<not> open_ok \<or> scan_lines ls \<noteq> ls then None else Some (pattern_lines ls))"

subsection \<open>Processes\<close>

record process =
  pc_pid :: int
  pc_name :: string
  pc_cmd :: string

text \<open>\<open>filepath.Base\<close> on a system with slashes.\<close>

definition base_of :: "string \<Rightarrow> string" where
  "base_of p = (if p = [] then ''.'' else
     let q = rev (dropWhile (\<lambda>c. c = CHR ''/'') (rev p))
     in if q = [] then ''/'' else last (split_on CHR ''/'' q))"

text \<open>A directory of \<open>/proc\<close>: its name and what reading \<open>exe\<close>, \<open>cmdline\<close> and \<open>comm\<close> in it gives.\<close>

definition comm_name :: "string option \<Rightarrow> string" where
  "comm_name comm = (case comm of Some c \<Rightarrow> trim_space c | None \<Rightarrow> [])"

definition argv0_name :: "string option \<Rightarrow> string option \<Rightarrow> string" where
  "argv0_name cmdline comm = (case cmdline of None \<Rightarrow> comm_name comm
     | Some raw \<Rightarrow> (let argv0 = hd (split_n 2 CHR 0x00 raw) in if argv0 \<noteq> [] then base_of argv0 else comm_name comm))"

definition proc_identity :: "string option \<Rightarrow> string option \<Rightarrow> string option \<Rightarrow> string" where
  "proc_identity exe cmdline comm = (case exe of None \<Rightarrow> argv0_name cmdline comm
     | Some t \<Rightarrow> if t \<noteq> [] then base_of (trim_suffix '' (deleted)'' t) else argv0_name cmdline comm)"

record proc_entry =
  pe_dir :: bool
  pe_name :: string
  pe_exe :: "string option"
  pe_cmdline :: "string option"
  pe_comm :: "string option"

definition procfs_processes :: "proc_entry list option \<Rightarrow> process list option" where
  "procfs_processes root = map_option (\<lambda>es. concat (map (\<lambda>e.
     if \<not> pe_dir e then []
     else (case parse_int (pe_name e) of None \<Rightarrow> []
       | Some pid \<Rightarrow> (let n = proc_identity (pe_exe e) (pe_cmdline e) (pe_comm e)
                      in if n = [] then [] else [\<lparr>pc_pid = pid, pc_name = n, pc_cmd = n\<rparr>]))) es)) root"

text \<open>The value of \<open>strconv.Atoi\<close> when its error is dropped: a number that is too long reads as the nearest bound.\<close>

definition atoi_lax :: "string \<Rightarrow> int" where
  "atoi_lax s = (case parse_int s of Some n \<Rightarrow> n | None \<Rightarrow>
     (let neg = prefix ''-'' s; body = (if neg \<or> prefix ''+'' s then tl s else s)
      in if body \<noteq> [] \<and> list_all is_digit body then (if neg then - (2 ^ 63) else 2 ^ 63 - 1) else 0))"

text \<open>\<open>strings.Fields\<close>, and the lines of \<open>ps -axo pid=,comm=\<close>.\<close>

definition fields_of :: "string \<Rightarrow> string list" where
  "fields_of s = filter (\<lambda>w. w \<noteq> []) (split_on CHR '' '' (map (\<lambda>c. if is_space c then CHR '' '' else c) s))"

definition ps_processes :: "string option \<Rightarrow> process list option" where
  "ps_processes out = map_option (\<lambda>txt1. concat (map (\<lambda>line. case fields_of line of
       pid # w # ws \<Rightarrow> [\<lparr>pc_pid = atoi_lax pid,
         pc_name = base_of (join_with '' '' (w # ws)), pc_cmd = join_with '' '' (w # ws)\<rparr>]
     | _ \<Rightarrow> []) (split_on newline txt1))) out"

subsection \<open>The monitor\<close>

record package =
  pk_name :: string
  pk_version :: string

text \<open>The events; their texts quote the pattern and name the process or the package.\<close>

datatype software_event = RunningSoftware string process | InstalledSoftware string package

fun event_pattern :: "software_event \<Rightarrow> string" where
  "event_pattern (RunningSoftware b p) = b"
| "event_pattern (InstalledSoftware b s) = b"

record monitor =
  mo_alerted :: "string list"
  mo_loaded :: bool
  mo_state :: "string list option"
  mo_path :: bool
  mo_cache :: "package list"
  mo_cache_at :: "nanos option"
  mo_queue :: "software_event list"

definition installed_refresh :: nanos where "installed_refresh = 10 * minute"

definition new_monitor :: "bool \<Rightarrow> string list option \<Rightarrow> monitor" where
  "new_monitor path state = \<lparr>mo_alerted = [], mo_loaded = False, mo_state = state, mo_path = path,
     mo_cache = [], mo_cache_at = None, mo_queue = []\<rparr>"

text \<open>Pattern to process (the last that matches) and pattern to package (the first that matches).\<close>

definition find_forbidden :: "process list \<Rightarrow> string list \<Rightarrow> string \<Rightarrow> process option" where
  "find_forbidden ps bad b = (if b \<in> set bad
     then find (\<lambda>p. contains_str (to_lower (pc_name p @ '' '' @ pc_cmd p)) b) (rev ps) else None)"

definition refresh_cache :: "nanos \<Rightarrow> package list \<Rightarrow> monitor \<Rightarrow> monitor" where
  "refresh_cache now pkgs m =
     (if (case mo_cache_at m of None \<Rightarrow> True | Some t \<Rightarrow> installed_refresh \<le> now - t)
      then m\<lparr>mo_cache := pkgs, mo_cache_at := Some now\<rparr> else m)"

definition find_installed :: "package list \<Rightarrow> string list \<Rightarrow> string \<Rightarrow> package option" where
  "find_installed cache bad b = (if b \<in> set bad then find (\<lambda>s. contains_str (to_lower (pk_name s)) b) cache else None)"

text \<open>The marks on disk: one pattern on a line; what a failed write leaves is an argument.\<close>

definition state_marks :: "string list option \<Rightarrow> string list" where
  "state_marks f = (case f of None \<Rightarrow> [] | Some ls \<Rightarrow> remdups (filter (\<lambda>l. l \<noteq> []) (map trim_space ls)))"

definition load_alerted :: "bool \<Rightarrow> monitor \<Rightarrow> monitor" where
  "load_alerted read_ok m =
     (if \<not> mo_path m \<or> \<not> read_ok then m else m\<lparr>mo_alerted := remdups (mo_alerted m @ state_marks (mo_state m))\<rparr>)"

definition save_alerted :: "string list option option \<Rightarrow> monitor \<Rightarrow> monitor" where
  "save_alerted fault m = (if \<not> mo_path m then m
     else (case fault of Some left_over \<Rightarrow> m\<lparr>mo_state := left_over\<rparr> | None \<Rightarrow> m\<lparr>mo_state := Some (sort (mo_alerted m))\<rparr>))"

text \<open>The two loops over the findings.  \<open>enq\<close> is whether the queue takes the event of a pattern.\<close>

fun report_running :: "(string \<Rightarrow> bool) \<Rightarrow> (string \<Rightarrow> process option) \<Rightarrow> string list \<Rightarrow> monitor \<Rightarrow> monitor \<times> bool" where
  "report_running enq run [] m = (m, False)"
| "report_running enq run (b # bs) m = (case run b of
     None \<Rightarrow> report_running enq run bs m
   | Some p \<Rightarrow>
       if b \<in> set (mo_alerted m) \<or> \<not> enq b then report_running enq run bs m
       else (fst (report_running enq run bs (m\<lparr>mo_alerted := b # mo_alerted m, mo_queue := mo_queue m @ [RunningSoftware b p]\<rparr>)), True))"

fun report_installed :: "(string \<Rightarrow> bool) \<Rightarrow> (string \<Rightarrow> process option) \<Rightarrow> (string \<Rightarrow> package option) \<Rightarrow> string list \<Rightarrow> monitor \<Rightarrow> monitor \<times> bool" where
  "report_installed enq run inst [] m = (m, False)"
| "report_installed enq run inst (b # bs) m = (case inst b of
     None \<Rightarrow> report_installed enq run inst bs m
   | Some s \<Rightarrow>
       if b \<in> set (mo_alerted m) \<or> run b \<noteq> None \<or> \<not> enq b then report_installed enq run inst bs m
       else (fst (report_installed enq run inst bs (m\<lparr>mo_alerted := b # mo_alerted m, mo_queue := mo_queue m @ [InstalledSoftware b s]\<rparr>)), True))"

text \<open>
  One scan.  \<open>keys\<close> is an order in which the maps are walked.  The faults of a scan are a record: the
  file of rules, the enumeration of processes, the file of marks.
\<close>

record scan_input =
  si_now :: nanos
  si_list :: "string list option"
  si_list_ok :: bool
  si_procs :: "process list option"
  si_pkgs :: "package list"
  si_enq :: "string \<Rightarrow> bool"
  si_read_ok :: bool
  si_fault :: "string list option option"
  si_order :: "string list \<Rightarrow> string list"

definition monitor_scan :: "scan_input \<Rightarrow> monitor \<Rightarrow> monitor" where
  "monitor_scan si m = (case load_forbidden (si_list_ok si) (si_list si) of
     None \<Rightarrow> m
   | Some bad \<Rightarrow>
       if bad = [] then m
       else (case si_procs si of None \<Rightarrow> m
         | Some ps \<Rightarrow>
             (let m0 = (if mo_loaded m then m else (load_alerted (si_read_ok si) m)\<lparr>mo_loaded := True\<rparr>);
                  run = find_forbidden ps bad;
                  m1 = refresh_cache (si_now si) (si_pkgs si) m0;
                  inst = find_installed (mo_cache m1) bad;
                  (m2, c2) = report_running (si_enq si) run (si_order si bad) m1;
                  (m3, c3) = report_installed (si_enq si) run inst (si_order si bad) m2;
                  gone = filter (\<lambda>b. run b = None \<and> inst b = None) (mo_alerted m3);
                  m4 = m3\<lparr>mo_alerted := filter (\<lambda>b. run b \<noteq> None \<or> inst b \<noteq> None) (mo_alerted m3)\<rparr>
              in if c2 \<or> c3 \<or> gone \<noteq> [] then save_alerted (si_fault si) m4 else m4)))"

text \<open>The agent starts again: the memory is gone, the file is not.\<close>

definition monitor_restart :: "monitor \<Rightarrow> monitor" where
  "monitor_restart m = (new_monitor (mo_path m) (mo_state m))\<lparr>mo_queue := mo_queue m\<rparr>"

section \<open>What a scan reports\<close>

definition found :: "(string \<Rightarrow> process option) \<Rightarrow> (string \<Rightarrow> package option) \<Rightarrow> string \<Rightarrow> bool" where
  "found run inst b \<longleftrightarrow> run b \<noteq> None \<or> inst b \<noteq> None"

lemma report_running_spec:
  "\<exists>evs. fst (report_running enq run bs m) = m\<lparr>mo_alerted := rev (map event_pattern evs) @ mo_alerted m, mo_queue := mo_queue m @ evs\<rparr> \<and>
     distinct (map event_pattern evs) \<and> (snd (report_running enq run bs m) \<longleftrightarrow> evs \<noteq> []) \<and>
     set (map event_pattern evs) = {b \<in> set bs. run b \<noteq> None \<and> enq b \<and> b \<notin> set (mo_alerted m)}"
proof (induction bs arbitrary: m)
  case Nil
  show ?case by (rule exI [of _ "[]"]) simp
next
  case (Cons b bs)
  show ?case
  proof (cases "\<exists>p. run b = Some p \<and> b \<notin> set (mo_alerted m) \<and> enq b")
    case True
    then obtain p where p: "run b = Some p" "b \<notin> set (mo_alerted m)" "enq b" by blast
    let ?m = "m\<lparr>mo_alerted := b # mo_alerted m, mo_queue := mo_queue m @ [RunningSoftware b p]\<rparr>"
    obtain evs where e: "fst (report_running enq run bs ?m) = ?m\<lparr>mo_alerted := rev (map event_pattern evs) @ mo_alerted ?m, mo_queue := mo_queue ?m @ evs\<rparr>"
      "distinct (map event_pattern evs)" "set (map event_pattern evs) = {c \<in> set bs. run c \<noteq> None \<and> enq c \<and> c \<notin> set (mo_alerted ?m)}"
      using Cons.IH [of ?m] by blast
    show ?thesis by (rule exI [of _ "RunningSoftware b p # evs"]) (use p e in auto)
  next
    case False
    then have "report_running enq run (b # bs) m = report_running enq run bs m" by (auto split: option.split)
    moreover have "{c \<in> set (b # bs). run c \<noteq> None \<and> enq c \<and> c \<notin> set (mo_alerted m)} = {c \<in> set bs. run c \<noteq> None \<and> enq c \<and> c \<notin> set (mo_alerted m)}"
      using False by auto
    ultimately show ?thesis using Cons.IH [of m] by simp
  qed
qed

lemma report_installed_spec:
  "\<exists>evs. fst (report_installed enq run inst bs m) = m\<lparr>mo_alerted := rev (map event_pattern evs) @ mo_alerted m, mo_queue := mo_queue m @ evs\<rparr> \<and>
     distinct (map event_pattern evs) \<and> (snd (report_installed enq run inst bs m) \<longleftrightarrow> evs \<noteq> []) \<and>
     set (map event_pattern evs) = {b \<in> set bs. inst b \<noteq> None \<and> run b = None \<and> enq b \<and> b \<notin> set (mo_alerted m)}"
proof (induction bs arbitrary: m)
  case Nil
  show ?case by (rule exI [of _ "[]"]) simp
next
  case (Cons b bs)
  show ?case
  proof (cases "\<exists>s. inst b = Some s \<and> run b = None \<and> b \<notin> set (mo_alerted m) \<and> enq b")
    case True
    then obtain s where s: "inst b = Some s" "run b = None" "b \<notin> set (mo_alerted m)" "enq b" by blast
    let ?m = "m\<lparr>mo_alerted := b # mo_alerted m, mo_queue := mo_queue m @ [InstalledSoftware b s]\<rparr>"
    obtain evs where e: "fst (report_installed enq run inst bs ?m) = ?m\<lparr>mo_alerted := rev (map event_pattern evs) @ mo_alerted ?m, mo_queue := mo_queue ?m @ evs\<rparr>"
      "distinct (map event_pattern evs)" "set (map event_pattern evs) = {c \<in> set bs. inst c \<noteq> None \<and> run c = None \<and> enq c \<and> c \<notin> set (mo_alerted ?m)}"
      using Cons.IH [of ?m] by blast
    show ?thesis by (rule exI [of _ "InstalledSoftware b s # evs"]) (use s e in auto)
  next
    case False
    then have "report_installed enq run inst (b # bs) m = report_installed enq run inst bs m" by (auto split: option.split)
    moreover have "{c \<in> set (b # bs). inst c \<noteq> None \<and> run c = None \<and> enq c \<and> c \<notin> set (mo_alerted m)} =
        {c \<in> set bs. inst c \<noteq> None \<and> run c = None \<and> enq c \<and> c \<notin> set (mo_alerted m)}"
      using False by auto
    ultimately show ?thesis using Cons.IH [of m] by simp
  qed
qed

text \<open>A scan that gets to its loops, what it then works on, and whether it sees the pattern.\<close>

definition ready_scan :: "scan_input \<Rightarrow> bool" where
  "ready_scan si \<longleftrightarrow> (case load_forbidden (si_list_ok si) (si_list si) of None \<Rightarrow> False | Some bad \<Rightarrow> bad \<noteq> []) \<and> si_procs si \<noteq> None"

definition bad_of :: "scan_input \<Rightarrow> string list" where
  "bad_of si = the (load_forbidden (si_list_ok si) (si_list si))"

definition loaded_for :: "scan_input \<Rightarrow> monitor \<Rightarrow> monitor" where
  "loaded_for si m = (if mo_loaded m then m else (load_alerted (si_read_ok si) m)\<lparr>mo_loaded := True\<rparr>)"

definition sees :: "scan_input \<Rightarrow> monitor \<Rightarrow> string \<Rightarrow> bool" where
  "sees si m b \<longleftrightarrow> found (find_forbidden (the (si_procs si)) (bad_of si))
     (find_installed (mo_cache (refresh_cache (si_now si) (si_pkgs si) (loaded_for si m))) (bad_of si)) b"

definition fair_order :: "scan_input \<Rightarrow> bool" where
  "fair_order si \<longleftrightarrow> set (si_order si (bad_of si)) = set (bad_of si)"

lemma refresh_fields [simp]: "mo_alerted (refresh_cache now pkgs m) = mo_alerted m" "mo_queue (refresh_cache now pkgs m) = mo_queue m"
  "mo_path (refresh_cache now pkgs m) = mo_path m" "mo_state (refresh_cache now pkgs m) = mo_state m" "mo_loaded (refresh_cache now pkgs m) = mo_loaded m"
  by (simp_all add: refresh_cache_def)

lemma load_fields [simp]: "mo_queue (load_alerted ok m) = mo_queue m" "mo_path (load_alerted ok m) = mo_path m" "mo_state (load_alerted ok m) = mo_state m"
  by (simp_all add: load_alerted_def)

lemma loaded_for_fields [simp]: "mo_queue (loaded_for si m) = mo_queue m" "mo_path (loaded_for si m) = mo_path m"
  "mo_state (loaded_for si m) = mo_state m" "mo_loaded (loaded_for si m)"
  by (simp_all add: loaded_for_def)

lemma save_fields [simp]: "mo_queue (save_alerted f m) = mo_queue m" "mo_alerted (save_alerted f m) = mo_alerted m"
  "mo_path (save_alerted f m) = mo_path m" "mo_loaded (save_alerted f m) = mo_loaded m"
  by (simp_all add: save_alerted_def split: option.split)

lemma scan_not_ready: "\<not> ready_scan si \<Longrightarrow> monitor_scan si m = m"
  by (auto simp: ready_scan_def monitor_scan_def split: option.splits)

lemma scan_spec:
  assumes ready: "ready_scan si" and fair: "fair_order si"
  shows "\<exists>evs. mo_queue (monitor_scan si m) = mo_queue m @ evs \<and> distinct (map event_pattern evs) \<and>
    set (map event_pattern evs) = {b. sees si m b \<and> si_enq si b \<and> b \<notin> set (mo_alerted (loaded_for si m))} \<and>
    set (mo_alerted (monitor_scan si m)) = {b. b \<in> set (mo_alerted (loaded_for si m)) \<union> set (map event_pattern evs) \<and> sees si m b} \<and>
    mo_loaded (monitor_scan si m) \<and> mo_path (monitor_scan si m) = mo_path m \<and>
    (if evs = [] \<and> (\<forall>b \<in> set (mo_alerted (loaded_for si m)). sees si m b)
     then mo_state (monitor_scan si m) = mo_state m
     else mo_state (monitor_scan si m) = (if \<not> mo_path m then mo_state m else
       (case si_fault si of Some left_over \<Rightarrow> left_over | None \<Rightarrow> Some (sort (mo_alerted (monitor_scan si m))))))"
proof -
  obtain procs where ps: "si_procs si = Some procs" using ready by (auto simp: ready_scan_def)
  let ?bad = "bad_of si" and ?ps = procs
  let ?m0 = "loaded_for si m"
  let ?run = "find_forbidden ?ps ?bad"
  let ?m1 = "refresh_cache (si_now si) (si_pkgs si) ?m0"
  let ?inst = "find_installed (mo_cache ?m1) ?bad"
  let ?ord = "si_order si ?bad"
  obtain e1 where e1: "fst (report_running (si_enq si) ?run ?ord ?m1) = ?m1\<lparr>mo_alerted := rev (map event_pattern e1) @ mo_alerted ?m1, mo_queue := mo_queue ?m1 @ e1\<rparr>"
    "distinct (map event_pattern e1)" "snd (report_running (si_enq si) ?run ?ord ?m1) \<longleftrightarrow> e1 \<noteq> []"
    "set (map event_pattern e1) = {b \<in> set ?ord. ?run b \<noteq> None \<and> si_enq si b \<and> b \<notin> set (mo_alerted ?m1)}"
    using report_running_spec [of "si_enq si" ?run ?ord ?m1] by blast
  let ?m2 = "fst (report_running (si_enq si) ?run ?ord ?m1)"
  obtain e2 where e2: "fst (report_installed (si_enq si) ?run ?inst ?ord ?m2) = ?m2\<lparr>mo_alerted := rev (map event_pattern e2) @ mo_alerted ?m2, mo_queue := mo_queue ?m2 @ e2\<rparr>"
    "distinct (map event_pattern e2)" "snd (report_installed (si_enq si) ?run ?inst ?ord ?m2) \<longleftrightarrow> e2 \<noteq> []"
    "set (map event_pattern e2) = {b \<in> set ?ord. ?inst b \<noteq> None \<and> ?run b = None \<and> si_enq si b \<and> b \<notin> set (mo_alerted ?m2)}"
    using report_installed_spec [of "si_enq si" ?run ?inst ?ord ?m2] by blast
  let ?m3 = "fst (report_installed (si_enq si) ?run ?inst ?ord ?m2)"
  let ?gone = "filter (\<lambda>b. ?run b = None \<and> ?inst b = None) (mo_alerted ?m3)"
  let ?m4 = "?m3\<lparr>mo_alerted := filter (\<lambda>b. ?run b \<noteq> None \<or> ?inst b \<noteq> None) (mo_alerted ?m3)\<rparr>"
  have bad: "load_forbidden (si_list_ok si) (si_list si) = Some ?bad" "?bad \<noteq> []"
    using ready by (auto simp: ready_scan_def bad_of_def split: option.splits)
  have scan: "monitor_scan si m = (if e1 \<noteq> [] \<or> e2 \<noteq> [] \<or> ?gone \<noteq> [] then save_alerted (si_fault si) ?m4 else ?m4)"
    unfolding monitor_scan_def bad(1) option.case ps loaded_for_def [symmetric]
    using bad(2) e1(3) e2(3) by (simp add: Let_def case_prod_unfold)
  have a1: "mo_alerted ?m2 = rev (map event_pattern e1) @ mo_alerted ?m0" using e1(1) by simp
  have a3: "mo_alerted ?m3 = rev (map event_pattern e2) @ rev (map event_pattern e1) @ mo_alerted ?m0" using e2(1) a1 by simp
  have q3: "mo_queue ?m3 = mo_queue m @ e1 @ e2" using e2(1) e1(1) by simp
  have st3: "mo_state ?m3 = mo_state m" "mo_path ?m3 = mo_path m" "mo_loaded ?m3" using e2(1) e1(1) by simp_all
  have sees: "sees si m b \<longleftrightarrow> ?run b \<noteq> None \<or> ?inst b \<noteq> None" for b by (simp add: sees_def found_def ps)
  have inbad: "sees si m b \<Longrightarrow> b \<in> set ?bad" for b by (auto simp: sees find_forbidden_def find_installed_def split: if_splits)
  have ord: "set ?ord = set ?bad" using fair by (simp add: fair_order_def)
  have s1: "set (map event_pattern e1) = {b. ?run b \<noteq> None \<and> si_enq si b \<and> b \<notin> set (mo_alerted ?m0)}"
    using e1(4) ord inbad sees by auto
  have s2: "set (map event_pattern e2) = {b. ?run b = None \<and> ?inst b \<noteq> None \<and> si_enq si b \<and> b \<notin> set (mo_alerted ?m0)}"
    using e2(4) ord inbad sees s1 by (auto simp: a1)
  have evs: "set (map event_pattern (e1 @ e2)) = {b. sees si m b \<and> si_enq si b \<and> b \<notin> set (mo_alerted ?m0)}"
    unfolding map_append set_append s1 s2 sees by auto
  have dist: "distinct (map event_pattern (e1 @ e2))" using e1(2) e2(2) s1 s2 by auto
  have al: "set (mo_alerted (monitor_scan si m)) = {b. b \<in> set (mo_alerted ?m0) \<union> set (map event_pattern (e1 @ e2)) \<and> sees si m b}"
    using a3 by (auto simp: scan sees)
  have none: "?gone = [] \<longleftrightarrow> (\<forall>b \<in> set (mo_alerted ?m0). sees si m b)" if "e1 = []" "e2 = []"
    using that a3 by (auto simp: filter_empty_conv sees)
  show ?thesis
    by (rule exI [of _ "e1 @ e2"]) (use dist evs al none st3 q3 in \<open>auto simp: scan save_alerted_def split: option.split\<close>)
qed

section \<open>One alert for an episode\<close>

lemma is_space_lower [simp]: "is_space (lower_char c) = is_space c"
  by (simp add: is_space_def lower_char_def Let_def)

lemma drop_space_lower: "dropWhile is_space (map lower_char s) = map lower_char (dropWhile is_space s)"
  by (induction s) simp_all

lemma trim_to_lower: "trim_space (to_lower s) = to_lower (trim_space s)"
  by (simp only: trim_space_def to_lower_def drop_space_lower rev_map)

lemma pattern_plain: "b \<in> set (pattern_lines ls) \<Longrightarrow> trim_space b = b \<and> b \<noteq> []"
  by (auto simp: pattern_lines_def trim_to_lower) (auto simp: to_lower_def)

definition marks :: "monitor \<Rightarrow> string set" where
  "marks m = set (state_marks (mo_state m))"

text \<open>The marks in memory, once loaded, are those on disk.\<close>

definition watch_ok :: "monitor \<Rightarrow> bool" where
  "watch_ok m \<longleftrightarrow> mo_path m \<and> (if mo_loaded m then set (mo_alerted m) = marks m else mo_alerted m = []) \<and>
     (\<forall>b \<in> set (mo_alerted m). trim_space b = b \<and> b \<noteq> [])"

definition healthy :: "scan_input \<Rightarrow> bool" where
  "healthy si \<longleftrightarrow> si_read_ok si \<and> si_fault si = None \<and> fair_order si"

lemma state_marks_plain: "b \<in> set (state_marks f) \<Longrightarrow> trim_space b = b \<and> b \<noteq> []"
  by (auto simp: state_marks_def split: option.splits)

lemma state_marks_saved: "\<forall>b \<in> set bs. trim_space b = b \<and> b \<noteq> [] \<Longrightarrow> set (state_marks (Some (sort bs))) = set bs"
  by (auto simp: state_marks_def image_iff)

lemma loaded_marks:
  assumes "watch_ok m" and "si_read_ok si"
  shows "set (mo_alerted (loaded_for si m)) = marks m" "\<forall>b \<in> set (mo_alerted (loaded_for si m)). trim_space b = b \<and> b \<noteq> []"
  using assms by (auto simp: watch_ok_def loaded_for_def load_alerted_def marks_def dest: state_marks_plain)

lemma sees_plain: "ready_scan si \<Longrightarrow> sees si m b \<Longrightarrow> trim_space b = b \<and> b \<noteq> []"
proof -
  assume r: "ready_scan si" and "sees si m b"
  then have "b \<in> set (bad_of si)" by (auto simp: sees_def found_def find_forbidden_def find_installed_def split: if_splits)
  moreover obtain ls where "bad_of si = pattern_lines ls"
    using r by (auto simp: ready_scan_def bad_of_def load_forbidden_def split: option.splits if_splits)
  ultimately show ?thesis using pattern_plain by simp
qed

lemma healthy_scan:
  assumes ok: "watch_ok m" and h: "healthy si" and ready: "ready_scan si"
  shows "\<exists>evs. mo_queue (monitor_scan si m) = mo_queue m @ evs \<and> distinct (map event_pattern evs) \<and>
    set (map event_pattern evs) = {b. sees si m b \<and> si_enq si b \<and> b \<notin> marks m} \<and>
    marks (monitor_scan si m) = {b. b \<in> marks m \<union> set (map event_pattern evs) \<and> sees si m b} \<and> watch_ok (monitor_scan si m)"
proof -
  note l = loaded_marks [OF ok, of si]
  have f: "si_read_ok si" "si_fault si = None" "fair_order si" "mo_path m" using h ok by (auto simp: healthy_def watch_ok_def)
  obtain evs where e: "mo_queue (monitor_scan si m) = mo_queue m @ evs" "distinct (map event_pattern evs)"
    "set (map event_pattern evs) = {b. sees si m b \<and> si_enq si b \<and> b \<notin> marks m}"
    "set (mo_alerted (monitor_scan si m)) = {b. b \<in> marks m \<union> set (map event_pattern evs) \<and> sees si m b}"
    "mo_loaded (monitor_scan si m)" "mo_path (monitor_scan si m) = mo_path m"
    "if evs = [] \<and> (\<forall>b \<in> marks m. sees si m b) then mo_state (monitor_scan si m) = mo_state m
     else mo_state (monitor_scan si m) = Some (sort (mo_alerted (monitor_scan si m)))"
    using scan_spec [OF ready f(3), of m] f unfolding l(1) [OF f(1)] by auto
  have plain: "\<forall>b \<in> set (mo_alerted (monitor_scan si m)). trim_space b = b \<and> b \<noteq> []"
    using e(4) sees_plain [OF ready] by auto
  have "marks (monitor_scan si m) = set (mo_alerted (monitor_scan si m))"
  proof (cases "evs = [] \<and> (\<forall>b \<in> marks m. sees si m b)")
    case True
    then have "marks (monitor_scan si m) = marks m" using e(7) by (simp add: marks_def)
    then show ?thesis using e(4) True by auto
  next
    case False
    then have "mo_state (monitor_scan si m) = Some (sort (mo_alerted (monitor_scan si m)))" using e(7) by (simp only: if_False)
    then show ?thesis using state_marks_saved [OF plain] by (simp only: marks_def)
  qed
  then show ?thesis using e plain f by (auto simp: watch_ok_def)
qed

text \<open>
  Scans and restarts during which the pattern is never seen to be gone, with the number of the faults of the file of marks:
  a first read that fails after a restart, and a write that fails.
\<close>

definition mark_faults :: "scan_input \<Rightarrow> nat" where
  "mark_faults si = (if si_read_ok si then 0 else 1) + (if si_fault si = None then 0 else 1)"

inductive episode :: "string \<Rightarrow> monitor \<Rightarrow> nat \<Rightarrow> monitor \<Rightarrow> bool" for b where
  episode_start: "episode b m 0 m"
| episode_scan: "episode b m n m1 \<Longrightarrow> fair_order si \<Longrightarrow> ready_scan si \<longrightarrow> sees si m1 b \<Longrightarrow>
    episode b m (n + mark_faults si) (monitor_scan si m1)"
| episode_restart: "episode b m n m1 \<Longrightarrow> episode b m n (monitor_restart m1)"

definition plain_marks :: "monitor \<Rightarrow> bool" where
  "plain_marks m \<longleftrightarrow> mo_path m \<and> (\<forall>b \<in> set (mo_alerted m). trim_space b = b \<and> b \<noteq> [])"

lemma restart_ok: "watch_ok m \<Longrightarrow> watch_ok (monitor_restart m) \<and> marks (monitor_restart m) = marks m \<and> mo_queue (monitor_restart m) = mo_queue m"
  by (simp add: watch_ok_def monitor_restart_def new_monitor_def marks_def)

text \<open>What a pattern that was reported may still cost: nothing while its mark is on disk and, once the marks are loaded, in memory.\<close>

definition owed :: "string \<Rightarrow> monitor \<Rightarrow> nat" where
  "owed b m = (if b \<in> marks m \<and> (mo_loaded m \<longrightarrow> b \<in> set (mo_alerted m)) then 0 else 1)"

lemma count_distinct_le: "distinct xs \<Longrightarrow> count_list xs b = (if b \<in> set xs then 1 else 0)"
  by (induction xs) auto

lemma plain_scan:
  assumes ok: "plain_marks m" and fair: "fair_order si" and ready: "ready_scan si"
  shows "plain_marks (monitor_scan si m)"
proof -
  have "\<forall>c \<in> set (mo_alerted (monitor_scan si m)). sees si m c" "mo_path (monitor_scan si m) = mo_path m"
    using scan_spec [OF ready fair, of m] by auto
  then show ?thesis using ok sees_plain [OF ready] by (auto simp: plain_marks_def)
qed

text \<open>The mark of a pattern that a scan sees is on disk after it, unless the write fails: it was there, or the scan writes it.\<close>

lemma mark_stays:
  assumes ok: "plain_marks m" and fair: "fair_order si" and ready: "ready_scan si" and w: "si_fault si = None"
    and q: "mo_queue (monitor_scan si m) = mo_queue m @ evs" and b: "b \<in> set (mo_alerted (monitor_scan si m))"
    and old: "b \<in> marks m \<or> b \<in> set (map event_pattern evs)"
  shows "b \<in> marks (monitor_scan si m)"
proof -
  have pl: "plain_marks (monitor_scan si m)" by (rule plain_scan [OF ok fair ready])
  have "evs = [] \<and> mo_state (monitor_scan si m) = mo_state m \<or> mo_state (monitor_scan si m) = Some (sort (mo_alerted (monitor_scan si m)))"
    using scan_spec [OF ready fair, of m] q w ok by (auto simp: plain_marks_def split: if_splits)
  then show ?thesis
  proof
    assume e: "evs = [] \<and> mo_state (monitor_scan si m) = mo_state m"
    then have "b \<in> marks m" using old by simp
    then show ?thesis using e by (simp add: marks_def)
  next
    assume "mo_state (monitor_scan si m) = Some (sort (mo_alerted (monitor_scan si m)))"
    then show ?thesis using b pl state_marks_saved [of "mo_alerted (monitor_scan si m)"] by (simp add: marks_def plain_marks_def)
  qed
qed

lemma scan_owed:
  assumes ok: "plain_marks m" and fair: "fair_order si" and sees: "ready_scan si \<longrightarrow> sees si m b"
  shows "plain_marks (monitor_scan si m) \<and> (\<exists>evs. mo_queue (monitor_scan si m) = mo_queue m @ evs \<and>
    count_list (map event_pattern evs) b + owed b (monitor_scan si m) \<le> owed b m + mark_faults si)"
proof (cases "ready_scan si")
  case False
  then show ?thesis using ok by (simp add: scan_not_ready)
next
  case ready: True
  obtain evs where e: "mo_queue (monitor_scan si m) = mo_queue m @ evs" "distinct (map event_pattern evs)"
    "set (map event_pattern evs) = {b. sees si m b \<and> si_enq si b \<and> b \<notin> set (mo_alerted (loaded_for si m))}"
    "set (mo_alerted (monitor_scan si m)) = {b. b \<in> set (mo_alerted (loaded_for si m)) \<union> set (map event_pattern evs) \<and> sees si m b}"
    "mo_loaded (monitor_scan si m)"
    using scan_spec [OF ready fair, of m] by blast
  let ?c = "count_list (map event_pattern evs) b"
  have c: "?c = (if b \<in> set (map event_pattern evs) then 1 else 0)" by (rule count_distinct_le [OF e(2)])
  have known: "b \<in> set (mo_alerted (loaded_for si m))" if "owed b m = 0" "si_read_ok si"
    using that ok by (auto simp: owed_def loaded_for_def load_alerted_def marks_def plain_marks_def split: if_splits)
  have mem: "b \<in> set (mo_alerted (monitor_scan si m))" if "b \<in> set (mo_alerted (loaded_for si m)) \<or> b \<in> set (map event_pattern evs)"
    using that e(4) sees ready by blast
  have safe: "owed b (monitor_scan si m) = 0" if "si_fault si = None" "b \<in> set (mo_alerted (monitor_scan si m))"
    "b \<in> marks m \<or> b \<in> set (map event_pattern evs)"
    using mark_stays [OF ok fair ready that(1) e(1) that(2,3)] that(2) by (simp add: owed_def)
  have le: "owed b x \<le> 1" for x by (simp add: owed_def)
  have "?c + owed b (monitor_scan si m) \<le> owed b m + mark_faults si"
  proof (cases "b \<in> set (map event_pattern evs)")
    case True
    then have c1: "?c = 1" and new: "b \<notin> set (mo_alerted (loaded_for si m))" using c e(3) by auto
    have "1 \<le> owed b m + (if si_read_ok si then 0 else 1)" using known new le [of m] by (cases "owed b m") auto
    moreover have "owed b (monitor_scan si m) \<le> (if si_fault si = None then 0 else 1)"
      using safe mem True le [of "monitor_scan si m"] by auto
    ultimately show ?thesis using c1 by (simp add: mark_faults_def)
  next
    case False
    then have c0: "?c = 0" using c by simp
    have "owed b (monitor_scan si m) = 0" if "owed b m = 0" "si_read_ok si" "si_fault si = None"
    proof -
      have "b \<in> marks m" using that(1) by (simp add: owed_def split: if_splits)
      then show ?thesis using safe [OF that(3) mem] known [OF that(1,2)] by blast
    qed
    then show ?thesis using c0 le [of "monitor_scan si m"] by (cases "owed b m") (auto simp: mark_faults_def)
  qed
  then show ?thesis using e(1) plain_scan [OF ok fair ready] by auto
qed

lemma episode_owed:
  "episode b m n m' \<Longrightarrow> plain_marks m \<Longrightarrow> plain_marks m' \<and>
   (\<exists>evs. mo_queue m' = mo_queue m @ evs \<and> count_list (map event_pattern evs) b + owed b m' \<le> owed b m + n)"
proof (induction rule: episode.induct)
  case (episode_start m)
  then show ?case by simp
next
  case (episode_scan m n m1 si)
  then obtain evs where IH: "plain_marks m1" "mo_queue m1 = mo_queue m @ evs"
    "count_list (map event_pattern evs) b + owed b m1 \<le> owed b m + n" by blast
  obtain ev2 where e: "plain_marks (monitor_scan si m1)" "mo_queue (monitor_scan si m1) = mo_queue m1 @ ev2"
    "count_list (map event_pattern ev2) b + owed b (monitor_scan si m1) \<le> owed b m1 + mark_faults si"
    using scan_owed [OF IH(1) episode_scan.hyps(2,3)] by blast
  show ?case using IH e by (intro conjI exI [of _ "evs @ ev2"]) simp_all
next
  case (episode_restart m n m1)
  have "owed b (monitor_restart m1) \<le> owed b m1" by (simp add: owed_def monitor_restart_def new_monitor_def marks_def)
  then show ?case using episode_restart by (fastforce simp: plain_marks_def monitor_restart_def new_monitor_def)
qed

text \<open>Claim C14. One scan reports a pattern once, however many processes and packages match.  After it, as long as no scan that
  gets to the comparison sees the pattern gone, and however many scans and restarts of the agent follow, the monitor reports the pattern
  again at most as often as the file of marks failed: a read that failed, or a write that failed, the one of the first scan
  included.  If it never failed the pattern is not reported a second time; a mark that was lost costs one duplicate.\<close>

theorem one_alert_per_episode:
  assumes "plain_marks m" and "fair_order si" and "ready_scan si" and "mo_queue (monitor_scan si m) = mo_queue m @ evs"
    and "b \<in> event_pattern ` set evs" and "episode b (monitor_scan si m) n m'"
  shows "distinct (map event_pattern evs) \<and> (\<exists>later. mo_queue m' = mo_queue m @ evs @ later \<and>
    count_list (map event_pattern later) b \<le> (if si_fault si = None then 0 else 1) + n)"
proof -
  obtain ev2 where e: "mo_queue (monitor_scan si m) = mo_queue m @ ev2" "distinct (map event_pattern ev2)"
    "set (map event_pattern ev2) = {b. sees si m b \<and> si_enq si b \<and> b \<notin> set (mo_alerted (loaded_for si m))}"
    "set (mo_alerted (monitor_scan si m)) = {b. b \<in> set (mo_alerted (loaded_for si m)) \<union> set (map event_pattern ev2) \<and> sees si m b}"
    using scan_spec [OF assms(3,2), of m] by blast
  have same: "ev2 = evs" using e(1) assms(4) by simp
  have b: "b \<in> set (map event_pattern ev2)" using assms(5) same by simp
  then have mem: "b \<in> set (mo_alerted (monitor_scan si m))" using e(3,4) by blast
  have "owed b (monitor_scan si m) \<le> (if si_fault si = None then 0 else 1)"
    using mark_stays [OF assms(1-3) _ e(1) mem disjI2 [OF b]] mem by (auto simp: owed_def)
  moreover obtain later where "mo_queue m' = mo_queue (monitor_scan si m) @ later"
    "count_list (map event_pattern later) b + owed b m' \<le> owed b (monitor_scan si m) + n"
    using episode_owed [OF assms(6) plain_scan [OF assms(1-3)]] by blast
  ultimately show ?thesis using e(2) assms(4) same by (intro conjI exI [of _ later]) auto
qed

text \<open>Once a scan has seen the pattern gone, the next one that sees it reports it again.\<close>

lemma new_episode_alerts:
  assumes "watch_ok m" and "healthy si" and "ready_scan si" and "\<not> sees si m b"
    and "healthy sj" and "ready_scan sj" and "sees sj (monitor_scan si m) b" and "si_enq sj b"
  shows "\<exists>evs. mo_queue (monitor_scan sj (monitor_scan si m)) = mo_queue (monitor_scan si m) @ evs \<and> b \<in> event_pattern ` set evs"
proof -
  obtain ev1 where e1: "marks (monitor_scan si m) = {b. b \<in> marks m \<union> set (map event_pattern ev1) \<and> sees si m b}" "watch_ok (monitor_scan si m)"
    using healthy_scan [OF assms(1-3)] by blast
  obtain ev2 where e2: "mo_queue (monitor_scan sj (monitor_scan si m)) = mo_queue (monitor_scan si m) @ ev2"
    "set (map event_pattern ev2) = {b. sees sj (monitor_scan si m) b \<and> si_enq sj b \<and> b \<notin> marks (monitor_scan si m)}"
    using healthy_scan [OF e1(2) assms(5,6)] by blast
  have "b \<notin> marks (monitor_scan si m)" using e1(1) assms(4) by blast
  then have "b \<in> set (map event_pattern ev2)" using e2(2) assms(7,8) by blast
  then show ?thesis using e2(1) by auto
qed

definition demo_scan :: "string list \<Rightarrow> scan_input" where
  "demo_scan names = \<lparr>si_now = 5, si_list = Some [''# rules'', ''Torrent'', ''steam''], si_list_ok = True,
     si_procs = Some (map (\<lambda>n. \<lparr>pc_pid = 7, pc_name = n, pc_cmd = n\<rparr>) names), si_pkgs = [\<lparr>pk_name = ''BitTorrent'', pk_version = ''7''\<rparr>],
     si_enq = (\<lambda>_. True), si_read_ok = True, si_fault = None, si_order = (\<lambda>bs. bs)\<rparr>"

lemma demo_scan_list: "load_forbidden (si_list_ok (demo_scan ns)) (si_list (demo_scan ns)) = Some [''torrent'', ''steam'']"
  by (simp add: demo_scan_def) code_simp

lemma demo_scan_healthy: "healthy (demo_scan ns)" "ready_scan (demo_scan ns)"
  using demo_scan_list by (simp_all add: healthy_def ready_scan_def fair_order_def) (simp_all add: demo_scan_def)

theorem one_alert_per_episode_witness:
  "\<exists>later. mo_queue (monitor_scan (demo_scan [''qbittorrent'', ''Torrent.exe'']) (monitor_restart
        (monitor_scan ((demo_scan [''qbittorrent''])\<lparr>si_fault := Some None\<rparr>) (new_monitor True None)))) =
      [RunningSoftware ''torrent'' \<lparr>pc_pid = 7, pc_name = ''qbittorrent'', pc_cmd = ''qbittorrent''\<rparr>] @ later \<and>
    count_list (map event_pattern later) ''torrent'' = 1 \<and> count_list (map event_pattern later) ''torrent'' \<le> 1"
proof -
  let ?m = "new_monitor True None" and ?si = "(demo_scan [''qbittorrent''])\<lparr>si_fault := Some None\<rparr>" and ?sj = "demo_scan [''qbittorrent'', ''Torrent.exe'']"
  let ?ev = "[RunningSoftware ''torrent'' \<lparr>pc_pid = 7, pc_name = ''qbittorrent'', pc_cmd = ''qbittorrent''\<rparr>]"
  let ?fin = "monitor_scan ?sj (monitor_restart (monitor_scan ?si ?m))"
  have ok: "plain_marks ?m" by (simp add: plain_marks_def new_monitor_def)
  have q: "mo_queue (monitor_scan ?si ?m) = mo_queue ?m @ ?ev" by code_simp
  have f: "fair_order ?si" "ready_scan ?si"
    using demo_scan_healthy [of "[''qbittorrent'']"] by (simp_all add: healthy_def fair_order_def ready_scan_def bad_of_def)
  have fj: "fair_order ?sj" using demo_scan_healthy(1) by (simp add: healthy_def)
  have s: "ready_scan ?sj \<longrightarrow> sees ?sj (monitor_restart (monitor_scan ?si ?m)) ''torrent''" by code_simp
  have e: "episode ''torrent'' (monitor_scan ?si ?m) (0 + mark_faults ?sj) ?fin"
    by (rule episode_scan [OF episode_restart [OF episode_start] fj s])
  have b: "''torrent'' \<in> event_pattern ` set ?ev" by simp
  have m0: "mo_queue ?m = []" "mark_faults ?sj = 0" by (simp_all add: new_monitor_def mark_faults_def demo_scan_def)
  have two: "mo_queue ?fin = ?ev @ [RunningSoftware ''torrent'' \<lparr>pc_pid = 7, pc_name = ''Torrent.exe'', pc_cmd = ''Torrent.exe''\<rparr>]" by code_simp
  show ?thesis using one_alert_per_episode [OF ok f q b e] two m0 by simp
qed

section \<open>The cache of the rules\<close>

lemma dec_int_not_space: "c \<in> set (dec_int v) \<Longrightarrow> \<not> is_space c"
proof -
  have d: "\<not> is_space c" if "is_digit c" for c using that by (auto simp: is_digit_def is_space_def Let_def)
  assume "c \<in> set (dec_int v)"
  then consider "c = CHR ''-''" | "is_digit c" using dec_digits [of "nat v"] dec_digits [of "nat (- v)"]
    by (auto simp: dec_int_def list_all_iff split: if_splits)
  then show ?thesis by cases (simp add: is_space_def, rule d)
qed

lemma dec_int_nonempty [simp]: "dec_int v \<noteq> []" by (simp add: dec_int_def)

lemma trim_dec_int [simp]: "trim_space (dec_int v) = dec_int v"
  by (rule trim_space_id) (simp_all add: dec_int_not_space [of _ v])

lemma last_dec_int [simp]: "\<not> is_space (last (dec_int v))"
  by (rule dec_int_not_space [of _ v]) simp

lemma parse_dec_int: "int64_range v \<Longrightarrow> parse_int (dec_int v) = Some v"
proof (cases "v < 0")
  case True
  assume r: "int64_range v"
  have "- int (dec_value (dec (nat (- v)))) = v" using True by simp
  then show ?thesis using r True by (simp add: parse_int_def dec_int_def Let_def)
next
  case False
  assume "int64_range v"
  then have "v < 2 ^ 63" by (simp add: int64_range_def)
  then have "nat v < 2 ^ 63" using False by (simp add: nat_less_iff)
  then show ?thesis using False parse_int_digits [of "dec (nat v)"] by (simp add: dec_int_def)
qed

lemma version_line_written: "int64_range v \<Longrightarrow> version_line (version_prefix @ dec_int v) = Some v"
proof -
  assume r: "int64_range v"
  have "\<not> is_space (last (version_prefix @ dec_int v))" by simp
  then have "trim_space (version_prefix @ dec_int v) = version_prefix @ dec_int v"
    by (intro trim_space_id) (simp_all add: version_prefix_def is_space_def)
  then show ?thesis using r by (simp add: version_line_def parse_dec_int)
qed

lemma length_dec_int64: "int64_range v \<Longrightarrow> length (dec_int v) \<le> 21"
proof -
  assume r: "int64_range v"
  then have "v < 10 ^ 20" "- v < 10 ^ 20" by (simp_all add: int64_range_def)
  then have "nat v < nat (10 ^ 20)" "nat (- v) < nat (10 ^ 20)" unfolding zless_nat_conj by simp_all
  then have "nat v < 10 ^ 20" "nat (- v) < 10 ^ 20" unfolding nat_power_eq [OF zero_le_numeral] by simp_all
  then have "length (dec (nat v)) \<le> 20" "length (dec (nat (- v))) \<le> 20" by (simp_all add: length_dec_le)
  then show ?thesis by (simp add: dec_int_def)
qed

lemma version_fits: "int64_range v \<Longrightarrow> int (length (version_prefix @ dec_int v)) < scan_limit"
  using length_dec_int64 [of v] by (simp add: version_prefix_def scan_limit_def)

lemma note_line: "int (length sync_note) < scan_limit" "trim_space sync_note = sync_note" "prefix ''#'' sync_note"
proof -
  show "int (length sync_note) < scan_limit" by (simp add: sync_note_def utf8_text_def scan_limit_def)
  have "hd sync_note = char_of (35 :: nat)" "last sync_note = char_of (142 :: nat)" "sync_note \<noteq> []" by (simp_all add: sync_note_def utf8_text_def)
  then show "trim_space sync_note = sync_note" by (intro trim_space_id) (simp_all add: is_space_def)
  show "prefix ''#'' sync_note" by (simp add: sync_note_def utf8_text_def char_of_def bit_0)
qed

lemma read_version_written: "int64_range v \<Longrightarrow> read_version True (Some (list_lines v names)) = v"
  using version_fits [of v] by (simp add: read_version_def list_lines_def scan_lines_def version_line_written)

text \<open>What the panel accepts as a name, and that fits a line of the scanner.\<close>

definition plain_name :: "string \<Rightarrow> bool" where
  "plain_name n \<longleftrightarrow> sanitize_software_name n = Some n \<and> int (length n) < scan_limit"

lemma sanitized: "sanitize_software_name n = Some n \<Longrightarrow> n \<noteq> [] \<and> trim_space n = n \<and> \<not> prefix ''#'' n \<and> newline \<notin> set n"
proof -
  assume a: "sanitize_software_name n = Some n"
  then have s: "n \<noteq> []" "trim_space n = n" "\<not> prefix ''#'' n" "\<not> list_ex (\<lambda>c. (of_char c :: nat) < 32 \<or> (of_char c :: nat) = 127) n"
    by (auto simp: sanitize_software_name_def Let_def split: if_splits)
  have "newline \<notin> set n"
  proof
    assume "newline \<in> set n"
    moreover have "(of_char newline :: nat) < 32" by (simp add: newline_def)
    ultimately show False using s(4) by (auto simp: list_ex_iff)
  qed
  then show ?thesis using s by simp
qed

lemma list_lines_names: "\<forall>n \<in> set names. sanitize_software_name n = Some n \<Longrightarrow> list_lines v names = (version_prefix @ dec_int v) # sync_note # names"
proof -
  assume "\<forall>n \<in> set names. sanitize_software_name n = Some n"
  then have "map (split_on newline) names = map (\<lambda>n. [n]) names" by (intro map_cong refl split_on_simple) (use sanitized in blast)
  then show ?thesis by (simp only: list_lines_def concat_map_singleton) simp
qed

lemma written_loads:
  assumes "int64_range v" and "\<forall>n \<in> set names. plain_name n"
  shows "load_forbidden True (Some (list_lines v names)) = Some (map to_lower names)"
proof -
  have s: "\<forall>n \<in> set names. sanitize_software_name n = Some n" using assms(2) by (simp add: plain_name_def)
  have scan: "scan_lines (list_lines v names) = list_lines v names"
    unfolding list_lines_names [OF s] scan_lines_def takeWhile_eq_all_conv
    using version_fits [OF assms(1)] note_line(1) assms(2) by (simp add: plain_name_def)
  have v: "\<not> is_space (last (version_prefix @ dec_int v))" by simp
  have tv: "trim_space (version_prefix @ dec_int v) = version_prefix @ dec_int v"
    by (rule trim_space_id) (use v in \<open>simp_all add: version_prefix_def is_space_def\<close>)
  have "map trim_space names = names" by (rule map_idI) (use s sanitized in blast)
  moreover have "filter (\<lambda>l. l \<noteq> [] \<and> \<not> prefix ''#'' l) names = names" by (rule filter_True) (use s sanitized in blast)
  moreover have "prefix ''#'' (version_prefix @ dec_int v)" by (simp add: version_prefix_def)
  ultimately have "pattern_lines (list_lines v names) = map to_lower names"
    unfolding list_lines_names [OF s] pattern_lines_def list.map tv note_line(2) by (simp add: note_line(3))
  then show ?thesis using scan by (simp add: load_forbidden_def)
qed

text \<open>Claim C32. The cache of the rules loses nothing: what a sync writes for a version of 64 bits and names that the panel accepts
  and that are shorter than a line of the scanner is read back as this version and these names, in lower case.\<close>

theorem cache_round_trip:
  assumes "int64_range v" and "\<forall>n \<in> set names. plain_name n"
  shows "read_version True (write_list True v names f) = v \<and>
    load_forbidden True (write_list True v names f) = Some (map to_lower names)"
  using written_loads [OF assms] read_version_written [OF assms(1)] by (simp add: write_list_def)

theorem cache_round_trip_witness:
  "read_version True (write_list True (-5) [''BitTorrent'', ''Tor Browser''] None) = -5 \<and>
   load_forbidden True (write_list True (-5) [''BitTorrent'', ''Tor Browser''] None) = Some [''bittorrent'', ''tor browser'']"
proof -
  have p: "\<forall>n \<in> set [''BitTorrent'', ''Tor Browser'']. plain_name n" by code_simp
  have l: "map to_lower [''BitTorrent'', ''Tor Browser''] = [''bittorrent'', ''tor browser'']" by code_simp
  have v: "int64_range (-5)" by (simp add: int64_range_def)
  show ?thesis using cache_round_trip [OF v p, of None] unfolding l .
qed

section \<open>From the panel to the device\<close>

definition forbidden_names :: "(string \<times> string) list \<Rightarrow> string list" where
  "forbidden_names rs = map fst (filter (\<lambda>(n, ty). ty = ''forbidden'') rs)"

lemma forbidden_names_set: "n \<in> set (forbidden_names rs) \<longleftrightarrow> (n, ''forbidden'') \<in> set rs"
  by (auto simp: forbidden_names_def image_iff)

lemma version_int64: "int64_range (rules_version rs)"
  using sint_ge [of "fnv64a (set_text (map (\<lambda>r. policy_set_item (rule_fields r)) rs))"]
    sint_lt [of "fnv64a (set_text (map (\<lambda>r. policy_set_item (rule_fields r)) rs))"]
  by (simp add: rules_version_def policy_set_version_def int64_range_def)

definition named_rules :: "(string \<times> string) list \<Rightarrow> bool" where
  "named_rules rs \<longleftrightarrow> (\<forall>n \<in> set (forbidden_names rs). sanitize_software_name n = Some n)"

lemma answered_names:
  assumes "named_rules rs"
  shows "map fst (filter (\<lambda>(n, forbidden). forbidden \<and> n \<noteq> []) (map (\<lambda>(n, ty). (n, ty = ''forbidden'')) rs)) = forbidden_names rs"
proof -
  have "(n, ''forbidden'') \<in> set rs \<Longrightarrow> n \<noteq> []" for n
    using assms sanitized forbidden_names_set by (simp add: named_rules_def)
  then have "filter (\<lambda>(n, ty). ty = ''forbidden'' \<and> n \<noteq> []) rs = filter (\<lambda>(n, ty). ty = ''forbidden'') rs"
    by (intro filter_cong refl) auto
  then show ?thesis by (simp add: forbidden_names_def filter_map comp_def case_prod_unfold)
qed

text \<open>A sync that reaches the server and can write: the file holds the current rules, unless it is said to be up to date.\<close>

lemma sync_device:
  assumes ok: "device_ok db d" and st: "dv_status d \<noteq> ''pending_approval''" and names: "named_rules (rule_set d db)"
  shows "sync_once True True (\<lambda>known. fetch_policy (dv_fp d) known db) f =
    (if rules_version (rule_set d db) \<noteq> 0 \<and> read_version True f = rules_version (rule_set d db) then f
     else Some (list_lines (rules_version (rule_set d db)) (forbidden_names (rule_set d db))))"
  using answered_names [OF names] by (simp add: sync_once_def fetch_policy_device [OF ok st] write_list_def)

lemma rules_named: "device_ok db d \<Longrightarrow> named_rules (rule_set d db)"
proof -
  assume "device_ok db d"
  then have "\<forall>r \<in> set (pd_rules db). sanitize_software_name (ru_name r) = Some (ru_name r)"
    by (simp add: device_ok_def tables_defs rule_ok_def)
  then show ?thesis by (auto simp: named_rules_def forbidden_names_set rule_set_def)
qed

text \<open>What the monitor reads in the cache of a set of rules: the names, or nothing at all when one of them is too long for a line.\<close>

definition long_name :: "string \<Rightarrow> bool" where
  "long_name n \<longleftrightarrow> 65536 \<le> length n"

lemma long_name_limit: "long_name n \<longleftrightarrow> \<not> int (length n) < scan_limit"
  by (auto simp: long_name_def scan_limit_def)

lemma named_loads:
  assumes "named_rules rs"
  shows "load_forbidden True (Some (list_lines (rules_version rs) (forbidden_names rs))) =
    (if \<exists>n \<in> set (forbidden_names rs). long_name n then None else Some (map to_lower (forbidden_names rs)))"
proof (cases "\<exists>n \<in> set (forbidden_names rs). long_name n")
  case True
  then have "scan_lines (list_lines (rules_version rs) (forbidden_names rs)) \<noteq> list_lines (rules_version rs) (forbidden_names rs)"
    unfolding scan_lines_def takeWhile_eq_all_conv list_lines_names [OF assms [unfolded named_rules_def]] by (auto simp: long_name_limit)
  then show ?thesis using True by (simp add: load_forbidden_def)
next
  case False
  then show ?thesis using assms written_loads [OF version_int64, of "forbidden_names rs" rs]
    by (simp add: named_rules_def plain_name_def long_name_limit)
qed

text \<open>A sync that the server answers and that can write leaves the cache of the current rules, as far as the monitor can tell.\<close>

lemma synced_loads:
  assumes ok: "device_ok db d" and st: "dv_status d \<noteq> ''pending_approval''"
    and f: "f \<in> {None, Some (list_lines 0 []), Some (list_lines (rules_version rs) (forbidden_names rs))}"
    and m: "measured rule_fields rs" "measured rule_fields (rule_set d db)"
    and no: "\<not> same_hash (rule_items rs) (rule_items (rule_set d db))"
  shows "\<exists>ns. set ns = set (forbidden_names (rule_set d db)) \<and>
    load_forbidden True (sync_once True True (\<lambda>known. fetch_policy (dv_fp d) known db) f) =
      (if \<exists>n \<in> set ns. long_name n then None else Some (map to_lower ns))"
proof -
  let ?rs = "rule_set d db"
  let ?after = "sync_once True True (\<lambda>known. fetch_policy (dv_fp d) known db) f"
  note names = rules_named [OF ok]
  show ?thesis
  proof (cases "rules_version ?rs \<noteq> 0 \<and> read_version True f = rules_version ?rs")
    case False
    then have "?after = Some (list_lines (rules_version ?rs) (forbidden_names ?rs))"
      by (simp only: sync_device [OF ok st names] if_False)
    then show ?thesis by (intro exI [of _ "forbidden_names ?rs"]) (simp add: named_loads [OF names])
  next
    case True
    then have after: "?after = f" by (simp add: sync_device [OF ok st names])
    have "f \<noteq> None" using True by (cases f) (simp_all add: read_version_def)
    moreover have "f \<noteq> Some (list_lines 0 [])" using True read_version_written [of 0 "[]"] by (auto simp: int64_range_def)
    ultimately have w: "f = Some (list_lines (rules_version rs) (forbidden_names rs))" using f by blast
    then have "rules_version rs = rules_version ?rs" using True read_version_written [OF version_int64] by simp
    then have "mset rs = mset ?rs" using rules_version_eq [of rs ?rs] m no by blast
    then have "set rs = set ?rs" by (rule mset_eq_setD)
    then have same: "set (forbidden_names rs) = set (forbidden_names ?rs)" by (simp add: set_eq_iff forbidden_names_set)
    then have "named_rules rs" using names by (simp add: named_rules_def)
    then show ?thesis unfolding after unfolding w named_loads [OF \<open>named_rules rs\<close>] using same by (intro exI [of _ "forbidden_names rs"]) simp
  qed
qed

text \<open>Claim C10. A device starts with no cache, with the empty cache it got while it was held for approval, or with the cache of a set of
  rules that it was sent before; the server answers its sync, and the file can be written and read.  Then a device that is held for
  approval forbids nothing.  Any other device forbids exactly the names that its current rules forbid, in lower case: the rules of its
  tenant that are global, its own or of one of its groups, and for its system.  The exception is a name of 64 kB or more
  among them, which the panel accepts: then the list cannot be read at all, and the monitor does nothing (see
  \<open>long_rule_silences_monitor\<close>).  The texts of both sets are shorter than 2 to the power 64 and do not collide under the 64-bit hash.\<close>

theorem agent_enforces_server_rules:
  assumes "device_ok db d"
    and "f \<in> {None, Some (list_lines 0 []), Some (list_lines (rules_version rs) (forbidden_names rs))}"
    and "measured rule_fields rs" and "measured rule_fields (rule_set d db)"
    and "\<not> same_hash (rule_items rs) (rule_items (rule_set d db))"
    and "bad = {ru_name r |r. r \<in> set (pd_rules db) \<and> rule_targets db d r \<and> ru_type r = ''forbidden''}"
    and "after = load_forbidden True (sync_once True True (\<lambda>known. fetch_policy (dv_fp d) known db) f)"
  shows "if dv_status d = ''pending_approval'' then after = Some []
    else if \<exists>n \<in> bad. long_name n then after = None
    else (\<exists>patterns. after = Some patterns \<and> set patterns = to_lower ` bad)"
proof (cases "dv_status d = ''pending_approval''")
  case True
  then have "sync_once True True (\<lambda>known. fetch_policy (dv_fp d) known db) f = Some (list_lines 0 [])"
    by (simp add: sync_once_def fetch_policy_def device_scope [OF assms(1)] write_list_def)
  then show ?thesis using True assms(7) written_loads [of 0 "[]"] by (simp add: int64_range_def)
next
  case False
  have "set (forbidden_names (rule_set d db)) = bad"
    unfolding assms(6) set_eq_iff forbidden_names_set by (auto simp: rule_set_def image_iff)
  then show ?thesis using synced_loads [OF assms(1) False assms(2-5)] False assms(7) by auto
qed

lemma demo_rules: "rule_set demo_device demo_policy_db = [(''BitTorrent'', ''forbidden'')]"
  by (simp add: rule_set_def rule_targets_def demo_policy_defs os_known_def platform_matches_def)

lemma demo_rules_measured: "measured rule_fields [(''BitTorrent'', ''forbidden'')]"
  by (simp add: measured_def rule_fields_def fits64_def policy_set_item_def frame_def)

theorem agent_enforces_server_rules_witness:
  "\<exists>bad. load_forbidden True (sync_once True True (\<lambda>known. fetch_policy (dv_fp demo_device) known demo_policy_db) None) = Some bad \<and>
    set bad = {''bittorrent''}"
proof -
  let ?bad = "{ru_name r |r. r \<in> set (pd_rules demo_policy_db) \<and> rule_targets demo_policy_db demo_device r \<and> ru_type r = ''forbidden''}"
  have st: "dv_status demo_device \<noteq> ''pending_approval''" by (simp add: demo_device_def)
  have m: "measured rule_fields (rule_set demo_device demo_policy_db)" using demo_rules_measured demo_rules by simp
  have b: "?bad = {''BitTorrent''}"
    by (auto simp: demo_policy_defs rule_targets_def os_known_def platform_matches_def)
  have l: "to_lower ''BitTorrent'' = ''bittorrent''" "\<not> long_name ''BitTorrent''" by (code_simp, simp add: long_name_def)
  have no: "\<not> same_hash a a" for a by (simp add: same_hash_def)
  show ?thesis using agent_enforces_server_rules [OF demo_device_ok insertI1 m m no refl refl] st
    unfolding b by (simp add: l)
qed

text \<open>One rule with a name of 64 kB or more, which the panel accepts, switches the monitor off: after the sync that brings
  it, reading the file fails as a whole and no scan does anything, so that nothing that the other rules forbid is reported.\<close>

theorem long_rule_silences_monitor:
  assumes "device_ok db d" and "dv_status d \<noteq> ''pending_approval''" and "named_rules (rule_set d db)"
    and "(n, ''forbidden'') \<in> set (rule_set d db)" and "65536 \<le> length n"
    and "\<not> (rules_version (rule_set d db) \<noteq> 0 \<and> read_version True f = rules_version (rule_set d db))"
    and "si_list si = sync_once True True (\<lambda>known. fetch_policy (dv_fp d) known db) f"
  shows "fst (create_policy_call t who i now n ''forbidden'' None [] db2) \<noteq> 400 \<and> monitor_scan si m = m"
proof -
  have nm: "n \<in> set (forbidden_names (rule_set d db))" using assms(4) by (simp add: forbidden_names_set)
  have s: "\<forall>n \<in> set (forbidden_names (rule_set d db)). sanitize_software_name n = Some n" using assms(3) by (simp add: named_rules_def)
  have written: "si_list si = Some ((version_prefix @ dec_int (rules_version (rule_set d db))) # sync_note # forbidden_names (rule_set d db))"
    unfolding assms(6,7) sync_device [OF assms(1-3)] list_lines_names [OF s] using assms(6) by (simp only: if_False)
  have "\<not> int (length n) < scan_limit" using assms(5) by (simp add: scan_limit_def)
  then have "scan_lines (the (si_list si)) \<noteq> the (si_list si)"
    unfolding scan_lines_def takeWhile_eq_all_conv written using nm by auto
  then have "load_forbidden ok (si_list si) = None" for ok unfolding load_forbidden_def written by simp
  then have "monitor_scan si m = m" by (simp add: monitor_scan_def)
  moreover have "sanitize_software_name n = Some n" using s nm by blast
  then have "fst (create_policy_call t who i now n ''forbidden'' None [] db2) \<noteq> 400" by (simp add: create_policy_call_def split: sum.split)
  ultimately show ?thesis by simp
qed

definition demo_long_rule :: rule_row where
  "demo_long_rule = (demo_rule (replicate 70000 CHR ''x''))\<lparr>ru_id := ''r2''\<rparr>"

definition demo_long_db :: policy_db where
  "demo_long_db = demo_policy_db\<lparr>pd_rules := [demo_rule ''BitTorrent'', demo_long_rule]\<rparr>"

lemma long_name_accepted: "0 < n \<Longrightarrow> sanitize_software_name (replicate n CHR ''x'') = Some (replicate n CHR ''x'')"
proof -
  assume n: "0 < n"
  then have "trim_space (replicate n CHR ''x'') = replicate n CHR ''x''" by (intro trim_space_id) (simp_all add: is_space_def)
  moreover have "\<not> prefix ''#'' (replicate n CHR ''x'')" using n by (cases n) simp_all
  moreover have "\<not> list_ex (\<lambda>c. (of_char c :: nat) < 32 \<or> (of_char c :: nat) = 127) (replicate n CHR ''x'')" by (simp add: list_ex_iff)
  ultimately show ?thesis using n by (simp add: sanitize_software_name_def)
qed

lemma demo_long_rules: "rule_set demo_device demo_long_db = [(''BitTorrent'', ''forbidden''), (replicate 70000 CHR ''x'', ''forbidden'')]"
  by (simp add: rule_set_def rule_targets_def demo_policy_defs demo_long_db_def demo_long_rule_def os_known_def platform_matches_def)

theorem long_rule_silences_monitor_witness:
  "fst (create_policy_call ''t2'' ''admin'' ''r3'' 5 (replicate 70000 CHR ''x'') ''forbidden'' None [] demo_policy_db) \<noteq> 400 \<and>
   monitor_scan ((demo_scan [''bittorrent''])\<lparr>si_list := sync_once True True (\<lambda>known. fetch_policy (dv_fp demo_device) known demo_long_db) None\<rparr>)
     (new_monitor True None) = new_monitor True None"
proof -
  have "rule_ok (demo_rule ''BitTorrent'')" by code_simp
  then have ok: "device_ok demo_long_db demo_device" using demo_device_ok
    by (simp add: device_ok_def tables_ok_def demo_long_db_def names_ok_def refs_ok_def values_ok_def key_defs demo_long_rule_def demo_rule_def
        rule_ok_def long_name_accepted)
  have st: "dv_status demo_device \<noteq> ''pending_approval''" by (simp add: demo_device_def)
  have "sanitize_software_name ''BitTorrent'' = Some ''BitTorrent''" by code_simp
  then have nm: "named_rules (rule_set demo_device demo_long_db)" unfolding demo_long_rules
    by (simp add: named_rules_def forbidden_names_def long_name_accepted)
  have r: "(replicate 70000 CHR ''x'', ''forbidden'') \<in> set (rule_set demo_device demo_long_db)" unfolding demo_long_rules by (simp)
  have len: "65536 \<le> length (replicate 70000 CHR ''x'')" by (simp)
  have v: "\<not> (rules_version (rule_set demo_device demo_long_db) \<noteq> 0 \<and> read_version True None = rules_version (rule_set demo_device demo_long_db))"
    by (simp add: read_version_def)
  show ?thesis by (rule long_rule_silences_monitor [OF ok st nm r len v]) simp
qed

section \<open>Where the monitor differs from its comments\<close>

text \<open>A scan with an empty list returns before the marks are compared: a pattern that is removed with all others, goes away and
  comes back, and is forbidden again, is not reported.\<close>

lemma emptied_list_swallows:
  assumes "watch_ok m" and "b \<in> marks m" and "load_forbidden (si_list_ok si) (si_list si) = Some []" and "healthy sj" and "ready_scan sj"
  shows "\<exists>evs. mo_queue (monitor_scan sj (monitor_scan si m)) = mo_queue m @ evs \<and> b \<notin> event_pattern ` set evs"
proof -
  have "monitor_scan si m = m" using assms(3) by (simp add: monitor_scan_def)
  moreover obtain evs where "mo_queue (monitor_scan sj m) = mo_queue m @ evs"
    "set (map event_pattern evs) = {b. sees sj m b \<and> si_enq sj b \<and> b \<notin> marks m}"
    using healthy_scan [OF assms(1,4,5)] by blast
  ultimately show ?thesis using assms(2) by (auto simp: set_eq_iff)
qed

text \<open>The path of a process is searched on one system and not on the other.\<close>

lemma directory_matches_on_mac:
  "find_forbidden (the (ps_processes (Some ''  7 /home/telegram-fan/bin/vim''))) [''telegram''] ''telegram'' \<noteq> None \<and>
   find_forbidden (the (procfs_processes (Some [\<lparr>pe_dir = True, pe_name = ''7'', pe_exe = Some ''/home/telegram-fan/bin/vim'',
     pe_cmdline = None, pe_comm = None\<rparr>]))) [''telegram''] ''telegram'' = None"
  by code_simp

end
