(* ===== verification/ServerAlerts.thy ===== *)
theory ServerAlerts
  imports Enrollment ServerAdmin
begin

section \<open>Alerts: severity, creation, delivery, escalation\<close>

text \<open>
  The levels of alerts (\<open>internal/server/alerting/severity.go\<close>), the table \<open>alerts\<close> with all its columns
  (\<open>CreateAlert\<close>, \<open>DetectUnreachableDevices\<close>, \<open>TakeEscalations\<close>, \<open>ListAlerts\<close>, \<open>AcknowledgeAlert\<close> and the retention in
  \<open>storage/postgres.go\<close>), the report of an event and the health of the queue in \<open>gateway/gateway.go\<close>, who is told
  (\<open>notifier/telegram.go\<close>), and the two background loops of \<open>cmd/server/main.go\<close>.  Theory \<open>ServerAdmin\<close> has
  the part of \<open>CreateAlert\<close> that sessions of administrators need; a lemma here shows that it is refined.
\<close>

subsection \<open>Levels\<close>

definition severity_critical :: string where "severity_critical = ''critical''"
definition severity_high :: string where "severity_high = ''high''"
definition severity_medium :: string where "severity_medium = ''medium''"
definition severity_low :: string where "severity_low = ''low''"

definition severity_ranks :: "(string \<times> nat) list" where
  "severity_ranks = [(severity_critical, 4), (severity_high, 3), (severity_medium, 2), (severity_low, 1)]"

definition severity_defaults :: "(string \<times> string) list" where
  "severity_defaults = [(''filevault_revoke_failed'', severity_critical), (''lock_tamper'', severity_critical),
     (''filevault_secret_mismatch'', severity_high), (''outbox_unavailable'', severity_high), (''forbidden_software'', severity_high),
     (''unauthorized_install'', severity_medium), (''unauthorized_settings_change'', severity_medium),
     (''agent_unreachable'', severity_low), (''admin_session_evidence_gap'', severity_high)]"

definition unknown_severity :: string where "unknown_severity = severity_high"

text \<open>A key that the map of ranks does not have reads as 0.\<close>

definition severity_rank :: "string \<Rightarrow> nat" where
  "severity_rank s = (case map_of severity_ranks s of None \<Rightarrow> 0 | Some r \<Rightarrow> r)"

definition default_for :: "string \<Rightarrow> string" where
  "default_for ty = (case map_of severity_defaults (to_lower (trim_space ty)) of Some s \<Rightarrow> s | None \<Rightarrow> unknown_severity)"

definition parse_severity :: "string \<Rightarrow> string option" where
  "parse_severity s = (let v = to_lower (trim_space s) in if map_of severity_ranks v = None then None else Some v)"

definition at_least :: "string \<Rightarrow> string \<Rightarrow> bool" where
  "at_least s threshold \<longleftrightarrow> severity_rank threshold \<le> severity_rank s"

definition deliver_to :: "string \<Rightarrow> string \<Rightarrow> bool" where
  "deliver_to s threshold = (case map_of severity_ranks s of None \<Rightarrow> True
     | Some sr \<Rightarrow> (case map_of severity_ranks threshold of None \<Rightarrow> True | Some tr \<Rightarrow> tr \<le> sr))"

definition type_order :: "string list" where
  "type_order = [''filevault_revoke_failed'', ''lock_tamper'', ''filevault_secret_mismatch'', ''outbox_unavailable'',
     ''forbidden_software'', ''unauthorized_install'', ''unauthorized_settings_change'', ''agent_unreachable'', ''admin_session_evidence_gap'']"

definition type_rank :: "string \<Rightarrow> nat" where
  "type_rank ty = (let t = to_lower (trim_space ty) in length (takeWhile (\<lambda>k. k \<noteq> t) type_order))"

text \<open>The rank that the statements of SQL compute, on the text as it is.\<close>

definition sql_rank :: "string \<Rightarrow> nat" where
  "sql_rank s = (if s = ''critical'' then 4 else if s = ''high'' then 3 else if s = ''medium'' then 2 else if s = ''low'' then 1 else 0)"

subsection \<open>Tables\<close>

record alarm_row = alert_row +
  ar_severity :: string
  ar_created :: nanos
  ar_escalated :: "nanos option"

text \<open>The users of the panel; an empty chat or threshold stands for NULL.\<close>

record user_row =
  us_id :: string
  us_tenant :: string
  us_role :: string
  us_chat :: string
  us_min :: string

record alarm_db =
  am_en :: enroll_db
  am_requests :: "request_row list"
  am_alarms :: "alarm_row list"
  am_users :: "user_row list"
  am_tenants :: "string list"

datatype alarm_error = AlStore store_error | AlForeignKey | AlBadThreshold

type_synonym 'a alarmed = "alarm_error + ('a \<times> alarm_db)"

subsection \<open>Creating alerts\<close>

text \<open>The scope of a device, and whether the same alert is open there.\<close>

definition alarm_scope :: "scope_ctx \<Rightarrow> string \<Rightarrow> alarm_db \<Rightarrow> store_error + string" where
  "alarm_scope cx dev am = (case cx_tx cx of Some b \<Rightarrow> Inr b
     | None \<Rightarrow> (case find (\<lambda>d. dv_id d = dev) (en_devices (am_en am)) of
         None \<Rightarrow> Inl ScopeMissing
       | Some d \<Rightarrow> if dv_tenant d = [] then Inl ScopeMissing else bind_tenant cx (dv_tenant d)))"

definition open_same :: "string \<Rightarrow> string \<Rightarrow> string \<Rightarrow> string \<Rightarrow> alarm_row \<Rightarrow> bool" where
  "open_same tn dev ty details a \<longleftrightarrow> al_tenant a = tn \<and> al_device a = dev \<and> al_type a = ty \<and> al_details a = details \<and> al_acked a = None"

text \<open>\<open>id_ok\<close> is whether PostgreSQL reads the text as a uuid; the cast is evaluated first.\<close>

definition create_alarm :: "(string \<Rightarrow> bool) \<Rightarrow> scope_ctx \<Rightarrow> string \<Rightarrow> nanos \<Rightarrow> string \<Rightarrow> string \<Rightarrow> string \<Rightarrow> string \<Rightarrow> alarm_db \<Rightarrow> bool alarmed" where
  "create_alarm id_ok cx i now dev ty details rid am = (case alarm_scope cx dev am of Inl e \<Rightarrow> Inl (AlStore e)
     | Inr tn \<Rightarrow>
        if rid \<noteq> [] \<and> \<not> id_ok rid then Inl (AlStore StatementFailed)
        else if list_ex (open_same tn dev ty details) (am_alarms am) then Inr (False, am)
        else if \<not> list_ex (\<lambda>d. dv_id d = dev) (en_devices (am_en am)) then Inl AlForeignKey
        else (let owned = rid \<noteq> [] \<and> list_ex (\<lambda>r. rq_tenant r = tn \<and> rq_id r = rid \<and> rq_device r = dev) (am_requests am)
              in Inr (True, am\<lparr>am_alarms := am_alarms am @ [\<lparr>al_id = i, al_device = dev, al_tenant = tn, al_type = ty,
                   al_details = details, al_request = (if owned then Some rid else None), al_acked = None,
                   ar_severity = default_for ty, ar_created = now, ar_escalated = None\<rparr>]\<rparr>)))"

subsection \<open>Telling the administrators\<close>

text \<open>The chats that a notification goes to, in the tenant that its context carries.\<close>

definition telegram_recipients :: "string \<Rightarrow> alarm_db \<Rightarrow> (string \<times> string) list" where
  "telegram_recipients tn am = map (\<lambda>u. (us_chat u, us_min u))
     (filter (\<lambda>u. us_tenant u = tn \<and> us_role u = ''it_admin'' \<and> us_chat u \<noteq> []) (am_users am))"

definition notify_alert :: "bool \<Rightarrow> string \<Rightarrow> string \<Rightarrow> alarm_db \<Rightarrow> int list" where
  "notify_alert tg tn sev am = (if \<not> tg \<or> tn = [] \<or> tn = nil_tenant then []
     else concat (map (\<lambda>(chat, mn). if \<not> deliver_to sev mn then []
       else (case parse_int chat of None \<Rightarrow> [] | Some c \<Rightarrow> [c])) (telegram_recipients tn am)))"

text \<open>The threshold of one user, as the user sets it.\<close>

definition user_scope :: "string \<Rightarrow> alarm_db \<Rightarrow> store_error + string" where
  "user_scope uid am = (case find (\<lambda>u. us_id u = uid) (am_users am) of None \<Rightarrow> Inl ScopeMissing
     | Some u \<Rightarrow> if us_tenant u = [] then Inl ScopeMissing else require_tenant (us_tenant u))"

definition get_min_severity :: "string \<Rightarrow> alarm_db \<Rightarrow> store_error + string" where
  "get_min_severity uid am = (case user_scope uid am of Inl e \<Rightarrow> Inl e
     | Inr tn \<Rightarrow> (case find (\<lambda>u. us_tenant u = tn \<and> us_id u = uid) (am_users am) of None \<Rightarrow> Inl NoRows
        | Some u \<Rightarrow> Inr (if us_min u = [] then severity_low else us_min u)))"

definition set_min_severity :: "string \<Rightarrow> string \<Rightarrow> alarm_db \<Rightarrow> unit alarmed" where
  "set_min_severity uid sev am = (case user_scope uid am of Inl e \<Rightarrow> Inl (AlStore e)
     | Inr tn \<Rightarrow>
        (let mine = (\<lambda>u. us_tenant u = tn \<and> us_id u = uid)
         in if list_ex mine (am_users am) then Inr ((), am\<lparr>am_users := update_where mine (\<lambda>u. u\<lparr>us_min := sev\<rparr>) (am_users am)\<rparr>)
            else Inl (AlStore NoRows)))"

definition set_min_severity_call :: "string \<Rightarrow> string \<Rightarrow> alarm_db \<Rightarrow> nat \<times> alarm_db" where
  "set_min_severity_call uid s am = (case parse_severity s of None \<Rightarrow> (400, am)
     | Some sev \<Rightarrow> (case set_min_severity uid sev am of Inl _ \<Rightarrow> (500, am) | Inr (_, am') \<Rightarrow> (200, am')))"

subsection \<open>Events of the agents\<close>

text \<open>The name of the enumeration; a number that the server does not know prints as itself.\<close>

definition alert_type_name :: "int \<Rightarrow> string" where
  "alert_type_name n = (if n = 0 then ''ALERT_TYPE_UNSPECIFIED'' else if n = 1 then ''ALERT_TYPE_FORBIDDEN_SOFTWARE''
     else if n = 2 then ''ALERT_TYPE_UNAUTHORIZED_INSTALL'' else if n = 3 then ''ALERT_TYPE_UNAUTHORIZED_SETTINGS_CHANGE''
     else if n = 4 then ''ALERT_TYPE_LOCK_TAMPER'' else if n = 5 then ''ALERT_TYPE_ADMIN_SESSION_EVIDENCE_GAP'' else dec_int n)"

definition alert_type_of :: "int \<Rightarrow> string" where
  "alert_type_of n = to_lower (trim_prefix ''ALERT_TYPE_'' (alert_type_name n))"

definition tenant_of_fp :: "string \<Rightarrow> alarm_db \<Rightarrow> string" where
  "tenant_of_fp cert am = (case enroll_by_fp (am_en am) cert of None \<Rightarrow> default_tenant
     | Some d \<Rightarrow> if dv_tenant d = [] then default_tenant else dv_tenant d)"

text \<open>\<open>ReportSecurityEvent\<close>: the code of the answer, the chats that are told, the tables.\<close>

definition report_security_event :: "bool \<Rightarrow> (string \<Rightarrow> bool) \<Rightarrow> string \<Rightarrow> string \<Rightarrow> nanos \<Rightarrow> int \<Rightarrow> string \<Rightarrow> string \<Rightarrow> alarm_db
    \<Rightarrow> rpc_code \<times> int list \<times> alarm_db" where
  "report_security_event tg id_ok cert i now n details rid am =
     (case bind_tenant \<lparr>cx_tx = None, cx_tenant = []\<rparr> (tenant_of_fp cert am) of
        Inl e \<Rightarrow> (OtherCode 14, [], am)
      | Inr tn \<Rightarrow>
         (case enroll_by_fp (am_en am) cert of
            None \<Rightarrow> (CodeOK, [], am)
          | Some d \<Rightarrow>
             (case create_alarm id_ok \<lparr>cx_tx = Some tn, cx_tenant = tn\<rparr> i now (dv_id d) (alert_type_of n) details rid am of
                Inl AlForeignKey \<Rightarrow> (CodeOK, [], am)
              | Inl e \<Rightarrow> (OtherCode 14, [], am)
              | Inr (created, am') \<Rightarrow>
                  (CodeOK, if created then notify_alert tg tn (default_for (alert_type_of n)) am' else [], am'))))"

text \<open>One frame of an open stream, and the state \<open>outboxWasDown\<close> of the stream.  \<open>stored\<close> is whether the
  statement of the alert gets through; its failure is logged only.\<close>

definition report_outbox_health :: "bool \<Rightarrow> bool \<Rightarrow> (string \<Rightarrow> bool) \<Rightarrow> string \<Rightarrow> string \<Rightarrow> string \<Rightarrow> nanos \<Rightarrow> bool \<Rightarrow> string \<Rightarrow> alarm_db
    \<Rightarrow> int list \<times> alarm_db" where
  "report_outbox_health tg stored id_ok tenant cert i now down detail am =
     (if \<not> down then ([], am)
      else (case enroll_by_fp (am_en am) cert of None \<Rightarrow> ([], am)
        | Some d \<Rightarrow>
            if \<not> stored then ([], am)
            else (case create_alarm id_ok \<lparr>cx_tx = None, cx_tenant = tenant\<rparr> i now (dv_id d) ''outbox_unavailable'' detail [] am of
                Inl _ \<Rightarrow> ([], am)
              | Inr (created, am') \<Rightarrow> (if created then notify_alert tg tenant (default_for ''outbox_unavailable'') am' else [], am'))))"

definition alarm_frame :: "bool \<Rightarrow> bool \<Rightarrow> (string \<Rightarrow> bool) \<Rightarrow> string \<Rightarrow> heartbeat \<Rightarrow> string \<Rightarrow> string \<Rightarrow> nanos \<Rightarrow> bool \<times> alarm_db
    \<Rightarrow> bool \<times> bool \<times> int list \<times> alarm_db" where
  "alarm_frame tg stored id_ok tenant h new_id i now s =
     (let (was_down, am) = s;
          (go_on, en') = stream_frame tenant h new_id now (am_en am);
          am1 = am\<lparr>am_en := en'\<rparr>;
          (chats, am2) = (if hb_down h \<noteq> was_down then report_outbox_health tg stored id_ok tenant (hb_fp h) i now (hb_down h) (hb_detail h) am1
                          else ([], am1))
      in (go_on, hb_down h, chats, am2))"

subsection \<open>Devices that fall silent\<close>

definition unreachable_text :: string where
  "unreachable_text = utf8_text [208, 157, 208, 181, 32, 208, 178, 209, 139, 209, 133, 208, 190, 208, 180, 208, 184, 209, 130, 32, 208, 189,
     208, 176, 32, 209, 129, 208, 178, 209, 143, 208, 183, 209, 140, 32, 209, 129, 32]"

text \<open>\<open>to_char\<close> of an instant is the parameter \<open>stamp\<close>; \<open>ids\<close> gives the identifiers of new rows.\<close>

definition is_unreachable :: "string \<Rightarrow> nanos \<Rightarrow> int \<Rightarrow> int \<Rightarrow> alarm_db \<Rightarrow> enroll_row \<Rightarrow> bool" where
  "is_unreachable tn now thr cool am d \<longleftrightarrow> dv_tenant d = tn \<and> dv_status d \<in> set [''active'', ''enrolled''] \<and>
     (case er_seen d of None \<Rightarrow> False
      | Some s \<Rightarrow> s < now - thr * minute \<and>
          \<not> list_ex (\<lambda>a. al_tenant a = tn \<and> al_device a = dv_id d \<and> al_type a = ''agent_unreachable'' \<and> s < ar_created a) (am_alarms am)) \<and>
     (cool \<le> 0 \<or>
      \<not> list_ex (\<lambda>a. al_tenant a = tn \<and> al_device a = dv_id d \<and> al_type a = ''agent_unreachable'' \<and> now - cool * minute < ar_created a) (am_alarms am))"

definition unreachable_row :: "(string \<Rightarrow> string) \<Rightarrow> (nanos \<Rightarrow> string) \<Rightarrow> nanos \<Rightarrow> enroll_row \<Rightarrow> alarm_row" where
  "unreachable_row ids stamp now d = \<lparr>al_id = ids (dv_id d), al_device = dv_id d, al_tenant = dv_tenant d, al_type = ''agent_unreachable'',
     al_details = unreachable_text @ (case er_seen d of None \<Rightarrow> [] | Some s \<Rightarrow> stamp s), al_request = None, al_acked = None,
     ar_severity = default_for ''agent_unreachable'', ar_created = now, ar_escalated = None\<rparr>"

definition detect_in_tenant :: "(string \<Rightarrow> string) \<Rightarrow> (nanos \<Rightarrow> string) \<Rightarrow> nanos \<Rightarrow> int \<Rightarrow> int \<Rightarrow> string \<Rightarrow> alarm_db \<Rightarrow> alarm_db \<times> nat" where
  "detect_in_tenant ids stamp now thr cool tn am =
     (let rows = map (unreachable_row ids stamp now) (filter (is_unreachable tn now thr cool am) (en_devices (am_en am)))
      in (am\<lparr>am_alarms := am_alarms am @ rows\<rparr>, length rows))"

fun detect_tenants :: "(string \<Rightarrow> string) \<Rightarrow> (nanos \<Rightarrow> string) \<Rightarrow> nanos \<Rightarrow> int \<Rightarrow> int \<Rightarrow> string list \<Rightarrow> alarm_db \<Rightarrow> alarm_db \<times> nat" where
  "detect_tenants ids stamp now thr cool [] am = (am, 0)"
| "detect_tenants ids stamp now thr cool (t # ts) am = (case require_tenant t of
     Inl e \<Rightarrow> (am, 0)
   | Inr tn \<Rightarrow>
       (let (am1, n) = detect_in_tenant ids stamp now thr cool tn am;
            (am2, k) = detect_tenants ids stamp now thr cool ts am1
        in (am2, n + k)))"

definition detect_unreachable :: "(string \<Rightarrow> string) \<Rightarrow> (nanos \<Rightarrow> string) \<Rightarrow> nanos \<Rightarrow> int \<Rightarrow> int \<Rightarrow> alarm_db \<Rightarrow> alarm_db \<times> nat" where
  "detect_unreachable ids stamp now thr cool am =
     (if thr \<le> 0 then (am, 0) else detect_tenants ids stamp now thr cool (am_tenants am) am)"

subsection \<open>Reminders\<close>

definition due :: "string \<Rightarrow> nanos \<Rightarrow> string \<Rightarrow> int \<Rightarrow> int \<Rightarrow> alarm_row \<Rightarrow> bool" where
  "due tn now minsev after rep a \<longleftrightarrow> al_tenant a = tn \<and> al_acked a = None \<and> sql_rank minsev \<le> sql_rank (ar_severity a) \<and>
     ar_created a < now - after * minute \<and>
     (case ar_escalated a of None \<Rightarrow> True | Some e \<Rightarrow> 0 < rep \<and> e < now - rep * minute)"

text \<open>The rows are marked and returned in one statement.  The look-up of the names of the hosts follows in the same transaction of the
  tenant: if it fails the transaction is rolled back, marks included, so that the tick passes this tenant over and the next one
  takes the same rows; failures of statements are left out here as elsewhere in this theory.\<close>

definition take_escalations :: "scope_ctx \<Rightarrow> nanos \<Rightarrow> string \<Rightarrow> int \<Rightarrow> int \<Rightarrow> alarm_db \<Rightarrow> alarm_row list alarmed" where
  "take_escalations cx now minsev after rep am = (case scope_for cx [] of Inl e \<Rightarrow> Inl (AlStore e)
     | Inr tn \<Rightarrow>
        if after \<le> 0 then Inr ([], am)
        else if parse_severity minsev = None then Inl AlBadThreshold
        else (let mark = (\<lambda>a. a\<lparr>ar_escalated := Some now\<rparr>)
              in Inr (map mark (filter (due tn now minsev after rep) (am_alarms am)),
                      am\<lparr>am_alarms := update_where (due tn now minsev after rep) mark (am_alarms am)\<rparr>)))"

text \<open>The tick: every tenant in turn, an error of one leaves the others, and then the messages.\<close>

fun escalate_tenants :: "nanos \<Rightarrow> string \<Rightarrow> int \<Rightarrow> int \<Rightarrow> string list \<Rightarrow> alarm_db \<Rightarrow> (string \<times> alarm_row) list \<times> alarm_db" where
  "escalate_tenants now minsev after rep [] am = ([], am)"
| "escalate_tenants now minsev after rep (t # ts) am = (case require_tenant t of
     Inl e \<Rightarrow> escalate_tenants now minsev after rep ts am
   | Inr tn \<Rightarrow> (case take_escalations \<lparr>cx_tx = Some tn, cx_tenant = tn\<rparr> now minsev after rep am of
         Inl e \<Rightarrow> escalate_tenants now minsev after rep ts am
       | Inr (out, am1) \<Rightarrow>
           (let (rest, am2) = escalate_tenants now minsev after rep ts am1 in (map (Pair tn) out @ rest, am2))))"

definition reminder_severity :: "alarm_row \<Rightarrow> string" where
  "reminder_severity a = (case parse_severity (ar_severity a) of Some s \<Rightarrow> s | None \<Rightarrow> unknown_severity)"

definition escalation_tick :: "bool \<Rightarrow> nanos \<Rightarrow> string \<Rightarrow> int \<Rightarrow> int \<Rightarrow> alarm_db \<Rightarrow> (int \<times> alarm_row) list \<times> alarm_db" where
  "escalation_tick tg now minsev after rep am = (if after \<le> 0 then ([], am)
     else (let (out, am') = escalate_tenants now minsev after rep (am_tenants am) am
           in (concat (map (\<lambda>(tn, a). map (\<lambda>c. (c, a)) (notify_alert tg tn (reminder_severity a) am')) out), am')))"

subsection \<open>The console\<close>

text \<open>Open alerts first, then by level, then the newest; \<open>ord\<close> is the order in which the scan meets the rows.\<close>

definition alarm_key :: "alarm_row \<Rightarrow> nat \<times> nat \<times> int" where
  "alarm_key a = (if al_acked a = None then 0 else 1, 4 - sql_rank (ar_severity a), - ar_created a)"

definition list_alarms :: "(alarm_row list \<Rightarrow> alarm_row list) \<Rightarrow> scope_ctx \<Rightarrow> string \<Rightarrow> string \<Rightarrow> nat \<Rightarrow> alarm_db \<Rightarrow> store_error + alarm_row list" where
  "list_alarms ord cx t dev limit am = (case arg_scope cx t of Inl e \<Rightarrow> Inl e
     | Inr (t', b) \<Rightarrow> Inr (take limit (sort_key alarm_key
          (filter (\<lambda>a. al_tenant a = b \<and> al_tenant a = t' \<and> (dev = [] \<or> al_device a = dev)) (ord (am_alarms am))))))"

definition acknowledge_alarm :: "scope_ctx \<Rightarrow> string \<Rightarrow> nanos \<Rightarrow> string \<Rightarrow> alarm_db \<Rightarrow> unit alarmed" where
  "acknowledge_alarm cx t now i am = (case bind_tenant cx t of Inl e \<Rightarrow> Inl (AlStore e)
     | Inr tn \<Rightarrow>
        (let P = (\<lambda>a. al_tenant a = tn \<and> al_id a = i \<and> al_acked a = None)
         in if list_ex P (am_alarms am) then Inr ((), am\<lparr>am_alarms := update_where P (\<lambda>a. a\<lparr>al_acked := Some now\<rparr>) (am_alarms am)\<rparr>)
            else Inl (AlStore NoRows)))"

definition acknowledge_alert_call :: "string \<Rightarrow> nanos \<Rightarrow> string \<Rightarrow> alarm_db \<Rightarrow> nat \<times> alarm_db" where
  "acknowledge_alert_call t now i am = (case acknowledge_alarm \<lparr>cx_tx = None, cx_tenant = t\<rparr> t now i am of
     Inl _ \<Rightarrow> (400, am) | Inr (_, am') \<Rightarrow> (200, am'))"

text \<open>Retention takes accepted alerts only; a day has 24 hours.\<close>

definition purge_alarms :: "scope_ctx \<Rightarrow> nanos \<Rightarrow> int \<Rightarrow> alarm_db \<Rightarrow> nat alarmed" where
  "purge_alarms cx now days am = (case scope_for cx [] of Inl e \<Rightarrow> Inl (AlStore e)
     | Inr tn \<Rightarrow>
        if days \<le> 0 then Inr (0, am)
        else (let old = (\<lambda>a. al_tenant a = tn \<and> ar_created a < now - days * 24 * hour \<and> al_acked a \<noteq> None)
              in Inr (length (filter old (am_alarms am)), am\<lparr>am_alarms := filter (\<lambda>a. \<not> old a) (am_alarms am)\<rparr>)))"

section \<open>Levels\<close>

lemma sql_rank_eq: "sql_rank s = severity_rank s"
  by (simp add: sql_rank_def severity_rank_def severity_ranks_def severity_critical_def severity_high_def severity_medium_def severity_low_def)

lemma default_known: "map_of severity_ranks (default_for ty) \<noteq> None"
proof -
  have "default_for ty \<in> {severity_critical, severity_high, severity_medium, severity_low}"
    by (auto simp: default_for_def severity_defaults_def unknown_severity_def split: option.splits if_splits)
  then show ?thesis by (auto simp: severity_ranks_def severity_critical_def severity_high_def severity_medium_def severity_low_def)
qed

lemma parse_known: "parse_severity s = Some v \<Longrightarrow> 0 < severity_rank v"
  by (auto simp: parse_severity_def severity_rank_def severity_ranks_def Let_def split: if_splits)

lemma parse_of_known: "map_of severity_ranks s \<noteq> None \<Longrightarrow> parse_severity s = Some s"
proof -
  assume "map_of severity_ranks s \<noteq> None"
  then have "s \<in> {''critical'', ''high'', ''medium'', ''low''}"
    by (auto simp: severity_ranks_def severity_critical_def severity_high_def severity_medium_def severity_low_def split: if_splits)
  moreover have "parse_severity ''critical'' = Some ''critical''" "parse_severity ''high'' = Some ''high''"
    "parse_severity ''medium'' = Some ''medium''" "parse_severity ''low'' = Some ''low''" by code_simp+
  ultimately show ?thesis by blast
qed

text \<open>A threshold holds back an alert only when both are known and the alert is below it.\<close>

lemma deliver_to_iff: "deliver_to s t \<longleftrightarrow> severity_rank s = 0 \<or> severity_rank t = 0 \<or> at_least s t"
proof -
  have none: "map_of severity_ranks x = None \<longleftrightarrow> severity_rank x = 0" for x
    by (simp add: severity_rank_def severity_ranks_def)
  have rank: "map_of severity_ranks x = Some r \<Longrightarrow> severity_rank x = r \<and> r \<noteq> 0" for x r
    using none [of x] by (simp add: severity_rank_def)
  show ?thesis unfolding deliver_to_def at_least_def none [symmetric]
    by (cases "map_of severity_ranks s"; cases "map_of severity_ranks t") (auto dest!: rank)
qed

section \<open>Creating alerts\<close>

lemma create_alarm_Inr:
  assumes "create_alarm id_ok cx i now dev ty details rid am = Inr (created, am')" and "alarm_scope cx dev am = Inr tn"
  shows "created \<longleftrightarrow> \<not> list_ex (open_same tn dev ty details) (am_alarms am)"
    "list_ex (open_same tn dev ty details) (am_alarms am')" "am_users am' = am_users am" "am_en am' = am_en am" "am_tenants am' = am_tenants am"
    "set (am_alarms am) \<subseteq> set (am_alarms am')"
  using assms by (auto simp: create_alarm_def Let_def open_same_def split: if_splits)

text \<open>The tables as theory \<open>ServerAdmin\<close> has them.\<close>

definition admin_view :: "alarm_db \<Rightarrow> admin_db" where
  "admin_view am = \<lparr>ad_base = \<lparr>db_devices = map device_row.truncate (en_devices (am_en am)), db_tasks = [], db_software = [],
      db_members = [], db_audit = []\<rparr>,
     ad_requests = am_requests am, ad_changes = [], ad_settings = [], ad_alerts = map alert_row.truncate (am_alarms am)\<rparr>"

lemma find_truncate: "find (\<lambda>d. dv_id d = dev) (map device_row.truncate ds) = map_option device_row.truncate (find (\<lambda>d. dv_id d = dev) ds)"
  by (induction ds) (simp_all add: device_row.truncate_def)

lemma scope_view: "bind_for_device cx (ad_base (admin_view am)) dev = alarm_scope cx dev am"
  by (simp add: bind_for_device_def alarm_scope_def device_by_id_def admin_view_def find_truncate device_row.truncate_def split: option.split)

lemma open_view: "list_ex (\<lambda>a. al_tenant a = tn \<and> al_device a = dev \<and> al_type a = ty \<and> al_details a = details \<and> al_acked a = None)
    (ad_alerts (admin_view am)) = list_ex (open_same tn dev ty details) (am_alarms am)"
  by (simp add: admin_view_def list_ex_iff open_same_def alert_row.truncate_def)

text \<open>The simpler model of \<open>CreateAlert\<close> in theory \<open>ServerAdmin\<close> is refined by this one.\<close>

lemma create_alarm_refines:
  assumes "create_alarm id_ok cx i now dev ty details rid am = Inr (created, am')" and "\<forall>r \<in> set (am_requests am). rq_id r \<noteq> []"
  shows "create_alert cx i dev ty details rid (admin_view am) = Inr (created, admin_view am')"
proof -
  obtain tn where tn: "alarm_scope cx dev am = Inr tn" using assms(1) by (cases "alarm_scope cx dev am") (auto simp: create_alarm_def)
  let ?owned = "\<lambda>r. rq_tenant r = tn \<and> rq_id r = rid \<and> rq_device r = dev"
  have own: "(rid \<noteq> [] \<and> list_ex ?owned (am_requests am)) = list_ex ?owned (ad_requests (admin_view am))"
    using assms(2) by (auto simp: admin_view_def list_ex_iff)
  show ?thesis
  proof (cases "list_ex (open_same tn dev ty details) (am_alarms am)")
    case True
    then have "created = False" "am' = am" using assms(1) tn by (auto simp: create_alarm_def split: if_splits)
    then show ?thesis using True by (simp add: create_alert_def scope_view tn open_view)
  next
    case False
    then have c: "created" and am: "am' = am\<lparr>am_alarms := am_alarms am @ [\<lparr>al_id = i, al_device = dev, al_tenant = tn, al_type = ty,
        al_details = details, al_request = (if list_ex ?owned (ad_requests (admin_view am)) then Some rid else None), al_acked = None,
        ar_severity = default_for ty, ar_created = now, ar_escalated = None\<rparr>]\<rparr>"
      using assms(1) tn own by (auto simp: create_alarm_def Let_def split: if_splits)
    have "admin_view am' = (admin_view am)\<lparr>ad_alerts := ad_alerts (admin_view am) @ [\<lparr>al_id = i, al_device = dev, al_tenant = tn, al_type = ty,
        al_details = details, al_request = (if list_ex ?owned (ad_requests (admin_view am)) then Some rid else None), al_acked = None\<rparr>]\<rparr>"
      unfolding am by (simp add: admin_view_def alert_row.truncate_def)
    then show ?thesis using False c by (simp add: create_alert_def scope_view tn open_view Let_def)
  qed
qed

text \<open>Claim C16. An event that the server accepts from a device it knows is not lost: an open alert of its tenant has the device, the type
  and the details of the event, no earlier alert is gone, and the administrators are told just when no such alert was open before -
  those of the tenant of the device, with a chat, and whose threshold lets the level of the type through.\<close>

theorem event_leaves_an_open_alert:
  assumes "report_security_event tg id_ok cert i now n details rid am = (CodeOK, chats, am')" and "enroll_by_fp (am_en am) cert = Some d"
  shows "list_ex (open_same (tenant_of_fp cert am) (dv_id d) (alert_type_of n) details) (am_alarms am') \<and> set (am_alarms am) \<subseteq> set (am_alarms am') \<and>
    chats = (if list_ex (open_same (tenant_of_fp cert am) (dv_id d) (alert_type_of n) details) (am_alarms am) then []
      else notify_alert tg (tenant_of_fp cert am) (default_for (alert_type_of n)) am)"
proof -
  let ?tn = "tenant_of_fp cert am" and ?cx = "\<lparr>cx_tx = Some (tenant_of_fp cert am), cx_tenant = tenant_of_fp cert am\<rparr>"
  have b: "bind_tenant \<lparr>cx_tx = None, cx_tenant = []\<rparr> ?tn = Inr ?tn"
    using assms(1) by (auto simp: report_security_event_def bind_tenant_def require_tenant_def split: if_splits)
  have d: "list_ex (\<lambda>e. dv_id e = dv_id d) (en_devices (am_en am))"
    using assms(2) by (auto simp: enroll_by_fp_def list_ex_iff find_Some_iff)
  obtain created where c: "create_alarm id_ok ?cx i now (dv_id d) (alert_type_of n) details rid am = Inr (created, am')"
    "chats = (if created then notify_alert tg ?tn (default_for (alert_type_of n)) am' else [])"
  proof (cases "create_alarm id_ok ?cx i now (dv_id d) (alert_type_of n) details rid am")
    case (Inl e)
    have "e \<noteq> AlForeignKey" using Inl d by (auto simp: create_alarm_def Let_def split: sum.splits if_splits)
    then show ?thesis using assms Inl b by (cases e) (simp_all add: report_security_event_def)
  next
    case (Inr x)
    then show ?thesis using that assms b by (cases x) (simp add: report_security_event_def)
  qed
  have sc: "alarm_scope ?cx (dv_id d) am = Inr ?tn" by (simp add: alarm_scope_def)
  note r = create_alarm_Inr [OF c(1) sc]
  have "notify_alert tg ?tn s am' = notify_alert tg ?tn s am" for s using r(3) by (simp add: notify_alert_def telegram_recipients_def)
  then show ?thesis using r(1,2,6) c(2) by simp
qed

text \<open>A request that PostgreSQL does not read as a uuid is no unknown request but an error: the answer is \<open>Unavailable\<close> each time.\<close>

lemma malformed_request_refused:
  assumes "enroll_by_fp (am_en am) cert = Some d" and "rid \<noteq> []" and "\<not> id_ok rid"
  shows "fst (report_security_event tg id_ok cert i now n details rid am) = OtherCode 14"
  using assms by (auto simp: report_security_event_def create_alarm_def alarm_scope_def split: sum.split)

section \<open>Histories\<close>

record alarm_cfg =
  ac_tg :: bool
  ac_id_ok :: "string \<Rightarrow> bool"
  ac_stamp :: "nanos \<Rightarrow> string"
  ac_threshold :: int
  ac_cooldown :: int
  ac_min :: string
  ac_after :: int
  ac_repeat :: int

datatype alarm_op =
    AoFrame bool string heartbeat string string nanos bool
  | AoEvent string string nanos int string string
  | AoDetect "string \<Rightarrow> string" nanos
  | AoEscalate nanos
  | AoAck string nanos string
  | AoPurge scope_ctx nanos int
  | AoMin string string

definition or_same :: "alarm_db \<Rightarrow> 'e + ('a \<times> alarm_db) \<Rightarrow> alarm_db" where
  "or_same am x = (case x of Inl _ \<Rightarrow> am | Inr (_, am') \<Rightarrow> am')"

fun alarm_step :: "alarm_cfg \<Rightarrow> alarm_op \<Rightarrow> alarm_db \<Rightarrow> alarm_db" where
  "alarm_step c (AoFrame stored tenant h new_id i now was) am =
     snd (snd (snd (alarm_frame (ac_tg c) stored (ac_id_ok c) tenant h new_id i now (was, am))))"
| "alarm_step c (AoEvent cert i now n details rid) am = snd (snd (report_security_event (ac_tg c) (ac_id_ok c) cert i now n details rid am))"
| "alarm_step c (AoDetect ids now) am = fst (detect_unreachable ids (ac_stamp c) now (ac_threshold c) (ac_cooldown c) am)"
| "alarm_step c (AoEscalate now) am = snd (escalation_tick (ac_tg c) now (ac_min c) (ac_after c) (ac_repeat c) am)"
| "alarm_step c (AoAck t now i) am = snd (acknowledge_alert_call t now i am)"
| "alarm_step c (AoPurge cx now days) am = or_same am (purge_alarms cx now days am)"
| "alarm_step c (AoMin uid s) am = snd (set_min_severity_call uid s am)"

definition alarm_steps :: "alarm_cfg \<Rightarrow> alarm_op list \<Rightarrow> alarm_db \<Rightarrow> alarm_db" where
  "alarm_steps c ops am = foldl (\<lambda>s x. alarm_step c x s) am ops"

lemma alarm_steps_simps [simp]: "alarm_steps c [] am = am" "alarm_steps c (x # xs) am = alarm_steps c xs (alarm_step c x am)"
  by (simp_all add: alarm_steps_def)

text \<open>What an operation does to the table: rows go, rows are marked, rows of a kind are added at the end.\<close>

definition marks_only :: "(alarm_row \<Rightarrow> alarm_row) \<Rightarrow> bool" where
  "marks_only f \<longleftrightarrow> (\<forall>a. al_id (f a) = al_id a \<and> al_device (f a) = al_device a \<and> al_tenant (f a) = al_tenant a \<and> al_type (f a) = al_type a \<and>
     al_details (f a) = al_details a \<and> ar_created (f a) = ar_created a \<and> ar_severity (f a) = ar_severity a)"

lemma marks_onlyI [intro]: "marks_only (\<lambda>a. if P a then a\<lparr>ar_escalated := e\<rparr> else a)" "marks_only (\<lambda>a. if P a then a\<lparr>al_acked := k\<rparr> else a)"
  by (simp_all add: marks_only_def)

lemma create_alarm_adds:
  assumes "create_alarm id_ok cx i now dev ty details rid am = Inr (created, am')"
  shows "am_en am' = am_en am \<and> am_tenants am' = am_tenants am \<and> (am_alarms am' = am_alarms am \<or>
    (\<exists>a. am_alarms am' = am_alarms am @ [a] \<and> al_id a = i \<and> al_type a = ty \<and> al_acked a = None \<and> ar_escalated a = None))"
  using assms by (auto simp: create_alarm_def Let_def split: sum.splits if_splits)

lemma escalate_tenants_marks:
  "escalate_tenants now minsev after rep ts am = (out, am') \<Longrightarrow>
   \<exists>f. marks_only f \<and> (\<forall>a. f a = a \<or> f a = a\<lparr>ar_escalated := Some now\<rparr>) \<and> am' = am\<lparr>am_alarms := map f (am_alarms am)\<rparr>"
proof (induction ts arbitrary: am out am')
  case Nil
  then show ?case by (auto simp: marks_only_def intro!: exI [of _ "\<lambda>a. a"])
next
  case (Cons t ts)
  show ?case
  proof (cases "\<exists>tn out1 am1. require_tenant t = Inr tn \<and>
      take_escalations \<lparr>cx_tx = Some tn, cx_tenant = tn\<rparr> now minsev after rep am = Inr (out1, am1)")
    case True
    then obtain tn out1 am1 where t: "require_tenant t = Inr tn"
      "take_escalations \<lparr>cx_tx = Some tn, cx_tenant = tn\<rparr> now minsev after rep am = Inr (out1, am1)" by blast
    obtain rest am2 where r: "escalate_tenants now minsev after rep ts am1 = (rest, am2)" by fastforce
    have am': "am' = am2" using Cons.prems t r by simp
    obtain f where f: "marks_only f" "\<forall>a. f a = a \<or> f a = a\<lparr>ar_escalated := Some now\<rparr>" "am2 = am1\<lparr>am_alarms := map f (am_alarms am1)\<rparr>"
      using Cons.IH [OF r] by blast
    have "\<exists>g. marks_only g \<and> (\<forall>a. g a = a \<or> g a = a\<lparr>ar_escalated := Some now\<rparr>) \<and> am1 = am\<lparr>am_alarms := map g (am_alarms am)\<rparr>"
    proof (cases "after \<le> 0")
      case True
      then have "am1 = am" using t(2) by (auto simp: take_escalations_def scope_for_def Let_def)
      then show ?thesis by (auto simp: marks_only_def intro!: exI [of _ "\<lambda>a. a"])
    next
      case False
      then have "am1 = am\<lparr>am_alarms := map (\<lambda>a. if due tn now minsev after rep a then a\<lparr>ar_escalated := Some now\<rparr> else a) (am_alarms am)\<rparr>"
        using t(2) by (auto simp: take_escalations_def scope_for_def Let_def update_where_def split: if_splits)
      then show ?thesis by (intro exI [of _ "\<lambda>a. if due tn now minsev after rep a then a\<lparr>ar_escalated := Some now\<rparr> else a"]) auto
    qed
    then obtain g where g: "marks_only g" "\<forall>a. g a = a \<or> g a = a\<lparr>ar_escalated := Some now\<rparr>" "am1 = am\<lparr>am_alarms := map g (am_alarms am)\<rparr>" by blast
    have "marks_only (f \<circ> g)" using f(1) g(1) by (simp add: marks_only_def)
    moreover have "(f \<circ> g) a = a \<or> (f \<circ> g) a = a\<lparr>ar_escalated := Some now\<rparr>" for a
    proof -
      have "g a = a \<or> g a = a\<lparr>ar_escalated := Some now\<rparr>" using g(2) by blast
      moreover have "f (g a) = g a \<or> f (g a) = (g a)\<lparr>ar_escalated := Some now\<rparr>" using f(2) by blast
      ultimately show ?thesis by (elim disjE) simp_all
    qed
    moreover have "am' = am\<lparr>am_alarms := map (f \<circ> g) (am_alarms am)\<rparr>" using am' f(3) g(3) by simp
    ultimately show ?thesis by blast
  next
    case False
    then have "escalate_tenants now minsev after rep ts am = (out, am')" using Cons.prems by (auto split: sum.splits)
    then show ?thesis by (rule Cons.IH)
  qed
qed

section \<open>Devices that fall silent\<close>

definition apart :: "int \<Rightarrow> alarm_row \<Rightarrow> alarm_row \<Rightarrow> bool" where
  "apart cool a b \<longleftrightarrow> (al_type a = ''agent_unreachable'' \<and> al_type b = ''agent_unreachable'' \<and> al_device a = al_device b \<and> al_tenant a = al_tenant b \<longrightarrow>
     ar_created a + cool * minute \<le> ar_created b)"

definition alarms_ok :: "int \<Rightarrow> alarm_db \<Rightarrow> bool" where
  "alarms_ok cool am \<longleftrightarrow> distinct (map dv_id (en_devices (am_en am))) \<and> sorted_wrt (apart cool) (am_alarms am)"

lemma apart_map: "marks_only f \<Longrightarrow> sorted_wrt (apart cool) as \<Longrightarrow> sorted_wrt (apart cool) (map f as)"
  by (simp add: sorted_wrt_map apart_def [abs_def] marks_only_def)

lemma apart_other: "sorted_wrt (apart cool) as \<Longrightarrow> al_type a \<noteq> ''agent_unreachable'' \<Longrightarrow> sorted_wrt (apart cool) (as @ [a])"
  by (simp add: sorted_wrt_append apart_def)

lemma create_apart:
  "alarms_ok cool am \<Longrightarrow> ty \<noteq> ''agent_unreachable'' \<Longrightarrow> create_alarm id_ok cx i now dev ty details rid am = Inr (created, am') \<Longrightarrow> alarms_ok cool am'"
  using create_alarm_adds [of id_ok cx i now dev ty details rid am created am'] by (auto simp: alarms_ok_def intro: apart_other)

lemma detect_in_tenant_apart:
  assumes "0 < cool" and "alarms_ok cool am" and "detect_in_tenant ids stamp now thr cool tn am = (am', k)"
  shows "alarms_ok cool am' \<and> am_en am' = am_en am"
proof -
  let ?ds = "filter (is_unreachable tn now thr cool am) (en_devices (am_en am))"
  have old: "apart cool a (unreachable_row ids stamp now d)" if "a \<in> set (am_alarms am)" "d \<in> set ?ds" for a d
    using that assms(1) by (auto simp: apart_def unreachable_row_def is_unreachable_def list_ex_iff not_less)
  have "distinct (map dv_id (filter P ds))" if "distinct (map dv_id ds)" for P and ds :: "enroll_row list"
    using that by (simp add: distinct_map_filter)
  then have dist: "distinct (map dv_id ?ds)" using assms(2) by (simp add: alarms_ok_def)
  have new: "sorted_wrt (apart cool) (map (unreachable_row ids stamp now) ds)" if "distinct (map dv_id ds)" for ds
    using that by (induction ds) (auto simp: apart_def unreachable_row_def)
  have "sorted_wrt (apart cool) (am_alarms am @ map (unreachable_row ids stamp now) ?ds)"
    unfolding sorted_wrt_append using assms(2) new [OF dist] old by (auto simp: alarms_ok_def)
  then show ?thesis using assms(2,3) by (auto simp: detect_in_tenant_def Let_def alarms_ok_def)
qed

lemma detect_tenants_apart: "0 < cool \<Longrightarrow> alarms_ok cool am \<Longrightarrow> alarms_ok cool (fst (detect_tenants ids stamp now thr cool ts am))"
proof (induction ts arbitrary: am)
  case (Cons t ts)
  show ?case
  proof (cases "require_tenant t")
    case (Inr tn)
    obtain am1 k where d: "detect_in_tenant ids stamp now thr cool tn am = (am1, k)" by fastforce
    have "alarms_ok cool am1" using detect_in_tenant_apart [OF Cons.prems d] by blast
    then have "alarms_ok cool (fst (detect_tenants ids stamp now thr cool ts am1))" using Cons by blast
    then show ?thesis using Inr d by (simp add: case_prod_unfold Let_def)
  qed (use Cons.prems in simp)
qed simp

lemma dec_int_hd: "hd (dec_int n) = CHR ''-'' \<or> is_digit (hd (dec_int n))"
  using dec_digits [of "nat n"] by (cases "dec (nat n)") (auto simp: dec_int_def)

lemma alert_type_not_unreachable: "alert_type_of n \<noteq> ''agent_unreachable''"
proof (cases "n \<in> {0, 1, 2, 3, 4, 5}")
  case True
  moreover have "alert_type_of 0 \<noteq> ''agent_unreachable''" "alert_type_of 1 \<noteq> ''agent_unreachable''" "alert_type_of 2 \<noteq> ''agent_unreachable''"
    "alert_type_of 3 \<noteq> ''agent_unreachable''" "alert_type_of 4 \<noteq> ''agent_unreachable''" "alert_type_of 5 \<noteq> ''agent_unreachable''" by code_simp+
  ultimately show ?thesis by blast
next
  case False
  then have n: "alert_type_name n = dec_int n" by (simp add: alert_type_name_def)
  have "dec_int n \<noteq> []" by (simp add: dec_int_def)
  then obtain c cs where d: "dec_int n = c # cs" by (cases "dec_int n") simp_all
  have c: "c = CHR ''-'' \<or> is_digit c" using dec_int_hd [of n] d by simp
  then have l: "lower_char c \<noteq> CHR ''a''" and a: "c \<noteq> CHR ''A''" by (auto simp: is_digit_def lower_char_def Let_def)
  have "\<not> prefix ''ALERT_TYPE_'' (c # cs)" using a by simp
  then have "alert_type_of n = lower_char c # map lower_char cs" unfolding alert_type_of_def n d trim_prefix_def to_lower_def using a [THEN not_sym] by simp
  then show ?thesis using l by simp
qed

lemma create_outbox_apart:
  assumes "alarms_ok cool am"
  shows "alarms_ok cool (snd (report_outbox_health tg stored id_ok tenant cert i now down detail am))"
proof (cases "enroll_by_fp (am_en am) cert")
  case (Some d)
  have "alarms_ok cool am'" if "create_alarm id_ok \<lparr>cx_tx = None, cx_tenant = tenant\<rparr> i now (dv_id d) ''outbox_unavailable'' detail [] am = Inr (created, am')"
    for created am' using create_apart [OF assms _ that] by simp
  then show ?thesis using assms Some by (auto simp: report_outbox_health_def split: sum.split)
qed (use assms in \<open>simp add: report_outbox_health_def\<close>)

lemma frame_devices: "new_id \<notin> dv_id ` set (en_devices en) \<Longrightarrow> distinct (map dv_id (en_devices en)) \<Longrightarrow>
   distinct (map dv_id (en_devices (snd (stream_frame tenant h new_id now en))))"
  by (auto simp: stream_frame_def upsert_heartbeat_def Let_def update_devices_def map_update_where touch_device_def new_device_def blank_device_def
      split: sum.split option.split prod.split)

lemma frame_apart:
  assumes "alarms_ok cool am" and "new_id \<notin> dv_id ` set (en_devices (am_en am))"
  shows "alarms_ok cool (snd (snd (snd (alarm_frame tg stored id_ok tenant h new_id i now (was, am)))))"
proof -
  obtain go en' where f: "stream_frame tenant h new_id now (am_en am) = (go, en')" by fastforce
  have "alarms_ok cool (am\<lparr>am_en := en'\<rparr>)"
    using assms frame_devices [OF assms(2), of tenant h now] f by (simp add: alarms_ok_def)
  then have "alarms_ok cool (snd (report_outbox_health tg stored id_ok tenant (hb_fp h) i now (hb_down h) (hb_detail h) (am\<lparr>am_en := en'\<rparr>)))"
    "alarms_ok cool (am\<lparr>am_en := en'\<rparr>)" using create_outbox_apart by blast+
  then show ?thesis by (cases "hb_down h = was") (simp_all add: alarm_frame_def f case_prod_unfold Let_def)
qed

text \<open>A fresh identifier for a device that the stream makes known.\<close>

fun fresh_device :: "alarm_op \<Rightarrow> alarm_db \<Rightarrow> bool" where
  "fresh_device (AoFrame stored tenant h new_id i now was) am \<longleftrightarrow> new_id \<notin> dv_id ` set (en_devices (am_en am))"
| "fresh_device x am \<longleftrightarrow> True"

fun fresh_devices :: "alarm_cfg \<Rightarrow> alarm_op list \<Rightarrow> alarm_db \<Rightarrow> bool" where
  "fresh_devices c [] am \<longleftrightarrow> True"
| "fresh_devices c (x # xs) am \<longleftrightarrow> fresh_device x am \<and> fresh_devices c xs (alarm_step c x am)"

lemma event_apart: "alarms_ok cool am \<Longrightarrow> alarms_ok cool (snd (snd (report_security_event tg id_ok cert i now n details rid am)))"
proof -
  assume ok: "alarms_ok cool am"
  show ?thesis
  proof (cases "enroll_by_fp (am_en am) cert")
    case (Some d)
    let ?c = "create_alarm id_ok \<lparr>cx_tx = Some (tenant_of_fp cert am), cx_tenant = tenant_of_fp cert am\<rparr> i now (dv_id d) (alert_type_of n) details rid am"
    have "alarms_ok cool am'" if "?c = Inr (created, am')" for created am'
      using create_apart [OF ok alert_type_not_unreachable that] .
    then show ?thesis using ok Some
      by (auto simp: report_security_event_def bind_tenant_def require_tenant_def split: sum.split alarm_error.split)
  qed (use ok in \<open>simp add: report_security_event_def split: sum.split\<close>)
qed

lemma step_apart:
  assumes "0 < ac_cooldown c" and "alarms_ok (ac_cooldown c) am" and "fresh_device x am"
  shows "alarms_ok (ac_cooldown c) (alarm_step c x am)"
proof (cases x)
  case (AoFrame stored tenant h new_id i now was)
  then show ?thesis using frame_apart assms by simp
next
  case (AoEvent cert i now n details rid)
  then show ?thesis using event_apart assms by simp
next
  case (AoDetect ids now)
  then show ?thesis using detect_tenants_apart [OF assms(1,2)] assms by (simp add: detect_unreachable_def)
next
  case (AoEscalate now)
  obtain out am' where e: "escalate_tenants now (ac_min c) (ac_after c) (ac_repeat c) (am_tenants am) am = (out, am')" by fastforce
  obtain f where "marks_only f" "am' = am\<lparr>am_alarms := map f (am_alarms am)\<rparr>" using escalate_tenants_marks [OF e] by blast
  then have "alarms_ok (ac_cooldown c) am'" using apart_map assms(2) by (simp add: alarms_ok_def)
  then show ?thesis using AoEscalate e assms(2) by (simp add: escalation_tick_def)
next
  case (AoAck t now i)
  have "alarms_ok (ac_cooldown c) am'" if a: "acknowledge_alarm \<lparr>cx_tx = None, cx_tenant = t\<rparr> t now i am = Inr (u, am')" for u am'
  proof -
    obtain P where "am' = am\<lparr>am_alarms := map (\<lambda>a. if P a then a\<lparr>al_acked := Some now\<rparr> else a) (am_alarms am)\<rparr>"
      using a by (auto simp: acknowledge_alarm_def Let_def update_where_def split: sum.splits if_splits)
    then show ?thesis using assms(2) apart_map [OF marks_onlyI(2)] by (simp add: alarms_ok_def)
  qed
  then show ?thesis using AoAck assms(2) by (auto simp: acknowledge_alert_call_def split: sum.split)
next
  case (AoPurge cx now days)
  then show ?thesis using assms(2)
    by (auto simp: purge_alarms_def or_same_def Let_def alarms_ok_def sorted_wrt_filter split: sum.split)
next
  case (AoMin uid s)
  then show ?thesis using assms(2)
    by (auto simp: set_min_severity_call_def set_min_severity_def Let_def alarms_ok_def split: sum.split option.split)
qed

text \<open>Claim C29. Alerts about one silent device keep their distance: in every history of heartbeats, events, detections, reminders,
  acknowledgements and retention that starts with no alerts, two alerts \<open>agent_unreachable\<close> of one device are at least the cooldown apart,
  whatever the clock does.\<close>

theorem unreachable_alerts_apart:
  assumes "0 < ac_cooldown c" and "alarms_ok (ac_cooldown c) am" and "fresh_devices c ops am"
  shows "alarms_ok (ac_cooldown c) (alarm_steps c ops am)"
  using assms(2,3)
proof (induction ops arbitrary: am)
  case (Cons x xs)
  then show ?case using step_apart [OF assms(1), of am x] by simp
qed simp

text \<open>While a device stays away it is reported once: its alert is newer than the last frame.\<close>

lemma silent_device_reported_once:
  assumes "al_tenant a = tn" and "al_device a = dv_id d" and "al_type a = ''agent_unreachable''" and "a \<in> set (am_alarms am)"
    and "er_seen d = Some s" and "s < ar_created a"
  shows "\<not> is_unreachable tn now thr cool am d"
  using assms by (auto simp: is_unreachable_def list_ex_iff)

section \<open>Reminders\<close>

lemma take_escalations_Inr:
  assumes "take_escalations cx now minsev after rep am = Inr (out, am')" and "0 < after"
  obtains tn where "scope_for cx [] = Inr tn" "parse_severity minsev \<noteq> None"
    "out = map (\<lambda>a. a\<lparr>ar_escalated := Some now\<rparr>) (filter (due tn now minsev after rep) (am_alarms am))"
    "am' = am\<lparr>am_alarms := update_where (due tn now minsev after rep) (\<lambda>a. a\<lparr>ar_escalated := Some now\<rparr>) (am_alarms am)\<rparr>"
  using assms by (auto simp: take_escalations_def Let_def split: sum.splits if_splits)

text \<open>Rows with one of these identifiers were marked at or after the instant.\<close>

definition reminded :: "nanos \<Rightarrow> string set \<Rightarrow> alarm_db \<Rightarrow> bool" where
  "reminded t U am \<longleftrightarrow> (\<forall>a \<in> set (am_alarms am). al_id a \<in> U \<longrightarrow> (\<exists>e. ar_escalated a = Some e \<and> t \<le> e))"

text \<open>An operation that is not earlier and whose new rows have other identifiers.\<close>

fun after_mark :: "nanos \<Rightarrow> string set \<Rightarrow> alarm_op \<Rightarrow> bool" where
  "after_mark t U (AoFrame stored tenant h new_id i now was) \<longleftrightarrow> i \<notin> U"
| "after_mark t U (AoEvent cert i now n details rid) \<longleftrightarrow> i \<notin> U"
| "after_mark t U (AoDetect ids now) \<longleftrightarrow> (\<forall>x. ids x \<notin> U)"
| "after_mark t U (AoEscalate now) \<longleftrightarrow> t \<le> now"
| "after_mark t U x \<longleftrightarrow> True"

lemma reminded_create: "reminded t U am \<Longrightarrow> i \<notin> U \<Longrightarrow> create_alarm id_ok cx i now dev ty details rid am = Inr (created, am') \<Longrightarrow> reminded t U am'"
  using create_alarm_adds [of id_ok cx i now dev ty details rid am created am'] by (auto simp: reminded_def)

lemma reminded_detect: "reminded t U am \<Longrightarrow> \<forall>x. ids x \<notin> U \<Longrightarrow> reminded t U (fst (detect_tenants ids stamp now thr cool ts am))"
proof (induction ts arbitrary: am)
  case (Cons x ts)
  have "reminded t U (fst (detect_in_tenant ids stamp now thr cool tn am))" for tn
    using Cons.prems by (auto simp: detect_in_tenant_def Let_def reminded_def unreachable_row_def)
  then show ?case using Cons by (simp add: case_prod_unfold Let_def split: sum.split)
qed simp

lemma reminded_step:
  assumes "reminded t U am" and "after_mark t U x"
  shows "reminded t U (alarm_step c x am)"
proof (cases x)
  case (AoFrame stored tenant h new_id i now was)
  obtain go en' where f: "stream_frame tenant h new_id now (am_en am) = (go, en')" by fastforce
  have r: "reminded t U (am\<lparr>am_en := en'\<rparr>)" using assms(1) by (simp add: reminded_def)
  have i: "i \<notin> U" using assms(2) AoFrame by simp
  have "reminded t U (snd (report_outbox_health tg stored id_ok tenant cert i now down detail (am\<lparr>am_en := en'\<rparr>)))" for tg id_ok cert down detail
  proof (cases "enroll_by_fp en' cert")
    case (Some d)
    have "reminded t U am'" if "create_alarm id_ok \<lparr>cx_tx = None, cx_tenant = tenant\<rparr> i now (dv_id d) ''outbox_unavailable'' detail [] (am\<lparr>am_en := en'\<rparr>)
      = Inr (created, am')" for created am' by (rule reminded_create [OF r i that])
    then show ?thesis using r Some by (auto simp: report_outbox_health_def split: sum.split)
  qed (use r in \<open>simp add: report_outbox_health_def\<close>)
  then show ?thesis using r AoFrame by (simp add: alarm_frame_def f case_prod_unfold Let_def)
next
  case (AoEvent cert i now n details rid)
  have i: "i \<notin> U" using assms(2) AoEvent by simp
  have "reminded t U am'" if "create_alarm id_ok cx i now dev ty details rid am = Inr (created, am')" for id_ok cx dev ty created am'
    by (rule reminded_create [OF assms(1) i that])
  then show ?thesis using assms(1) AoEvent
    by (auto simp: report_security_event_def split: sum.split option.split alarm_error.split)
next
  case (AoDetect ids now)
  then show ?thesis using reminded_detect assms by (simp add: detect_unreachable_def)
next
  case (AoEscalate now)
  obtain out am' where e: "escalate_tenants now (ac_min c) (ac_after c) (ac_repeat c) (am_tenants am) am = (out, am')" by fastforce
  obtain f where f: "marks_only f" "\<forall>a. f a = a \<or> f a = a\<lparr>ar_escalated := Some now\<rparr>" "am' = am\<lparr>am_alarms := map f (am_alarms am)\<rparr>"
    using escalate_tenants_marks [OF e] by blast
  have "\<exists>e. ar_escalated (f a) = Some e \<and> t \<le> e" if a: "a \<in> set (am_alarms am)" "al_id (f a) \<in> U" for a
  proof -
    have "f a = a \<or> f a = a\<lparr>ar_escalated := Some now\<rparr>" using f(2) by blast
    then show ?thesis using a assms AoEscalate by (elim disjE) (auto simp: reminded_def)
  qed
  then have "reminded t U am'" by (simp add: reminded_def f(3))
  then show ?thesis using AoEscalate e assms(1) by (simp add: escalation_tick_def)
next
  case (AoAck tn now i)
  then show ?thesis using assms(1)
    by (auto simp: acknowledge_alert_call_def acknowledge_alarm_def Let_def reminded_def set_update_where split: sum.split)
next
  case (AoPurge cx now days)
  then show ?thesis using assms(1) by (auto simp: purge_alarms_def or_same_def Let_def reminded_def split: sum.split)
next
  case (AoMin uid s)
  then show ?thesis using assms(1)
    by (auto simp: set_min_severity_call_def set_min_severity_def Let_def reminded_def split: sum.split option.split)
qed

lemma reminded_steps: "reminded t U am \<Longrightarrow> \<forall>x \<in> set ops. after_mark t U x \<Longrightarrow> reminded t U (alarm_steps c ops am)"
proof (induction ops arbitrary: am)
  case (Cons x xs)
  then show ?case using reminded_step [of t U am x c] by simp
qed simp

lemma take_reminds:
  assumes "take_escalations cx now minsev after rep am = Inr (out, am')" and "distinct (map al_id (am_alarms am))"
  shows "reminded now (al_id ` set out) am'"
proof (cases "0 < after")
  case True
  obtain tn where t: "out = map (\<lambda>a. a\<lparr>ar_escalated := Some now\<rparr>) (filter (due tn now minsev after rep) (am_alarms am))"
    "am' = am\<lparr>am_alarms := update_where (due tn now minsev after rep) (\<lambda>a. a\<lparr>ar_escalated := Some now\<rparr>) (am_alarms am)\<rparr>"
    using take_escalations_Inr [OF assms(1) True] by metis
  have "due tn now minsev after rep a" if "a \<in> set (am_alarms am)" "b \<in> set (am_alarms am)" "due tn now minsev after rep b" "al_id a = al_id b" for a b
    using that assms(2) by (metis distinct_map inj_onD)
  note one = this
  have all: "due tn now minsev after rep a" if a: "a \<in> set (am_alarms am)" "al_id a \<in> al_id ` set out" for a
  proof -
    from a(2) obtain b where b: "b \<in> set out" "al_id a = al_id b" by (rule imageE)
    obtain b0 where b0: "b0 \<in> set (am_alarms am)" "due tn now minsev after rep b0" "b = b0\<lparr>ar_escalated := Some now\<rparr>"
      using b(1) unfolding t(1) by auto
    have "al_id a = al_id b0" using b(2) b0(3) by simp
    then show ?thesis by (rule one [OF a(1) b0(1,2)])
  qed
  show ?thesis unfolding reminded_def
  proof (intro ballI impI)
    fix b assume b: "b \<in> set (am_alarms am')" "al_id b \<in> al_id ` set out"
    obtain a where a: "a \<in> set (am_alarms am)" "b = (if due tn now minsev after rep a then a\<lparr>ar_escalated := Some now\<rparr> else a)"
      using b(1) unfolding t(2) by (auto simp: set_update_where)
    then have "al_id a = al_id b" by simp
    then have "due tn now minsev after rep a" using all [OF a(1)] b(2) by simp
    then show "\<exists>e. ar_escalated b = Some e \<and> now \<le> e" using a(2) by simp
  qed
next
  case False
  then have "out = []" using assms(1) by (auto simp: take_escalations_def split: sum.splits)
  then show ?thesis by (simp add: reminded_def)
qed

text \<open>Claim C30. No alert is reminded of twice within the interval, nor ever again when no interval is set: when a tick has taken the alerts that are
  due, then whatever operations follow that are not earlier, a later take within the interval returns none of them.\<close>

theorem reminders_keep_the_interval:
  assumes "take_escalations cx now minsev after rep am = Inr (out, am1)" and "distinct (map al_id (am_alarms am))"
    and "\<forall>x \<in> set ops. after_mark now (al_id ` set out) x"
    and "take_escalations cx' now' minsev' after' rep' (alarm_steps c ops am1) = Inr (out', am2)" and "rep' \<le> 0 \<or> now' \<le> now + rep' * minute"
  shows "al_id ` set out \<inter> al_id ` set out' = {}"
proof -
  have r: "reminded now (al_id ` set out) (alarm_steps c ops am1)" using reminded_steps take_reminds [OF assms(1,2)] assms(3) by blast
  have no: "al_id b \<notin> al_id ` set out" if b: "b \<in> set out'" for b
  proof
    assume u: "al_id b \<in> al_id ` set out"
    have "0 < after'" using b assms(4) by (cases "after' \<le> 0") (auto simp: take_escalations_def split: sum.splits)
    from take_escalations_Inr [OF assms(4) this] obtain tn
      where "out' = map (\<lambda>a. a\<lparr>ar_escalated := Some now'\<rparr>) (filter (due tn now' minsev' after' rep') (am_alarms (alarm_steps c ops am1)))" by metis
    then obtain b0 where b0: "b0 \<in> set (am_alarms (alarm_steps c ops am1))" "due tn now' minsev' after' rep' b0" "al_id b = al_id b0"
      using b by auto
    then obtain e where "ar_escalated b0 = Some e" "now \<le> e" using r u by (auto simp: reminded_def)
    moreover from b0(2) this(1) have "0 < rep'" "e < now' - rep' * minute" by (simp_all add: due_def)
    ultimately show False using assms(5) by linarith
  qed
  show ?thesis
  proof (rule equals0I)
    fix x assume x: "x \<in> al_id ` set out \<inter> al_id ` set out'"
    from IntD2 [OF x] obtain b where b: "x = al_id b" "b \<in> set out'" by (rule imageE)
    then show False using no [OF b(2)] IntD1 [OF x] by simp
  qed
qed

text \<open>Nothing is left out.\<close>

lemma escalate_takes:
  assumes "a \<in> set (am_alarms am)" and "due (al_tenant a) now minsev after rep a" and "al_tenant a \<in> set ts"
    and "require_tenant (al_tenant a) = Inr (al_tenant a)" and "0 < after" and "parse_severity minsev \<noteq> None"
  shows "(al_tenant a, a\<lparr>ar_escalated := Some now\<rparr>) \<in> set (fst (escalate_tenants now minsev after rep ts am))"
  using assms(1,3)
proof (induction ts arbitrary: am)
  case (Cons t ts)
  show ?case
  proof (cases "require_tenant t")
    case (Inl e)
    then have "t \<noteq> al_tenant a" using assms(4) by auto
    then show ?thesis using Cons Inl by simp
  next
    case (Inr tn)
    then have tn: "tn = t" by (auto simp: require_tenant_def split: if_splits)
    let ?mark = "\<lambda>a. a\<lparr>ar_escalated := Some now\<rparr>"
    let ?am1 = "am\<lparr>am_alarms := update_where (due t now minsev after rep) ?mark (am_alarms am)\<rparr>"
    have take: "take_escalations \<lparr>cx_tx = Some tn, cx_tenant = tn\<rparr> now minsev after rep am =
        Inr (map ?mark (filter (due t now minsev after rep) (am_alarms am)), ?am1)"
      using assms(5,6) tn by (simp add: take_escalations_def scope_for_def Let_def)
    show ?thesis
    proof (cases "t = al_tenant a")
      case True
      then show ?thesis using Cons.prems(1) assms(2) Inr take tn by (simp add: case_prod_unfold Let_def image_iff) blast
    next
      case False
      then have "\<not> due t now minsev after rep a" by (auto simp: due_def)
      then have "a \<in> set (am_alarms ?am1)" using Cons.prems(1) by (auto simp: set_update_where)
      then have "(al_tenant a, ?mark a) \<in> set (fst (escalate_tenants now minsev after rep ts ?am1))"
        using Cons.IH Cons.prems(2) False by simp
      then show ?thesis using Inr take by (simp add: case_prod_unfold Let_def)
    qed
  qed
qed simp

lemma escalate_own: "(tn, b) \<in> set (fst (escalate_tenants now minsev after rep ts am)) \<Longrightarrow> al_tenant b = tn \<and> al_acked b = None"
proof (induction ts arbitrary: am)
  case (Cons t ts)
  show ?case
  proof (cases "\<exists>k out am1. require_tenant t = Inr k \<and> take_escalations \<lparr>cx_tx = Some k, cx_tenant = k\<rparr> now minsev after rep am = Inr (out, am1)")
    case True
    then obtain k out am1 where k: "require_tenant t = Inr k"
      "take_escalations \<lparr>cx_tx = Some k, cx_tenant = k\<rparr> now minsev after rep am = Inr (out, am1)" by blast
    have "x \<in> set out \<Longrightarrow> al_tenant x = k \<and> al_acked x = None" for x
      using k(2) by (auto simp: take_escalations_def scope_for_def Let_def due_def split: if_splits)
    then show ?thesis using Cons k by (auto simp: case_prod_unfold Let_def)
  next
    case False
    then have "escalate_tenants now minsev after rep (t # ts) am = escalate_tenants now minsev after rep ts am" by (auto split: sum.splits)
    then show ?thesis using Cons by simp
  qed
qed simp

lemma told_one:
  assumes "\<And>x. c \<in> set (g x) \<longleftrightarrow> P x"
  shows "c \<in> set (concat (map (\<lambda>(chat, mn). if \<not> Q mn then [] else g chat) (map (\<lambda>u. (h u, k u)) us))) \<longleftrightarrow> (\<exists>u \<in> set us. Q (k u) \<and> P (h u))"
  using assms by (induction us) auto

text \<open>Claim C17. An alert that nobody accepts is brought back: a tick whose statements succeed sends every alert of a tenant of the installation that is open, severe
  enough and due to every administrator of its tenant who has a chat and whose threshold lets the alert through - and no alert to anybody else.\<close>

theorem open_alert_is_reminded:
  assumes "escalation_tick True now minsev after rep am = (sent, am')" and "0 < after" and "parse_severity minsev \<noteq> None"
  shows "(\<forall>a \<in> set (am_alarms am). \<forall>u \<in> set (am_users am). \<forall>c.
      due (al_tenant a) now minsev after rep a \<and> al_tenant a \<in> set (am_tenants am) \<and> require_tenant (al_tenant a) = Inr (al_tenant a) \<and>
      us_tenant u = al_tenant a \<and> us_role u = ''it_admin'' \<and> parse_int (us_chat u) = Some c \<and> deliver_to (reminder_severity a) (us_min u) \<longrightarrow>
      (c, a\<lparr>ar_escalated := Some now\<rparr>) \<in> set sent) \<and>
    (\<forall>(c, b) \<in> set sent. al_acked b = None \<and> (\<exists>u \<in> set (am_users am). us_tenant u = al_tenant b \<and> us_role u = ''it_admin'' \<and>
      parse_int (us_chat u) = Some c \<and> deliver_to (reminder_severity b) (us_min u)))"
proof -
  obtain out where e: "escalate_tenants now minsev after rep (am_tenants am) am = (out, am')"
    using assms(1,2) by (cases "escalate_tenants now minsev after rep (am_tenants am) am") (simp add: escalation_tick_def)
  have sent: "sent = concat (map (\<lambda>(tn, a). map (\<lambda>c. (c, a)) (notify_alert True tn (reminder_severity a) am')) out)"
    using assms(1,2) e by (simp add: escalation_tick_def)
  obtain f where "am' = am\<lparr>am_alarms := map f (am_alarms am)\<rparr>" using escalate_tenants_marks [OF e] by blast
  then have users: "am_users am' = am_users am" by simp
  have told: "c \<in> set (notify_alert True tn sev am') \<longleftrightarrow> tn \<noteq> [] \<and> tn \<noteq> nil_tenant \<and>
      (\<exists>u \<in> set (am_users am). us_tenant u = tn \<and> us_role u = ''it_admin'' \<and> us_chat u \<noteq> [] \<and> deliver_to sev (us_min u) \<and> parse_int (us_chat u) = Some c)"
    for c tn sev
  proof -
    have one: "c \<in> set (case parse_int x of None \<Rightarrow> [] | Some k \<Rightarrow> [k]) \<longleftrightarrow> parse_int x = Some c" for x by (auto split: option.split)
    show ?thesis
    proof (cases "tn = [] \<or> tn = nil_tenant")
      case False
      then have n: "notify_alert True tn sev am' = concat (map (\<lambda>(chat, mn). if \<not> deliver_to sev mn then []
          else (case parse_int chat of None \<Rightarrow> [] | Some k \<Rightarrow> [k])) (map (\<lambda>u. (us_chat u, us_min u))
          (filter (\<lambda>u. us_tenant u = tn \<and> us_role u = ''it_admin'' \<and> us_chat u \<noteq> []) (am_users am))))"
        by (simp add: notify_alert_def telegram_recipients_def users)
      show ?thesis unfolding n told_one [OF one] using False by auto
    qed (auto simp: notify_alert_def)
  qed
  have chat: "parse_int x = Some c \<Longrightarrow> x \<noteq> []" for x c by (auto simp: parse_int_def)
  have "(c, a\<lparr>ar_escalated := Some now\<rparr>) \<in> set sent"
    if "a \<in> set (am_alarms am)" "u \<in> set (am_users am)" "due (al_tenant a) now minsev after rep a" "al_tenant a \<in> set (am_tenants am)"
      "require_tenant (al_tenant a) = Inr (al_tenant a)" "us_tenant u = al_tenant a" "us_role u = ''it_admin''" "parse_int (us_chat u) = Some c"
      "deliver_to (reminder_severity a) (us_min u)" for a u c
  proof -
    have "(al_tenant a, a\<lparr>ar_escalated := Some now\<rparr>) \<in> set out"
      using escalate_takes [OF that(1,3,4,5) assms(2,3)] e by simp
    moreover have "reminder_severity (a\<lparr>ar_escalated := Some now\<rparr>) = reminder_severity a" by (simp add: reminder_severity_def)
    moreover have "c \<in> set (notify_alert True (al_tenant a) (reminder_severity a) am')"
      using told [of c "al_tenant a"] that chat by (auto simp: require_tenant_def split: if_splits)
    ultimately show ?thesis unfolding sent by force
  qed
  moreover have "al_acked b = None \<and> (\<exists>u \<in> set (am_users am). us_tenant u = al_tenant b \<and> us_role u = ''it_admin'' \<and>
      parse_int (us_chat u) = Some c \<and> deliver_to (reminder_severity b) (us_min u))" if "(c, b) \<in> set sent" for c b
  proof -
    obtain tn where t: "(tn, b) \<in> set out" "c \<in> set (notify_alert True tn (reminder_severity b) am')" using \<open>(c, b) \<in> set sent\<close> unfolding sent by auto
    have "al_tenant b = tn \<and> al_acked b = None" using escalate_own [of tn b] t(1) e by (metis fst_conv)
    then show ?thesis using t(2) told by blast
  qed
  ultimately show ?thesis by blast
qed

section \<open>Where the alerts differ from their comments\<close>

text \<open>A threshold that the check accepts, since it trims and lowers it, but that is not written as the statement writes it, has
  the rank 0 there: every open alert is old enough to be reminded of, however slight.\<close>

lemma unnormalised_threshold_takes_all:
  assumes "parse_severity minsev = Some v" and "minsev \<noteq> v" and "scope_for cx [] = Inr tn" and "0 < after"
    and "a \<in> set (am_alarms am)" and "al_tenant a = tn" and "al_acked a = None" and "ar_created a < now - after * minute" and "ar_escalated a = None"
  shows "\<exists>out am'. take_escalations cx now minsev after rep am = Inr (out, am') \<and> a\<lparr>ar_escalated := Some now\<rparr> \<in> set out"
proof -
  have "map_of severity_ranks minsev = None" using assms(1,2) parse_of_known [of minsev] by fastforce
  then have r: "sql_rank minsev = 0" by (simp add: sql_rank_eq severity_rank_def)
  have "due tn now minsev after rep a" using assms(6-9) r by (simp add: due_def)
  then have "a\<lparr>ar_escalated := Some now\<rparr> \<in> set (map (\<lambda>a. a\<lparr>ar_escalated := Some now\<rparr>) (filter (due tn now minsev after rep) (am_alarms am)))"
    using assms(5) by simp
  then show ?thesis using assms(1,3,4) by (simp add: take_escalations_def Let_def)
qed

text \<open>When the statement of the alert fails, the stream has already noted that the queue is down, and no later frame tries again.\<close>

lemma lost_outbox_alert:
  assumes "hb_down h" and "hb_down h'"
    and "alarm_frame tg False id_ok tenant h new_id i now (False, am) = (g, was, chats, am1)"
    and "alarm_frame tg True id_ok tenant h' new_id' i' now' (was, am1) = (g', was', chats', am2)"
  shows "am_alarms am2 = am_alarms am \<and> chats' = []"
  using assms by (auto simp: alarm_frame_def report_outbox_health_def case_prod_unfold Let_def split: option.splits)

section \<open>The list of the console\<close>

lemma sql_rank_le: "sql_rank s \<le> 4" by (simp add: sql_rank_def)

text \<open>When the list is cut, every alert in it is open and at least as severe as any open alert that is not.\<close>

lemma open_alerts_listed_first:
  assumes "list_alarms ord cx t dev limit am = Inr out" and "arg_scope cx t = Inr (t, t)" and "\<forall>xs. set (ord xs) = set xs"
    and "a \<in> set (am_alarms am)" and "al_tenant a = t" and "dev = [] \<or> al_device a = dev" and "al_acked a = None" and "a \<notin> set out" and "b \<in> set out"
  shows "al_acked b = None \<and> sql_rank (ar_severity a) \<le> sql_rank (ar_severity b)"
proof -
  let ?xs = "sort_key alarm_key (filter (\<lambda>a. al_tenant a = t \<and> al_tenant a = t \<and> (dev = [] \<or> al_device a = dev)) (ord (am_alarms am)))"
  have cut: "out = take limit ?xs" using assms(1,2) by (simp add: list_alarms_def)
  have "a \<in> set ?xs" using assms(3-6) by simp
  moreover have "set ?xs = set (take limit ?xs) \<union> set (drop limit ?xs)" by (metis append_take_drop_id set_append)
  ultimately have a: "a \<in> set (drop limit ?xs)" using assms(8) cut by blast
  have "sorted (map alarm_key (take limit ?xs @ drop limit ?xs))" unfolding append_take_drop_id by (rule sorted_sort_key)
  then have "alarm_key b \<le> alarm_key a" using a assms(9) cut unfolding map_append sorted_append by auto
  then show ?thesis using assms(7) sql_rank_le [of "ar_severity a"] sql_rank_le [of "ar_severity b"]
    by (auto simp: alarm_key_def less_eq_prod_def split: if_splits)
qed

section \<open>Witnesses\<close>

definition al_device_row :: enroll_row where
  "al_device_row = (blank_device ''d1'' default_tenant ''host'' ''Linux'' ''active'')\<lparr>dv_fp := ''f1'', er_seen := Some 0\<rparr>"

definition al_user :: user_row where
  "al_user = \<lparr>us_id = ''u1'', us_tenant = default_tenant, us_role = ''it_admin'', us_chat = ''77'', us_min = ''high''\<rparr>"

definition al_open :: alarm_row where
  "al_open = \<lparr>al_id = ''a1'', al_device = ''d1'', al_tenant = default_tenant, al_type = ''lock_tamper'', al_details = ''cover lifted'',
     al_request = None, al_acked = None, ar_severity = ''critical'', ar_created = 0, ar_escalated = None\<rparr>"

definition al_db :: "alarm_row list \<Rightarrow> alarm_db" where
  "al_db as = \<lparr>am_en = \<lparr>en_devices = [al_device_row], en_tokens = [], en_members = [], en_revoked = []\<rparr>, am_requests = [], am_alarms = as,
     am_users = [al_user], am_tenants = [default_tenant]\<rparr>"

definition al_cfg :: alarm_cfg where
  "al_cfg = \<lparr>ac_tg = True, ac_id_ok = (\<lambda>_. True), ac_stamp = (\<lambda>_. ''long ago''), ac_threshold = 30, ac_cooldown = 360, ac_min = ''critical'',
     ac_after = 30, ac_repeat = 60\<rparr>"

lemma al_known: "enroll_by_fp (am_en (al_db as)) ''f1'' = Some al_device_row"
  by (simp add: al_db_def enroll_by_fp_def al_device_row_def blank_device_def)

theorem event_leaves_an_open_alert_witness:
  "\<exists>chats am'. report_security_event True (\<lambda>_. True) ''f1'' ''a2'' 9 1 ''torrent'' [] (al_db []) = (CodeOK, chats, am') \<and>
     list_ex (open_same default_tenant ''d1'' ''forbidden_software'' ''torrent'') (am_alarms am') \<and> chats = [77]"
proof -
  have t: "tenant_of_fp ''f1'' (al_db []) = default_tenant" "dv_id al_device_row = ''d1''" "alert_type_of 1 = ''forbidden_software''" by code_simp+
  have "fst (report_security_event True (\<lambda>_. True) ''f1'' ''a2'' 9 1 ''torrent'' [] (al_db [])) = CodeOK" by code_simp
  then obtain chats am' where r: "report_security_event True (\<lambda>_. True) ''f1'' ''a2'' 9 1 ''torrent'' [] (al_db []) = (CodeOK, chats, am')"
    by (metis prod.collapse)
  have "notify_alert True default_tenant (default_for ''forbidden_software'') (al_db []) = [77]" by code_simp
  moreover have "am_alarms (al_db []) = []" by (simp add: al_db_def)
  ultimately show ?thesis using event_leaves_an_open_alert [OF r al_known] r by (simp add: t)
qed

definition al_ops :: "alarm_op list" where
  "al_ops = [AoDetect (\<lambda>d. ''x1'') (100 * minute), AoDetect (\<lambda>d. ''x2'') (105 * minute), AoAck default_tenant (110 * minute) ''x1'',
     AoFrame True default_tenant \<lparr>hb_fp = ''f1'', hb_cn = ''d1'', hb_ip = [], hb_public = [], hb_down = True, hb_detail = ''disk''\<rparr> ''n1'' ''x3'' (120 * minute) False,
     AoDetect (\<lambda>d. ''x4'') (200 * minute), AoDetect (\<lambda>d. ''x5'') (460 * minute)]"

theorem unreachable_alerts_apart_witness:
  "alarms_ok 360 (alarm_steps al_cfg al_ops (al_db [])) \<and>
   map al_id (am_alarms (alarm_steps al_cfg al_ops (al_db []))) = [''x1'', ''x3'', ''x5'']"
proof -
  have c: "ac_cooldown al_cfg = 360" by (simp add: al_cfg_def)
  have ok: "alarms_ok (ac_cooldown al_cfg) (al_db [])" by (simp add: alarms_ok_def al_db_def)
  have f: "fresh_devices al_cfg al_ops (al_db [])" by code_simp
  have m: "map al_id (am_alarms (alarm_steps al_cfg al_ops (al_db []))) = [''x1'', ''x3'', ''x5'']" by code_simp
  show ?thesis using unreachable_alerts_apart [OF _ ok f] m unfolding c by simp
qed

definition al_later :: alarm_row where
  "al_later = al_open\<lparr>al_id := ''a0'', al_type := ''filevault_revoke_failed'', ar_created := 25 * minute\<rparr>"

theorem reminders_keep_the_interval_witness:
  "\<exists>out am1 out' am2. take_escalations \<lparr>cx_tx = Some default_tenant, cx_tenant = default_tenant\<rparr> (40 * minute) ''critical'' 30 60
      (al_db [al_open, al_later]) = Inr (out, am1) \<and>
    take_escalations \<lparr>cx_tx = Some default_tenant, cx_tenant = default_tenant\<rparr> (90 * minute) ''critical'' 30 60
      (alarm_steps al_cfg [AoEvent ''f1'' ''a2'' (50 * minute) 1 ''torrent'' []] am1) = Inr (out', am2) \<and>
    map al_id out = [''a1''] \<and> map al_id out' = [''a0''] \<and> al_id ` set out \<inter> al_id ` set out' = {}"
proof -
  let ?cx = "\<lparr>cx_tx = Some default_tenant, cx_tenant = default_tenant\<rparr>"
  let ?out = "[al_open\<lparr>ar_escalated := Some (40 * minute)\<rparr>]" and ?am1 = "al_db [al_open\<lparr>ar_escalated := Some (40 * minute)\<rparr>, al_later]"
  let ?ops = "[AoEvent ''f1'' ''a2'' (50 * minute) 1 ''torrent'' []]"
  let ?out2 = "[al_later\<lparr>ar_escalated := Some (90 * minute)\<rparr>]"
  have t: "take_escalations ?cx (40 * minute) ''critical'' 30 60 (al_db [al_open, al_later]) = Inr (?out, ?am1)" by code_simp
  have d: "distinct (map al_id (am_alarms (al_db [al_open, al_later])))" by code_simp
  have o: "\<forall>x \<in> set ?ops. after_mark (40 * minute) (al_id ` set ?out) x" by (simp add: al_open_def)
  have "map_sum id fst (take_escalations ?cx (90 * minute) ''critical'' 30 60 (alarm_steps al_cfg ?ops ?am1)) = Inr ?out2" by code_simp
  then obtain am2 where t2: "take_escalations ?cx (90 * minute) ''critical'' 30 60 (alarm_steps al_cfg ?ops ?am1) = Inr (?out2, am2)"
    by (cases "take_escalations ?cx (90 * minute) ''critical'' 30 60 (alarm_steps al_cfg ?ops ?am1)") auto
  have n: "al_id ` set ?out \<inter> al_id ` set ?out2 = {}" by (rule reminders_keep_the_interval [OF t d o t2]) simp
  have m: "map al_id ?out = [''a1'']" "map al_id ?out2 = [''a0'']" by (simp_all add: al_open_def al_later_def)
  show ?thesis by (rule exI [of _ ?out], rule exI [of _ ?am1], rule exI [of _ ?out2], rule exI [of _ am2]) (intro conjI t t2 n m)
qed

theorem open_alert_is_reminded_witness:
  "(77, al_open\<lparr>ar_escalated := Some (40 * minute)\<rparr>) \<in> set (fst (escalation_tick True (40 * minute) ''critical'' 30 60 (al_db [al_open])))"
proof -
  obtain sent am' where s: "escalation_tick True (40 * minute) ''critical'' 30 60 (al_db [al_open]) = (sent, am')" by fastforce
  have p: "parse_severity ''critical'' \<noteq> None" by code_simp
  have "due default_tenant (40 * minute) ''critical'' 30 60 al_open" "require_tenant default_tenant = Inr default_tenant"
    "parse_int (us_chat al_user) = Some 77" "deliver_to (reminder_severity al_open) (us_min al_user)" by code_simp+
  moreover have "al_open \<in> set (am_alarms (al_db [al_open]))" "al_user \<in> set (am_users (al_db [al_open]))" "al_tenant al_open = default_tenant"
    "us_tenant al_user = default_tenant" "us_role al_user = ''it_admin''" "default_tenant \<in> set (am_tenants (al_db [al_open]))"
    by (simp_all add: al_db_def al_open_def al_user_def)
  ultimately show ?thesis using open_alert_is_reminded [OF s _ p] unfolding s by simp
qed

end
