(* ===== verification/LoginLimiter.thy ===== *)
theory LoginLimiter
  imports Prelude "HOL-Library.AList"
begin

section \<open>Limit of failed sign-ins for one account\<close>

text \<open>
  Model of \<open>internal/server/api/lockout.go\<close>: failed sign-ins are counted under the lower-case
  address, the account is closed for a while after too many of them, and the table of counters is
  bounded.  The map is an association list with distinct keys; the zero \<open>time.Time\<close> of a lock that
  was never set is \<open>None\<close>.  One method is one step, as the mutex makes it.

  The bound on guesses is proved for sign-ins that follow one another.  The check and the count are two
  calls of the sign-in, so requests in flight at the same time pass the check together
  (\<open>parallel_guesses\<close>).
\<close>

subsection \<open>State and methods\<close>

definition max_lock_key_len :: nat where "max_lock_key_len = 254"
definition max_lock_keys :: nat where "max_lock_keys = 4096"

record login_attempt =
  la_count :: nat
  la_first :: nanos
  la_until :: "nanos option"

record limiter =
  lim_attempts :: "(string \<times> login_attempt) list"
  lim_max :: nat
  lim_window :: nanos
  lim_lock :: nanos

definition new_login_limiter :: "nat \<Rightarrow> nanos \<Rightarrow> nanos \<Rightarrow> limiter" where
  "new_login_limiter mx w lk = \<lparr>lim_attempts = [], lim_max = mx, lim_window = w, lim_lock = lk\<rparr>"

definition norm_lock_key :: "string \<Rightarrow> string" where
  "norm_lock_key k = (if max_lock_key_len < length k then take max_lock_key_len k else k)"

definition attempt_expired :: "nanos \<Rightarrow> nanos \<Rightarrow> login_attempt \<Rightarrow> bool" where
  "attempt_expired w now a \<longleftrightarrow> (case la_until a of None \<Rightarrow> True | Some u \<Rightarrow> u < now) \<and> w < now - la_first a"

definition evict_expired :: "nanos \<Rightarrow> limiter \<Rightarrow> limiter" where
  "evict_expired now l = l\<lparr>lim_attempts := filter (\<lambda>(k, a). \<not> attempt_expired (lim_window l) now a) (lim_attempts l)\<rparr>"

definition account_locked :: "string \<Rightarrow> nanos \<Rightarrow> limiter \<Rightarrow> bool \<times> nanos option" where
  "account_locked key now l = (case map_of (lim_attempts l) (norm_lock_key key) of
     None \<Rightarrow> (False, None)
   | Some a \<Rightarrow> (case la_until a of None \<Rightarrow> (False, None) | Some u \<Rightarrow> if now < u then (True, Some u) else (False, None)))"

text \<open>One more failure on a counter.\<close>

definition count_failure :: "nat \<Rightarrow> nanos \<Rightarrow> nanos \<Rightarrow> login_attempt \<Rightarrow> login_attempt" where
  "count_failure mx lk now a = (if mx \<le> Suc (la_count a) then \<lparr>la_count = 0, la_first = now, la_until = Some (now + lk)\<rparr>
     else a\<lparr>la_count := Suc (la_count a)\<rparr>)"

definition fresh_attempt :: "nanos \<Rightarrow> login_attempt" where
  "fresh_attempt now = \<lparr>la_count = 0, la_first = now, la_until = None\<rparr>"

definition fail_login :: "string \<Rightarrow> nanos \<Rightarrow> limiter \<Rightarrow> limiter" where
  "fail_login key now l =
     (let k = norm_lock_key key;
          store = (\<lambda>a l. l\<lparr>lim_attempts := AList.update k (count_failure (lim_max l) (lim_lock l) now a) (lim_attempts l)\<rparr>)
      in case map_of (lim_attempts l) k of
           Some a \<Rightarrow> store (if lim_window l < now - la_first a then fresh_attempt now else a) l
         | None \<Rightarrow>
            (let l1 = (if max_lock_keys \<le> length (lim_attempts l) then evict_expired now l else l)
             in if max_lock_keys \<le> length (lim_attempts l1) then l1 else store (fresh_attempt now) l1))"

definition clear_login :: "string \<Rightarrow> limiter \<Rightarrow> limiter" where
  "clear_login key l = l\<lparr>lim_attempts := AList.delete (norm_lock_key key) (lim_attempts l)\<rparr>"

text \<open>A sign-in as far as the limiter is concerned: whether the password was looked at, and the new state.\<close>

definition attempt_login :: "string \<Rightarrow> nanos \<Rightarrow> bool \<Rightarrow> limiter \<Rightarrow> bool \<times> limiter" where
  "attempt_login key now good l = (if fst (account_locked key now l) then (False, l)
     else (True, if good then clear_login key l else fail_login key now l))"

text \<open>A history of sign-ins, and the times at which a wrong password for the account \<open>k\<close> was looked at.\<close>

fun guesses :: "string \<Rightarrow> (string \<times> nanos \<times> bool) list \<Rightarrow> limiter \<Rightarrow> nanos list" where
  "guesses k [] l = []"
| "guesses k ((key, now, good) # h) l =
     (let (looked, l') = attempt_login key now good l
      in (if looked \<and> \<not> good \<and> norm_lock_key key = norm_lock_key k then [now] else []) @ guesses k h l')"

subsection \<open>The table\<close>

definition limiter_ok :: "limiter \<Rightarrow> bool" where
  "limiter_ok l \<longleftrightarrow> distinct (map fst (lim_attempts l)) \<and> length (lim_attempts l) \<le> max_lock_keys \<and>
     (\<forall>e \<in> set (lim_attempts l). length (fst e) \<le> max_lock_key_len)"

lemma norm_key_short: "length (norm_lock_key k) \<le> max_lock_key_len"
  by (simp add: norm_lock_key_def)

lemma norm_key_idem [simp]: "norm_lock_key (norm_lock_key k) = norm_lock_key k"
  by (simp add: norm_lock_key_def)

lemma length_update: "length (AList.update k v xs) = (if k \<in> fst ` set xs then length xs else Suc (length xs))"
  by (induction xs) auto

lemma update_member: "e \<in> set (AList.update k v xs) \<Longrightarrow> e = (k, v) \<or> e \<in> set xs"
  by (induction xs) (auto split: if_splits)

lemma evict_fields [simp]: "lim_max (evict_expired now l) = lim_max l" "lim_window (evict_expired now l) = lim_window l"
  "lim_lock (evict_expired now l) = lim_lock l"
  by (simp_all add: evict_expired_def)

lemma fail_fields [simp]: "lim_max (fail_login k now l) = lim_max l" "lim_window (fail_login k now l) = lim_window l"
  "lim_lock (fail_login k now l) = lim_lock l"
  by (simp_all add: fail_login_def Let_def split: option.split)

lemma clear_fields [simp]: "lim_max (clear_login k l) = lim_max l" "lim_window (clear_login k l) = lim_window l"
  "lim_lock (clear_login k l) = lim_lock l"
  by (simp_all add: clear_login_def)

lemma keys_delete: "fst ` set (AList.delete k xs) = fst ` set xs - {k}"
  by (induction xs) auto

lemma length_delete: "length (AList.delete k xs) \<le> length xs"
  by (simp add: AList.delete_eq)

lemma limiter_ok_evict:
  assumes ok: "limiter_ok l" shows "limiter_ok (evict_expired now l)"
proof -
  let ?f = "filter (\<lambda>(k, a). \<not> attempt_expired (lim_window l) now a)"
  have "distinct (map fst (?f (lim_attempts l)))" using ok by (simp add: limiter_ok_def distinct_map_filter)
  moreover have "length (?f (lim_attempts l)) \<le> max_lock_keys"
    using ok length_filter_le [of _ "lim_attempts l"] le_trans unfolding limiter_ok_def by blast
  moreover have "\<forall>e \<in> set (?f (lim_attempts l)). length (fst e) \<le> max_lock_key_len"
    using ok by (simp add: limiter_ok_def)
  ultimately show ?thesis unfolding limiter_ok_def evict_expired_def by simp
qed

lemma limiter_ok_store:
  assumes "limiter_ok l" and "norm_lock_key key \<in> fst ` set (lim_attempts l) \<or> length (lim_attempts l) < max_lock_keys"
  shows "limiter_ok (l\<lparr>lim_attempts := AList.update (norm_lock_key key) a (lim_attempts l)\<rparr>)"
proof -
  let ?xs = "AList.update (norm_lock_key key) a (lim_attempts l)"
  have "\<forall>e \<in> set ?xs. length (fst e) \<le> max_lock_key_len"
    using assms(1) norm_key_short [of key] update_member [of _ "norm_lock_key key" a "lim_attempts l"]
    unfolding limiter_ok_def by (metis fst_conv)
  moreover have "length ?xs \<le> max_lock_keys" using assms by (auto simp: limiter_ok_def length_update)
  ultimately show ?thesis using assms(1) by (simp add: limiter_ok_def AList.distinct_update)
qed

lemma limiter_ok_fail:
  assumes "limiter_ok l" shows "limiter_ok (fail_login key now l)"
proof (cases "map_of (lim_attempts l) (norm_lock_key key)")
  case None
  let ?l = "if max_lock_keys \<le> length (lim_attempts l) then evict_expired now l else l"
  have "limiter_ok ?l" using assms limiter_ok_evict by simp
  then show ?thesis using limiter_ok_store [of ?l key] None
    by (simp add: fail_login_def Let_def not_le)
next
  case (Some a)
  then have "norm_lock_key key \<in> fst ` set (lim_attempts l)" using map_of_SomeD by (metis fst_conv image_eqI)
  then show ?thesis using limiter_ok_store [OF assms] Some by (simp add: fail_login_def Let_def)
qed

lemma limiter_ok_clear:
  assumes "limiter_ok l" shows "limiter_ok (clear_login key l)"
proof -
  have "set (AList.delete (norm_lock_key key) (lim_attempts l)) \<subseteq> set (lim_attempts l)" by (auto simp: AList.delete_eq)
  then show ?thesis using assms length_delete [of "norm_lock_key key" "lim_attempts l"]
    unfolding limiter_ok_def clear_login_def by (auto simp: AList.distinct_delete)
qed

lemma limiter_ok_attempt: "limiter_ok l \<Longrightarrow> limiter_ok (snd (attempt_login key now good l))"
  using limiter_ok_fail limiter_ok_clear by (simp add: attempt_login_def)

lemma limiter_ok_new: "limiter_ok (new_login_limiter mx w lk)"
  by (simp add: limiter_ok_def new_login_limiter_def)

subsection \<open>One account on its own\<close>

text \<open>The counter of one account with room for it: what the table does for one key when it never overflows.\<close>

definition open_at :: "nanos \<Rightarrow> login_attempt option \<Rightarrow> bool" where
  "open_at now s \<longleftrightarrow> (case s of None \<Rightarrow> True | Some a \<Rightarrow> (case la_until a of None \<Rightarrow> True | Some u \<Rightarrow> \<not> now < u))"

definition wrong_guess :: "nat \<Rightarrow> nanos \<Rightarrow> nanos \<Rightarrow> nanos \<Rightarrow> login_attempt option \<Rightarrow> login_attempt option" where
  "wrong_guess mx w lk now s = Some (count_failure mx lk now (case s of None \<Rightarrow> fresh_attempt now
     | Some a \<Rightarrow> if w < now - la_first a then fresh_attempt now else a))"

fun account_guesses :: "nat \<Rightarrow> nanos \<Rightarrow> nanos \<Rightarrow> nanos list \<Rightarrow> login_attempt option \<Rightarrow> nanos list" where
  "account_guesses mx w lk [] s = []"
| "account_guesses mx w lk (now # ts) s = (if open_at now s then now # account_guesses mx w lk ts (wrong_guess mx w lk now s)
     else account_guesses mx w lk ts s)"

text \<open>The guesses left until \<open>e + w\<close>, when all of them come at \<open>e\<close> or later.\<close>

definition guesses_left :: "nat \<Rightarrow> nanos \<Rightarrow> nanos \<Rightarrow> login_attempt \<Rightarrow> nat" where
  "guesses_left mx w T a = (if \<exists>u. la_until a = Some u \<and> T \<le> u then 0
     else if T \<le> la_first a + w then mx - la_count a else (mx - la_count a - 1) + mx)"

lemma wrong_guess_count: "0 < mx \<Longrightarrow> s' = wrong_guess mx w lk now s \<Longrightarrow> (\<And>a. s = Some a \<Longrightarrow> la_count a < mx) \<Longrightarrow>
   \<exists>b. s' = Some b \<and> la_count b < mx"
  by (auto simp: wrong_guess_def count_failure_def)

lemma if_prop: "P x \<Longrightarrow> P y \<Longrightarrow> P (if b then x else y)"
  by simp

lemma guesses_left_step:
  assumes "w \<le> lk" and "e \<le> now" and "now < e + w" and "la_count a < mx" and "open_at now (Some a)"
    and "wrong_guess mx w lk now (Some a) = Some b"
  shows "Suc (guesses_left mx w (e + w) b) \<le> guesses_left mx w (e + w) a"
proof -
  have nu: "\<not> (\<exists>u. la_until a = Some u \<and> e + w \<le> u)"
    using assms(3,5) by (auto simp: open_at_def)
  show ?thesis
  proof (cases "w < now - la_first a")
    case True
    then have b: "b = count_failure mx lk now (fresh_attempt now)" using assms(6) by (simp add: wrong_guess_def)
    have "\<not> e + w \<le> la_first a + w" using True assms(3) by simp
    then have "guesses_left mx w (e + w) a = (mx - la_count a - 1) + mx" unfolding guesses_left_def using nu by (simp only: if_False)
    moreover have "guesses_left mx w (e + w) b \<le> mx - 1"
      using assms(1,2) by (auto simp: b guesses_left_def count_failure_def fresh_attempt_def)
    ultimately show ?thesis using assms(4) by linarith
  next
    case False
    then have b: "b = count_failure mx lk now a" using assms(6) by (simp add: wrong_guess_def)
    show ?thesis
    proof (cases "mx \<le> Suc (la_count a)")
      case True
      then have "guesses_left mx w (e + w) b = 0"
        using assms(1,2) by (auto simp: b guesses_left_def count_failure_def)
      moreover have "1 \<le> mx - la_count a" "1 \<le> (mx - la_count a - 1) + mx" using assms(4) by linarith+
      then have "1 \<le> guesses_left mx w (e + w) a" unfolding guesses_left_def if_not_P [OF nu] by (rule if_prop)
      ultimately show ?thesis by simp
    next
      case False
      then show ?thesis using nu assms(4) by (auto simp: b guesses_left_def count_failure_def)
    qed
  qed
qed

lemma account_guesses_subset: "set (account_guesses mx w lk ts s) \<subseteq> set ts"
  by (induction ts arbitrary: s) auto

lemma account_guesses_sorted: "sorted ts \<Longrightarrow> sorted (account_guesses mx w lk ts s)"
  using account_guesses_subset by (induction ts arbitrary: s) (auto, blast)

lemma guesses_budget:
  assumes "w \<le> lk" and "0 < mx" and "la_count a < mx" and "\<forall>t \<in> set ts. e \<le> t" and "sorted ts"
  shows "length (filter (\<lambda>t. t < e + w) (account_guesses mx w lk ts (Some a))) \<le> guesses_left mx w (e + w) a"
  using assms(3-5)
proof (induction ts arbitrary: a)
  case (Cons now ts)
  show ?case
  proof (cases "open_at now (Some a)")
    case True
    obtain b where b: "wrong_guess mx w lk now (Some a) = Some b" "la_count b < mx"
      using wrong_guess_count [OF assms(2) refl, of "Some a"] Cons.prems(1) by force
    have IH: "length (filter (\<lambda>t. t < e + w) (account_guesses mx w lk ts (Some b))) \<le> guesses_left mx w (e + w) b"
      using Cons.IH [OF b(2)] Cons.prems(2,3) by simp
    show ?thesis
    proof (cases "now < e + w")
      case True2: True
      show ?thesis using IH guesses_left_step [OF assms(1) _ True2 Cons.prems(1) True b(1)] Cons.prems(2) True True2 b(1) by simp
    next
      case False
      then have "filter (\<lambda>t. t < e + w) (account_guesses mx w lk (now # ts) (Some a)) = []"
        using account_guesses_subset [of mx w lk "now # ts" "Some a"] Cons.prems(3)
        by (fastforce simp: filter_empty_conv)
      then show ?thesis by simp
    qed
  next
    case False
    then show ?thesis using Cons by simp
  qed
qed simp

lemma guesses_spaced:
  assumes "w \<le> lk" and "1 < mx" and "sorted ts" and "\<And>a. s = Some a \<Longrightarrow> la_count a < mx"
    and "i + (2 * mx - 1) < length (account_guesses mx w lk ts s)"
  shows "account_guesses mx w lk ts s ! i + w \<le> account_guesses mx w lk ts s ! (i + (2 * mx - 1))"
  using assms(3-5)
proof (induction ts arbitrary: s i)
  case (Cons now ts)
  let ?r = "account_guesses mx w lk ts"
  show ?case
  proof (cases "open_at now s")
    case True
    let ?s = "wrong_guess mx w lk now s"
    obtain b where b: "?s = Some b" "la_count b < mx"
      using wrong_guess_count [OF _ refl, of mx s] assms(2) Cons.prems(2) by fastforce
    show ?thesis
    proof (cases i)
      case (Suc j)
      then show ?thesis using Cons.IH [of ?s j] Cons.prems(1,3) b True by simp
    next
      case 0
      have left: "guesses_left mx w (now + w) b \<le> 2 * mx - 2"
      proof (cases "la_count b")
        case 0
        have "la_until b = Some (now + lk)"
          using b(1) 0 assms(2) by (auto simp: wrong_guess_def count_failure_def split: if_splits)
        then show ?thesis using assms(1) by (simp add: guesses_left_def)
      qed (use assms(2) in \<open>auto simp: guesses_left_def\<close>)
      let ?n = "2 * mx - 2"
      have len: "?n < length (?r ?s)" using Cons.prems(3) True 0 assms(2) by simp
      have "now + w \<le> ?r ?s ! ?n"
      proof (rule ccontr)
        assume late: "\<not> now + w \<le> ?r ?s ! ?n"
        have so: "sorted (?r ?s)" using account_guesses_sorted Cons.prems(1) by simp
        have "\<forall>t \<in> set (take (Suc ?n) (?r ?s)). t < now + w"
        proof
          fix t assume "t \<in> set (take (Suc ?n) (?r ?s))"
          then obtain j where "j \<le> ?n" "t = ?r ?s ! j" using len by (auto simp: in_set_conv_nth less_Suc_eq_le)
          then show "t < now + w" using sorted_nth_mono [OF so, of j ?n] len late by simp
        qed
        then have "filter (\<lambda>t. t < now + w) (take (Suc ?n) (?r ?s)) = take (Suc ?n) (?r ?s)" by (simp add: filter_id_conv)
        moreover have "filter (\<lambda>t. t < now + w) (?r ?s) = filter (\<lambda>t. t < now + w) (take (Suc ?n) (?r ?s))
            @ filter (\<lambda>t. t < now + w) (drop (Suc ?n) (?r ?s))"
          by (metis append_take_drop_id filter_append)
        ultimately have "Suc ?n \<le> length (filter (\<lambda>t. t < now + w) (?r ?s))" using len by simp
        also have "\<dots> \<le> ?n"
          using guesses_budget [OF assms(1) _ b(2), of ts now] Cons.prems(1) assms(2) b(1) left by simp
        finally show False by simp
      qed
      moreover have "2 * mx - 1 = Suc ?n" using assms(2) by simp
      ultimately show ?thesis using True 0 by simp
    qed
  next
    case False
    then show ?thesis using Cons by simp
  qed
qed simp

subsection \<open>The table agrees with the accounts\<close>

text \<open>The entry of a key is its counter, or has been evicted when it did not matter any more.\<close>

definition agrees :: "nanos \<Rightarrow> nanos \<Rightarrow> login_attempt option \<Rightarrow> login_attempt option \<Rightarrow> bool" where
  "agrees w now m s \<longleftrightarrow> m = s \<or> m = None \<and> (case s of None \<Rightarrow> True | Some a \<Rightarrow> attempt_expired w now a)"

lemma agrees_later: "agrees w now m s \<Longrightarrow> now \<le> now' \<Longrightarrow> agrees w now' m s"
  by (auto simp: agrees_def attempt_expired_def split: option.splits)

lemma agrees_open: "agrees w now (map_of (lim_attempts l) (norm_lock_key key)) s \<Longrightarrow> fst (account_locked key now l) \<longleftrightarrow> \<not> open_at now s"
  by (auto simp: agrees_def open_at_def account_locked_def attempt_expired_def split: option.splits)

lemma map_of_evict:
  "distinct (map fst (lim_attempts l)) \<Longrightarrow> map_of (lim_attempts (evict_expired now l)) k =
     (case map_of (lim_attempts l) k of None \<Rightarrow> None | Some a \<Rightarrow> if attempt_expired (lim_window l) now a then None else Some a)"
proof -
  assume d: "distinct (map fst (lim_attempts l))"
  have "map_of (filter (\<lambda>(k, a). \<not> attempt_expired w now a) xs) k =
     (case map_of xs k of None \<Rightarrow> None | Some a \<Rightarrow> if attempt_expired w now a then None else Some a)"
    if "distinct (map fst xs)" for xs :: "(string \<times> login_attempt) list" and w
    using that
  proof (induction xs)
    case (Cons x xs)
    then show ?case by (cases x) (auto simp: map_of_eq_None_iff split: option.splits)
  qed simp
  then show ?thesis using d by (simp add: evict_expired_def)
qed

definition history_keys :: "(string \<times> nanos \<times> bool) list \<Rightarrow> string set" where
  "history_keys h = (\<lambda>e. norm_lock_key (fst e)) ` set h"

text \<open>One failure, seen from one key, while there is room.\<close>

lemma fail_same_key:
  assumes "limiter_ok l" and "fst ` set (lim_attempts l) \<subseteq> K" and "norm_lock_key key \<in> K" and "finite K" and "card K \<le> max_lock_keys"
    and "agrees (lim_window l) now (map_of (lim_attempts l) (norm_lock_key key)) s"
  shows "map_of (lim_attempts (fail_login key now l)) (norm_lock_key key) = wrong_guess (lim_max l) (lim_window l) (lim_lock l) now s"
proof (cases "map_of (lim_attempts l) (norm_lock_key key)")
  case (Some a)
  moreover from this have "s = Some a" using assms(6) by (simp add: agrees_def)
  ultimately show ?thesis by (simp add: fail_login_def Let_def wrong_guess_def AList.update_conv')
next
  case None
  let ?l = "if max_lock_keys \<le> length (lim_attempts l) then evict_expired now l else l"
  have k: "norm_lock_key key \<notin> fst ` set (lim_attempts l)" using None by (simp add: map_of_eq_None_iff)
  have "length (lim_attempts l) = card (fst ` set (lim_attempts l))"
    using assms(1) distinct_card [of "map fst (lim_attempts l)"] by (simp add: limiter_ok_def)
  also have "\<dots> < card K" using k assms(2-4) by (intro psubset_card_mono) auto
  finally have room: "\<not> max_lock_keys \<le> length (lim_attempts l)" using assms(5) by simp
  have "wrong_guess (lim_max l) (lim_window l) (lim_lock l) now s = Some (count_failure (lim_max l) (lim_lock l) now (fresh_attempt now))"
    using assms(6) None by (auto simp: agrees_def wrong_guess_def attempt_expired_def split: option.splits)
  then show ?thesis using None room by (simp add: fail_login_def Let_def AList.update_conv')
qed

lemma fail_other_key:
  assumes "limiter_ok l" and "norm_lock_key key \<noteq> k" and "agrees (lim_window l) now (map_of (lim_attempts l) k) s"
  shows "agrees (lim_window l) now (map_of (lim_attempts (fail_login key now l)) k) s"
proof -
  have d: "distinct (map fst (lim_attempts l))" using assms(1) by (simp add: limiter_ok_def)
  have ev: "agrees (lim_window l) now (map_of (lim_attempts (evict_expired now l)) k) s"
    using assms(3) map_of_evict [OF d, of now k] by (auto simp: agrees_def split: option.splits)
  show ?thesis using assms(2,3) ev
    by (auto simp: fail_login_def Let_def AList.update_conv' split: option.splits)
qed

lemma keys_fail: "fst ` set (lim_attempts (fail_login key now l)) \<subseteq> insert (norm_lock_key key) (fst ` set (lim_attempts l))"
  by (auto simp: fail_login_def Let_def evict_expired_def dom_update split: option.splits if_splits)

lemma keys_attempt: "fst ` set (lim_attempts (snd (attempt_login key now good l))) \<subseteq> insert (norm_lock_key key) (fst ` set (lim_attempts l))"
proof (cases "fst (account_locked key now l) \<or> good")
  case True
  then show ?thesis by (auto simp: attempt_login_def clear_login_def AList.delete_eq)
next
  case False
  then show ?thesis using keys_fail by (simp add: attempt_login_def)
qed

text \<open>The guesses that a history lets through for one account are those of the counter on its own.\<close>

lemma guesses_agree:
  assumes "limiter_ok l" and "fst ` set (lim_attempts l) \<union> history_keys h \<subseteq> K" and "finite K" and "card K \<le> max_lock_keys"
    and "sorted (map (\<lambda>e. fst (snd e)) h)" and "\<forall>e \<in> set h. now0 \<le> fst (snd e)"
    and "\<forall>e \<in> set h. norm_lock_key (fst e) = norm_lock_key k \<longrightarrow> \<not> snd (snd e)"
    and "agrees (lim_window l) now0 (map_of (lim_attempts l) (norm_lock_key k)) s"
  shows "guesses k h l = account_guesses (lim_max l) (lim_window l) (lim_lock l)
    (map (\<lambda>e. fst (snd e)) (filter (\<lambda>e. norm_lock_key (fst e) = norm_lock_key k) h)) s"
  using assms(1,2,5-8)
proof (induction h arbitrary: l s now0)
  case (Cons e h)
  obtain key now good where e: "e = (key, now, good)" by (cases e) auto
  have ag: "agrees (lim_window l) now (map_of (lim_attempts l) (norm_lock_key k)) s"
    using agrees_later [OF Cons.prems(6)] Cons.prems(4) e by simp
  let ?l = "snd (attempt_login key now good l)"
  have f: "lim_max ?l = lim_max l" "lim_window ?l = lim_window l" "lim_lock ?l = lim_lock l" by (simp_all add: attempt_login_def)
  have ok: "limiter_ok ?l" using limiter_ok_attempt [OF Cons.prems(1)] .
  have keys: "fst ` set (lim_attempts ?l) \<union> history_keys h \<subseteq> K"
  proof (rule Un_least)
    have "insert (norm_lock_key key) (fst ` set (lim_attempts l)) \<subseteq> K" using Cons.prems(2) e by (simp add: history_keys_def)
    then show "fst ` set (lim_attempts ?l) \<subseteq> K" by (rule subset_trans [OF keys_attempt])
    show "history_keys h \<subseteq> K" using Cons.prems(2) by (simp add: history_keys_def)
  qed
  have rest: "sorted (map (\<lambda>e. fst (snd e)) h)" "\<forall>e \<in> set h. now \<le> fst (snd e)"
    "\<forall>e \<in> set h. norm_lock_key (fst e) = norm_lock_key k \<longrightarrow> \<not> snd (snd e)" using Cons.prems(3,5) e by auto
  note IH = Cons.IH [OF ok keys rest]
  show ?case
  proof (cases "norm_lock_key key = norm_lock_key k")
    case True
    then have good: "\<not> good" using Cons.prems(5) e by simp
    have lk: "fst (account_locked key now l) \<longleftrightarrow> \<not> open_at now s" using agrees_open [where l = l and key = key and s = s and now = now] ag True by simp
    show ?thesis
    proof (cases "open_at now s")
      case op: True
      have "map_of (lim_attempts (fail_login key now l)) (norm_lock_key k) = wrong_guess (lim_max l) (lim_window l) (lim_lock l) now s"
        using fail_same_key [OF Cons.prems(1) _ _ assms(3,4), of key now s] Cons.prems(2) ag True e by (auto simp: history_keys_def)
      then have "agrees (lim_window l) now (map_of (lim_attempts ?l) (norm_lock_key k)) (wrong_guess (lim_max l) (lim_window l) (lim_lock l) now s)"
        using lk op good by (simp add: agrees_def attempt_login_def)
      then show ?thesis using IH [of "wrong_guess (lim_max l) (lim_window l) (lim_lock l) now s"] e True good op lk f
        by (simp add: attempt_login_def)
    next
      case False
      then show ?thesis using IH [of s] ag e True good lk f by (simp add: attempt_login_def)
    qed
  next
    case False
    have "agrees (lim_window l) now (map_of (lim_attempts ?l) (norm_lock_key k)) s"
      using fail_other_key [OF Cons.prems(1) False ag] ag False by (auto simp: attempt_login_def clear_login_def AList.delete_conv')
    then show ?thesis using IH [of s] e False f by (simp add: case_prod_unfold)
  qed
qed simp

text \<open>The histories that lead to a state; no counter of it has reached its limit.\<close>

fun after_history :: "(string \<times> nanos \<times> bool) list \<Rightarrow> limiter \<Rightarrow> limiter" where
  "after_history [] l = l"
| "after_history ((key, now, good) # h) l = after_history h (snd (attempt_login key now good l))"

definition counts_ok :: "limiter \<Rightarrow> bool" where
  "counts_ok l \<longleftrightarrow> 0 < lim_max l \<and> (\<forall>e \<in> set (lim_attempts l). la_count (snd e) < lim_max l)"

lemma evict_subset: "set (lim_attempts (evict_expired now l)) \<subseteq> set (lim_attempts l)"
  by (auto simp: evict_expired_def)

lemma counts_fail:
  assumes "counts_ok l" shows "counts_ok (fail_login key now l)"
proof -
  have mx: "0 < lim_max l" using assms by (simp add: counts_ok_def)
  have new: "la_count (count_failure (lim_max l) (lim_lock l) now a) < lim_max l" if "la_count a < lim_max l" for a
    using mx that by (auto simp: count_failure_def)
  have "la_count a < lim_max l" if "map_of (lim_attempts l) (norm_lock_key key) = Some a" for a
    using assms map_of_SomeD [OF that] by (fastforce simp: counts_ok_def)
  then have "\<forall>e \<in> set (lim_attempts (fail_login key now l)). e \<in> set (lim_attempts l) \<or> la_count (snd e) < lim_max l"
    using new mx evict_subset [of now l] by (auto simp: fail_login_def Let_def fresh_attempt_def dest!: update_member split: option.splits if_splits)
  then show ?thesis using assms by (auto simp: counts_ok_def)
qed

lemma counts_attempt: "counts_ok l \<Longrightarrow> counts_ok (snd (attempt_login key now good l))"
  using counts_fail [of l key now] by (auto simp: attempt_login_def counts_ok_def clear_login_def AList.delete_eq)

lemma attempt_fields [simp]: "lim_max (snd (attempt_login key now good l)) = lim_max l"
  "lim_window (snd (attempt_login key now good l)) = lim_window l" "lim_lock (snd (attempt_login key now good l)) = lim_lock l"
  by (simp_all add: attempt_login_def)

lemma after_history_ok:
  "limiter_ok l \<and> counts_ok l \<Longrightarrow> limiter_ok (after_history h l) \<and> counts_ok (after_history h l) \<and> lim_max (after_history h l) = lim_max l \<and>
   lim_window (after_history h l) = lim_window l \<and> lim_lock (after_history h l) = lim_lock l"
  by (induction h l rule: after_history.induct) (simp_all add: limiter_ok_attempt counts_attempt)

lemma counts_ok_new: "0 < mx \<Longrightarrow> counts_ok (new_login_limiter mx w lk)"
  by (simp add: counts_ok_def new_login_limiter_def)

text \<open>Claim C31. An account is guarded between two successful sign-ins.  After any history \<open>h0\<close> of sign-ins that follow one another comes a
  stretch \<open>h\<close>, in the order of time, in which the account has no successful sign-in; the addresses in the table at its start and those
  tried in it are at most 4096, the number of counters the table holds.  Then of the wrong passwords for this account
  that are looked at in the stretch, the tenth and the first of any ten in a row are at least fifteen minutes apart, so that
  at most nine fall within fifteen minutes.  A successful sign-in clears the counter (\<open>success_resets\<close>), a full table
  counts nothing for a new address (\<open>full_table_counts_nothing\<close>), and requests in flight together are not counted one after
  the other (\<open>parallel_guesses\<close>).\<close>

theorem guesses_bounded:
  assumes "l = after_history h0 (new_login_limiter 5 (15 * minute) (15 * minute))" and "sorted (map (\<lambda>e. fst (snd e)) h)"
    and "card (fst ` set (lim_attempts l) \<union> history_keys h) \<le> max_lock_keys"
    and "\<forall>e \<in> set h. norm_lock_key (fst e) = norm_lock_key k \<longrightarrow> \<not> snd (snd e)"
    and "g = guesses k h l" and "i + 9 < length g"
  shows "g ! i + 15 * minute \<le> g ! (i + 9)"
proof -
  let ?now = "Min (insert 0 (set (map (\<lambda>e. fst (snd e)) h)))" and ?s = "map_of (lim_attempts l) (norm_lock_key k)"
  let ?ts = "map (\<lambda>e. fst (snd e)) (filter (\<lambda>e. norm_lock_key (fst e) = norm_lock_key k) h)"
  have l: "limiter_ok l" "counts_ok l" "lim_max l = 5" "lim_window l = 15 * minute" "lim_lock l = 15 * minute"
    using after_history_ok [of "new_login_limiter 5 (15 * minute) (15 * minute)" h0] limiter_ok_new counts_ok_new assms(1)
    by (simp_all add: new_login_limiter_def)
  have "g = account_guesses 5 (15 * minute) (15 * minute) ?ts ?s"
    using guesses_agree [OF l(1) subset_refl _ assms(3,2), of ?now k ?s] assms(4,5) l(3-5)
    by (simp add: agrees_def history_keys_def)
  moreover have "sorted ?ts" using assms(2) sorted_filter by blast
  moreover have "la_count a < 5" if "?s = Some a" for a using l(2,3) map_of_SomeD [OF that] by (fastforce simp: counts_ok_def)
  ultimately show ?thesis using guesses_spaced [of "15 * minute" "15 * minute" 5 ?ts ?s i] assms(6) by simp
qed

text \<open>The two ways around the bound that the text names: a sign-in with the right password between the wrong ones, and a
  table filled with fresh counters for other addresses.\<close>

lemma success_resets:
  assumes "\<not> fst (account_locked k now l)"
  shows "map_of (lim_attempts (snd (attempt_login k now True l))) (norm_lock_key k) = None"
  using assms by (simp add: attempt_login_def clear_login_def AList.delete_conv')

lemma full_table_counts_nothing:
  assumes "max_lock_keys \<le> length (lim_attempts l)" and "map_of (lim_attempts l) (norm_lock_key k) = None"
    and "\<forall>e \<in> set (lim_attempts l). \<not> attempt_expired (lim_window l) now (snd e)"
  shows "attempt_login k now False l = (True, l)"
proof -
  have "evict_expired now l = l" using assms(3) by (simp add: evict_expired_def case_prod_unfold)
  then show ?thesis using assms(1,2) by (simp add: attempt_login_def account_locked_def fail_login_def)
qed

text \<open>The table never holds more than its share of memory, whatever is tried.\<close>

lemma table_bounded: "limiter_ok (after_history h (new_login_limiter mx w lk))"
proof -
  have "limiter_ok l \<Longrightarrow> limiter_ok (after_history h l)" for l
    by (induction h l rule: after_history.induct) (simp_all add: limiter_ok_attempt)
  then show ?thesis using limiter_ok_new by blast
qed

text \<open>The account is open again after its fifteen minutes, whatever happened before.\<close>

lemma lock_ends: "account_locked key now l = (True, Some u) \<Longrightarrow> fst (account_locked key u l) = False"
  by (auto simp: account_locked_def split: option.splits if_splits)

text \<open>The comment of the file says that the account is closed after the fifth failure, whatever the source.  The
  check and the count are two calls of the sign-in: requests in flight together all pass the check before
  any of them is counted, and any number of passwords is looked at.\<close>

datatype half_step = Look nat string nanos | Count string nanos

fun looked_at :: "half_step list \<Rightarrow> limiter \<Rightarrow> nat list" where
  "looked_at [] l = []"
| "looked_at (Look i key now # r) l = (if fst (account_locked key now l) then [] else [i]) @ looked_at r l"
| "looked_at (Count key now # r) l = looked_at r (fail_login key now l)"

lemma looked_at_checks:
  "\<not> fst (account_locked key now l) \<Longrightarrow> looked_at (map (\<lambda>i. Look i key now) is @ r) l = is @ looked_at r l"
  by (induction "is") auto

lemma looked_at_counts: "looked_at (replicate n (Count key now)) l = []"
  by (induction n arbitrary: l) auto

lemma parallel_guesses:
  assumes "\<not> fst (account_locked key now l)"
  shows "looked_at (map (\<lambda>i. Look i key now) [0..<n] @ replicate n (Count key now)) l = [0..<n]"
  using looked_at_checks [OF assms] looked_at_counts by simp

subsection \<open>A concrete run\<close>

definition lim_run :: "(string \<times> nanos \<times> bool) list" where
  "lim_run = replicate 5 (''a@b'', 3, False) @ [(''c@d'', minute, True)] @ replicate 5 (''a@b'', 15 * minute + 3, False)"

definition lim_before :: "(string \<times> nanos \<times> bool) list" where
  "lim_before = [(''a@b'', 0, False), (''a@b'', 1, True), (''e@f'', 2, False)]"

theorem guesses_bounded_witness:
  "length (guesses ''a@b'' lim_run (after_history lim_before (new_login_limiter 5 (15 * minute) (15 * minute)))) = 10 \<and>
   guesses ''a@b'' lim_run (after_history lim_before (new_login_limiter 5 (15 * minute) (15 * minute))) ! 0 + 15 * minute
     \<le> guesses ''a@b'' lim_run (after_history lim_before (new_login_limiter 5 (15 * minute) (15 * minute))) ! (0 + 9)"
proof -
  let ?l = "after_history lim_before (new_login_limiter 5 (15 * minute) (15 * minute))"
  have len: "length (guesses ''a@b'' lim_run ?l) = 10" by code_simp
  have l: "map fst (lim_attempts ?l) = [''e@f'']" by code_simp
  have "fst ` set (lim_attempts ?l) = {''e@f''}" unfolding list.set_map [symmetric] l by simp
  moreover have "history_keys lim_run = {''a@b'', ''c@d''}"
    by (auto simp: history_keys_def lim_run_def norm_lock_key_def max_lock_key_len_def)
  ultimately have few: "card (fst ` set (lim_attempts ?l) \<union> history_keys lim_run) \<le> max_lock_keys"
    by (simp add: max_lock_keys_def)
  have so: "sorted (map (\<lambda>e. fst (snd e)) lim_run)" by code_simp
  have wrong: "list_all (\<lambda>e. norm_lock_key (fst e) = norm_lock_key ''a@b'' \<longrightarrow> \<not> snd (snd e)) lim_run" by code_simp
  show ?thesis
    using guesses_bounded [OF refl so few wrong [unfolded list_all_iff] refl, of 0] len by simp
qed

end
