(* ===== verification/Spec2Isabelle.thy ===== *)
theory Spec2Isabelle
  imports Prelude Contracts Outbox LockManager Reconcile SeenSet Executor SemVer SelfUpdate AdminWindow AdminManager
    ScriptOutput Scripts Uninstall ServerStore ServerTasks ServerLock ServerAdmin Delivery AuditChain Enrollment PolicyStore PolicySets SoftwareWatch
    ServerAlerts LoginLimiter
begin

text \<open>
  RoutineOps is a fleet manager: an agent (\<open>cmd/agent\<close>, \<open>internal/agent/*\<close>) runs as a service on every device and a
  server (\<open>cmd/server\<close>, \<open>internal/server/*\<close>) keeps the wishes of the operators and the reports of the devices in one
  PostgreSQL database that is divided into tenants.  An agent polls the server over gRPC (\<open>internal/server/gateway\<close>) for
  tasks, locks, administrator requests, rules on software and script policies, and delivers its reports from a queue on
  disk; operators use the HTTP panel (\<open>internal/server/api\<close>).  The development is a shallow embedding of the code of both
  sides that decides: every definition is a translation of the Go function that the manifest names for it.

  \<^bold>\<open>Shared theories.\<close>  \<open>Prelude\<close>: strings as lists of bytes, trimming, splitting, decimal numbers, \<open>os.WriteFile\<close>.
  \<open>Contracts\<close>: the interfaces as locales (a durable put, the lock that a reconciler applies, a set of keys handled once, an
  order on versions, a framing of texts); every one is interpreted in the theory of the component that provides it.

  \<^bold>\<open>The agent.\<close>
  \<^item> \<open>Outbox\<close> (\<open>outbox/outbox.go\<close>): the queue of reports, entries in files with ordered names, eviction, retention,
    flush; accounting of every report, and durability of an accepted one.
  \<^item> \<open>LockManager\<close>, \<open>Reconcile\<close> (\<open>lock/lock.go\<close>, \<open>lock/reconcile.go\<close>): the lock with its state file, its passwords,
    and the comparison with the wish of the server; a lock survives a restart and ends by password or by the server alone.
  \<^item> \<open>SeenSet\<close>, \<open>Executor\<close> (\<open>command/\<close>, \<open>scripts/dedup.go\<close>): tasks, as a transition system of goroutines with crashes at
    any point; a task runs at most once, every internal run is finite, and what can hold the backlog up is only a handler that the
    code gives no deadline (the revocation of FileVault).
  \<^item> \<open>SemVer\<close>, \<open>SelfUpdate\<close> (\<open>version/\<close>, \<open>selfupdate/\<close>): versions, signed manifests, floor and hold; only a signed newer
    release is installed.
  \<^item> \<open>AdminWindow\<close>, \<open>AdminManager\<close> (\<open>admin/\<close>): temporary administrator rights and the evidence of a session; rights end and
    are never left without a durable record, but for the users for whom a call of the system failed, whom the run collects; a window
    that calls itself complete is.
  \<^item> \<open>ScriptOutput\<close>, \<open>Scripts\<close> (\<open>scriptenc/\<close>, \<open>scripts/\<close>): output of scripts as bytes within bounds and script policies, whose loops
    interleave; runs of a policy exclude each other and a connect starts a version once.
  \<^item> \<open>Uninstall\<close> (\<open>uninstall/\<close>): removal of software, with the guard that keeps the agent itself.
  \<^item> \<open>SoftwareWatch\<close> (\<open>policy/sync.go\<close>, \<open>security/\<close>): the cache of the rules and the monitor; the device
    forbids what the server says, and one alert for an episode, plus one for each fault of the file of marks.

  \<^bold>\<open>The server.\<close>
  \<^item> \<open>ServerStore\<close> (\<open>storage/tx.go\<close>, \<open>scope.go\<close>, \<open>capability.go\<close>, \<open>tenancy/\<close>): tenant scopes, the row-level policies, the
    gate on versions.
  \<^item> \<open>ServerTasks\<close>, \<open>Delivery\<close> (\<open>storage/postgres.go\<close>, \<open>gateway/gateway.go\<close>, \<open>worker/\<close>, \<open>registry/\<close>): tasks from their creation
    to their result, with the deletion and the moves of devices; the calls refine one mailbox for each device.
  \<^item> \<open>ServerLock\<close>: locks as wished and as reported; \<open>ServerAdmin\<close>: requests for administrator rights, evidence, sweeps.
  \<^item> \<open>ServerAlerts\<close> (\<open>alerting/severity.go\<close>, \<open>storage/postgres.go\<close>, \<open>gateway/gateway.go\<close>, \<open>notifier/telegram.go\<close>): alerts from their
    creation to reminders, acknowledgement and retention; who is told of them.
  \<^item> \<open>LoginLimiter\<close> (\<open>api/lockout.go\<close>): the limit of failed sign-ins for one account, as a bound on guesses between two
    successful sign-ins while the table has room.
  \<^item> \<open>AuditChain\<close> (\<open>storage/audit.go\<close>, migration 042): the journal as a chain of hashes, with anchors, archive and retention; which
    sweeps leave a journal that verifies, and which do not.
  \<^item> \<open>Enrollment\<close> (\<open>storage/enrollment.go\<close> and its handlers): enrolment, approval, block, decommission and deletion of devices.
  \<^item> \<open>PolicyStore\<close>, \<open>PolicySets\<close> (\<open>storage/postgres.go\<close>, \<open>api/scripts_handler.go\<close>, \<open>api/script_policies_handler.go\<close>): scripts,
    policies, groups, rules, the panel over them, and what a device is sent, with its fingerprint.

  This root theory holds the properties that join both sides: a lock from the console to the device, an unlock at the
  device back to the server, a grant from its approval to the rights.

  \<^bold>\<open>How the code is read.\<close>  A struct is a record, an enumeration a datatype or the string that the code stores, a file its
  contents or its lines, a table the list of its rows.  A method takes the state and returns the new one.  What the
  environment answers - the clock, the result of each system call and statement, random values, the order in which a map
  is walked - is an argument, so that a property holds for every answer; time stands still within one call.  Errors are
  values (\<open>option\<close>, sums, datatypes), a panic is \<open>None\<close>.  Strings are bytes; \<open>utf8.Valid\<close> is defined on them, while case
  folding and trimming cover ASCII only.  Times are whole nanoseconds (or the seconds the code stores) and a day has 24
  hours.  JSON and protobuf stand at the level of decoded documents, except where bytes are hashed, signed, or bounded:
  there the text is built byte by byte.  bcrypt, SHA-256, Ed25519, the certificate authority and cron parsing are
  parameters; what a property needs of them is a hypothesis of it.  A statement of SQL acts on the rows
  that the row-level policies of the connection's scope leave visible, as a function on the lists; identifiers are not checked for the
  syntax of a uuid.  A transaction is one step.  Where the code splits one operation over two, the report of a lock
  is modelled in its halves (\<open>ServerLock\<close>), and for block, unblock and bulk enrolment (\<open>Enrollment\<close>) a lemma shows what
  happens between them.

  \<^bold>\<open>Bounds and fuel.\<close>  Every loop is a structural recursion or has a measure; no definition carries fuel.  Sizes that the code
  limits (the queue, captured output, lines of a scanner, message sizes) keep the limits of the code.  The 64-bit FNV hash
  is computed on \<open>64 word\<close>; the other integers of the code stay far from their bounds, and where one comes from a file or
  from outside its range is a hypothesis (\<open>int64_range\<close>).

  \<^bold>\<open>Not modelled.\<close>  Code whose substance is a call of the operating system (inventory probes, lock windows, services, key stores,
  replacement of the executable, tray), transport (TLS, dialling, streams), sign-in and roles of the panel, single
  sign-on, persons, compliance reports, directory synchronisation, notifications, metrics, configuration, the command-line client, demo
  data, the web front end and generated protobuf code.  The manifest lists each part with its reason.  Logs and metrics are
  left out everywhere.
\<close>

section \<open>Locks from the console to the device\<close>

text \<open>Claim C8. A lock ordered in the console is the lock of the device: with the open edition's policy, after the
  operator got the password of a new lock, one tick of the device's reconciler over a working disk engages the
  lock, and the hash that guards it is that of the very password the operator was shown.\<close>

theorem ordered_lock_engages:
  assumes "lock_device overlay_only_policy pw bc True who cx i now (dv_id d) why mode db = (HttpOk t p, db')"
    and "bind_tenant cx (cx_tenant cx) = Inr (dv_tenant d)" and "keys_ok db" and "d \<in> set (db_devices db)"
    and "\<And>q h. bc q = Some h \<Longrightarrow> h \<noteq> [] \<and> bcost h \<and> h \<noteq> r_last r \<and> h \<noteq> last_unlocked_hash (mem m) \<and> h \<noteq> request_id (mem m)"
    and "tk_fetch env = fetch_lock_status (dv_fp d) db'" and "tk_write env = None"
    and "tick bcost env (r, m) = ((r', m'), os)"
  shows "locked (mem m') \<and> bc p = Some (hash (mem m'))"
proof (rule lock_device_row [OF assms(1,2,4) refl])
  let ?m = "if mode = ''filevault'' then ''filevault'' else ''overlay''"
  fix h db2
  let ?d = "d\<lparr>dv_lock_status := ''locked'', dv_lock_hash := h, dv_lock_reason := why, dv_lock_mode := ?m, dv_lock_request := t\<rparr>"
  assume h: "bc p = Some h" and pol: "overlay_only_policy mode = Inr ()" and row: "?d \<in> set (db_devices db')"
    and keys: "keys_ok db \<Longrightarrow> keys_ok (db\<lparr>db_devices := db_devices db'\<rparr>)"
  have mode: "?m = ''overlay''" using pol by (auto simp: overlay_only_policy_def)
  let ?resp = "\<lparr>resp_locked = True, resp_hash = h, resp_reason = why, resp_mode = ModeOverlay\<rparr>"
  have "fetch_lock_status (dv_fp d) (db\<lparr>db_devices := db_devices db'\<rparr>) = Some ?resp"
    using fetch_of_row [OF keys [OF assms(3)], of ?d "dv_fp d"] row mode by simp
  then have "tk_fetch env = Some ?resp"
    using fetch_lock_devices [of "db\<lparr>db_devices := db_devices db'\<rparr>" db'] assms(6) by simp
  then show ?thesis using tick_lock_hash [of env ?resp bcost r m r' m' os] assms(5) [OF h] assms(7,8) h by simp
qed

text \<open>Claim C13. An unlock at the device settles on both sides: when the employee has taken the ordered lock down with its
  password and the report names that lock - by its hash or by its request - the server clears the desired lock, and
  the next tick leaves the device unlocked and forgets the exception that kept the lock away until then.\<close>

theorem local_unlock_settles:
  assumes "keys_ok db" and "d \<in> set (db_devices db)" and "dv_tenant d \<noteq> nil_tenant"
    and "dv_lock_status d = ''locked''" and "dv_lock_mode d \<noteq> ''filevault''"
    and "rid = dv_lock_hash d \<or> rid = dv_lock_request d"
    and "report_lock_status calm_lock (dv_fp d) \<lparr>lk_state = LsUnlocked, lk_request = rid\<rparr> db = (ok, al, db')"
    and "tk_fetch env = fetch_lock_status (dv_fp d) db'" and "tick bcost env (r, m) = ((r', m'), os)"
  shows "ok \<and> \<not> locked (mem m') \<and> r_last r' = []"
proof -
  let ?cur = "(dv_lock_status d, dv_lock_hash d, dv_lock_reason d, (if dv_lock_mode d = [] then ''overlay'' else dv_lock_mode d), dv_lock_request d)"
  have "decide_unlock rid ?cur = ClearLock" using assms(4-6) by (auto simp: decide_unlock_def)
  moreover obtain db2 where "apply_unlock calm_lock (dv_tenant d) (dv_id d) ClearLock db = (True, [], db2)"
    and f: "fetch_lock_status (dv_fp d) db2 = Some \<lparr>resp_locked = False, resp_hash = [], resp_reason = [], resp_mode = ModeUnspecified\<rparr>"
    using clear_lock_fetch [OF assms(1-3)] by blast
  ultimately have "ok" "db' = db2" using assms(7) get_desired_of_row [OF assms(1-3)] row_lookups [OF assms(1,2)] by (simp_all add: report_lock_status_def Let_def)
  then show ?thesis using tick_reaches [OF _ _ _ assms(9)] f assms(8) by simp
qed

section \<open>Administrator rights from the request to the group\<close>

text \<open>Claim C19. The agent grants rights only on an approved request of its own device and within its term: when a tick that
  started without a session ends with one, the answer of the server rests on a row of this device which an operator has
  approved and whose term, if it has one, is not over - and the term the agent keeps does not outlive it.\<close>

theorem grants_rest_on_approval:
  assumes "fetch_admin_status cert ad = Inr resp" and "pe_resp e = Some resp" and "am_user m = []" and "am_user (poll sha e m) \<noteq> []"
  shows "\<exists>row \<in> set (ad_requests ad). rq_id row = rp_rid resp \<and> rq_device row = device_id_by_fp (ad_base ad) cert \<and>
    rq_status row = RqApproved \<and>
    (\<forall>x y. rq_expires row = Some x \<longrightarrow> resp_expires resp = Some y \<longrightarrow> y \<le> x \<and> pe_now2 e < x)"
proof -
  have "poll_local sha e m = m" using assms(3) by (simp add: poll_local_def)
  then have ap: "approved_now (pe_now2 e) resp"
    using poll_server_new [of m sha e resp] assms(2-4) by (simp add: poll_def)
  let ?dev = "device_id_by_fp (ad_base ad) cert" and ?tn = "tenant_for_fp (ad_base ad) cert"
  let ?cx = "\<lparr>cx_tx = None, cx_tenant = ?tn\<rparr>"
  obtain o' where fa: "fetch_active ?cx ?dev ad = Inr o'"
    using assms(1) by (cases "fetch_active ?cx ?dev ad") (auto simp: fetch_admin_status_def Let_def split_beta split: if_splits)
  obtain row where o': "o' = Some row"
    using assms(1) fa ap by (cases o') (auto simp: fetch_admin_status_def Let_def split_beta approved_now_def split: if_splits)
  have r: "rp_rid resp = rq_id row" "rp_expires resp = unix_or_zero (rq_expires row)" "rp_status resp = admin_status_to_proto (rq_status row)"
    using assms(1) fa o' by (auto simp: fetch_admin_status_def Let_def split_beta split: if_splits)
  obtain tn where "foldl newer_row None (active_rows tn ?dev ad) = Some row"
    using fa o' by (auto simp: fetch_active_def split: sum.splits)
  then have "row \<in> set (active_rows tn ?dev ad)" by (rule newest_member)
  then have row: "row \<in> set (ad_requests ad)" "rq_device row = ?dev" by (simp_all add: active_rows_def)
  have "rq_status row = RqApproved"
    using ap r(3) by (cases "rq_status row") (simp_all add: approved_now_def admin_status_to_proto_def)
  moreover have "y \<le> x \<and> pe_now2 e < x" if "rq_expires row = Some x" "resp_expires resp = Some y" for x y
    using that r(2) ap unix_within [of x] by (auto simp: approved_now_def resp_expires_def split: if_splits)
  ultimately show ?thesis using row r(1) by (intro bexI [of _ row]) auto
qed

text \<open>Asking again ends the session: a new request of the employee becomes the active one although an approved
  request is running, the server answers the agent's poll with the pending request, and the next tick takes the granted
  rights away - but from those for whom a call of the system failed (theory \<open>AdminManager\<close>).\<close>

theorem new_request_ends_session:
  assumes "admin_run sha native H m" and "am_user m \<noteq> []" and "keys_ok (ad_base ad)"
    and "request_admin_access now i cert why at ad = Inr (rid, ad')"
    and "\<And>q. q \<in> set (active_rows (tenant_for_fp (ad_base ad) cert) (device_id_by_fp (ad_base ad) cert) ad) \<Longrightarrow>
      rq_requested q < clamp_agent_time now at"
    and "fetch_admin_status cert ad' = Inr resp" and "pe_resp e = Some resp"
  defines "failed \<equiv> H \<union> harmed native e m"
  shows "am_user (poll sha e m) = [] \<and> am_os (poll sha e m) - failed = native - failed"
proof -
  have "rp_status resp = StPending" using new_request_is_active [OF assms(4,5,3)] assms(6) by auto
  then have na: "\<not> approved_now (pe_now2 e) resp" by (simp add: approved_now_def)
  then have "must_end e m" using assms(7) by (simp add: must_end_def)
  then show ?thesis using poll_ends [OF assms(1), of e failed] assms(7) na by (auto simp: failed_def)
qed

section \<open>Concrete runs\<close>

lemma row_cx: "bind_tenant panel_cx (cx_tenant panel_cx) = Inr (dv_tenant demo_device)"
  by (simp add: bind_tenant_def panel_cx_def require_tenant_def nil_tenant_def demo_device_def)

theorem ordered_lock_engages_witness:
  "\<exists>db'. lock_device overlay_only_policy (Some ''pw'') demo_bc True ''admin'' panel_cx ''q1'' 5 ''d1'' ''lost'' [] (one_device demo_device)
       = (HttpOk ''q1'' ''pw'', db') \<and>
     locked (mem (snd (fst (tick (\<lambda>_. True) (env_H\<lparr>tk_fetch := fetch_lock_status ''f1'' db'\<rparr>) (rec_fresh, lm_fresh)))))"
proof -
  have d: "dv_id demo_device = ''d1''" "dv_fp demo_device = ''f1''" "keys_ok (one_device demo_device)"
    "demo_device \<in> set (db_devices (one_device demo_device))"
    by (simp_all add: demo_device_def one_device_def keys_ok_def)
  obtain db' where l: "lock_device overlay_only_policy (Some ''pw'') demo_bc True ''admin'' panel_cx ''q1'' 5 (dv_id demo_device) ''lost'' [] (one_device demo_device)
      = (HttpOk ''q1'' ''pw'', db')" using demo_lock unfolding d by blast
  obtain r' m' os where t: "tick (\<lambda>_. True) (env_H\<lparr>tk_fetch := fetch_lock_status ''f1'' db'\<rparr>) (rec_fresh, lm_fresh) = ((r', m'), os)"
    by (metis prod.exhaust)
  have "locked (mem m') \<and> demo_bc ''pw'' = Some (hash (mem m'))"
    by (rule ordered_lock_engages [OF l row_cx d(3,4) _ _ _ t]) (auto simp: demo_bc_def rec_demo d)
  then show ?thesis using l t d(1) by auto
qed

theorem local_unlock_settles_witness:
  "\<exists>al db'. report_lock_status calm_lock ''f1'' \<lparr>lk_state = LsUnlocked, lk_request = ''H''\<rparr> (one_device (locked_row ''H'')) = (True, al, db') \<and>
     \<not> locked (mem (snd (fst (tick (\<lambda>_. True) (env_H\<lparr>tk_fetch := fetch_lock_status ''f1'' db'\<rparr>) (rec_fresh, lm_fresh)))))"
proof -
  let ?d = "locked_row ''H''"
  have d: "dv_fp ?d = ''f1''" "dv_tenant ?d \<noteq> nil_tenant" "dv_lock_status ?d = ''locked''" "dv_lock_mode ?d \<noteq> ''filevault''"
    "''H'' = dv_lock_hash ?d \<or> ''H'' = dv_lock_request ?d"
    by (simp_all add: locked_row_def demo_device_def nil_tenant_def)
  obtain ok al db' where r: "report_lock_status calm_lock (dv_fp ?d) \<lparr>lk_state = LsUnlocked, lk_request = ''H''\<rparr> (one_device ?d) = (ok, al, db')"
    by (metis prod_cases3)
  obtain r' m' os where t: "tick (\<lambda>_. True) (env_H\<lparr>tk_fetch := fetch_lock_status ''f1'' db'\<rparr>) (rec_fresh, lm_fresh) = ((r', m'), os)"
    by (metis prod.exhaust)
  have "ok \<and> \<not> locked (mem m') \<and> r_last r' = []"
    by (rule local_unlock_settles [OF one_device_simps(2,1) d(2-5) r _ t]) (simp add: d(1))
  then show ?thesis using r t d(1) by auto
qed

text \<open>Alice's session on the approved request \<open>r1\<close>, and her second request.\<close>

definition adm_answer :: admin_resp where
  "adm_answer = \<lparr>rp_status = StApproved, rp_rid = ''r1'', rp_expires = 1800003600, rp_collect = False, rp_interval = 0\<rparr>"

lemma adm_answered: "fetch_admin_status ''f1'' adm_db = Inr adm_answer"
  by code_simp

theorem grants_rest_on_approval_witness:
  "am_user (poll (\<lambda>s. s) (a_poll ''alice'' (Some adm_answer)) a_start) = ''alice'' \<and>
   (\<exists>row \<in> set (ad_requests adm_db). rq_id row = ''r1'' \<and> rq_status row = RqApproved)"
proof -
  have p: "am_user a_start = []" "am_user (poll (\<lambda>s. s) (a_poll ''alice'' (Some adm_answer)) a_start) = ''alice''" by code_simp+
  then have "am_user (poll (\<lambda>s. s) (a_poll ''alice'' (Some adm_answer)) a_start) \<noteq> []" by simp
  from grants_rest_on_approval [OF adm_answered _ p(1) this] show ?thesis
    using p(2) by (auto simp: a_poll_def adm_answer_def)
qed

theorem new_request_ends_session_witness:
  "\<exists>ad' resp. request_admin_access (1800000100 * second) ''r2'' ''f1'' ''more'' 1800000100 adm_db = Inr (''r2'', ad') \<and>
     fetch_admin_status ''f1'' ad' = Inr resp \<and> am_user a_granted = ''alice'' \<and>
     am_os (poll (\<lambda>s. s) (a_poll ''alice'' (Some resp)) a_granted) = {''root''}"
proof -
  let ?x = "request_admin_access (1800000100 * second) ''r2'' ''f1'' ''more'' 1800000100 adm_db"
  have "map_sum id fst ?x = Inr ''r2''" by code_simp
  then obtain ad' where a: "?x = Inr (''r2'', ad')" by (cases ?x) auto
  have k: "keys_ok (ad_base adm_db)" by code_simp
  have new: "q \<in> set (active_rows (tenant_for_fp (ad_base adm_db) ''f1'') (device_id_by_fp (ad_base adm_db) ''f1'') adm_db) \<Longrightarrow>
      rq_requested q < clamp_agent_time (1800000100 * second) 1800000100" for q
    by (auto simp: active_rows_def adm_db_def adm_row_def blank_request_def clamp_agent_time_def Let_def
        split: if_splits)
  obtain resp where r: "fetch_admin_status ''f1'' ad' = Inr resp" using new_request_is_active [OF a new k] by blast
  have u: "am_user a_granted = ''alice''" by code_simp
  then have n: "am_user a_granted \<noteq> []" by simp
  have "am_os (poll (\<lambda>s. s) (a_poll ''alice'' (Some resp)) a_granted) = {''root''}"
    using new_request_ends_session [OF a_granted_run n k a new r, of "a_poll ''alice'' (Some resp)" ] a_poll_calm [of "''alice''" "Some resp" a_granted]
    by (simp add: a_poll_def)
  then show ?thesis using a r u by blast
qed

end
